(* ===== verification/Prelude.thy ===== *)
theory Prelude
  imports Main "HOL-Library.Word"
begin

text \<open>
  Shared vocabulary of the development: the machine types, bit lists, big-endian byte
  strings, and the generic list lemmas the components share.
\<close>

type_synonym byte = "8 word"
type_synonym bytes = "8 word list"
type_synonym u16 = "16 word"
type_synonym u32 = "32 word"
type_synonym u64 = "64 word"

named_theorems list_upd_simps
  \<open>lengths and reads of lists written by counted loops\<close>

section \<open>Counted loops over arrays\<close>

text \<open>
  \<open>bump_below n lim us\<close> is the loop \<open>for (k = 0; k < n; ++k) if (us[k] < lim) ++us[k];\<close>
  that both promotion paths of the palette run.
\<close>

definition bump_below :: "nat \<Rightarrow> nat \<Rightarrow> nat list \<Rightarrow> nat list" where
  "bump_below n lim us =
     fold (\<lambda>k us. if us ! k < lim then us[k := us ! k + 1] else us) [0..<n] us"

lemma bump_below_0 [simp]: "bump_below 0 lim us = us"
  by (simp add: bump_below_def)

lemma bump_below_Suc:
  "bump_below (Suc n) lim us =
     (let vs = bump_below n lim us in if vs ! n < lim then vs[n := vs ! n + 1] else vs)"
  by (simp add: bump_below_def Let_def)

lemma length_bump_below [simp, list_upd_simps]: "length (bump_below n lim us) = length us"
  by (induction n) (auto simp: bump_below_Suc Let_def)

lemma nth_bump_below [list_upd_simps]:
  "n \<le> length us \<Longrightarrow> k < length us \<Longrightarrow>
   bump_below n lim us ! k = (if k < n \<and> us ! k < lim then us ! k + 1 else us ! k)"
proof (induction n arbitrary: k)
  case 0
  then show ?case by simp
next
  case (Suc n)
  then show ?case
    by (cases "k = n") (auto simp: bump_below_Suc Let_def nth_list_update)
qed

section \<open>Bit lists\<close>

text \<open>The low \<open>n\<close> bits of a word, least significant first.\<close>

definition lsb_bits :: "nat \<Rightarrow> 'a::len word \<Rightarrow> bool list" where
  "lsb_bits n w = map (bit w) [0..<n]"

text \<open>The value of a bit list read most significant bit first.\<close>

definition msb_val :: "bool list \<Rightarrow> nat" where
  "msb_val bs = foldl (\<lambda>a b. 2 * a + of_bool b) 0 bs"

lemma length_lsb_bits [simp]: "length (lsb_bits n w) = n"
  by (simp add: lsb_bits_def)

lemma nth_lsb_bits [simp]: "i < n \<Longrightarrow> lsb_bits n w ! i = bit w i"
  by (simp add: lsb_bits_def)

lemma lsb_bits_eq_iff: "lsb_bits n v = lsb_bits n w \<longleftrightarrow> (\<forall>i<n. bit v i = bit w i)"
  by (auto simp: lsb_bits_def)

lemma take_lsb_bits: "m \<le> n \<Longrightarrow> take m (lsb_bits n w) = lsb_bits m w"
  by (simp add: lsb_bits_def take_map)

lemma drop_lsb_bits: "m \<le> n \<Longrightarrow> drop m (lsb_bits n w) = lsb_bits (n - m) (drop_bit m w)"
  by (rule nth_equalityI) (auto simp: bit_drop_bit_eq)

lemma foldl_msb_bound:
  "a < 2 ^ k \<Longrightarrow> foldl (\<lambda>a b. 2 * a + of_bool b) a bs < (2::nat) ^ (k + length bs)"
proof (induction bs arbitrary: a k)
  case Nil
  then show ?case by simp
next
  case (Cons b bs)
  from Cons.prems have "2 * a + of_bool b < 2 ^ Suc k"
    by (cases b) auto
  from Cons.IH [OF this] show ?case by simp
qed

lemma msb_val_bound: "msb_val bs < 2 ^ length bs"
  using foldl_msb_bound [of 0 0 bs] by (simp add: msb_val_def)


lemma msb_val_Nil [simp]: "msb_val [] = 0"
  by (simp add: msb_val_def)

lemma msb_val_snoc [simp]: "msb_val (bs @ [b]) = 2 * msb_val bs + of_bool b"
  by (simp add: msb_val_def)

lemma msb_val_append: "msb_val (as @ bs) = msb_val as * 2 ^ length bs + msb_val bs"
proof (induction bs rule: rev_induct)
  case Nil
  then show ?case by simp
next
  case (snoc b bs)
  have "msb_val (as @ bs @ [b]) = 2 * msb_val (as @ bs) + of_bool b"
    using msb_val_snoc [of "as @ bs" b] by simp
  with snoc show ?case by simp
qed

lemma msb_val_replicate_False [simp]: "msb_val (replicate n False) = 0"
  by (induction n) (auto simp: replicate_append_same [symmetric])

section \<open>Disjoint or is addition\<close>

unbundle bit_operations_syntax

lemma or_disjoint_add:
  fixes a b :: nat
  assumes "2 ^ k dvd a" and "b < 2 ^ k"
  shows "a OR b = a + b"
proof -
  from assms(1) obtain c where c: "a = push_bit k c" by (auto simp: push_bit_eq_mult mult.commute)
  have b: "b = take_bit k b" using assms(2) by (simp add: take_bit_nat_eq_self)
  have "a AND b = 0"
    by (subst b) (auto simp: c bit_eq_iff bit_simps)
  then show ?thesis by (simp add: disjunctive_add_eq_or)
qed

end
