(* ===== verification/Block_Hash.thy ===== *)
theory Block_Hash
  imports Prelude
begin

text \<open>
  The streaming part that \<open>crypto/md5.hpp\<close> and \<open>crypto/sha1.hpp\<close> share line for line: a chaining
  state, a 64-bit count of message bits, a 64-byte buffer, and the \<open>update\<close> that feeds whole blocks
  to \<open>transform\<close>. The block transformation is the parameter \<open>tr\<close>. \<open>absorbs\<close> says which message a
  context stands for; \<open>update\<close> appends to it.
\<close>

unbundle bit_operations_syntax

section \<open>State and operations\<close>

record hash_ctx =
  hstate :: "u32 list"
  hcount :: u64
  hbuffer :: bytes

definition hash_start :: "u32 list \<Rightarrow> hash_ctx" where
  "hash_start iv = \<lparr>hstate = iv, hcount = 0, hbuffer = replicate 64 0\<rparr>"

text \<open>\<open>std::memcpy(dst + at, src, n)\<close> into an array; writing past its end would lengthen the list.\<close>

definition mem_write :: "nat \<Rightarrow> bytes \<Rightarrow> bytes \<Rightarrow> bytes" where
  "mem_write at src dst = take at dst @ src @ drop (at + length src) dst"

text \<open>\<open>for (i = part; i + 63 < len; i += 64) transform(data + i);\<close> with the final \<open>i\<close>.\<close>

function block_loop :: "(bytes \<Rightarrow> u32 list \<Rightarrow> u32 list) \<Rightarrow> bytes \<Rightarrow> nat \<Rightarrow> u32 list \<Rightarrow> nat \<times> u32 list" where
  "block_loop tr data i st =
     (if i + 63 < length data
      then block_loop tr data (i + 64) (tr (take 64 (drop i data)) st)
      else (i, st))"
  by pat_completeness auto
termination
  by (relation "measure (\<lambda>(tr, data, i, st). length data - i)") auto

declare block_loop.simps [simp del]

definition hash_index :: "u64 \<Rightarrow> nat" where
  "hash_index c = unat (drop_bit 3 c AND 0x3F)"

definition block_update :: "(bytes \<Rightarrow> u32 list \<Rightarrow> u32 list) \<Rightarrow> bytes \<Rightarrow> hash_ctx \<Rightarrow> hash_ctx" where
  "block_update tr data h =
     (let len = length data;
          idx = hash_index (hcount h);
          h = h\<lparr>hcount := hcount h + push_bit 3 (word_of_nat len)\<rparr>;
          part = 64 - idx;
          (i, idx, h) =
            (if len \<ge> part
             then (let h = h\<lparr>hbuffer := mem_write idx (take part data) (hbuffer h)\<rparr>;
                       st = tr (hbuffer h) (hstate h);
                       (i, st) = block_loop tr data part st
                   in (i, 0, h\<lparr>hstate := st\<rparr>))
             else (0, idx, h))
      in h\<lparr>hbuffer := mem_write idx (drop i data) (hbuffer h)\<rparr>)"

text \<open>\<open>padLen\<close> and the bytes of \<open>PAD\<close> the final \<open>update\<close> takes.\<close>

definition pad_len :: "nat \<Rightarrow> nat" where
  "pad_len idx = (if idx < 56 then 56 - idx else 120 - idx)"

definition PAD :: bytes where
  "PAD = 0x80 # replicate 63 0"

text \<open>
  The body of both \<open>digest\<close> functions up to the output: \<open>length_bytes\<close> is how the class stores
  the bit count it captured before padding.
\<close>

definition block_finish ::
  "(bytes \<Rightarrow> u32 list \<Rightarrow> u32 list) \<Rightarrow> (u64 \<Rightarrow> bytes) \<Rightarrow> hash_ctx \<Rightarrow> hash_ctx" where
  "block_finish tr length_bytes h =
     (let bits = length_bytes (hcount h);
          idx = hash_index (hcount h);
          h = block_update tr (take (pad_len idx) PAD) h
      in block_update tr bits h)"

section \<open>What a context stands for\<close>

text \<open>The chaining value after the whole blocks of a message, and the bytes left over.\<close>

function absorb_blocks :: "(bytes \<Rightarrow> u32 list \<Rightarrow> u32 list) \<Rightarrow> bytes \<Rightarrow> u32 list \<Rightarrow> u32 list" where
  "absorb_blocks tr m st =
     (if length m < 64 then st else absorb_blocks tr (drop 64 m) (tr (take 64 m) st))"
  by pat_completeness auto
termination
  by (relation "measure (\<lambda>(tr, m, st). length m)") auto

declare absorb_blocks.simps [simp del]

definition rest_bytes :: "bytes \<Rightarrow> bytes" where
  "rest_bytes m = drop (length m div 64 * 64) m"

definition absorbs ::
  "(bytes \<Rightarrow> u32 list \<Rightarrow> u32 list) \<Rightarrow> u32 list \<Rightarrow> bytes \<Rightarrow> hash_ctx \<Rightarrow> bool" where
  "absorbs tr iv m h \<longleftrightarrow> hstate h = absorb_blocks tr m iv \<and> hcount h = word_of_nat (8 * length m) \<and>
     length (hbuffer h) = 64 \<and> take (length m mod 64) (hbuffer h) = rest_bytes m"

lemma length_rest_bytes [simp]: "length (rest_bytes m) = length m mod 64"
  by (simp add: rest_bytes_def minus_div_mult_eq_mod)

lemma absorb_blocks_short [simp]: "length m < 64 \<Longrightarrow> absorb_blocks tr m st = st"
  by (subst absorb_blocks.simps) simp

lemma rest_bytes_short [simp]: "length m < 64 \<Longrightarrow> rest_bytes m = m"
  by (simp add: rest_bytes_def)

lemma absorb_blocks_block:
  "length b = 64 \<Longrightarrow> absorb_blocks tr (b @ m) st = absorb_blocks tr m (tr b st)"
  by (subst absorb_blocks.simps) simp

lemma rest_bytes_block: "length b = 64 \<Longrightarrow> rest_bytes (b @ m) = rest_bytes m"
proof -
  assume b: "length b = 64"
  have "(64 + length m) div 64 * 64 - 64 = length m div 64 * 64"
    by (simp add: div_add_self1)
  with b show ?thesis by (simp add: rest_bytes_def)
qed

text \<open>Only the left-over bytes matter for what follows.\<close>

lemma absorb_blocks_append:
  "absorb_blocks tr (m @ d) st = absorb_blocks tr (rest_bytes m @ d) (absorb_blocks tr m st) \<and>
   rest_bytes (m @ d) = rest_bytes (rest_bytes m @ d)"
proof (induction m arbitrary: st rule: length_induct)
  case (1 m)
  show ?case
  proof (cases "length m < 64")
    case False
    then have "length (take 64 m) = 64" by simp
    with append_take_drop_id [of 64 m] obtain b r where m: "m = b @ r" and l: "length b = 64"
      by metis
    then have "length r < length m" by simp
    from "1.IH" [rule_format, OF this] show ?thesis
      by (simp only: m append_assoc absorb_blocks_block [OF l] rest_bytes_block [OF l])
  qed simp
qed

section \<open>The update appends\<close>

lemma block_loop_absorb:
  "block_loop tr data i st = (j, st') \<Longrightarrow> i \<le> length data \<Longrightarrow>
   st' = absorb_blocks tr (drop i data) st \<and> j \<le> length data \<and> drop j data = rest_bytes (drop i data)"
proof (induction tr data i st rule: block_loop.induct)
  case (1 tr data i st)
  show ?case
  proof (cases "i + 63 < length data")
    case True
    define b where "b = take 64 (drop i data)"
    have b: "length b = 64" using True by (simp add: b_def)
    have split: "drop i data = b @ drop (i + 64) data"
      using append_take_drop_id [of 64 "drop i data"] by (simp add: b_def add.commute)
    have "block_loop tr data (i + 64) (tr b st) = (j, st')"
      using "1.prems"(1) True by (simp add: block_loop.simps [of tr data i] b_def)
    from "1.IH" [OF True this [unfolded b_def]] True show ?thesis
      unfolding b_def [symmetric]
      by (simp only: split absorb_blocks_block [OF b] rest_bytes_block [OF b])
  next
    case False
    then show ?thesis
      using "1.prems" by (simp add: block_loop.simps [of tr data i] rest_bytes_short)
  qed
qed

lemma hash_index_mod: "hash_index (word_of_nat (8 * n)) = n mod 64"
proof -
  have "drop_bit 3 w AND 0x3F = take_bit 6 (drop_bit 3 w)" for w :: u64
    by (simp add: take_bit_eq_mask mask_eq_exp_minus_1)
  then have "hash_index (word_of_nat (8 * n)) = unat (take_bit 6 (drop_bit 3 (word_of_nat (8 * n) :: u64)))"
    by (simp only: hash_index_def)
  also have "\<dots> = take_bit 6 (drop_bit 3 (take_bit 64 (8 * n)))"
    by (simp only: unsigned_take_bit_eq unsigned_drop_bit_eq unsigned_of_nat) simp
  also have "\<dots> = take_bit 6 (take_bit 61 (drop_bit 3 (8 * n)))"
    by (simp only: drop_bit_take_bit) simp
  also have "drop_bit 3 (8 * n) = n"
    by (simp add: drop_bit_eq_div)
  finally show ?thesis
    by (simp add: take_bit_eq_mod mod_mod_cancel)
qed

lemma mem_write_inside:
  "at + length src \<le> length dst \<Longrightarrow> length (mem_write at src dst) = length dst"
  "at \<le> length dst \<Longrightarrow> take (at + length src) (mem_write at src dst) = take at dst @ src"
  by (simp_all add: mem_write_def)

lemma block_update_absorbs:
  assumes "absorbs tr iv m h"
  shows "absorbs tr iv (m @ d) (block_update tr d h)"
proof -
  let ?idx = "length m mod 64"
  have st: "hstate h = absorb_blocks tr m iv" and cnt: "hcount h = word_of_nat (8 * length m)"
    and buf: "length (hbuffer h) = 64" "take ?idx (hbuffer h) = rest_bytes m"
    using assms by (simp_all add: absorbs_def)
  have idx: "hash_index (hcount h) = ?idx" by (simp only: cnt hash_index_mod)
  have le: "?idx < 64" by simp
  have cnt': "hcount h + push_bit 3 (word_of_nat (length d)) = word_of_nat (8 * length (m @ d))"
    by (simp add: cnt push_bit_eq_mult)
  have ab: "absorb_blocks tr (m @ d) iv = absorb_blocks tr (rest_bytes m @ d) (absorb_blocks tr m iv)"
    and rb: "rest_bytes (m @ d) = rest_bytes (rest_bytes m @ d)"
    using absorb_blocks_append by blast+
  show ?thesis
  proof (cases "64 - ?idx \<le> length d")
    case True
    let ?part = "64 - ?idx" and ?b = "rest_bytes m @ take (64 - ?idx) d"
    obtain j st' where loop: "block_loop tr d ?part (tr ?b (hstate h)) = (j, st')"
      by (rule prod.exhaust)
    have b: "length ?b = 64" using True le by simp
    have full: "mem_write ?idx (take ?part d) (hbuffer h) = ?b"
      using True le buf by (simp add: mem_write_def)
    have split: "rest_bytes m @ d = ?b @ drop ?part d" by simp
    note l = block_loop_absorb [OF loop True]
    have st'': "st' = absorb_blocks tr (m @ d) iv"
      using l by (simp only: ab split absorb_blocks_block [OF b] st)
    have dj: "drop j d = rest_bytes (m @ d)"
      using l by (simp only: rb split rest_bytes_block [OF b])
    then have lj: "length (drop j d) = length (m @ d) mod 64" by (simp only: length_rest_bytes)
    have upd: "block_update tr d h =
        h\<lparr>hstate := st', hcount := word_of_nat (8 * length (m @ d)), hbuffer := mem_write 0 (drop j d) ?b\<rparr>"
      using True loop by (simp add: block_update_def Let_def idx full cnt' [simplified])
    have "length (drop j d) \<le> 64" unfolding lj by simp
    then have "length (mem_write 0 (drop j d) ?b) = 64"
      using mem_write_inside(1) [of 0 "drop j d" ?b] b by simp
    moreover have "take (length (m @ d) mod 64) (mem_write 0 (drop j d) ?b) = rest_bytes (m @ d)"
      using mem_write_inside(2) [of 0 ?b "drop j d"] by (simp only: lj dj) simp
    ultimately show ?thesis by (simp add: absorbs_def upd st'')
  next
    case False
    then have short: "length (rest_bytes m @ d) < 64" using le by simp
    have upd: "block_update tr d h = h\<lparr>hcount := word_of_nat (8 * length (m @ d)),
        hbuffer := mem_write ?idx d (hbuffer h)\<rparr>"
      using False by (simp add: block_update_def Let_def idx cnt' [simplified])
    have n: "length (m @ d) mod 64 = ?idx + length d"
      using False le by (simp add: mod_add_left_eq [of "length m" 64, symmetric])
    show ?thesis
      using short False le buf mem_write_inside(1) [of ?idx d "hbuffer h"]
        mem_write_inside(2) [of ?idx "hbuffer h" d]
      by (simp add: absorbs_def upd ab rb st n [simplified])
  qed
qed

lemma absorbs_start: "absorbs tr iv [] (hash_start iv)"
  by (simp add: absorbs_def hash_start_def)

text \<open>Feeding a list of pieces, in any split, is feeding their concatenation.\<close>

lemma block_update_pieces:
  "absorbs tr iv m h \<Longrightarrow> absorbs tr iv (m @ concat ds) (fold (block_update tr) ds h)"
proof (induction ds arbitrary: m h)
  case (Cons d ds)
  from Cons.IH [OF block_update_absorbs [OF Cons.prems, of d]] show ?case by simp
qed simp

section \<open>Padding\<close>

text \<open>The message as the final blocks see it: a one bit, zeros, and the 64-bit length.\<close>

definition padded :: "(u64 \<Rightarrow> bytes) \<Rightarrow> bytes \<Rightarrow> bytes" where
  "padded length_bytes m =
     m @ 0x80 # replicate (pad_len (length m mod 64) - 1) 0 @ length_bytes (word_of_nat (8 * length m))"

lemma pad_len_bounds: "idx < 64 \<Longrightarrow> 1 \<le> pad_len idx \<and> pad_len idx \<le> 64"
  by (auto simp: pad_len_def)

lemma take_PAD: "1 \<le> n \<Longrightarrow> n \<le> 64 \<Longrightarrow> take n PAD = 0x80 # replicate (n - 1) 0"
  by (cases n) (simp_all add: PAD_def)

lemma padded_whole:
  assumes "\<And>c. length (length_bytes c) = 8"
  shows "length (padded length_bytes m) mod 64 = 0"
proof -
  let ?i = "length m mod 64"
  have "?i < 64" by simp
  then have "(?i + pad_len ?i + 8) mod 64 = 0" by (auto simp: pad_len_def)
  moreover have "length (padded length_bytes m) = length m + pad_len ?i + 8"
    using assms pad_len_bounds [of ?i] by (simp add: padded_def)
  ultimately show ?thesis by (simp add: mod_add_left_eq add.assoc)
qed

lemma block_finish_absorbs:
  assumes h: "absorbs tr iv m h"
  shows "hstate (block_finish tr length_bytes h) = absorb_blocks tr (padded length_bytes m) iv"
proof -
  let ?i = "length m mod 64"
  have cnt: "hcount h = word_of_nat (8 * length m)" using h by (simp add: absorbs_def)
  then have idx: "hash_index (hcount h) = ?i" by (simp only: hash_index_mod)
  have pad: "take (pad_len ?i) PAD = 0x80 # replicate (pad_len ?i - 1) 0"
    using pad_len_bounds [of ?i] by (intro take_PAD) simp_all
  from block_update_absorbs [OF block_update_absorbs
      [OF h, of "0x80 # replicate (pad_len ?i - 1) 0"], of "length_bytes (word_of_nat (8 * length m))"]
  have "absorbs tr iv (padded length_bytes m) (block_finish tr length_bytes h)"
    by (simp only: block_finish_def Let_def idx pad padded_def append_assoc append_Cons)
      (simp only: cnt)
  then show ?thesis by (simp add: absorbs_def)
qed

end
