(* ===== verification/Md5.thy ===== *)
theory Md5
  imports Block_Hash
begin

text \<open>
  \<open>crypto/md5.hpp\<close>: the block transformation with its four round functions, \<open>update\<close> as the
  shared streaming code, and the destructive \<open>digest\<close>. \<open>md5\<close> is the digest of a message as
  RFC 1321 puts it: pad, then fold the transformation over the blocks.
\<close>

unbundle bit_operations_syntax

section \<open>The block transformation\<close>

definition MD5_IV :: "u32 list" where
  "MD5_IV = [0x67452301, 0xefcdab89, 0x98badcfe, 0x10325476]"

definition rotl :: "u32 \<Rightarrow> nat \<Rightarrow> u32" where
  "rotl x c = push_bit c x OR drop_bit (32 - c) x"

definition md5_F :: "u32 \<Rightarrow> u32 \<Rightarrow> u32 \<Rightarrow> u32" where
  "md5_F x y z = (x AND y) OR (NOT x AND z)"

definition md5_G :: "u32 \<Rightarrow> u32 \<Rightarrow> u32 \<Rightarrow> u32" where
  "md5_G x y z = (x AND z) OR (y AND NOT z)"

definition md5_H :: "u32 \<Rightarrow> u32 \<Rightarrow> u32 \<Rightarrow> u32" where
  "md5_H x y z = (x XOR y) XOR z"

definition md5_I :: "u32 \<Rightarrow> u32 \<Rightarrow> u32 \<Rightarrow> u32" where
  "md5_I x y z = y XOR (x OR NOT z)"

text \<open>\<open>FF\<close>, \<open>GG\<close>, \<open>HH\<close> and \<open>II\<close>, which differ in the round function only: the new \<open>a\<close>.\<close>

definition md5_step ::
  "(u32 \<Rightarrow> u32 \<Rightarrow> u32 \<Rightarrow> u32) \<Rightarrow> u32 \<Rightarrow> u32 \<Rightarrow> u32 \<Rightarrow> u32 \<Rightarrow> u32 \<Rightarrow> nat \<Rightarrow> u32 \<Rightarrow> u32" where
  "md5_step f a b c d x s t = b + rotl (((a + f b c d) + x) + t) s"

text \<open>
  Sixteen calls of a round as \<open>(index into m, shift, constant)\<close>. Successive calls rotate the
  roles of the variables: \<open>(a,b,c,d)\<close>, \<open>(d,a,b,c)\<close>, \<open>(c,d,a,b)\<close>, \<open>(b,c,d,a)\<close>.
\<close>

definition md5_FF_calls :: "(nat \<times> nat \<times> u32) list" where
  "md5_FF_calls =
     [(0, 7, 0xd76aa478), (1, 12, 0xe8c7b756), (2, 17, 0x242070db), (3, 22, 0xc1bdceee),
      (4, 7, 0xf57c0faf), (5, 12, 0x4787c62a), (6, 17, 0xa8304613), (7, 22, 0xfd469501),
      (8, 7, 0x698098d8), (9, 12, 0x8b44f7af), (10, 17, 0xffff5bb1), (11, 22, 0x895cd7be),
      (12, 7, 0x6b901122), (13, 12, 0xfd987193), (14, 17, 0xa679438e), (15, 22, 0x49b40821)]"

definition md5_GG_calls :: "(nat \<times> nat \<times> u32) list" where
  "md5_GG_calls =
     [(1, 5, 0xf61e2562), (6, 9, 0xc040b340), (11, 14, 0x265e5a51), (0, 20, 0xe9b6c7aa),
      (5, 5, 0xd62f105d), (10, 9, 0x02441453), (15, 14, 0xd8a1e681), (4, 20, 0xe7d3fbc8),
      (9, 5, 0x21e1cde6), (14, 9, 0xc33707d6), (3, 14, 0xf4d50d87), (8, 20, 0x455a14ed),
      (13, 5, 0xa9e3e905), (2, 9, 0xfcefa3f8), (7, 14, 0x676f02d9), (12, 20, 0x8d2a4c8a)]"

definition md5_HH_calls :: "(nat \<times> nat \<times> u32) list" where
  "md5_HH_calls =
     [(5, 4, 0xfffa3942), (8, 11, 0x8771f681), (11, 16, 0x6d9d6122), (14, 23, 0xfde5380c),
      (1, 4, 0xa4beea44), (4, 11, 0x4bdecfa9), (7, 16, 0xf6bb4b60), (10, 23, 0xbebfbc70),
      (13, 4, 0x289b7ec6), (0, 11, 0xeaa127fa), (3, 16, 0xd4ef3085), (6, 23, 0x04881d05),
      (9, 4, 0xd9d4d039), (12, 11, 0xe6db99e5), (15, 16, 0x1fa27cf8), (2, 23, 0xc4ac5665)]"

definition md5_II_calls :: "(nat \<times> nat \<times> u32) list" where
  "md5_II_calls =
     [(0, 6, 0xf4292244), (7, 10, 0x432aff97), (14, 15, 0xab9423a7), (5, 21, 0xfc93a039),
      (12, 6, 0x655b59c3), (3, 10, 0x8f0ccc92), (10, 15, 0xffeff47d), (1, 21, 0x85845dd1),
      (8, 6, 0x6fa87e4f), (15, 10, 0xfe2ce6e0), (6, 15, 0xa3014314), (13, 21, 0x4e0811a1),
      (4, 6, 0xf7537e82), (11, 10, 0xbd3af235), (2, 15, 0x2ad7d2bb), (9, 21, 0xeb86d391)]"

fun md5_round ::
  "(u32 \<Rightarrow> u32 \<Rightarrow> u32 \<Rightarrow> u32) \<Rightarrow> u32 list \<Rightarrow> (nat \<times> nat \<times> u32) list \<Rightarrow>
   u32 \<times> u32 \<times> u32 \<times> u32 \<Rightarrow> u32 \<times> u32 \<times> u32 \<times> u32" where
  "md5_round f m [] abcd = abcd"
| "md5_round f m ((k, s, t) # calls) (a, b, c, d) =
     md5_round f m calls (d, md5_step f a b c d (m ! k) s t, b, c)"

definition md5_words :: "bytes \<Rightarrow> u32 list" where
  "md5_words blk = map (\<lambda>i. ucast (blk ! (i * 4)) OR push_bit 8 (ucast (blk ! (i * 4 + 1))) OR
     push_bit 16 (ucast (blk ! (i * 4 + 2))) OR push_bit 24 (ucast (blk ! (i * 4 + 3)))) [0..<16]"

definition md5_transform :: "bytes \<Rightarrow> u32 list \<Rightarrow> u32 list" where
  "md5_transform blk st =
     (let m = md5_words blk;
          (a, b, c, d) =
            md5_round md5_I m md5_II_calls
             (md5_round md5_H m md5_HH_calls
               (md5_round md5_G m md5_GG_calls
                 (md5_round md5_F m md5_FF_calls (st ! 0, st ! 1, st ! 2, st ! 3))))
      in [st ! 0 + a, st ! 1 + b, st ! 2 + c, st ! 3 + d])"

section \<open>The class\<close>

definition md5_init :: hash_ctx where
  "md5_init = hash_start MD5_IV"

definition md5_update :: "bytes \<Rightarrow> hash_ctx \<Rightarrow> hash_ctx" where
  "md5_update = block_update md5_transform"

definition md5_length :: "u64 \<Rightarrow> bytes" where
  "md5_length count = map (\<lambda>i. ucast (drop_bit (i * 8) count AND 0xFF)) [0..<8]"

definition md5_output :: "u32 list \<Rightarrow> bytes" where
  "md5_output st =
     concat (map (\<lambda>i. map (\<lambda>j. ucast (drop_bit (j * 8) (st ! i) AND 0xFF)) [0..<4]) [0..<4])"

definition md5_digest :: "hash_ctx \<Rightarrow> bytes \<times> hash_ctx" where
  "md5_digest h = (md5_output (hstate (block_finish md5_transform md5_length h)), md5_init)"

section \<open>The digest of a message\<close>

definition md5 :: "bytes \<Rightarrow> bytes" where
  "md5 m = md5_output (absorb_blocks md5_transform (padded md5_length m) MD5_IV)"

definition md5_absorbs :: "bytes \<Rightarrow> hash_ctx \<Rightarrow> bool" where
  "md5_absorbs = absorbs md5_transform MD5_IV"

lemma md5_absorbs_init: "md5_absorbs [] md5_init"
  by (simp add: md5_absorbs_def md5_init_def absorbs_start)

lemma md5_absorbs_update: "md5_absorbs m h \<Longrightarrow> md5_absorbs (m @ d) (md5_update d h)"
  by (simp add: md5_absorbs_def md5_update_def block_update_absorbs)

lemma md5_digest_absorbs: "md5_absorbs m h \<Longrightarrow> md5_digest h = (md5 m, md5_init)"
  by (simp add: md5_absorbs_def md5_digest_def md5_def block_finish_absorbs)

lemma length_md5 [simp]: "length (md5 m) = 16"
  by (simp add: md5_def md5_output_def upt_rec)

lemma md5_abc: "md5 (map of_char ''abc'') =
  [0x90, 0x01, 0x50, 0x98, 0x3c, 0xd2, 0x4f, 0xb0, 0xd6, 0x96, 0x3f, 0x7d, 0x28, 0xe1, 0x7f, 0x72]"
  by code_simp

end
