(* ===== verification/Sha1.thy ===== *)
theory Sha1
  imports Block_Hash
begin

text \<open>
  \<open>crypto/sha1.hpp\<close>: schedule and rounds of the block transformation, \<open>update\<close> as the shared
  streaming code, and the destructive \<open>digest\<close>. \<open>sha1\<close> is the digest of a message as RFC 3174
  puts it; the copy \<open>digest\<close> is taken from is unchanged because contexts are values.
\<close>

unbundle bit_operations_syntax

section \<open>The block transformation\<close>

definition SHA1_IV :: "u32 list" where
  "SHA1_IV = [0x67452301, 0xEFCDAB89, 0x98BADCFE, 0x10325476, 0xC3D2E1F0]"

definition rol :: "u32 \<Rightarrow> nat \<Rightarrow> u32" where
  "rol v n = push_bit n v OR drop_bit (32 - n) v"

definition sha1_words :: "bytes \<Rightarrow> u32 list" where
  "sha1_words blk = map (\<lambda>i. push_bit 24 (ucast (blk ! (i * 4))) OR push_bit 16 (ucast (blk ! (i * 4 + 1))) OR
     push_bit 8 (ucast (blk ! (i * 4 + 2))) OR ucast (blk ! (i * 4 + 3))) [0..<16]"

text \<open>\<open>for (i = 16; i < 80; ++i) w[i] = rol(w[i-3] ^ w[i-8] ^ w[i-14] ^ w[i-16], 1);\<close>\<close>

definition sha1_word :: "u32 list \<Rightarrow> nat \<Rightarrow> u32" where
  "sha1_word w i = rol (((w ! (i - 3) XOR w ! (i - 8)) XOR w ! (i - 14)) XOR w ! (i - 16)) 1"

definition sha1_schedule :: "bytes \<Rightarrow> u32 list" where
  "sha1_schedule blk = fold (\<lambda>i w. w @ [sha1_word w i]) [16..<80] (sha1_words blk)"

definition sha1_fk :: "nat \<Rightarrow> u32 \<Rightarrow> u32 \<Rightarrow> u32 \<Rightarrow> u32 \<times> u32" where
  "sha1_fk i b c d =
     (if i < 20 then ((b AND c) OR (NOT b AND d), 0x5A827999)
      else if i < 40 then ((b XOR c) XOR d, 0x6ED9EBA1)
      else if i < 60 then (((b AND c) OR (b AND d)) OR (c AND d), 0x8F1BBCDC)
      else ((b XOR c) XOR d, 0xCA62C1D6))"

fun sha1_round ::
  "u32 list \<Rightarrow> nat \<Rightarrow> u32 \<times> u32 \<times> u32 \<times> u32 \<times> u32 \<Rightarrow> u32 \<times> u32 \<times> u32 \<times> u32 \<times> u32" where
  "sha1_round w i (a, b, c, d, e) =
     (let (f, k) = sha1_fk i b c d;
          t = ((((rol a 5 + f) + e) + k) + w ! i)
      in (t, a, rol b 30, c, d))"

definition sha1_transform :: "bytes \<Rightarrow> u32 list \<Rightarrow> u32 list" where
  "sha1_transform blk st =
     (let w = sha1_schedule blk;
          (a, b, c, d, e) =
            fold (sha1_round w) [0..<80] (st ! 0, st ! 1, st ! 2, st ! 3, st ! 4)
      in [st ! 0 + a, st ! 1 + b, st ! 2 + c, st ! 3 + d, st ! 4 + e])"

section \<open>The class\<close>

definition sha1_init :: hash_ctx where
  "sha1_init = hash_start SHA1_IV"

definition sha1_update :: "bytes \<Rightarrow> hash_ctx \<Rightarrow> hash_ctx" where
  "sha1_update = block_update sha1_transform"

definition sha1_length :: "u64 \<Rightarrow> bytes" where
  "sha1_length count = map (\<lambda>i. ucast (drop_bit (56 - i * 8) count AND 0xFF)) [0..<8]"

definition sha1_output :: "u32 list \<Rightarrow> bytes" where
  "sha1_output st =
     concat (map (\<lambda>i. [ucast (drop_bit 24 (st ! i)), ucast (drop_bit 16 (st ! i)),
                        ucast (drop_bit 8 (st ! i)), ucast (st ! i)]) [0..<5])"

definition sha1_digest :: "hash_ctx \<Rightarrow> bytes \<times> hash_ctx" where
  "sha1_digest h = (sha1_output (hstate (block_finish sha1_transform sha1_length h)), sha1_init)"

section \<open>The schedule by its recurrence\<close>

lemma sha1_word_append: "16 \<le> i \<Longrightarrow> i \<le> length w \<Longrightarrow> sha1_word (w @ v) i = sha1_word w i"
proof -
  assume "16 \<le> i" "i \<le> length w"
  then have "i - 3 < length w" "i - 8 < length w" "i - 14 < length w" "i - 16 < length w" by simp_all
  then show ?thesis by (simp add: sha1_word_def nth_append)
qed

lemma sha1_schedule_loop:
  "(let w = fold (\<lambda>i w. w @ [sha1_word w i]) [16..<16 + k] (sha1_words blk)
    in length w = 16 + k \<and> take 16 w = sha1_words blk \<and>
       (\<forall>i. 16 \<le> i \<and> i < 16 + k \<longrightarrow> w ! i = sha1_word w i))"
proof (induction k)
  case 0
  have "length (sha1_words blk) = 16" by (simp add: sha1_words_def)
  then show ?case by (auto simp: Let_def)
next
  case (Suc k)
  define w where "w = fold (\<lambda>i w. w @ [sha1_word w i]) [16..<16 + k] (sha1_words blk)"
  have w: "length w = 16 + k" "take 16 w = sha1_words blk"
    and rec: "\<And>i. 16 \<le> i \<Longrightarrow> i < 16 + k \<Longrightarrow> w ! i = sha1_word w i"
    using Suc by (simp_all add: Let_def w_def)
  have "fold (\<lambda>i w. w @ [sha1_word w i]) [16..<16 + Suc k] (sha1_words blk) = w @ [sha1_word w (16 + k)]"
    unfolding add_Suc_right by (subst upt_Suc) (simp add: w_def)
  moreover have "(w @ [sha1_word w (16 + k)]) ! i = sha1_word (w @ [sha1_word w (16 + k)]) i"
    if "16 \<le> i" "i < 16 + Suc k" for i
    using that w rec [of i] by (cases "i = 16 + k") (simp_all add: nth_append sha1_word_append)
  ultimately show ?case
    using w by (simp add: Let_def)
qed

lemma sha1_schedule_props:
  "length (sha1_schedule blk) = 80"
  "take 16 (sha1_schedule blk) = sha1_words blk"
  "16 \<le> i \<Longrightarrow> i < 80 \<Longrightarrow> sha1_schedule blk ! i = sha1_word (sha1_schedule blk) i"
proof -
  have e: "16 + 64 = (80::nat)" by simp
  note s = sha1_schedule_loop [of 64 blk, unfolded e Let_def, folded sha1_schedule_def]
  show "length (sha1_schedule blk) = 80" "take 16 (sha1_schedule blk) = sha1_words blk"
    "16 \<le> i \<Longrightarrow> i < 80 \<Longrightarrow> sha1_schedule blk ! i = sha1_word (sha1_schedule blk) i"
    using s by auto
qed

section \<open>The digest of a message\<close>

definition sha1 :: "bytes \<Rightarrow> bytes" where
  "sha1 m = sha1_output (absorb_blocks sha1_transform (padded sha1_length m) SHA1_IV)"

definition sha1_absorbs :: "bytes \<Rightarrow> hash_ctx \<Rightarrow> bool" where
  "sha1_absorbs = absorbs sha1_transform SHA1_IV"

lemma sha1_absorbs_init: "sha1_absorbs [] sha1_init"
  by (simp add: sha1_absorbs_def sha1_init_def absorbs_start)

lemma sha1_absorbs_update: "sha1_absorbs m h \<Longrightarrow> sha1_absorbs (m @ d) (sha1_update d h)"
  by (simp add: sha1_absorbs_def sha1_update_def block_update_absorbs)

lemma sha1_digest_absorbs: "sha1_absorbs m h \<Longrightarrow> sha1_digest h = (sha1 m, sha1_init)"
  by (simp add: sha1_absorbs_def sha1_digest_def sha1_def block_finish_absorbs)

lemma length_sha1 [simp]: "length (sha1 m) = 20"
  by (simp add: sha1_def sha1_output_def upt_rec)

end
