(* ===== verification/Hmac.thy ===== *)
theory Hmac
  imports Md5 Sha1
begin

text \<open>
  \<open>crypto/hmac.hpp\<close>, a class template over a hash. The template parameter is a record of the
  operations the template calls; \<open>stream_hash\<close> is the contract the two hashes fulfil, and inside
  it \<open>HMAC\<close> is shown to be the function of RFC 2104, re-armed after every digest.
\<close>

unbundle bit_operations_syntax

section \<open>The template\<close>

record 'h hash_ops =
  h_init :: 'h
  h_update :: "bytes \<Rightarrow> 'h \<Rightarrow> 'h"
  h_digest :: "'h \<Rightarrow> bytes \<times> 'h"
  h_size :: nat

definition BLOCK_SIZE :: nat where
  "BLOCK_SIZE = 64"

record 'h hmac =
  inner :: 'h
  ipad :: bytes
  opad :: bytes

definition hmac_begin :: "'h hash_ops \<Rightarrow> 'h hmac \<Rightarrow> 'h hmac" where
  "hmac_begin H m = m\<lparr>inner := h_update H (ipad m) (h_init H)\<rparr>"

definition hmac_key :: "'h hash_ops \<Rightarrow> bytes \<Rightarrow> bytes" where
  "hmac_key H key =
     (let k = replicate BLOCK_SIZE 0
      in if length key > BLOCK_SIZE then mem_write 0 (fst (h_digest H (h_update H key (h_init H)))) k
         else mem_write 0 key k)"

definition hmac_init :: "'h hash_ops \<Rightarrow> bytes \<Rightarrow> 'h hmac" where
  "hmac_init H key =
     (let k = hmac_key H key
      in hmac_begin H \<lparr>inner = h_init H, ipad = map (\<lambda>b. b XOR 0x36) k, opad = map (\<lambda>b. b XOR 0x5C) k\<rparr>)"

definition hmac_update :: "'h hash_ops \<Rightarrow> bytes \<Rightarrow> 'h hmac \<Rightarrow> 'h hmac" where
  "hmac_update H d m = m\<lparr>inner := h_update H d (inner m)\<rparr>"

definition hmac_digest :: "'h hash_ops \<Rightarrow> 'h hmac \<Rightarrow> bytes \<times> 'h hmac" where
  "hmac_digest H m =
     (let (inn, h) = h_digest H (inner m);
          m = m\<lparr>inner := h\<rparr>;
          outer = h_update H (opad m) (h_init H);
          outer = h_update H inn outer;
          out = fst (h_digest H outer)
      in (out, hmac_begin H m))"

definition hmac_mac :: "'h hash_ops \<Rightarrow> bytes \<Rightarrow> bytes \<Rightarrow> bytes" where
  "hmac_mac H key msg = fst (hmac_digest H (hmac_update H msg (hmac_init H key)))"

section \<open>RFC 2104\<close>

text \<open>\<open>H(K XOR opad, H(K XOR ipad, text))\<close> with the key hashed when long, then zero-padded.\<close>

definition rfc2104_key :: "(bytes \<Rightarrow> bytes) \<Rightarrow> bytes \<Rightarrow> bytes" where
  "rfc2104_key hash key =
     (let k = (if length key > 64 then hash key else key) in k @ replicate (64 - length k) 0)"

definition rfc2104 :: "(bytes \<Rightarrow> bytes) \<Rightarrow> bytes \<Rightarrow> bytes \<Rightarrow> bytes" where
  "rfc2104 hash key msg =
     (let k = rfc2104_key hash key
      in hash (map (\<lambda>b. b XOR 0x5C) k @ hash (map (\<lambda>b. b XOR 0x36) k @ msg)))"

section \<open>The contract of the template parameter\<close>

locale stream_hash =
  fixes ops :: "'h hash_ops"
    and stands_for :: "bytes \<Rightarrow> 'h \<Rightarrow> bool"
    and hash :: "bytes \<Rightarrow> bytes"
    and size :: nat
  assumes start: "stands_for [] (h_init ops)"
    and extend: "stands_for m h \<Longrightarrow> stands_for (m @ d) (h_update ops d h)"
    and finish: "stands_for m h \<Longrightarrow> h_digest ops h = (hash m, h_init ops)"
    and size_ops: "h_size ops = size"
    and size_hash: "length (hash m) = size"
    and size_block: "0 < size" "size \<le> 64"
begin

text \<open>\<open>keyed key msg m\<close>: the object holds the pads of \<open>key\<close> and has seen \<open>msg\<close>.\<close>

definition keyed :: "bytes \<Rightarrow> bytes \<Rightarrow> 'h hmac \<Rightarrow> bool" where
  "keyed key msg m \<longleftrightarrow> ipad m = map (\<lambda>b. b XOR 0x36) (rfc2104_key hash key) \<and>
     opad m = map (\<lambda>b. b XOR 0x5C) (rfc2104_key hash key) \<and>
     stands_for (map (\<lambda>b. b XOR 0x36) (rfc2104_key hash key) @ msg) (inner m)"

lemma hash_once: "h_digest ops (h_update ops m (h_init ops)) = (hash m, h_init ops)"
  using finish [OF extend [OF start, of m]] by simp

lemma hmac_key_eq: "hmac_key ops key = rfc2104_key hash key"
  using size_block size_hash [of key]
  by (simp add: hmac_key_def rfc2104_key_def hash_once mem_write_def BLOCK_SIZE_def Let_def)

lemma length_rfc2104_key: "length (rfc2104_key hash key) = 64"
  using size_block size_hash [of key] by (simp add: rfc2104_key_def Let_def)

lemma keyed_begin:
  "ipad m = map (\<lambda>b. b XOR 0x36) (rfc2104_key hash key) \<Longrightarrow>
   opad m = map (\<lambda>b. b XOR 0x5C) (rfc2104_key hash key) \<Longrightarrow> keyed key [] (hmac_begin ops m)"
  using extend [OF start, of "ipad m"] by (simp add: keyed_def hmac_begin_def)

lemma keyed_init: "keyed key [] (hmac_init ops key)"
  unfolding hmac_init_def Let_def by (rule keyed_begin) (simp_all add: hmac_key_eq)

lemma keyed_update: "keyed key msg m \<Longrightarrow> keyed key (msg @ d) (hmac_update ops d m)"
  using extend [of "map (\<lambda>b. b XOR 0x36) (rfc2104_key hash key) @ msg" "inner m" d] by (simp add: keyed_def hmac_update_def)

lemma keyed_digest:
  assumes "keyed key msg m"
  shows "fst (hmac_digest ops m) = rfc2104 hash key msg"
    and "keyed key [] (snd (hmac_digest ops m))"
proof -
  from assms have pads: "ipad m = map (\<lambda>b. b XOR 0x36) (rfc2104_key hash key)"
      "opad m = map (\<lambda>b. b XOR 0x5C) (rfc2104_key hash key)"
    and inner: "stands_for (ipad m @ msg) (inner m)"
    by (auto simp: keyed_def)
  note in_digest = finish [OF inner, unfolded pads]
  have "stands_for (opad m @ hash (ipad m @ msg))
      (h_update ops (hash (ipad m @ msg)) (h_update ops (opad m) (h_init ops)))"
    using extend [OF extend [OF start, of "opad m"]] by simp
  note out_digest = finish [OF this, unfolded pads]
  show "fst (hmac_digest ops m) = rfc2104 hash key msg"
    using pads by (simp add: hmac_digest_def in_digest out_digest rfc2104_def Let_def)
  show "keyed key [] (snd (hmac_digest ops m))"
    using pads keyed_begin [of "m\<lparr>inner := h_init ops\<rparr>" key]
    by (simp add: hmac_digest_def in_digest Let_def)
qed

lemma digest_hmac:
  "keyed key msg m \<Longrightarrow>
   \<exists>m'. hmac_digest ops m = (rfc2104 hash key msg, m') \<and> keyed key [] m'"
  using keyed_digest [of key msg m] by (cases "hmac_digest ops m") simp

lemma mac_rfc2104: "hmac_mac ops key msg = rfc2104 hash key msg"
  using keyed_digest(1) [OF keyed_update [OF keyed_init, of key msg]] by (simp add: hmac_mac_def)

lemma size_rfc2104 [simp]: "length (rfc2104 hash key msg) = size"
  by (simp add: rfc2104_def size_hash Let_def)

end

section \<open>The two instances\<close>

definition MD5_ops :: "hash_ctx hash_ops" where
  "MD5_ops = \<lparr>h_init = md5_init, h_update = md5_update, h_digest = md5_digest,
     h_size = 16\<rparr>"

definition SHA1_ops :: "hash_ctx hash_ops" where
  "SHA1_ops = \<lparr>h_init = sha1_init, h_update = sha1_update, h_digest = sha1_digest,
     h_size = 20\<rparr>"

interpretation hmac_md5: stream_hash MD5_ops md5_absorbs md5 16
  by unfold_locales
    (simp_all add: MD5_ops_def md5_absorbs_init md5_absorbs_update md5_digest_absorbs)

interpretation hmac_sha1: stream_hash SHA1_ops sha1_absorbs sha1 20
  by unfold_locales
    (simp_all add: SHA1_ops_def sha1_absorbs_init sha1_absorbs_update sha1_digest_absorbs)

section \<open>Properties\<close>

text \<open>Both hash classes are streaming digests: fed a message in any pieces, empty and unaligned ones included, \<open>digest\<close> returns the padded fold of the block transformation over the whole message (RFC 1321, RFC 3174) and leaves a context as new.\<close>

theorem digest_any_split:
  "md5_digest (fold md5_update ds md5_init) = (md5 (concat ds), md5_init) \<and>
   sha1_digest (fold sha1_update ds sha1_init) = (sha1 (concat ds), sha1_init)"
proof
  have "md5_absorbs (concat ds) (fold md5_update ds md5_init)"
    using block_update_pieces [OF absorbs_start, of md5_transform MD5_IV ds]
    by (simp add: md5_absorbs_def md5_update_def md5_init_def)
  then show "md5_digest (fold md5_update ds md5_init) = (md5 (concat ds), md5_init)"
    by (rule md5_digest_absorbs)
  have "sha1_absorbs (concat ds) (fold sha1_update ds sha1_init)"
    using block_update_pieces [OF absorbs_start, of sha1_transform SHA1_IV ds]
    by (simp add: sha1_absorbs_def sha1_update_def sha1_init_def)
  then show "sha1_digest (fold sha1_update ds sha1_init) = (sha1 (concat ds), sha1_init)"
    by (rule sha1_digest_absorbs)
qed

text \<open>One keyed object used for a series of messages, each given in pieces.\<close>

fun hmac_series :: "'h hash_ops \<Rightarrow> bytes list list \<Rightarrow> 'h hmac \<Rightarrow> bytes list" where
  "hmac_series H [] m = []"
| "hmac_series H (msg # msgs) m =
     (let (d, m) = hmac_digest H (fold (hmac_update H) msg m) in d # hmac_series H msgs m)"

context stream_hash
begin

lemma keyed_pieces: "keyed key msg m \<Longrightarrow> keyed key (msg @ concat ds) (fold (hmac_update ops) ds m)"
proof (induction ds arbitrary: msg m)
  case (Cons d ds)
  from Cons.IH [OF keyed_update [OF Cons.prems]] show ?case by simp
qed simp

lemma series_rfc2104:
  "keyed key [] m \<Longrightarrow> hmac_series ops msgs m = map (\<lambda>msg. rfc2104 hash key (concat msg)) msgs"
proof (induction msgs arbitrary: m)
  case (Cons msg msgs)
  then obtain m' where "hmac_digest ops (fold (hmac_update ops) msg m) = (rfc2104 hash key (concat msg), m')"
    and k: "keyed key [] m'"
    using digest_hmac [OF keyed_pieces [OF Cons.prems, of msg]] by auto
  with Cons.IH [OF k] show ?case by simp
qed simp

end

text \<open>C36: one HMAC object, keyed once with a key of any length, gives the RFC 2104 code of every message of a series, however each is cut into updates: \<open>digest\<close> re-arms the object with its key. Both for MD5 and for SHA-1.\<close>

theorem hmac_series_rfc2104:
  "hmac_series MD5_ops msgs (hmac_init MD5_ops key) = map (\<lambda>msg. rfc2104 md5 key (concat msg)) msgs \<and>
   hmac_series SHA1_ops msgs (hmac_init SHA1_ops key) = map (\<lambda>msg. rfc2104 sha1 key (concat msg)) msgs"
  by (simp add: hmac_md5.series_rfc2104 hmac_sha1.series_rfc2104 hmac_md5.keyed_init hmac_sha1.keyed_init)

end
