(* ===== verification/Prf.thy ===== *)
theory Prf
  imports Hmac
begin

text \<open>
  \<open>tls/prf.hpp\<close>: \<open>p_hash\<close> as the loop over one HMAC object, \<open>prf\<close> with its split of the secret,
  and the three derivations. Against RFC 2246: \<open>p_hash\<close> is the truncated concatenation of
  \<open>HMAC(secret, A(i) + seed)\<close>.
\<close>

unbundle bit_operations_syntax

definition MASTER_SECRET_LEN :: nat where "MASTER_SECRET_LEN = 48"
definition RANDOM_LEN :: nat where "RANDOM_LEN = 32"
definition VERIFY_DATA_LEN :: nat where "VERIFY_DATA_LEN = 12"

definition ascii :: "string \<Rightarrow> bytes" where
  "ascii s = map of_char s"

section \<open>P_hash\<close>

text \<open>
  The \<open>while (off < outlen)\<close> loop; \<open>off\<close> is the length of what has been written. A digest is
  never empty, so the loop makes progress; an empty chunk would loop for ever in the code, and
  the fuel, at most \<open>outlen\<close> turns, tells the two apart.
\<close>

fun p_hash_loop ::
  "'h hash_ops \<Rightarrow> bytes \<Rightarrow> nat \<Rightarrow> nat \<Rightarrow> 'h hmac \<Rightarrow> bytes \<Rightarrow> bytes \<Rightarrow> bytes option" where
  "p_hash_loop H seed outlen fuel mac a out =
     (if length out < outlen
      then (case fuel of
              0 \<Rightarrow> None
            | Suc fuel \<Rightarrow>
               (let mac = hmac_update H a mac;
                    mac = hmac_update H seed mac;
                    (chunk, mac) = hmac_digest H mac;
                    n = min (outlen - length out) (length chunk);
                    out = out @ take n chunk
                in if length out < outlen
                   then (let mac = hmac_update H a mac; (a, mac) = hmac_digest H mac
                         in p_hash_loop H seed outlen fuel mac a out)
                   else p_hash_loop H seed outlen fuel mac a out))
      else Some out)"

declare p_hash_loop.simps [simp del]

definition p_hash :: "'h hash_ops \<Rightarrow> bytes \<Rightarrow> bytes \<Rightarrow> nat \<Rightarrow> bytes option" where
  "p_hash H secret seed outlen =
     (if outlen = 0 then Some []
      else (let mac = hmac_init H secret;
                mac = hmac_update H seed mac;
                (a, mac) = hmac_digest H mac
            in p_hash_loop H seed outlen outlen mac a []))"

section \<open>RFC 2246, section 5\<close>

text \<open>\<open>A(0) = seed\<close>, \<open>A(i) = HMAC(secret, A(i-1))\<close>.\<close>

primrec rfc_A :: "(bytes \<Rightarrow> bytes \<Rightarrow> bytes) \<Rightarrow> bytes \<Rightarrow> bytes \<Rightarrow> nat \<Rightarrow> bytes" where
  "rfc_A mac secret seed 0 = seed"
| "rfc_A mac secret seed (Suc i) = mac secret (rfc_A mac secret seed i)"

definition rfc_p_hash :: "(bytes \<Rightarrow> bytes \<Rightarrow> bytes) \<Rightarrow> bytes \<Rightarrow> bytes \<Rightarrow> nat \<Rightarrow> bytes" where
  "rfc_p_hash mac secret seed n =
     take n (concat (map (\<lambda>i. mac secret (rfc_A mac secret seed i @ seed)) [1..<n + 1]))"

context stream_hash
begin

definition rfc_chunks :: "bytes \<Rightarrow> bytes \<Rightarrow> nat \<Rightarrow> nat \<Rightarrow> bytes" where
  "rfc_chunks secret seed i k =
     concat (map (\<lambda>i. rfc2104 hash secret (rfc_A (rfc2104 hash) secret seed i @ seed)) [i..<i + k])"

lemma rfc_chunks_Suc:
  "rfc_chunks secret seed i (Suc k) =
     rfc2104 hash secret (rfc_A (rfc2104 hash) secret seed i @ seed) @ rfc_chunks secret seed (Suc i) k"
proof -
  have "[i..<i + Suc k] = i # [Suc i..<Suc i + k]"
    by (simp add: upt_conv_Cons del: upt_Suc)
  then show ?thesis by (simp add: rfc_chunks_def del: upt_Suc)
qed

lemma p_hash_loop_result:
  "keyed secret [] mac \<Longrightarrow> a = rfc_A (rfc2104 hash) secret seed i \<Longrightarrow> length out \<le> outlen \<Longrightarrow>
   outlen - length out \<le> fuel \<Longrightarrow>
   p_hash_loop ops seed outlen fuel mac a out =
     Some (take outlen (out @ rfc_chunks secret seed i fuel))"
proof (induction fuel arbitrary: mac a i out)
  case 0
  then show ?case by (simp add: p_hash_loop.simps)
next
  case (Suc fuel)
  show ?case
  proof (cases "length out < outlen")
    case True
    have "keyed secret (a @ seed) (hmac_update ops seed (hmac_update ops a mac))"
      using keyed_update [OF keyed_update [OF Suc.prems(1)]] by simp
    from digest_hmac [OF this] obtain m1
      where m1: "hmac_digest ops (hmac_update ops seed (hmac_update ops a mac)) =
          (rfc2104 hash secret (a @ seed), m1)" and k1: "keyed secret [] m1" by blast
    from digest_hmac [OF keyed_update [OF k1, of a]] obtain m2
      where m2: "hmac_digest ops (hmac_update ops a m1) = (rfc2104 hash secret a, m2)"
        and k2: "keyed secret [] m2" by auto
    define chunk where "chunk = rfc2104 hash secret (a @ seed)"
    have chunk: "length chunk = size" by (simp add: chunk_def)
    define out' where "out' = out @ take (min (outlen - length out) (length chunk)) chunk"
    have out': "out' = take outlen (out @ chunk)"
      using True by (simp add: out'_def min_def)
    have len: "length out' \<le> outlen" "outlen - length out' \<le> fuel"
      using True chunk size_block Suc.prems(4) by (simp_all add: out')
    have unfold: "p_hash_loop ops seed outlen (Suc fuel) mac a out =
       (if length out' < outlen then p_hash_loop ops seed outlen fuel m2 (rfc2104 hash secret a) out'
        else p_hash_loop ops seed outlen fuel m1 a out')"
      using True by (simp add: p_hash_loop.simps [of ops seed outlen "Suc fuel"] m1 m2 out'_def chunk_def Let_def)
    have rhs: "out @ rfc_chunks secret seed i (Suc fuel) = (out @ chunk) @ rfc_chunks secret seed (Suc i) fuel"
      by (simp add: rfc_chunks_Suc chunk_def Suc.prems(2))
    show ?thesis
    proof (cases "length out' < outlen")
      case True
      then have "out' = out @ chunk" by (simp add: out')
      then have "p_hash_loop ops seed outlen fuel m2 (rfc2104 hash secret a) out' =
          Some (take outlen ((out @ chunk) @ rfc_chunks secret seed (Suc i) fuel))"
        using Suc.IH [OF k2 _ len, of "rfc2104 hash secret a" "Suc i"] Suc.prems(2) by simp
      then show ?thesis using True by (simp only: unfold rhs if_True)
    next
      case False
      then have "outlen \<le> length (out @ chunk)" by (simp add: out')
      then show ?thesis
        using False unfolding unfold rhs by (subst p_hash_loop.simps) (simp add: out')
    qed
  next
    case False
    then show ?thesis using Suc.prems(3) by (simp add: p_hash_loop.simps)
  qed
qed

theorem p_hash_rfc2246: "p_hash ops secret seed n = Some (rfc_p_hash (rfc2104 hash) secret seed n)"
proof (cases "n = 0")
  case False
  from digest_hmac [OF keyed_update [OF keyed_init, of secret seed]] obtain m
    where m: "hmac_digest ops (hmac_update ops seed (hmac_init ops secret)) = (rfc2104 hash secret seed, m)"
      and k: "keyed secret [] m" by auto
  from p_hash_loop_result [OF k, of "rfc2104 hash secret seed" seed 1 "[]" n n] False
  show ?thesis
    by (simp add: p_hash_def m rfc_p_hash_def rfc_chunks_def)
qed (simp add: p_hash_def rfc_p_hash_def)

end

section \<open>The pseudo-random function\<close>

definition tls_prf :: "bytes \<Rightarrow> string \<Rightarrow> bytes \<Rightarrow> nat \<Rightarrow> bytes option" where
  "tls_prf secret label seed outlen =
     (let ls = ascii label @ seed;
          half = (length secret + 1) div 2;
          s1 = take half secret;
          s2 = drop (length secret - half) secret
      in case (p_hash MD5_ops s1 ls outlen, p_hash SHA1_ops s2 ls outlen) of
           (Some from_md5, Some from_sha1) \<Rightarrow>
             Some (map (\<lambda>i. from_md5 ! i XOR from_sha1 ! i) [0..<outlen])
         | _ \<Rightarrow> None)"

definition derive_master_secret :: "bytes \<Rightarrow> bytes \<Rightarrow> bytes \<Rightarrow> bytes option" where
  "derive_master_secret pre_master client_random server_random =
     tls_prf pre_master ''master secret'' (take RANDOM_LEN client_random @ take RANDOM_LEN server_random)
       MASTER_SECRET_LEN"

definition derive_key_block :: "bytes \<Rightarrow> bytes \<Rightarrow> bytes \<Rightarrow> nat \<Rightarrow> bytes option" where
  "derive_key_block master server_random client_random outlen =
     tls_prf master ''key expansion'' (take RANDOM_LEN server_random @ take RANDOM_LEN client_random) outlen"

definition derive_verify_data :: "bytes \<Rightarrow> string \<Rightarrow> bytes \<Rightarrow> bytes \<Rightarrow> bytes option" where
  "derive_verify_data master label md5_hash sha1_hash =
     tls_prf master label (take 16 md5_hash @ take 20 sha1_hash) VERIFY_DATA_LEN"

definition rfc_prf :: "bytes \<Rightarrow> string \<Rightarrow> bytes \<Rightarrow> nat \<Rightarrow> bytes" where
  "rfc_prf secret label seed n =
     (let half = (length secret + 1) div 2; ls = ascii label @ seed
      in map2 (XOR) (rfc_p_hash (rfc2104 md5) (take half secret) ls n)
           (rfc_p_hash (rfc2104 sha1) (drop (length secret - half) secret) ls n))"

lemma length_rfc_p_hash:
  assumes "\<And>m. 0 < length (mac secret m)"
  shows "length (rfc_p_hash mac secret seed n) = n"
proof -
  have "k \<le> length (concat (map (\<lambda>i. mac secret (rfc_A mac secret seed i @ seed)) [1..<k + 1]))" for k
  proof (induction k)
    case (Suc k)
    have "[1..<Suc k + 1] = [1..<k + 1] @ [Suc k]" by simp
    then show ?case
      using Suc.IH assms [of "rfc_A mac secret seed (Suc k) @ seed"]
      by (simp only: map_append concat_append length_append list.map concat.simps append_Nil2)
  qed simp
  from this [of n] show ?thesis by (simp add: rfc_p_hash_def)
qed

lemma prf_rfc2246: "tls_prf secret label seed n = Some (rfc_prf secret label seed n)"
proof -
  have "length (rfc_p_hash (rfc2104 md5) s ls n) = n" "length (rfc_p_hash (rfc2104 sha1) s ls n) = n" for s ls
    by (rule length_rfc_p_hash; simp)+
  then show ?thesis
    by (simp add: tls_prf_def rfc_prf_def hmac_md5.p_hash_rfc2246 hmac_sha1.p_hash_rfc2246 Let_def)
      (rule nth_equalityI; simp)
qed

lemma length_rfc_prf [simp]: "length (rfc_prf secret label seed n) = n"
proof -
  have "length (rfc_p_hash (rfc2104 md5) s ls n) = n" "length (rfc_p_hash (rfc2104 sha1) s ls n) = n" for s ls
    by (rule length_rfc_p_hash; simp)+
  then show ?thesis by (simp add: rfc_prf_def Let_def)
qed

text \<open>
  The two halves of an odd secret share its middle byte; together they cover the secret.
\<close>

lemma prf_halves:
  fixes s :: bytes
  defines "half \<equiv> (length s + 1) div 2"
  shows "take half s @ drop (length s mod 2) (drop (length s - half) s) = s"
proof -
  have "length s mod 2 + (length s - half) = half"
    unfolding half_def by (cases "even (length s)") (auto elim!: evenE oddE)
  then have "drop (length s mod 2) (drop (length s - half) s) = drop half s"
    by (simp only: drop_drop)
  then show ?thesis by simp
qed

section \<open>Properties\<close>

text \<open>C35: the pseudo-random function returns, for every secret, label, seed and length, the RFC 2246 value: \<open>P_MD5\<close> of the first half XOR \<open>P_SHA1\<close> of the second, the halves overlapping in the middle byte of an odd secret; its loops end after at most one turn per output byte.\<close>

theorem prf_is_rfc2246:
  "tls_prf secret label seed n = Some (rfc_prf secret label seed n) \<and> length (rfc_prf secret label seed n) = n"
  by (simp add: prf_rfc2246)

text \<open>Master secret, key block and verify data are the RFC 2246 derivations: the master secret and the key block take the two randoms in opposite orders, and all three return the length asked for.\<close>

theorem derivations_rfc2246:
  assumes "length cr = 32" and "length sr = 32"
  shows "derive_master_secret pm cr sr = Some (rfc_prf pm ''master secret'' (cr @ sr) 48) \<and>
    derive_key_block ms sr cr n = Some (rfc_prf ms ''key expansion'' (sr @ cr) n) \<and>
    derive_verify_data ms label (md5 m) (sha1 m) = Some (rfc_prf ms label (md5 m @ sha1 m) 12)"
  using assms
  by (simp add: derive_master_secret_def derive_key_block_def derive_verify_data_def prf_rfc2246
      RANDOM_LEN_def MASTER_SECRET_LEN_def VERIFY_DATA_LEN_def)

lemma derivations_rfc2246_witness:
  "\<exists>ms. derive_master_secret [1, 2, 3] (replicate 32 7) (replicate 32 9) = Some ms \<and> length ms = 48"
  using derivations_rfc2246 [of "replicate 32 7" "replicate 32 9" "[1, 2, 3]"] by simp

end
