(* ===== verification/Bounded_Read.thy ===== *)
theory Bounded_Read
  imports Prelude
begin

text \<open>
  Parsers over a buffer the peer controls. A pointer is an index into the buffer; a read through
  it either yields a byte or is the fault \<open>Out_of_bounds\<close>, kept apart from \<open>Rejected\<close>, the
  parser's own \<open>false\<close>. Showing a parser safe is showing that \<open>Out_of_bounds\<close> never comes out.
\<close>

unbundle bit_operations_syntax

datatype fault = Out_of_bounds | Rejected

type_synonym 'a parsed = "fault + 'a"

definition bind_res :: "'e + 'a \<Rightarrow> ('a \<Rightarrow> 'e + 'b) \<Rightarrow> 'e + 'b" where
  "bind_res m f = (case m of Inl e \<Rightarrow> Inl e | Inr x \<Rightarrow> f x)"

definition require :: "bool \<Rightarrow> unit parsed" where
  "require b = (if b then Inr () else Inl Rejected)"

text \<open>A byte at \<open>p\<close>, and \<open>n\<close> bytes from \<open>p\<close>, as \<open>memcmp\<close> or a copy reads them.\<close>

definition read_at :: "bytes \<Rightarrow> nat \<Rightarrow> byte parsed" where
  "read_at buf p = (if p < length buf then Inr (buf ! p) else Inl Out_of_bounds)"

definition read_span :: "bytes \<Rightarrow> nat \<Rightarrow> nat \<Rightarrow> bytes parsed" where
  "read_span buf p n = (if p + n \<le> length buf then Inr (take n (drop p buf)) else Inl Out_of_bounds)"

lemma bind_res_simps [simp]:
  "bind_res (Inl e) f = Inl e"
  "bind_res (Inr x) f = f x"
  by (simp_all add: bind_res_def)

lemma bind_res_Inr: "bind_res m f = Inr y \<longleftrightarrow> (\<exists>x. m = Inr x \<and> f x = Inr y)"
  by (cases m) simp_all

lemma bind_res_Inl: "bind_res m f = Inl e \<longleftrightarrow> m = Inl e \<or> (\<exists>x. m = Inr x \<and> f x = Inl e)"
  by (cases m) simp_all

lemma require_simps [simp]:
  "require b = Inr u \<longleftrightarrow> b" "require b = Inl e \<longleftrightarrow> \<not> b \<and> e = Rejected"
  by (auto simp: require_def)

lemma read_at_ok [simp]: "p < length buf \<Longrightarrow> read_at buf p = Inr (buf ! p)"
  by (simp add: read_at_def)

lemma read_span_ok [simp]: "p + n \<le> length buf \<Longrightarrow> read_span buf p n = Inr (take n (drop p buf))"
  by (simp add: read_span_def)

lemma read_at_Inr: "read_at buf p = Inr b \<longleftrightarrow> p < length buf \<and> b = buf ! p"
  by (auto simp: read_at_def)

lemma read_span_Inr: "read_span buf p n = Inr bs \<longleftrightarrow> p + n \<le> length buf \<and> bs = take n (drop p buf)"
  by (auto simp: read_span_def)

text \<open>\<open>safe\<close>: the outcome is a value or a rejection, never a read outside the buffer.\<close>

definition safe :: "'a parsed \<Rightarrow> bool" where
  "safe m \<longleftrightarrow> m \<noteq> Inl Out_of_bounds"

named_theorems safe_intros \<open>outcomes that are not a fault\<close>

lemma safe_Inr [safe_intros]: "safe (Inr x)"
  by (simp add: safe_def)

lemma safe_Rejected [safe_intros]: "safe (Inl Rejected)"
  by (simp add: safe_def)

lemma safe_require [safe_intros]: "safe (require b)"
  by (simp add: safe_def)

lemma safe_bind [safe_intros]: "safe m \<Longrightarrow> (\<And>x. m = Inr x \<Longrightarrow> safe (f x)) \<Longrightarrow> safe (bind_res m f)"
  by (cases m) (auto simp: safe_def)

lemma safe_if [safe_intros]: "(b \<Longrightarrow> safe x) \<Longrightarrow> (\<not> b \<Longrightarrow> safe y) \<Longrightarrow> safe (if b then x else y)"
  by simp

lemma safe_read_at [safe_intros]: "p < length buf \<Longrightarrow> safe (read_at buf p)"
  by (simp add: safe_def)

lemma safe_read_span [safe_intros]: "p + n \<le> length buf \<Longrightarrow> safe (read_span buf p n)"
  by (simp add: safe_def)

end
