(* ===== verification/Big_Int.thy ===== *)
theory Big_Int
  imports Prelude
begin

text \<open>
  \<open>crypto/bigint.hpp\<close>: the fixed-width integer as its list of 32-bit limbs, least significant
  first. Where the code walks an array upwards from index \<open>i\<close> the model recurses over the rest of
  the list; where it walks downwards or jumps, it keeps the index. \<open>limbs_val\<close> is the number a limb
  list stands for; every operation is shown to compute the arithmetic it is named after, so that
  \<open>modexp_u32\<close> is \<open>m ^ e mod n\<close>.
\<close>

unbundle bit_operations_syntax

abbreviation limb_base :: nat where
  "limb_base \<equiv> 4294967296"

section \<open>Operations\<close>

definition limbs_zero :: "u32 list \<Rightarrow> bool" where
  "limbs_zero v \<longleftrightarrow> list_all (\<lambda>x. x = 0) v"

text \<open>\<open>while (len > BYTES && *p == 0) { ++p; --len; }\<close>\<close>

fun strip_zeros :: "nat \<Rightarrow> bytes \<Rightarrow> bytes" where
  "strip_zeros n [] = []"
| "strip_zeros n (b # bs) = (if length (b # bs) > n \<and> b = 0 then strip_zeros n bs else b # bs)"

definition load_byte :: "bytes \<Rightarrow> nat \<Rightarrow> u32 list \<Rightarrow> u32 list" where
  "load_byte p i v =
     (let sig = length p - 1 - i
      in v[sig div 4 := v ! (sig div 4) OR push_bit (8 * (sig mod 4)) (ucast (p ! i))])"

text \<open>\<open>from_bytes\<close> for a type of \<open>L\<close> limbs; \<open>None\<close> is the \<open>false\<close> of an overflow.\<close>

definition from_bytes :: "nat \<Rightarrow> bytes \<Rightarrow> u32 list option" where
  "from_bytes L p =
     (let p = strip_zeros (4 * L) p
      in if length p > 4 * L then None
         else Some (fold (load_byte p) [0..<length p] (replicate L 0)))"

definition to_bytes :: "u32 list \<Rightarrow> bytes" where
  "to_bytes v =
     (let n = 4 * length v
      in map (\<lambda>i. let sig = n - 1 - i in ucast (drop_bit (8 * (sig mod 4)) (v ! (sig div 4)))) [0..<n])"

text \<open>\<open>for (i = LIMBS; i-- > 0;) if (a[i] != b[i]) return a[i] > b[i] ? 1 : -1; return 0;\<close>\<close>

fun cmp_limbs :: "u32 list \<Rightarrow> u32 list \<Rightarrow> nat \<Rightarrow> int" where
  "cmp_limbs a b 0 = 0"
| "cmp_limbs a b (Suc i) =
     (if a ! i \<noteq> b ! i then (if a ! i > b ! i then 1 else -1) else cmp_limbs a b i)"

definition big_cmp :: "u32 list \<Rightarrow> u32 list \<Rightarrow> int" where
  "big_cmp a b = cmp_limbs a b (length a)"

definition cmp_ext :: "u32 list \<Rightarrow> u32 list \<Rightarrow> int" where
  "cmp_ext acc n = (if acc ! length n \<noteq> 0 then 1 else cmp_limbs acc n (length n))"

text \<open>\<open>while (x) { ++b; x >>= 1; }\<close>\<close>

function word_bits :: "u32 \<Rightarrow> nat" where
  "word_bits x = (if x \<noteq> 0 then word_bits (drop_bit 1 x) + 1 else 0)"
  by pat_completeness auto
termination
proof (relation "measure unat")
  fix x :: u32
  assume "x \<noteq> 0"
  then have "0 < unat x" by (simp add: unat_gt_0)
  then show "(drop_bit 1 x, x) \<in> measure unat"
    by (simp add: drop_bit_eq_div unat_div_distrib)
qed simp

declare word_bits.simps [simp del]

fun bit_length_of :: "u32 list \<Rightarrow> nat \<Rightarrow> nat" where
  "bit_length_of p 0 = 0"
| "bit_length_of p (Suc i) =
     (if p ! i \<noteq> 0 then i * 32 + word_bits (p ! i) else bit_length_of p i)"

text \<open>The carry loop of \<open>mul_wide\<close>: from \<open>out[i + LIMBS]\<close> on, while there is a carry.\<close>

fun carry_row :: "u32 list \<Rightarrow> u64 \<Rightarrow> u32 list" where
  "carry_row [] carry = []"
| "carry_row (o1 # os) carry =
     (if carry = 0 then o1 # os
      else (let t = ucast o1 + carry in ucast t # carry_row os (drop_bit 32 t)))"

text \<open>The inner loop over \<open>b\<close>, on \<open>out\<close> from index \<open>i\<close>.\<close>

fun mul_row :: "u32 \<Rightarrow> u32 list \<Rightarrow> u32 list \<Rightarrow> u64 \<Rightarrow> u32 list" where
  "mul_row a (b # bs) (o1 # os) carry =
     (let t = (ucast a * ucast b + ucast o1) + carry
      in ucast t # mul_row a bs os (drop_bit 32 t))"
| "mul_row a [] os carry = carry_row os carry"
| "mul_row a (b # bs) [] carry = []"

text \<open>The outer loop over \<open>a\<close>; limb \<open>i\<close> of \<open>out\<close> is final after turn \<open>i\<close>.\<close>

fun mul_rows :: "u32 list \<Rightarrow> u32 list \<Rightarrow> u32 list \<Rightarrow> u32 list" where
  "mul_rows [] b out = out"
| "mul_rows (a # as) b out =
     (let out = (if a = 0 then out else mul_row a b out 0)
      in hd out # mul_rows as b (tl out))"

definition mul_wide :: "u32 list \<Rightarrow> u32 list \<Rightarrow> u32 list" where
  "mul_wide a b = mul_rows a b (replicate (2 * length a) 0)"

fun shift_left_1 :: "u32 list \<Rightarrow> u32 \<Rightarrow> u32 list" where
  "shift_left_1 [] carry = []"
| "shift_left_1 (x # xs) carry =
     (let next_carry = drop_bit 31 x in (push_bit 1 x OR carry) # shift_left_1 xs next_carry)"

fun sub_ext :: "u32 list \<Rightarrow> u32 list \<Rightarrow> u64 \<Rightarrow> u32 list" where
  "sub_ext (x # xs) (n # ns) borrow =
     (let d = (ucast x - ucast n) - borrow
      in ucast d # sub_ext xs ns (if drop_bit 32 d \<noteq> 0 then 1 else 0))"
| "sub_ext (x # xs) [] borrow = (x - ucast borrow) # xs"
| "sub_ext [] ns borrow = []"

text \<open>One turn of \<open>mod_wide\<close> for bit number \<open>bit\<close>.\<close>

definition mod_step :: "u32 list \<Rightarrow> u32 list \<Rightarrow> nat \<Rightarrow> u32 list \<Rightarrow> u32 list" where
  "mod_step wide n k acc =
     (let acc = shift_left_1 acc 0;
          acc = acc[0 := acc ! 0 OR (drop_bit (k mod 32) (wide ! (k div 32)) AND 1)]
      in if cmp_ext acc n \<ge> 0 then sub_ext acc n 0 else acc)"

fun mod_loop :: "u32 list \<Rightarrow> u32 list \<Rightarrow> nat \<Rightarrow> u32 list \<Rightarrow> u32 list" where
  "mod_loop wide n 0 acc = acc"
| "mod_loop wide n (Suc k) acc = mod_loop wide n k (mod_step wide n k acc)"

definition mod_wide :: "u32 list \<Rightarrow> u32 list \<Rightarrow> u32 list" where
  "mod_wide wide n =
     (let top = bit_length_of wide (length wide)
      in take (length n) (mod_loop wide n top (replicate (length n + 1) 0)))"

definition mod_narrow :: "u32 list \<Rightarrow> u32 list \<Rightarrow> u32 list" where
  "mod_narrow a n = mod_wide (a @ replicate (length a) 0) n"

definition mulmod :: "u32 list \<Rightarrow> u32 list \<Rightarrow> u32 list \<Rightarrow> u32 list" where
  "mulmod a b n = mod_wide (mul_wide a b) n"

text \<open>\<open>int top = 31; while (top > 0 && !((e >> top) & 1u)) --top;\<close>\<close>

fun top_bit :: "u32 \<Rightarrow> nat \<Rightarrow> nat" where
  "top_bit e 0 = 0"
| "top_bit e (Suc t) = (if drop_bit (Suc t) e AND 1 = 0 then top_bit e t else Suc t)"

fun modexp_loop :: "u32 list \<Rightarrow> u32 list \<Rightarrow> u32 \<Rightarrow> nat \<Rightarrow> u32 list \<Rightarrow> u32 list" where
  "modexp_loop n base e 0 acc = acc"
| "modexp_loop n base e (Suc i) acc =
     (let acc = mulmod acc acc n;
          acc = (if drop_bit i e AND 1 \<noteq> 0 then mulmod acc base n else acc)
      in modexp_loop n base e i acc)"

definition modexp_u32 :: "u32 list \<Rightarrow> u32 \<Rightarrow> u32 list \<Rightarrow> u32 list option" where
  "modexp_u32 m e n =
     (if limbs_zero n \<or> e = 0 then None
      else (let base = mod_narrow m n; top = top_bit e 31
            in Some (modexp_loop n base e top base)))"

definition modexp_65537 :: "u32 list \<Rightarrow> u32 list \<Rightarrow> u32 list option" where
  "modexp_65537 m n = modexp_u32 m 65537 n"

section \<open>The number a limb list stands for\<close>

fun limbs_val :: "u32 list \<Rightarrow> nat" where
  "limbs_val [] = 0"
| "limbs_val (x # xs) = unat x + limb_base * limbs_val xs"

lemma unat_limb: "unat (x :: u32) < limb_base"
  using unsigned_less [of x] by simp

lemma unat_up: "unat (ucast (x :: u32) :: u64) = unat x"
  using unat_limb [of x] by (simp add: unsigned_ucast_eq take_bit_nat_eq_self)

lemma limbs_val_bound: "limbs_val xs < limb_base ^ length xs"
proof (induction xs)
  case (Cons x xs)
  have "limbs_val xs + 1 \<le> limb_base ^ length xs" using Cons by simp
  then have "limb_base * (limbs_val xs + 1) \<le> limb_base * limb_base ^ length xs"
    by (rule mult_le_mono2)
  then show ?case using unat_limb [of x] by simp
qed simp

lemma limbs_val_append:
  "limbs_val (xs @ ys) = limbs_val xs + limb_base ^ length xs * limbs_val ys"
  by (induction xs) (simp_all add: algebra_simps)

lemma limbs_val_replicate_0 [simp]: "limbs_val (replicate n 0) = 0"
  by (induction n) simp_all

lemma limbs_zero_val: "limbs_zero v \<longleftrightarrow> limbs_val v = 0"
  by (induction v) (auto simp: limbs_zero_def unat_eq_0)

lemma limbs_val_snoc:
  "i < length xs \<Longrightarrow> limbs_val (take (Suc i) xs) = limbs_val (take i xs) + limb_base ^ i * unat (xs ! i)"
  by (simp add: take_Suc_conv_app_nth limbs_val_append)

lemma limbs_val_nth:
  "i < length xs \<Longrightarrow> unat (xs ! i) = limbs_val xs div limb_base ^ i mod limb_base"
proof (induction xs arbitrary: i)
  case (Cons x xs)
  show ?case
  proof (cases i)
    case 0
    then show ?thesis using unat_limb [of x] by simp
  next
    case (Suc j)
    have "(unat x + limb_base * limbs_val xs) div (limb_base * limb_base ^ j) =
        limbs_val xs div limb_base ^ j"
      using unat_limb [of x] by (simp only: div_mult2_eq) simp
    then show ?thesis using Cons Suc by simp
  qed
qed simp

section \<open>Comparison, subtraction, shift\<close>

lemma cmp_limbs_val:
  "i \<le> length a \<Longrightarrow> i \<le> length b \<Longrightarrow>
   cmp_limbs a b i = (if limbs_val (take i a) > limbs_val (take i b) then 1
                      else if limbs_val (take i a) < limbs_val (take i b) then -1 else 0)"
proof (induction i)
  case (Suc i)
  have low: "limbs_val (take i a) < limb_base ^ i" "limbs_val (take i b) < limb_base ^ i"
    using limbs_val_bound [of "take i a"] limbs_val_bound [of "take i b"] Suc.prems by simp_all
  have step: "limb_base ^ i * unat x + limb_base ^ i \<le> limb_base ^ i * unat y"
    if "unat x < unat y" for x y :: u32
    using that mult_le_mono2 [of "unat x + 1" "unat y" "limb_base ^ i"] by simp
  show ?case
  proof (cases "unat (a ! i)" "unat (b ! i)" rule: linorder_cases)
    case less
    then have "a ! i \<noteq> b ! i" "\<not> a ! i > b ! i" by (auto simp: word_less_nat_alt)
    then show ?thesis
      using Suc.prems low step [OF less] by (simp add: limbs_val_snoc)
  next
    case greater
    then have "a ! i \<noteq> b ! i" "a ! i > b ! i" by (auto simp: word_less_nat_alt)
    then show ?thesis
      using Suc.prems low step [OF greater] by (simp add: limbs_val_snoc)
  next
    case equal
    then have "a ! i = b ! i" by (simp add: word_unat_eq_iff)
    then show ?thesis using Suc by (simp add: limbs_val_snoc)
  qed
qed simp

lemma big_cmp_val:
  "length a = length b \<Longrightarrow>
   big_cmp a b = (if limbs_val a > limbs_val b then 1 else if limbs_val a < limbs_val b then -1 else 0)"
  using cmp_limbs_val [of "length a" a b] by (simp add: big_cmp_def)

lemma cmp_ext_val:
  assumes "length acc = length n + 1"
  shows "cmp_ext acc n \<ge> 0 \<longleftrightarrow> limbs_val n \<le> limbs_val acc"
proof -
  have split: "limbs_val acc = limbs_val (take (length n) acc) + limb_base ^ length n * unat (acc ! length n)"
    using limbs_val_snoc [of "length n" acc] assms by simp
  show ?thesis
  proof (cases "acc ! length n = 0")
    case True
    then show ?thesis
      using cmp_limbs_val [of "length n" acc n] assms by (auto simp: cmp_ext_def split)
  next
    case False
    then have "1 \<le> unat (acc ! length n)" by (simp add: Suc_le_eq unat_gt_0)
    then have "limb_base ^ length n \<le> limbs_val acc"
      using mult_le_mono2 [of 1 "unat (acc ! length n)" "limb_base ^ length n"] unfolding split
      by (metis mult.right_neutral trans_le_add2)
    moreover note limbs_val_bound [of n]
    ultimately show ?thesis using False by (simp add: cmp_ext_def)
  qed
qed

text \<open>Low and high halves of a 64-bit sum.\<close>

lemma halves_64:
  fixes t :: u64
  shows "unat (ucast t :: u32) + limb_base * unat (drop_bit 32 t) = unat t"
    and "unat (drop_bit 32 t) < limb_base"
proof -
  have "unat (ucast t :: u32) = unat t mod limb_base"
    by (simp add: unsigned_ucast_eq take_bit_eq_mod)
  moreover have d: "unat (drop_bit 32 t) = unat t div limb_base"
    by (simp add: drop_bit_eq_div unat_div_distrib)
  ultimately show "unat (ucast t :: u32) + limb_base * unat (drop_bit 32 t) = unat t"
    by simp
  have "unat t < limb_base * limb_base" using unsigned_less [of t] by simp
  then show "unat (drop_bit 32 t) < limb_base"
    unfolding d by (rule less_mult_imp_div_less)
qed

lemma sub_ext_length [simp]: "length (sub_ext xs ns b) = length xs"
  by (induction xs ns b rule: sub_ext.induct) (simp_all add: Let_def)

lemma borrow_mod:
  fixes a b c :: int
  assumes "0 \<le> a" and "a < b + c" and "b < 4294967296" and "c \<le> 1"
  shows "(a - b - c) mod 2 ^ 64 = 18446744073709551616 + a - b - c"
proof -
  have "(a - b - c) mod 2 ^ 64 = (a - b - c + 2 ^ 64) mod 2 ^ 64" by (simp only: mod_add_self2)
  also have "\<dots> = a - b - c + 2 ^ 64"
    using assms by (intro mod_pos_pos_trivial) simp_all
  finally show ?thesis by simp
qed

lemma sub_ext_val:
  "length xs = length ns + 1 \<Longrightarrow> unat b \<le> 1 \<Longrightarrow> limbs_val ns + unat b \<le> limbs_val xs \<Longrightarrow>
   limbs_val (sub_ext xs ns b) + limbs_val ns + unat b = limbs_val xs"
proof (induction xs ns b rule: sub_ext.induct)
  case (1 x xs n ns borrow)
  let ?d = "(ucast x - ucast n) - borrow :: u64" and ?h = "drop_bit 32 ((ucast x - ucast n) - borrow :: u64)"
  define b' where "b' = (if ?h \<noteq> 0 then 1 else 0 :: u64)"
  have x: "unat x < limb_base" and n: "unat n < limb_base" by (rule unat_limb)+
  have ux: "unat (ucast x :: u64) = unat x" "unat (ucast n :: u64) = unat n"
    by (rule unat_up)+
  have key: "unat (ucast ?d :: u32) + unat n + unat borrow = unat x + limb_base * unat b'"
  proof (cases "unat n + unat borrow \<le> unat x")
    case True
    have "ucast n \<le> (ucast x :: u64)" using True ux by (simp add: word_le_nat_alt)
    then have u1: "unat (ucast x - ucast n :: u64) = unat x - unat n" by (simp add: unat_sub ux)
    then have "borrow \<le> (ucast x - ucast n :: u64)" using True by (simp add: word_le_nat_alt)
    then have ud: "unat ?d = unat x - unat n - unat borrow" by (simp add: unat_sub u1)
    then have "unat ?d < limb_base" using x by simp
    then have "unat ?h = 0" using halves_64(1) [of ?d] by linarith
    then have "?h = 0" "unat (ucast ?d :: u32) = unat ?d"
      using halves_64(1) [of ?d] by (simp_all add: unat_eq_0)
    then show ?thesis using True ud by (simp add: b'_def)
  next
    case False
    have neg: "unat ?d = 18446744073709551616 + unat x - unat n - unat borrow"
    proof -
      have i: "int (unat x) < int (unat n) + int (unat borrow)" "int (unat n) < 4294967296"
          "int (unat borrow) \<le> 1"
        using False n "1.prems"(2) by linarith+
      have "uint ?d = (uint (ucast x :: u64) - uint (ucast n :: u64) - uint borrow) mod 2 ^ 64"
        by (simp only: uint_word_ariths mod_diff_left_eq) simp
      also have "\<dots> = (int (unat x) - int (unat n) - int (unat borrow)) mod 2 ^ 64"
        by (simp only: uint_nat ux)
      also have "\<dots> = 18446744073709551616 + int (unat x) - int (unat n) - int (unat borrow)"
        by (rule borrow_mod [OF of_nat_0_le_iff i])
      finally have "int (unat ?d) = 18446744073709551616 + int (unat x) - int (unat n) - int (unat borrow)"
        by (simp only: uint_nat)
      then show ?thesis using n "1.prems"(2) by linarith
    qed
    have "limb_base * unat ?h \<le> unat ?d" "unat ?d < limb_base * unat ?h + limb_base"
      using halves_64 [of ?d] unat_limb [of "ucast ?d"] by linarith+
    moreover have "limb_base * limb_base - limb_base \<le> unat ?d" "unat ?d < limb_base * limb_base"
      using neg False x n "1.prems"(2) by simp_all
    ultimately have "unat ?h = limb_base - 1" by simp
    then have "?h \<noteq> 0" "unat (ucast ?d :: u32) + limb_base * (limb_base - 1) = unat ?d"
      using halves_64 [of ?d] by (auto simp: unat_eq_0 [symmetric])
    then show ?thesis using neg False x n "1.prems"(2) by (simp add: b'_def)
  qed
  have "limbs_val ns + unat b' \<le> limbs_val xs"
  proof (rule ccontr)
    assume "\<not> ?thesis"
    then have "limb_base * (limbs_val xs + 1) \<le> limb_base * (limbs_val ns + unat b')"
      by (intro mult_le_mono2) simp
    moreover have "unat (ucast ?d :: u32) < limb_base" by (rule unat_limb)
    ultimately show False using key "1.prems"(3) by (simp add: algebra_simps)
  qed
  then have "limbs_val (sub_ext xs ns b') + limbs_val ns + unat b' = limbs_val xs"
    using "1.IH" [OF refl] "1.prems"(1) by (simp add: b'_def)
  then have "limb_base * limbs_val (sub_ext xs ns b') + limb_base * limbs_val ns + limb_base * unat b'
     = limb_base * limbs_val xs"
    by (simp only: add_mult_distrib2 [symmetric])
  moreover have "sub_ext (x # xs) (n # ns) borrow = ucast ?d # sub_ext xs ns b'"
    by (simp add: b'_def Let_def)
  ultimately show ?case
    using key by (simp add: add_mult_distrib2)
next
  case (2 x xs borrow)
  have xs: "xs = []" using "2.prems"(1) by simp
  then have "unat (ucast borrow :: u32) = unat borrow" "unat borrow \<le> unat x"
    using "2.prems"(2,3) by (simp_all add: unsigned_ucast_eq take_bit_nat_eq_self)
  then show ?case using xs by (simp add: unat_sub word_le_nat_alt)
qed simp

section \<open>The full product\<close>

lemma length_carry_row [simp]: "length (carry_row os c) = length os"
  by (induction os c rule: carry_row.induct) (simp_all add: Let_def)

lemma length_mul_row [simp]: "length (mul_row a bs os c) = length os"
  by (induction a bs os c rule: mul_row.induct) (simp_all add: Let_def)

text \<open>A carry that fits below the end of the array is never lost.\<close>

lemma carry_row_val:
  "unat c < limb_base \<Longrightarrow> limbs_val os + unat c < limb_base ^ length os \<Longrightarrow>
   limbs_val (carry_row os c) = limbs_val os + unat c"
proof (induction os c rule: carry_row.induct)
  case (2 o1 os c)
  show ?case
  proof (cases "c = 0")
    case False
    let ?t = "ucast o1 + c :: u64"
    have t: "unat ?t = unat o1 + unat c"
      using unat_limb [of o1] "2.prems"(1) by (simp add: unat_word_ariths unat_up)
    note h = halves_64 [of ?t]
    have "limb_base * (limbs_val os + unat (drop_bit 32 ?t)) < limb_base * limb_base ^ length os"
      using h(1) t "2.prems"(2) by (simp add: add_mult_distrib2)
    then have "limbs_val os + unat (drop_bit 32 ?t) < limb_base ^ length os"
      by (simp only: nat_mult_less_cancel1)
    from "2.IH" [OF False refl h(2) this] show ?thesis
      using False h(1) t by (simp add: Let_def add_mult_distrib2)
  qed simp
qed simp

lemma mul_add_64:
  "unat (a :: u32) * unat (b :: u32) + unat (p :: u32) + unat (c :: u64) < limb_base * limb_base"
  if "unat c < limb_base"
proof -
  have "unat a * unat b \<le> (limb_base - 1) * (limb_base - 1)"
    using unat_limb [of a] unat_limb [of b] by (intro mult_le_mono) simp_all
  then show ?thesis using that unat_limb [of p] by simp
qed

lemma mul_row_val:
  "unat c < limb_base \<Longrightarrow> length bs \<le> length os \<Longrightarrow>
   unat a * limbs_val bs + limbs_val os + unat c < limb_base ^ length os \<Longrightarrow>
   limbs_val (mul_row a bs os c) = unat a * limbs_val bs + limbs_val os + unat c"
proof (induction a bs os c rule: mul_row.induct)
  case (1 a b bs o1 os c)
  let ?t = "(ucast a * ucast b + ucast o1) + c :: u64"
  have t: "unat ?t = unat a * unat b + unat o1 + unat c"
    using mul_add_64 [OF "1.prems"(1), of a b o1]
    by (simp add: unat_word_ariths unat_up mod_simps)
  note h = halves_64 [of ?t]
  have "limb_base * (unat a * limbs_val bs + limbs_val os + unat (drop_bit 32 ?t))
      < limb_base * limb_base ^ length os"
    using h(1) t "1.prems"(3) by (simp add: algebra_simps)
  then have "unat a * limbs_val bs + limbs_val os + unat (drop_bit 32 ?t) < limb_base ^ length os"
    by (simp only: nat_mult_less_cancel1)
  from "1.IH" [OF refl h(2) _ this] "1.prems"(2)
  have "limbs_val (mul_row a bs os (drop_bit 32 ?t)) =
      unat a * limbs_val bs + limbs_val os + unat (drop_bit 32 ?t)" by simp
  moreover have "mul_row a (b # bs) (o1 # os) c = ucast ?t # mul_row a bs os (drop_bit 32 ?t)"
    by (simp add: Let_def)
  ultimately show ?case
    using h(1) t by (simp add: add_mult_distrib2)
qed (simp_all add: carry_row_val)

lemma limbs_hd_tl: "xs \<noteq> [] \<Longrightarrow> limbs_val xs = unat (hd xs) + limb_base * limbs_val (tl xs)"
  by (cases xs) simp_all

lemma mul_rows_val:
  "length os = length as + length bs \<Longrightarrow> limbs_val os < limb_base ^ length bs \<Longrightarrow>
   limbs_val (mul_rows as bs os) = limbs_val as * limbs_val bs + limbs_val os \<and>
   length (mul_rows as bs os) = length os"
proof (induction as arbitrary: os)
  case (Cons a as)
  let ?o = "if a = 0 then os else mul_row a bs os 0"
  have len: "length ?o = Suc (length as + length bs)" using Cons.prems(1) by simp
  have "unat a * limbs_val bs \<le> 4294967295 * limbs_val bs"
    using unat_limb [of a] by (intro mult_le_mono1) simp
  then have fits: "unat a * limbs_val bs + limbs_val os < limb_base * limb_base ^ length bs"
    using Cons.prems(2) limbs_val_bound [of bs] by linarith
  also have "\<dots> \<le> limb_base ^ length os"
    using power_increasing [of "Suc (length bs)" "length os" limb_base] Cons.prems(1) by simp
  finally have "unat a * limbs_val bs + limbs_val os < limb_base ^ length os" .
  then have val: "limbs_val ?o = unat a * limbs_val bs + limbs_val os"
    using mul_row_val [of 0 bs os a] Cons.prems(1) by simp
  have split: "limbs_val ?o = unat (hd ?o) + limb_base * limbs_val (tl ?o)"
    using len by (intro limbs_hd_tl) auto
  then have "limb_base * limbs_val (tl ?o) < limb_base * limb_base ^ length bs"
    using fits val by linarith
  then have "limbs_val (tl ?o) < limb_base ^ length bs" by (simp only: nat_mult_less_cancel1)
  from Cons.IH [OF _ this] len
  have rest: "limbs_val (mul_rows as bs (tl ?o)) = limbs_val as * limbs_val bs + limbs_val (tl ?o)"
    "length (mul_rows as bs (tl ?o)) = length as + length bs" by simp_all
  have unfold: "mul_rows (a # as) bs os = hd ?o # mul_rows as bs (tl ?o)"
    by (simp add: Let_def)
  show ?case
    unfolding unfold using rest val split Cons.prems(1) by (simp add: algebra_simps)
qed simp

lemma mul_wide_val:
  assumes "length b = length a"
  shows "limbs_val (mul_wide a b) = limbs_val a * limbs_val b" "length (mul_wide a b) = 2 * length a"
  using mul_rows_val [of "replicate (2 * length a) 0" a b] assms by (simp_all add: mul_wide_def)

section \<open>Reduction\<close>

lemma length_shift_left_1 [simp]: "length (shift_left_1 xs c) = length xs"
  by (induction xs c rule: shift_left_1.induct) (simp_all add: Let_def)

lemma shift_word:
  assumes "unat c \<le> 1"
  shows "unat (push_bit 1 x OR c) + limb_base * unat (drop_bit 31 x) = 2 * unat (x :: u32) + unat c"
    and "unat (drop_bit 31 x) \<le> 1"
proof -
  have p: "unat (push_bit 1 x) = (2 * unat x) mod limb_base"
    by (simp only: unsigned_push_bit_eq) (simp add: take_bit_eq_mod push_bit_eq_mult mult.commute)
  then have "2 dvd unat (push_bit 1 x)" by (simp add: dvd_mod)
  then have o: "unat (push_bit 1 x OR c) = unat (push_bit 1 x) + unat c"
    using assms by (simp only: unsigned_or_eq) (intro or_disjoint_add [of 1], simp_all)
  have d: "unat (drop_bit 31 x) = unat x div 2147483648"
    by (simp add: drop_bit_eq_div unat_div_distrib)
  have "unat x < 2 * 2147483648" using unat_limb [of x] by simp
  then show "unat (drop_bit 31 x) \<le> 1" unfolding d by (simp add: less_mult_imp_div_less Suc_le_eq less_Suc_eq_le)
  have "(2 * unat x) div limb_base = unat x div 2147483648"
    using div_mult_mult1 [of 2 "unat x" 2147483648] by simp
  then show "unat (push_bit 1 x OR c) + limb_base * unat (drop_bit 31 x) = 2 * unat x + unat c"
    using o p d mult_div_mod_eq [of limb_base "2 * unat x"] by simp
qed

lemma shift_left_1_val:
  "unat c \<le> 1 \<Longrightarrow> 2 * limbs_val xs + unat c < limb_base ^ length xs \<Longrightarrow>
   limbs_val (shift_left_1 xs c) = 2 * limbs_val xs + unat c"
proof (induction xs c rule: shift_left_1.induct)
  case (2 x xs c)
  note s = shift_word [OF "2.prems"(1), of x]
  have "limb_base * (2 * limbs_val xs + unat (drop_bit 31 x)) < limb_base * limb_base ^ length xs"
    using s(1) "2.prems"(2) by (simp add: algebra_simps)
  then have "2 * limbs_val xs + unat (drop_bit 31 x) < limb_base ^ length xs"
    by (simp only: nat_mult_less_cancel1)
  from "2.IH" [OF refl s(2) this]
  have "limbs_val (shift_left_1 xs (drop_bit 31 x)) = 2 * limbs_val xs + unat (drop_bit 31 x)" .
  moreover have "shift_left_1 (x # xs) c = (push_bit 1 x OR c) # shift_left_1 xs (drop_bit 31 x)"
    by (simp add: Let_def)
  ultimately show ?case using s(1) by (simp add: algebra_simps)
qed simp

text \<open>Bringing a bit down into limb 0 is shifting it in.\<close>

lemma shift_in_bit:
  "xs \<noteq> [] \<Longrightarrow> (shift_left_1 xs 0)[0 := shift_left_1 xs 0 ! 0 OR b] = shift_left_1 xs b"
  by (cases xs) (simp_all add: Let_def)

lemma limbs_val_bit:
  assumes "k < 32 * length w"
  shows "unat (drop_bit (k mod 32) (w ! (k div 32)) AND 1) = limbs_val w div 2 ^ k mod 2"
proof -
  have i: "k div 32 < length w" using assms by (simp add: less_mult_imp_div_less mult.commute)
  have pow: "limb_base ^ (k div 32) = 2 ^ (32 * (k div 32))"
    by (simp add: power_mult)
  have "unat (w ! (k div 32)) = limbs_val w div limb_base ^ (k div 32) mod limb_base"
    by (rule limbs_val_nth [OF i])
  also have "\<dots> = take_bit 32 (drop_bit (32 * (k div 32)) (limbs_val w))"
    unfolding pow by (simp add: take_bit_eq_mod drop_bit_eq_div)
  finally have w: "unat (w ! (k div 32)) = take_bit 32 (drop_bit (32 * (k div 32)) (limbs_val w))" .
  have "unat (drop_bit (k mod 32) (w ! (k div 32)) AND 1) = drop_bit (k mod 32) (unat (w ! (k div 32))) AND 1"
    by (simp only: unsigned_and_eq unsigned_drop_bit_eq unsigned_1) (simp add: take_bit_nat_eq_self unat_limb)
  also have "\<dots> = of_bool (bit (unat (w ! (k div 32))) (k mod 32))"
    by (simp add: and_one_eq bit_iff_odd_drop_bit mod2_eq_if)
  also have "bit (unat (w ! (k div 32))) (k mod 32) = bit (limbs_val w) k"
    by (simp add: w bit_simps)
  finally show ?thesis
    by (simp add: bit_iff_odd mod2_eq_if)
qed

lemma mod_step_val:
  assumes len: "length acc = length n + 1" and less: "limbs_val acc < limbs_val n"
    and k: "k < 32 * length wide"
  shows "limbs_val (mod_step wide n k acc) = (2 * limbs_val acc + limbs_val wide div 2 ^ k mod 2) mod limbs_val n"
    and "length (mod_step wide n k acc) = length n + 1"
proof -
  let ?b = "drop_bit (k mod 32) (wide ! (k div 32)) AND 1 :: u32" and ?n = "limbs_val n"
  let ?s = "shift_left_1 acc ?b"
  have b: "unat ?b = limbs_val wide div 2 ^ k mod 2" by (rule limbs_val_bit [OF k])
  have b1: "unat ?b \<le> 1" unfolding b by simp
  have t: "2 * limbs_val acc + unat ?b < 2 * ?n" using less b1 by linarith
  also have "2 * ?n \<le> limb_base * limb_base ^ length n"
    using limbs_val_bound [of n] by (intro mult_le_mono) simp_all
  also have "\<dots> = limb_base ^ length acc" by (simp add: len)
  finally have val: "limbs_val ?s = 2 * limbs_val acc + unat ?b"
    by (intro shift_left_1_val b1)
  have ls: "length ?s = length n + 1" by (simp add: len)
  have "acc \<noteq> []" using len by auto
  then have step: "mod_step wide n k acc = (if cmp_ext ?s n \<ge> 0 then sub_ext ?s n 0 else ?s)"
    by (simp only: mod_step_def Let_def shift_in_bit [OF \<open>acc \<noteq> []\<close>])
  show "length (mod_step wide n k acc) = length n + 1"
    using ls by (simp add: step)
  show "limbs_val (mod_step wide n k acc) = (2 * limbs_val acc + limbs_val wide div 2 ^ k mod 2) mod ?n"
  proof (cases "?n \<le> limbs_val ?s")
    case True
    then have "limbs_val (sub_ext ?s n 0) = limbs_val ?s - ?n"
      using sub_ext_val [OF ls, of 0] by simp
    moreover have "limbs_val ?s mod ?n = limbs_val ?s - ?n"
      using True t unfolding val by (subst le_mod_geq) simp_all
    ultimately show ?thesis
      using True cmp_ext_val [OF ls] by (simp add: step val b)
  next
    case False
    then show ?thesis
      using cmp_ext_val [OF ls] by (simp add: step val b)
  qed
qed

lemma mod_loop_val:
  "length acc = length n + 1 \<Longrightarrow> 0 < limbs_val n \<Longrightarrow> k \<le> 32 * length wide \<Longrightarrow>
   limbs_val acc = limbs_val wide div 2 ^ k mod limbs_val n \<Longrightarrow>
   limbs_val (mod_loop wide n k acc) = limbs_val wide mod limbs_val n \<and>
   length (mod_loop wide n k acc) = length n + 1"
proof (induction k arbitrary: acc)
  case (Suc k)
  let ?n = "limbs_val n" and ?w = "limbs_val wide"
  have "limbs_val acc < ?n" using Suc.prems(2,4) by simp
  note step = mod_step_val [OF Suc.prems(1) this, of k wide]
  have split: "?w div 2 ^ k = 2 * (?w div 2 ^ Suc k) + ?w div 2 ^ k mod 2"
    using mult_div_mod_eq [of 2 "?w div 2 ^ k"] by (simp add: div_mult2_eq [symmetric] mult.commute)
  have "(2 * limbs_val acc + ?w div 2 ^ k mod 2) mod ?n =
      (2 * (?w div 2 ^ Suc k) + ?w div 2 ^ k mod 2) mod ?n"
    unfolding Suc.prems(4) by (metis mod_add_left_eq mod_mult_right_eq)
  also have "\<dots> = ?w div 2 ^ k mod ?n" by (simp only: split [symmetric])
  finally show ?case
    using Suc.prems step by (simp add: Suc.IH)
qed simp

section \<open>Bit lengths\<close>

lemma word_bits_val: "unat x < 2 ^ word_bits x" "x \<noteq> 0 \<Longrightarrow> 2 ^ (word_bits x - 1) \<le> unat x"
proof (induction x rule: word_bits.induct)
  case (1 x)
  have d: "unat (drop_bit 1 x) = unat x div 2"
    by (simp add: drop_bit_eq_div unat_div_distrib)
  {
    case 1
    show ?case
    proof (cases "x = 0")
      case False
      then have "unat x div 2 < 2 ^ word_bits (drop_bit 1 x)" using "1.IH"(1) d by simp
      then show ?thesis using False by (simp add: word_bits.simps [of x])
    qed (simp add: word_bits.simps)
  next
    case 2
    show ?case
    proof (cases "drop_bit 1 x = 0")
      case True
      then show ?thesis using 2 by (simp add: word_bits.simps [of x] word_bits.simps [of 0] Suc_le_eq unat_gt_0)
    next
      case False
      then have "2 ^ (word_bits (drop_bit 1 x) - 1) \<le> unat x div 2" "0 < word_bits (drop_bit 1 x)"
        using "1.IH"(2) [OF 2] d by simp_all (simp add: word_bits.simps [of "drop_bit (Suc 0) x"])
      then have "2 ^ word_bits (drop_bit 1 x) \<le> unat x"
        by (cases "word_bits (drop_bit 1 x)") simp_all
      then show ?thesis using 2 by (simp add: word_bits.simps [of x])
    qed
  }
qed

lemma bit_length_val:
  "i \<le> length p \<Longrightarrow> limbs_val (take i p) < 2 ^ bit_length_of p i \<and>
     (limbs_val (take i p) \<noteq> 0 \<longrightarrow> 2 ^ (bit_length_of p i - 1) \<le> limbs_val (take i p)) \<and>
     bit_length_of p i \<le> 32 * i"
proof (induction i)
  case (Suc i)
  let ?x = "p ! i" and ?low = "limbs_val (take i p)"
  have i: "i < length p" using Suc.prems by simp
  have val: "limbs_val (take (Suc i) p) = ?low + limb_base ^ i * unat ?x"
    by (rule limbs_val_snoc [OF i])
  have pow: "limb_base ^ i = 2 ^ (32 * i)" by (simp add: power_mult)
  have low: "?low < 2 ^ (32 * i)"
    using limbs_val_bound [of "take i p"] i unfolding pow [symmetric] by simp
  show ?case
  proof (cases "?x = 0")
    case True
    then show ?thesis using Suc val by simp
  next
    case False
    let ?b = "word_bits ?x"
    have b: "unat ?x < 2 ^ ?b" "2 ^ (?b - 1) \<le> unat ?x" "1 \<le> ?b"
      using word_bits_val [of ?x] False by (simp_all add: word_bits.simps [of ?x])
    have "2 ^ (?b - 1) < (2 :: nat) ^ 32" using b(2) unat_limb [of ?x] by simp
    then have "?b - 1 < 32" by (rule power_less_imp_less_exp [rotated]) simp
    moreover have "limb_base ^ i * (unat ?x + 1) \<le> limb_base ^ i * 2 ^ ?b"
      using b(1) by (intro mult_le_mono2) simp
    then have "limbs_val (take (Suc i) p) < 2 ^ (i * 32 + ?b)"
      using low by (simp add: val pow power_add mult.commute)
    moreover have "2 ^ (32 * i) * 2 ^ (?b - 1) \<le> 2 ^ (32 * i) * unat ?x"
      using b(2) by (intro mult_le_mono2)
    then have "2 ^ (32 * i + (?b - 1)) \<le> limbs_val (take (Suc i) p)"
      unfolding val pow power_add by linarith
    moreover have "32 * i + (?b - 1) = i * 32 + ?b - 1" using b(3) by simp
    ultimately show ?thesis using False b(3) by simp
  qed
qed simp

lemma mod_wide_val:
  assumes "0 < limbs_val n"
  shows "limbs_val (mod_wide wide n) = limbs_val wide mod limbs_val n" "length (mod_wide wide n) = length n"
proof -
  let ?top = "bit_length_of wide (length wide)"
  let ?r = "mod_loop wide n ?top (replicate (length n + 1) 0)"
  have top: "limbs_val wide < 2 ^ ?top" "?top \<le> 32 * length wide"
    using bit_length_val [of "length wide" wide] by simp_all
  then have "limbs_val (replicate (length n + 1) 0) = limbs_val wide div 2 ^ ?top mod limbs_val n"
    by (simp del: replicate_Suc)
  from mod_loop_val [OF _ assms top(2) this]
  have r: "limbs_val ?r = limbs_val wide mod limbs_val n" "length ?r = length n + 1" by simp_all
  have "limbs_val ?r < limb_base ^ length n"
    using assms limbs_val_bound [of n] unfolding r(1) by (meson mod_less_divisor order_less_trans)
  moreover have split: "limbs_val ?r = limbs_val (take (length n) ?r) + limb_base ^ length n * unat (?r ! length n)"
    using limbs_val_snoc [of "length n" ?r] r(2) by simp
  ultimately have "unat (?r ! length n) = 0"
    by (cases "unat (?r ! length n)") simp_all
  then show "limbs_val (mod_wide wide n) = limbs_val wide mod limbs_val n"
    using split r(1) by (simp add: mod_wide_def Let_def)
  show "length (mod_wide wide n) = length n"
    using r(2) by (simp add: mod_wide_def Let_def)
qed

lemma mod_narrow_val:
  "0 < limbs_val n \<Longrightarrow> limbs_val (mod_narrow a n) = limbs_val a mod limbs_val n"
  "0 < limbs_val n \<Longrightarrow> length (mod_narrow a n) = length n"
  by (simp_all add: mod_narrow_def mod_wide_val limbs_val_append)

lemma mulmod_val:
  assumes "0 < limbs_val n" and "length b = length a"
  shows "limbs_val (mulmod a b n) = limbs_val a * limbs_val b mod limbs_val n"
    "length (mulmod a b n) = length n"
  using assms by (simp_all add: mulmod_def mod_wide_val mul_wide_val)

section \<open>Exponentiation\<close>

lemma top_bit_val:
  "unat e < 2 ^ Suc t \<Longrightarrow> e \<noteq> 0 \<Longrightarrow> unat e div 2 ^ top_bit e t = 1 \<and> top_bit e t \<le> t"
proof (induction t)
  case 0
  then have "unat e < 2" "unat e \<noteq> 0" by (simp_all add: unat_eq_0)
  then have "unat e = 1" by linarith
  then show ?case by simp
next
  case (Suc t)
  have bit: "unat (drop_bit (Suc t) e AND 1) = unat e div 2 ^ Suc t mod 2"
    by (simp only: unsigned_and_eq unsigned_drop_bit_eq unsigned_1)
      (simp add: take_bit_nat_eq_self unat_limb drop_bit_eq_div and_one_eq)
  have "unat e div 2 ^ Suc t < 2" using Suc.prems(1) by (simp add: less_mult_imp_div_less)
  then have b: "unat (drop_bit (Suc t) e AND 1) = unat e div 2 ^ Suc t" using bit by simp
  show ?case
  proof (cases "drop_bit (Suc t) e AND 1 = 0")
    case True
    then have "unat e < 2 ^ Suc t" using b by (simp add: div_eq_0_iff)
    from Suc.IH [OF this Suc.prems(2)] True show ?thesis by simp
  next
    case False
    then have "unat e div 2 ^ Suc t = 1" using b \<open>unat e div 2 ^ Suc t < 2\<close>
      by (metis less_2_cases One_nat_def unat_eq_0)
    then show ?thesis using False by simp
  qed
qed

lemma modexp_loop_val:
  "0 < limbs_val n \<Longrightarrow> length acc = length n \<Longrightarrow> length base = length n \<Longrightarrow>
   limbs_val acc = limbs_val base ^ (unat e div 2 ^ i) mod limbs_val n \<Longrightarrow>
   limbs_val (modexp_loop n base e i acc) = limbs_val base ^ unat e mod limbs_val n \<and>
   length (modexp_loop n base e i acc) = length n"
proof (induction i arbitrary: acc)
  case (Suc i)
  let ?n = "limbs_val n" and ?b = "limbs_val base" and ?q = "unat e div 2 ^ Suc i"
  let ?sq = "mulmod acc acc n"
  let ?acc = "if drop_bit i e AND 1 \<noteq> 0 then mulmod ?sq base n else ?sq"
  have bit: "unat (drop_bit i e AND 1) = unat e div 2 ^ i mod 2"
    by (simp only: unsigned_and_eq unsigned_drop_bit_eq unsigned_1)
      (simp add: take_bit_nat_eq_self unat_limb drop_bit_eq_div and_one_eq)
  have split: "unat e div 2 ^ i = 2 * ?q + unat e div 2 ^ i mod 2"
    using mult_div_mod_eq [of 2 "unat e div 2 ^ i"] by (simp add: div_mult2_eq [symmetric] mult.commute)
  have sq: "limbs_val ?sq = ?b ^ (2 * ?q) mod ?n" "length ?sq = length n"
    using mulmod_val [OF Suc.prems(1), of acc acc] Suc.prems(2,4)
    by (simp_all add: mod_mult_eq power_add [symmetric] mult_2)
  have "limbs_val ?acc = ?b ^ (unat e div 2 ^ i) mod ?n \<and> length ?acc = length n"
  proof (cases "drop_bit i e AND 1 = 0")
    case True
    then have "unat e div 2 ^ i = 2 * ?q" using bit split by simp
    then show ?thesis using True sq by simp
  next
    case False
    then have "unat e div 2 ^ i mod 2 = 1" using bit by (metis mod2_eq_if unat_eq_0)
    then have "unat e div 2 ^ i = 2 * ?q + 1" using split by simp
    then show ?thesis
      using False mulmod_val [OF Suc.prems(1), of base ?sq] sq Suc.prems(3)
      by (simp add: mod_mult_left_eq) (simp only: mult.commute)
  qed
  then show ?case
    using Suc.IH [of ?acc] Suc.prems(1,3) by (simp add: Let_def)
qed simp

lemma modexp_u32_val:
  assumes "length m = length n"
  shows "modexp_u32 m e n = None \<longleftrightarrow> limbs_val n = 0 \<or> e = 0"
    and "modexp_u32 m e n = Some c \<Longrightarrow>
      limbs_val c = limbs_val m ^ unat e mod limbs_val n \<and> length c = length n"
proof -
  show "modexp_u32 m e n = None \<longleftrightarrow> limbs_val n = 0 \<or> e = 0"
    by (simp add: modexp_u32_def limbs_zero_val Let_def)
  assume "modexp_u32 m e n = Some c"
  then have n: "0 < limbs_val n" and e: "e \<noteq> 0"
    and c: "c = modexp_loop n (mod_narrow m n) e (top_bit e 31) (mod_narrow m n)"
    by (auto simp: modexp_u32_def limbs_zero_val Let_def split: if_splits)
  have "unat e div 2 ^ top_bit e 31 = 1"
    using top_bit_val [of e 31] e unat_limb [of e] by simp
  then show "limbs_val c = limbs_val m ^ unat e mod limbs_val n \<and> length c = length n"
    using modexp_loop_val [OF n, of "mod_narrow m n" "mod_narrow m n" e "top_bit e 31"]
      mod_narrow_val [OF n, of m] by (simp add: c power_mod)
qed

section \<open>Octet strings\<close>

text \<open>The number of a big-endian byte string (OS2IP of PKCS 1).\<close>

definition be_val :: "bytes \<Rightarrow> nat" where
  "be_val p = foldl (\<lambda>a b. 256 * a + unat b) 0 p"

lemma byte_bound: "unat (b :: byte) < 256"
  using unsigned_less [of b] by simp

lemma be_val_snoc: "be_val (p @ [b]) = 256 * be_val p + unat b"
  by (simp add: be_val_def)

lemma be_val_Nil [simp]: "be_val [] = 0"
  by (simp add: be_val_def)

lemma be_val_append: "be_val (p @ q) = be_val p * 256 ^ length q + be_val q"
proof (induction q rule: rev_induct)
  case (snoc b q)
  then show ?case
    by (simp add: be_val_snoc append_assoc [symmetric] algebra_simps del: append_assoc)
qed simp

lemma be_val_Cons: "be_val (b # p) = unat b * 256 ^ length p + be_val p"
  using be_val_append [of "[b]" p] by (simp add: be_val_def)

lemma be_val_bound: "be_val p < 256 ^ length p"
proof (induction p rule: rev_induct)
  case (snoc b p)
  note byte_bound [of b]
  then show ?case using snoc by (simp add: be_val_snoc)
qed simp

lemma strip_zeros_val: "be_val (strip_zeros n p) = be_val p"
  by (induction n p rule: strip_zeros.induct) (simp_all add: be_val_Cons)

lemma strip_zeros_fits: "be_val p < 256 ^ n \<Longrightarrow> length (strip_zeros n p) \<le> n"
proof (induction n p rule: strip_zeros.induct)
  case (2 n b bs)
  show ?case
  proof (cases "length (b # bs) > n")
    case True
    have "b = 0"
    proof (rule ccontr)
      assume "b \<noteq> 0"
      then have "1 * 256 ^ n \<le> unat b * 256 ^ length bs"
        using True by (intro mult_le_mono power_increasing) (simp_all add: Suc_le_eq unat_gt_0)
      then show False using "2.prems" by (simp add: be_val_Cons)
    qed
    then show ?thesis using True 2 by (simp add: be_val_Cons)
  qed simp
qed simp

lemma strip_zeros_le: "n < length (strip_zeros n p) \<Longrightarrow> 256 ^ n \<le> be_val p"
  using strip_zeros_fits [of p n] by (meson not_le)

text \<open>Writing a byte into a limb whose lower bytes and this one are still clear.\<close>

lemma limbs_val_update:
  "i < length v \<Longrightarrow> limbs_val (v[i := x]) + limb_base ^ i * unat (v ! i) = limbs_val v + limb_base ^ i * unat x"
proof (induction v arbitrary: i)
  case (Cons y v)
  show ?case
  proof (cases i)
    case (Suc j)
    then have "limbs_val (v[j := x]) + limb_base ^ j * unat (v ! j) = limbs_val v + limb_base ^ j * unat x"
      using Cons by simp
    then have "limb_base * (limbs_val (v[j := x]) + limb_base ^ j * unat (v ! j)) =
        limb_base * (limbs_val v + limb_base ^ j * unat x)" by simp
    then show ?thesis by (simp add: Suc add_mult_distrib2 mult.assoc)
  qed simp
qed simp

lemma load_byte_val:
  assumes i: "i < length p" and len: "length p \<le> 4 * length v"
    and clear: "limbs_val v = be_val (take i p) * 256 ^ (length p - i)"
  shows "limbs_val (load_byte p i v) = be_val (take (Suc i) p) * 256 ^ (length p - Suc i)"
    and "length (load_byte p i v) = length v"
proof -
  define sig where "sig = length p - 1 - i"
  define k where "k = sig div 4"
  define s where "s = 8 * (sig mod 4)"
  have sig: "sig < length p" "length p - Suc i = sig" "length p - i = Suc sig"
    using i by (simp_all add: sig_def)
  have k: "k < length v" using sig(1) len by (simp add: k_def)
  have s: "s \<le> 24" by (simp add: s_def)
  have pow: "limb_base ^ k * 2 ^ s = 256 ^ sig"
  proof -
    have "limb_base ^ k * 2 ^ s = 256 ^ (4 * k + sig mod 4)"
      by (simp add: s_def power_mult power_add)
    then show ?thesis by (simp add: k_def)
  qed
  have "256 ^ Suc sig dvd limbs_val v" using clear sig by simp
  then have "limb_base ^ k * 2 ^ (s + 8) dvd limbs_val v"
    by (simp add: power_add pow [symmetric] mult.assoc [symmetric] mult.commute)
  then have "2 ^ (s + 8) dvd limbs_val v div limb_base ^ k"
    by (metis dvd_mult_imp_div mult.commute)
  moreover have "(2::nat) ^ (s + 8) dvd limb_base"
  proof -
    have "(2::nat) ^ (s + 8) dvd 2 ^ 32" using s by (intro le_imp_power_dvd) simp
    then show ?thesis by simp
  qed
  ultimately have dv: "2 ^ (s + 8) dvd unat (v ! k)"
    unfolding limbs_val_nth [OF k] by (rule dvd_mod)
  have up: "unat (push_bit s (ucast (p ! i)) :: u32) = unat (p ! i) * 2 ^ s"
  proof -
    have "unat (p ! i) * 2 ^ s < 2 ^ 8 * 2 ^ 24"
      using byte_bound [of "p ! i"] s by (intro mult_less_le_imp_less power_increasing) simp_all
    moreover have "unat (ucast (p ! i) :: u32) = unat (p ! i)"
      using byte_bound [of "p ! i"] by (simp add: unsigned_ucast_eq take_bit_nat_eq_self)
    ultimately show ?thesis
      by (simp only: unsigned_push_bit_eq) (simp add: take_bit_nat_eq_self push_bit_eq_mult)
  qed
  have "unat (p ! i) * 2 ^ s < 2 ^ (s + 8)"
    using byte_bound [of "p ! i"] by (simp add: power_add)
  from or_disjoint_add [OF dv this]
  have new: "unat (v ! k OR push_bit s (ucast (p ! i))) = unat (v ! k) + unat (p ! i) * 2 ^ s"
    by (simp only: unsigned_or_eq up)
  have eq: "load_byte p i v = v[k := v ! k OR push_bit s (ucast (p ! i))]"
    by (simp add: load_byte_def Let_def sig_def k_def s_def)
  show "length (load_byte p i v) = length v" by (simp add: eq)
  have "limbs_val (load_byte p i v) = limbs_val v + limb_base ^ k * (unat (p ! i) * 2 ^ s)"
    using limbs_val_update [OF k, of "v ! k OR push_bit s (ucast (p ! i))"]
    by (simp add: eq new add_mult_distrib2)
  also have "limb_base ^ k * (unat (p ! i) * 2 ^ s) = unat (p ! i) * 256 ^ sig"
    by (simp add: pow [symmetric])
  finally show "limbs_val (load_byte p i v) = be_val (take (Suc i) p) * 256 ^ (length p - Suc i)"
    using i by (simp add: clear sig take_Suc_conv_app_nth be_val_snoc algebra_simps)
qed

lemma load_bytes_val:
  assumes "length p \<le> 4 * L"
  shows "k \<le> length p \<Longrightarrow>
    limbs_val (fold (load_byte p) [0..<k] (replicate L 0)) = be_val (take k p) * 256 ^ (length p - k) \<and>
    length (fold (load_byte p) [0..<k] (replicate L 0)) = L"
proof (induction k)
  case (Suc k)
  let ?v = "fold (load_byte p) [0..<k] (replicate L 0)"
  have v: "limbs_val ?v = be_val (take k p) * 256 ^ (length p - k)" "length ?v = L"
    using Suc by simp_all
  show ?case
    using load_byte_val [OF _ _ v(1)] v(2) Suc.prems assms by simp
qed simp

lemma from_bytes_val:
  "from_bytes L p = None \<longleftrightarrow> 256 ^ (4 * L) \<le> be_val p"
  "from_bytes L p = Some v \<Longrightarrow> limbs_val v = be_val p \<and> length v = L"
proof -
  have "be_val p < 256 ^ (4 * L)" if "length (strip_zeros (4 * L) p) \<le> 4 * L"
    by (rule order_less_le_trans [OF be_val_bound [of "strip_zeros (4 * L) p", unfolded strip_zeros_val]
          power_increasing [OF that]]) simp
  then show "from_bytes L p = None \<longleftrightarrow> 256 ^ (4 * L) \<le> be_val p"
    using strip_zeros_le [of "4 * L" p] by (auto simp: from_bytes_def Let_def not_le)
  assume "from_bytes L p = Some v"
  then have len: "length (strip_zeros (4 * L) p) \<le> 4 * L"
    and v: "v = fold (load_byte (strip_zeros (4 * L) p)) [0..<length (strip_zeros (4 * L) p)] (replicate L 0)"
    by (auto simp: from_bytes_def Let_def split: if_splits)
  show "limbs_val v = be_val p \<and> length v = L"
    using load_bytes_val [OF len order_refl] by (simp add: v strip_zeros_val)
qed

lemma length_to_bytes [simp]: "length (to_bytes v) = 4 * length v"
  by (simp add: to_bytes_def Let_def)

text \<open>Byte \<open>i\<close> of the output has weight \<open>256 ^ (n - 1 - i)\<close>.\<close>

lemma to_bytes_nth:
  assumes "i < 4 * length v"
  shows "unat (to_bytes v ! i) = limbs_val v div 256 ^ (4 * length v - 1 - i) mod 256"
proof -
  define sig where "sig = 4 * length v - 1 - i"
  have k: "sig div 4 < length v" using assms by (simp add: sig_def)
  have nth: "to_bytes v ! i = ucast (drop_bit (8 * (sig mod 4)) (v ! (sig div 4)))"
    using assms by (simp add: to_bytes_def Let_def sig_def)
  have pow: "limb_base ^ (sig div 4) = 2 ^ (32 * (sig div 4))" by (simp add: power_mult)
  have "sig mod 4 \<le> 3" by simp
  then have s: "8 * (sig mod 4) + 8 \<le> 32" by simp
  have w: "unat (v ! (sig div 4)) = take_bit 32 (drop_bit (32 * (sig div 4)) (limbs_val v))"
    unfolding limbs_val_nth [OF k] pow by (simp add: take_bit_eq_mod drop_bit_eq_div)
  have "unat (to_bytes v ! i) = take_bit 8 (drop_bit (8 * (sig mod 4)) (unat (v ! (sig div 4))))"
    by (simp only: nth unsigned_ucast_eq unsigned_drop_bit_eq) (simp add: take_bit_nat_eq_self unat_limb)
  also have "\<dots> = take_bit 8 (drop_bit (32 * (sig div 4) + 8 * (sig mod 4)) (limbs_val v))"
    using s by (auto simp: w bit_eq_iff bit_simps algebra_simps)
  also have "32 * (sig div 4) + 8 * (sig mod 4) = 8 * sig"
    using mult_div_mod_eq [of 4 sig] by linarith
  also have "take_bit 8 (drop_bit (8 * sig) (limbs_val v)) = limbs_val v div 256 ^ sig mod 256"
    by (simp add: take_bit_eq_mod drop_bit_eq_div power_mult)
  finally show ?thesis by (simp add: sig_def)
qed

lemma be_val_digits:
  "(\<And>i. i < length p \<Longrightarrow> unat (p ! i) = V div 256 ^ (length p - 1 - i) mod 256) \<Longrightarrow>
   be_val p = V mod 256 ^ length p"
proof (induction p)
  case (Cons b p)
  have "be_val p = V mod 256 ^ length p"
    using Cons.prems [of "Suc _"] by (intro Cons.IH) simp
  moreover have "unat b = V div 256 ^ length p mod 256" using Cons.prems [of 0] by simp
  ultimately show ?case
    by (simp add: be_val_Cons mod_mult2_eq mult.commute [of 256])
qed simp

lemma to_bytes_val: "be_val (to_bytes v) = limbs_val v"
proof -
  have "be_val (to_bytes v) = limbs_val v mod 256 ^ length (to_bytes v)"
    by (rule be_val_digits) (simp add: to_bytes_nth)
  moreover have "limbs_val v < 256 ^ (4 * length v)"
    using limbs_val_bound [of v] by (simp add: power_mult)
  ultimately show ?thesis by simp
qed

section \<open>Properties\<close>

text \<open>C39: modular exponentiation on limb arrays is \<open>m ^ e mod n\<close>: the schoolbook product with its 64-bit carries, the bitwise reduction and the left-to-right square-and-multiply never lose a carry; the only refusals are a zero modulus and a zero exponent.\<close>

theorem modexp_is_power:
  assumes "length m = length n"
  shows "case modexp_u32 m e n of
      None \<Rightarrow> limbs_val n = 0 \<or> e = 0
    | Some c \<Rightarrow> limbs_val n \<noteq> 0 \<and> e \<noteq> 0 \<and> limbs_val c = limbs_val m ^ unat e mod limbs_val n \<and> length c = length n"
  using modexp_u32_val [OF assms, of e] by (auto split: option.splits)

lemma modexp_is_power_witness: "\<exists>c. modexp_u32 [7, 0] 5 [0, 1] = Some c \<and> limbs_val c = 16807"
  using modexp_is_power [of "[7, 0]" "[0, 1]" 5] by (auto split: option.splits)

text \<open>The product of two numbers of equal width and its reduction are exact at every width, which is what each step of the exponentiation rests on.\<close>

theorem mulmod_exact:
  assumes "length b = length a" and "0 < limbs_val n"
  shows "limbs_val (mul_wide a b) = limbs_val a * limbs_val b \<and>
    limbs_val (mulmod a b n) = limbs_val a * limbs_val b mod limbs_val n \<and> length (mulmod a b n) = length n"
  using assms by (simp add: mul_wide_val mulmod_val)

lemma mulmod_exact_witness: "limbs_val (mulmod [0xFFFFFFFF] [0xFFFFFFFF] [10]) = 5"
  using mulmod_exact [of "[0xFFFFFFFF]" "[0xFFFFFFFF]" "[10]"] by simp

text \<open>Octets to limbs and back: \<open>from_bytes\<close> refuses exactly the strings whose value does not fit, leading zeros set aside, and \<open>to_bytes\<close> writes the same value back over the full width.\<close>

theorem octets_round_trip:
  "case from_bytes L p of
     None \<Rightarrow> 256 ^ (4 * L) \<le> be_val p
   | Some v \<Rightarrow> be_val p < 256 ^ (4 * L) \<and> length v = L \<and> limbs_val v = be_val p \<and>
       length (to_bytes v) = 4 * L \<and> be_val (to_bytes v) = be_val p"
  using from_bytes_val [of L p] by (auto simp: to_bytes_val not_le split: option.splits)

end
