(* ===== verification/Rsa.thy ===== *)
theory Rsa
  imports Big_Int
begin

text \<open>
  \<open>crypto/rsa.hpp\<close>: PKCS 1 v1.5 type 2 padding and the public operation on the 2048-bit
  \<open>RsaInt\<close>. The system generator behind \<open>secure_random\<close> is the parameter \<open>rng\<close>: a draw of
  \<open>n\<close> bytes from a generator state, or a failure. The loop that replaces zero padding bytes may
  draw for ever, so it carries fuel, one unit per draw.
\<close>

section \<open>Keys and results\<close>

definition RSA_LIMBS :: nat where "RSA_LIMBS = 64"
definition RSA_BYTES :: nat where "RSA_BYTES = 4 * RSA_LIMBS"

record rsa_public_key =
  key_n :: "u32 list"
  key_e :: u32
  key_k :: nat

definition key_valid :: "rsa_public_key \<Rightarrow> bool" where
  "key_valid key \<longleftrightarrow> key_k key \<ge> 64 \<and> key_k key \<le> RSA_BYTES \<and> key_e key \<ge> 3 \<and>
     \<not> limbs_zero (key_n key)"

type_synonym 'r rng = "nat \<Rightarrow> 'r \<Rightarrow> bytes option \<times> 'r"

text \<open>\<open>secure_random(buf, 0)\<close> returns \<open>true\<close> without a draw.\<close>

definition secure_random :: "'r rng \<Rightarrow> nat \<Rightarrow> 'r \<Rightarrow> bytes option \<times> 'r" where
  "secure_random rng n r = (if n = 0 then (Some [], r) else rng n r)"

text \<open>The outcome of a function that draws: out of fuel, its \<open>false\<close>, or its result.\<close>

datatype 'a drawn = Out_of_fuel | Failed | Drawn 'a

section \<open>Padding\<close>

text \<open>\<open>while (em[2 + i] == 0) if (!secure_random(&em[2 + i], 1)) return false;\<close>\<close>

fun resample :: "'r rng \<Rightarrow> nat \<Rightarrow> byte \<Rightarrow> 'r \<Rightarrow> byte drawn \<times> 'r" where
  "resample rng fuel b r =
     (if b \<noteq> 0 then (Drawn b, r)
      else (case fuel of
              0 \<Rightarrow> (Out_of_fuel, r)
            | Suc fuel \<Rightarrow>
               (case secure_random rng 1 r of
                  (None, r) \<Rightarrow> (Failed, r)
                | (Some bs, r) \<Rightarrow> resample rng fuel (hd bs) r)))"

declare resample.simps [simp del]

text \<open>The loop over the padding bytes.\<close>

fun resample_all :: "'r rng \<Rightarrow> nat \<Rightarrow> bytes \<Rightarrow> 'r \<Rightarrow> bytes drawn \<times> 'r" where
  "resample_all rng fuel [] r = (Drawn [], r)"
| "resample_all rng fuel (b # bs) r =
     (case resample rng fuel b r of
        (Drawn b, r) \<Rightarrow>
          (case resample_all rng fuel bs r of
             (Drawn bs, r) \<Rightarrow> (Drawn (b # bs), r)
           | other \<Rightarrow> other)
      | (Failed, r) \<Rightarrow> (Failed, r)
      | (Out_of_fuel, r) \<Rightarrow> (Out_of_fuel, r))"

definition pkcs1v15_pad_type2 :: "'r rng \<Rightarrow> nat \<Rightarrow> nat \<Rightarrow> bytes \<Rightarrow> 'r \<Rightarrow> bytes drawn \<times> 'r" where
  "pkcs1v15_pad_type2 rng fuel k msg r =
     (if k < 12 \<or> length msg + 11 > k then (Failed, r)
      else (let pslen = k - length msg - 3
            in case secure_random rng pslen r of
                 (None, r) \<Rightarrow> (Failed, r)
               | (Some ps, r) \<Rightarrow>
                   (case resample_all rng fuel ps r of
                      (Drawn ps, r) \<Rightarrow> (Drawn ([0x00, 0x02] @ ps @ [0x00] @ msg), r)
                    | other \<Rightarrow> other)))"

section \<open>The public operation\<close>

definition rsa_public_op :: "rsa_public_key \<Rightarrow> bytes \<Rightarrow> bytes option" where
  "rsa_public_op key inp =
     (if \<not> key_valid key then None
      else (case from_bytes RSA_LIMBS inp of
              None \<Rightarrow> None
            | Some m \<Rightarrow>
                (case modexp_u32 m (key_e key) (key_n key) of
                   None \<Rightarrow> None
                 | Some c \<Rightarrow> (let full = to_bytes c in Some (drop (RSA_BYTES - key_k key) full)))))"

definition rsa_encrypt_pkcs1v15 ::
  "'r rng \<Rightarrow> nat \<Rightarrow> rsa_public_key \<Rightarrow> bytes \<Rightarrow> 'r \<Rightarrow> bytes drawn \<times> 'r" where
  "rsa_encrypt_pkcs1v15 rng fuel key msg r =
     (if \<not> key_valid key then (Failed, r)
      else (case pkcs1v15_pad_type2 rng fuel (key_k key) msg r of
              (Drawn em, r) \<Rightarrow>
                (case rsa_public_op key em of
                   None \<Rightarrow> (Failed, r)
                 | Some out \<Rightarrow> (Drawn out, r))
            | other \<Rightarrow> other))"

section \<open>Padding: structure and termination\<close>

lemma resample_drawn: "resample rng fuel b r = (Drawn c, r') \<Longrightarrow> c \<noteq> 0"
proof (induction fuel arbitrary: b r)
  case 0
  then show ?case by (simp add: resample.simps split: if_splits)
next
  case (Suc fuel)
  then show ?case
    by (subst (asm) resample.simps) (auto split: if_splits prod.splits option.splits)
qed

lemma resample_all_drawn:
  "resample_all rng fuel bs r = (Drawn cs, r') \<Longrightarrow> length cs = length bs \<and> 0 \<notin> set cs"
proof (induction bs arbitrary: r cs)
  case (Cons b bs)
  then obtain c r1 ds where "resample rng fuel b r = (Drawn c, r1)"
    "resample_all rng fuel bs r1 = (Drawn ds, r')" "cs = c # ds"
    by (auto split: prod.splits drawn.splits)
  then show ?case using Cons.IH resample_drawn by (metis length_Cons set_ConsD)
qed simp

text \<open>What the code relies on: a successful draw fills the buffer it was given.\<close>

definition rng_fills :: "'r rng \<Rightarrow> bool" where
  "rng_fills rng \<longleftrightarrow> (\<forall>n r bs. fst (rng n r) = Some bs \<longrightarrow> length bs = n)"

definition legal_padding :: "nat \<Rightarrow> bytes \<Rightarrow> bytes \<Rightarrow> bool" where
  "legal_padding k msg em \<longleftrightarrow>
     (\<exists>ps. em = [0x00, 0x02] @ ps @ [0x00] @ msg \<and> 8 \<le> length ps \<and> 0 \<notin> set ps \<and> length em = k)"

lemma pad_legal:
  assumes "rng_fills rng" and "pkcs1v15_pad_type2 rng fuel k msg r = (Drawn em, r')"
  shows "legal_padding k msg em"
proof -
  from assms(2) have k: "12 \<le> k" "length msg + 11 \<le> k"
    by (auto simp: pkcs1v15_pad_type2_def not_less split: if_splits)
  with assms(2) obtain ps r1 qs where ps: "secure_random rng (k - length msg - 3) r = (Some ps, r1)"
    and qs: "resample_all rng fuel ps r1 = (Drawn qs, r')" and em: "em = [0x00, 0x02] @ qs @ [0x00] @ msg"
    by (auto simp: pkcs1v15_pad_type2_def Let_def split: if_splits prod.splits option.splits drawn.splits)
  have "rng (k - length msg - 3) r = (Some ps, r1)"
    using ps k by (simp add: secure_random_def split: if_splits)
  then have "length ps = k - length msg - 3"
    using assms(1) unfolding rng_fills_def by (metis fst_conv)
  with resample_all_drawn [OF qs] k em show ?thesis by (auto simp: legal_padding_def)
qed

text \<open>A receiver finds the message after the first zero byte that follows the block type.\<close>

definition unpad :: "bytes \<Rightarrow> bytes" where
  "unpad em = tl (dropWhile (\<lambda>b. b \<noteq> 0) (drop 2 em))"

lemma unpad_legal: "legal_padding k msg em \<Longrightarrow> unpad em = msg"
proof -
  assume "legal_padding k msg em"
  then obtain ps where em: "em = [0x00, 0x02] @ ps @ [0x00] @ msg" and ps: "0 \<notin> set ps"
    by (auto simp: legal_padding_def)
  have "dropWhile (\<lambda>b. b \<noteq> 0) (ps @ [0x00] @ msg) = dropWhile (\<lambda>b. b \<noteq> 0) ([0x00] @ msg)"
    using ps by (intro dropWhile_append2) auto
  then show ?thesis by (simp add: unpad_def em)
qed

lemma legal_padding_value: "legal_padding k msg em \<Longrightarrow> be_val em < 256 ^ (k - 1)"
proof -
  assume "legal_padding k msg em"
  then obtain ps where em: "em = 0 # (0x02 # ps @ [0x00] @ msg)" and k: "length em = k"
    by (auto simp: legal_padding_def)
  have "be_val em = be_val (0x02 # ps @ [0x00] @ msg)" by (subst em) (simp add: be_val_Cons)
  also have "\<dots> < 256 ^ length (0x02 # ps @ [0x00] @ msg)" by (rule be_val_bound)
  also have "length (0x02 # ps @ [0x00] @ msg) = k - 1" using k by (simp add: em)
  finally show ?thesis .
qed

text \<open>
  A generator that does not fail and, from every state, delivers a nonzero byte within \<open>d\<close>
  single draws.
\<close>

fun nonzero_within :: "'r rng \<Rightarrow> nat \<Rightarrow> 'r \<Rightarrow> bool" where
  "nonzero_within rng 0 r \<longleftrightarrow> False"
| "nonzero_within rng (Suc d) r \<longleftrightarrow>
     (case rng 1 r of (Some [b], r) \<Rightarrow> b \<noteq> 0 \<or> nonzero_within rng d r | _ \<Rightarrow> False)"

lemma resample_within: "nonzero_within rng d r \<Longrightarrow> \<exists>c r'. resample rng d 0 r = (Drawn c, r')"
proof (induction d arbitrary: r)
  case (Suc d)
  then obtain b r1 where draw: "rng 1 r = (Some [b], r1)" and b: "b \<noteq> 0 \<or> nonzero_within rng d r1"
    by (auto split: prod.splits option.splits list.splits)
  have step: "resample rng (Suc d) 0 r = resample rng d b r1"
    using draw by (subst resample.simps) (simp add: secure_random_def)
  show ?case
  proof (cases "b = 0")
    case True
    then show ?thesis using Suc.IH b step by simp
  next
    case False
    then show ?thesis unfolding step by (subst resample.simps) simp
  qed
qed simp

lemma resample_all_within:
  assumes "\<And>r. nonzero_within rng d r"
  shows "\<exists>cs r'. resample_all rng d bs r = (Drawn cs, r')"
proof (induction bs arbitrary: r)
  case (Cons b bs)
  obtain c r1 where c: "resample rng d b r = (Drawn c, r1)"
  proof (cases "b = 0")
    case True
    then show ?thesis using that resample_within [OF assms] by blast
  next
    case False
    then have "resample rng d b r = (Drawn b, r)" by (subst resample.simps) simp
    then show ?thesis by (rule that)
  qed
  with Cons.IH [of r1] show ?case by auto
qed simp

lemma pad_total:
  assumes "\<And>r. nonzero_within rng d r" and "fst (rng (k - length msg - 3) r) \<noteq> None"
    and "12 \<le> k" and "length msg + 11 \<le> k"
  shows "\<exists>em r'. pkcs1v15_pad_type2 rng d k msg r = (Drawn em, r')"
proof -
  obtain ps r1 where ps: "rng (k - length msg - 3) r = (Some ps, r1)"
    using assms(2) by (cases "rng (k - length msg - 3) r") auto
  obtain qs r2 where "resample_all rng d ps r1 = (Drawn qs, r2)"
    using resample_all_within [OF assms(1)] by blast
  with ps assms(3,4) show ?thesis
    by (simp add: pkcs1v15_pad_type2_def secure_random_def Let_def)
qed

section \<open>The public operation computes \<open>m ^ e mod n\<close>\<close>

lemma drop_be_val:
  assumes "be_val p < 256 ^ k" and "k \<le> length p"
  shows "be_val (drop (length p - k) p) = be_val p"
proof -
  let ?hi = "take (length p - k) p" and ?lo = "drop (length p - k) p"
  have len: "length ?lo = k" using assms(2) by simp
  have "be_val p = be_val ?hi * 256 ^ k + be_val ?lo"
    using be_val_append [of ?hi ?lo] len by simp
  then have "be_val ?hi * 256 ^ k < 256 ^ k" using assms(1) by linarith
  then have "be_val ?hi = 0" by simp
  with \<open>be_val p = be_val ?hi * 256 ^ k + be_val ?lo\<close> show ?thesis by simp
qed

lemma rsa_public_op_val:
  assumes key: "key_valid key" and n: "length (key_n key) = RSA_LIMBS" "limbs_val (key_n key) < 256 ^ key_k key"
    and fits: "be_val inp < 256 ^ RSA_BYTES"
  shows "\<exists>out. rsa_public_op key inp = Some out \<and> length out = key_k key \<and>
    be_val out = be_val inp ^ unat (key_e key) mod limbs_val (key_n key)"
proof -
  have nz: "0 < limbs_val (key_n key)" and e: "key_e key \<noteq> 0" and k: "key_k key \<le> 256"
    using key by (auto simp: key_valid_def limbs_zero_val RSA_BYTES_def RSA_LIMBS_def)
  obtain m where m: "from_bytes RSA_LIMBS inp = Some m"
    using from_bytes_val(1) [of RSA_LIMBS inp] fits by (cases "from_bytes RSA_LIMBS inp") (auto simp: RSA_BYTES_def)
  note mv = from_bytes_val(2) [OF m]
  obtain c where c: "modexp_u32 m (key_e key) (key_n key) = Some c"
    using modexp_u32_val(1) [of m "key_n key" "key_e key"] mv n nz e
    by (cases "modexp_u32 m (key_e key) (key_n key)") auto
  have cv: "limbs_val c = be_val inp ^ unat (key_e key) mod limbs_val (key_n key)" "length c = RSA_LIMBS"
    using modexp_u32_val(2) [OF _ c] mv n by simp_all
  have len: "length (to_bytes c) = RSA_BYTES" by (simp add: cv RSA_BYTES_def)
  have "be_val (to_bytes c) < 256 ^ key_k key"
    using nz n(2) unfolding to_bytes_val cv(1) by (meson mod_less_divisor order_less_trans)
  from drop_be_val [OF this] len k
  have "be_val (drop (RSA_BYTES - key_k key) (to_bytes c)) = limbs_val c"
    by (simp add: to_bytes_val RSA_BYTES_def RSA_LIMBS_def)
  then show ?thesis
    using key m c cv len k by (simp add: rsa_public_op_def Let_def RSA_BYTES_def RSA_LIMBS_def)
qed

section \<open>Properties\<close>

text \<open>C40: with a generator that fills the buffers it is given, a padded block is legal PKCS 1 type 2 padding of exactly \<open>k\<close> bytes with at least eight nonzero padding bytes, a receiver that looks for the first zero byte recovers the message, and its value is below \<open>256 ^ (k - 1)\<close>.\<close>

theorem padding_legal:
  assumes "rng_fills rng" and "pkcs1v15_pad_type2 rng fuel k msg r = (Drawn em, r')"
  shows "legal_padding k msg em \<and> unpad em = msg \<and> be_val em < 256 ^ (k - 1)"
  using pad_legal [OF assms] unpad_legal legal_padding_value by blast

text \<open>A generator that counts: every draw yields the low byte of the count, repeated.\<close>

definition counting_rng :: "nat rng" where
  "counting_rng n r = (Some (replicate n (word_of_nat r)), Suc r)"

lemma counting_rng_nonzero: "nonzero_within counting_rng 2 r"
proof (cases "(word_of_nat r :: byte) = 0")
  case True
  then have "(word_of_nat (Suc r) :: byte) = 1" by simp
  then show ?thesis by (simp add: numeral_eq_Suc counting_rng_def)
next
  case False
  then show ?thesis by (simp add: numeral_eq_Suc counting_rng_def)
qed

lemma padding_legal_witness:
  "\<exists>em. fst (pkcs1v15_pad_type2 counting_rng 2 13 [5, 6] 0) = Drawn em \<and> unpad em = [5, 6]"
proof -
  have fills: "rng_fills counting_rng" by (simp add: rng_fills_def counting_rng_def)
  have "fst (counting_rng (13 - length ([5, 6] :: bytes) - 3) 0) \<noteq> None" by (simp add: counting_rng_def)
  from pad_total [OF counting_rng_nonzero this]
  obtain em r where "pkcs1v15_pad_type2 counting_rng 2 13 [5, 6] 0 = (Drawn em, r)" by auto
  with padding_legal [OF fills this] show ?thesis by auto
qed

text \<open>The loop that redraws zero padding bytes ends: if the first draw succeeds and from every state the generator delivers a nonzero byte within \<open>d\<close> single draws, \<open>d\<close> turns per byte are enough for every message that fits.\<close>

theorem padding_terminates:
  assumes "\<And>r. nonzero_within rng d r" and "fst (rng (k - length msg - 3) r) \<noteq> None"
    and "12 \<le> k" and "length msg + 11 \<le> k"
  shows "\<exists>em r'. pkcs1v15_pad_type2 rng d k msg r = (Drawn em, r')"
  using assms by (rule pad_total)

lemma padding_terminates_witness:
  "\<exists>em r. pkcs1v15_pad_type2 counting_rng 2 64 [1, 2, 3] 0 = (Drawn em, r)"
proof -
  have "fst (counting_rng (64 - length ([1, 2, 3] :: bytes) - 3) 0) \<noteq> None" by (simp add: counting_rng_def)
  from padding_terminates [OF counting_rng_nonzero this] show ?thesis by simp
qed

end
