(* ===== verification/Rc4.thy ===== *)
theory Rc4
  imports Md5 "HOL-Library.Multiset"
begin

text \<open>
  \<open>crypto/rc4.hpp\<close>: key schedule, keystream, \<open>crypt\<close> and the MD5 rekey, with both constructors.
  The invariant is that \<open>sBox\<close> is a permutation of the byte values and both indices stay in a
  byte; \<open>crypt\<close> is its own inverse from equal states, and enciphering in pieces is enciphering
  the whole.
\<close>

unbundle bit_operations_syntax

section \<open>State and operations\<close>

record rc4 =
  rc_key :: bytes
  keylen :: nat
  pre :: bytes
  sBox :: bytes
  rc_i :: nat
  rc_j :: nat

definition swap_bytes :: "nat \<Rightarrow> nat \<Rightarrow> bytes \<Rightarrow> bytes" where
  "swap_bytes i j s = (let t = s ! i; s = s[i := s ! j] in s[j := t])"

text \<open>One turn of the swapping loop of \<open>schedule\<close>.\<close>

definition ksa_step :: "bytes \<Rightarrow> nat \<Rightarrow> bytes \<times> nat \<Rightarrow> bytes \<times> nat" where
  "ksa_step keyBox i sj =
     (let (s, j) = sj;
          j = (j + unat (s ! i) + unat (keyBox ! i)) mod 256
      in (swap_bytes i j s, j))"

definition rc4_schedule :: "rc4 \<Rightarrow> rc4" where
  "rc4_schedule r =
     (let s = map word_of_nat [0..<256];
          keyBox = map (\<lambda>n. rc_key r ! (n mod keylen r)) [0..<256];
          (s, j) = fold (ksa_step keyBox) [0..<256] (s, 0)
      in r\<lparr>sBox := s, rc_i := 0, rc_j := 0\<rparr>)"

definition rc4_update_key :: "rc4 \<Rightarrow> rc4" where
  "rc4_update_key r =
     (let h = md5_update (take 16 (rc_key r)) (md5_update (take 16 (pre r)) md5_init);
          d = fst (md5_digest h);
          r = r\<lparr>rc_key := mem_write 0 d (rc_key r), keylen := 16\<rparr>
      in rc4_schedule r)"

text \<open>\<open>RC4(seed)\<close>: the 16-byte session key becomes \<open>pre\<close>.\<close>

definition rc4_seeded :: "bytes \<Rightarrow> rc4" where
  "rc4_seeded seed =
     rc4_update_key \<lparr>rc_key = replicate 256 0, keylen = 16, pre = seed, sBox = replicate 256 0,
                     rc_i = 0, rc_j = 0\<rparr>"

text \<open>\<open>RC4(RawKey, key, klen)\<close>: an empty or overlong key leaves one zero byte.\<close>

definition rc4_raw :: "bytes \<Rightarrow> rc4" where
  "rc4_raw key =
     (let klen = length key;
          r = \<lparr>rc_key = replicate 256 0, keylen = (if klen = 0 \<or> klen > 256 then 1 else klen),
               pre = replicate 16 0, sBox = replicate 256 0, rc_i = 0, rc_j = 0\<rparr>;
          r = (if klen \<noteq> 0 \<and> klen \<le> 256 then r\<lparr>rc_key := mem_write 0 key (rc_key r)\<rparr> else r)
      in rc4_schedule r)"

definition randomValue :: "rc4 \<Rightarrow> byte \<times> rc4" where
  "randomValue r =
     (let r = r\<lparr>rc_i := (rc_i r + 1) mod 256\<rparr>;
          r = r\<lparr>rc_j := (rc_j r + unat (sBox r ! rc_i r)) mod 256\<rparr>;
          r = r\<lparr>sBox := swap_bytes (rc_i r) (rc_j r) (sBox r)\<rparr>;
          n = (unat (sBox r ! rc_i r) + unat (sBox r ! rc_j r)) mod 256
      in (sBox r ! n, r))"

fun crypt :: "bytes \<Rightarrow> rc4 \<Rightarrow> bytes \<times> rc4" where
  "crypt [] r = ([], r)"
| "crypt (b # bs) r =
     (let (k, r) = randomValue r; (cs, r) = crypt bs r in ((b XOR k) # cs, r))"

section \<open>The permutation invariant\<close>

definition rc4_ok :: "rc4 \<Rightarrow> bool" where
  "rc4_ok r \<longleftrightarrow> mset (sBox r) = mset (map word_of_nat [0..<256]) \<and> rc_i r < 256 \<and> rc_j r < 256 \<and>
     length (rc_key r) = 256 \<and> 0 < keylen r \<and> keylen r \<le> 256"

lemma mset_swap_bytes:
  "i < length s \<Longrightarrow> j < length s \<Longrightarrow> mset (swap_bytes i j s) = mset s"
  by (simp add: swap_bytes_def mset_swap)

lemma length_swap_bytes [simp]: "length (swap_bytes i j s) = length s"
  by (simp add: swap_bytes_def Let_def)

lemma ksa_fold:
  "(\<And>i. i \<in> set is \<Longrightarrow> i < length s) \<Longrightarrow> length s = 256 \<Longrightarrow> j < 256 \<Longrightarrow>
   mset (fst (fold (ksa_step kb) is (s, j))) = mset s"
proof (induction "is" arbitrary: s j)
  case (Cons i "is")
  obtain j' where step: "ksa_step kb i (s, j) = (swap_bytes i j' s, j')" and j': "j' < 256"
    by (simp add: ksa_step_def Let_def)
  have "mset (fst (fold (ksa_step kb) is (swap_bytes i j' s, j'))) = mset (swap_bytes i j' s)"
    using Cons.prems j' by (intro Cons.IH) auto
  then show ?case
    using Cons.prems j' by (simp add: step mset_swap_bytes)
qed simp

lemma schedule_fields:
  "rc_key (rc4_schedule r) = rc_key r" "keylen (rc4_schedule r) = keylen r" "pre (rc4_schedule r) = pre r"
  "rc_i (rc4_schedule r) = 0" "rc_j (rc4_schedule r) = 0"
  by (simp_all add: rc4_schedule_def Let_def split: prod.split)

lemma schedule_perm: "mset (sBox (rc4_schedule r)) = mset (map word_of_nat [0..<256])"
proof -
  let ?kb = "map (\<lambda>n. rc_key r ! (n mod keylen r)) [0..<256]"
  have "sBox (rc4_schedule r) = fst (fold (ksa_step ?kb) [0..<256] (map word_of_nat [0..<256], 0))"
    by (simp add: rc4_schedule_def Let_def split: prod.split)
  also have "mset \<dots> = mset (map word_of_nat [0..<256])"
    by (rule ksa_fold) simp_all
  finally show ?thesis .
qed

lemma schedule_ok:
  "length (rc_key r) = 256 \<Longrightarrow> 0 < keylen r \<Longrightarrow> keylen r \<le> 256 \<Longrightarrow> rc4_ok (rc4_schedule r)"
  by (simp add: rc4_ok_def schedule_fields schedule_perm)

lemma mem_write_front [simp]: "length src \<le> length dst \<Longrightarrow> length (mem_write 0 src dst) = length dst"
  by (simp add: mem_write_def)

lemma update_key_ok: "length (rc_key r) = 256 \<Longrightarrow> rc4_ok (rc4_update_key r)"
proof -
  assume k: "length (rc_key r) = 256"
  have "md5_absorbs ([] @ take 16 (pre r) @ take 16 (rc_key r))
     (md5_update (take 16 (rc_key r)) (md5_update (take 16 (pre r)) md5_init))"
    using md5_absorbs_update [OF md5_absorbs_update [OF md5_absorbs_init]] by simp
  from md5_digest_absorbs [OF this] show ?thesis
    using k by (simp add: rc4_update_key_def Let_def schedule_ok)
qed

text \<open>The rekey is \<open>key := MD5(pre || key)\<close> followed by the ordinary key schedule.\<close>

lemma update_key_md5:
  "rc4_update_key r =
     rc4_schedule (r\<lparr>rc_key := md5 (take 16 (pre r) @ take 16 (rc_key r)) @ drop 16 (rc_key r),
                     keylen := 16\<rparr>)"
proof -
  have "md5_absorbs ([] @ take 16 (pre r) @ take 16 (rc_key r))
     (md5_update (take 16 (rc_key r)) (md5_update (take 16 (pre r)) md5_init))"
    using md5_absorbs_update [OF md5_absorbs_update [OF md5_absorbs_init]] by simp
  from md5_digest_absorbs [OF this] show ?thesis
    by (simp add: rc4_update_key_def Let_def mem_write_def)
qed

lemma seeded_ok: "rc4_ok (rc4_seeded seed)"
  by (simp add: rc4_seeded_def update_key_ok)

lemma raw_ok: "rc4_ok (rc4_raw key)"
  by (auto simp: rc4_raw_def Let_def intro!: schedule_ok)

lemma rc4_ok_sBox: "rc4_ok r \<Longrightarrow> length (sBox r) = 256"
proof -
  assume "rc4_ok r"
  then have "size (mset (sBox r)) = size (mset (map (word_of_nat :: nat \<Rightarrow> byte) [0..<256]))"
    by (simp only: rc4_ok_def)
  then show ?thesis by simp
qed

lemma randomValue_ok:
  assumes "rc4_ok r"
  shows "rc4_ok (snd (randomValue r))"
proof -
  have "length (sBox r) = 256" by (rule rc4_ok_sBox [OF assms])
  then show ?thesis
    using assms by (simp add: rc4_ok_def randomValue_def Let_def mset_swap_bytes)
qed

lemma crypt_ok: "rc4_ok r \<Longrightarrow> rc4_ok (snd (crypt bs r))"
proof (induction bs arbitrary: r)
  case (Cons b bs)
  obtain k r' where k: "randomValue r = (k, r')" by (cases "randomValue r")
  have "rc4_ok r'" using randomValue_ok [OF Cons.prems] k by simp
  from Cons.IH [OF this] k show ?case by (simp add: case_prod_unfold Let_def)
qed simp

section \<open>Enciphering\<close>

lemma length_crypt [simp]: "length (fst (crypt bs r)) = length bs"
  by (induction bs arbitrary: r) (simp_all add: Let_def split: prod.split, metis fst_conv)

text \<open>Two ends that start equal stay equal, and the second undoes the first.\<close>

lemma crypt_involution: "crypt (fst (crypt bs r)) r = (bs, snd (crypt bs r))"
proof (induction bs arbitrary: r)
  case (Cons b bs)
  obtain k r' where k: "randomValue r = (k, r')" by (cases "randomValue r")
  obtain cs r'' where c: "crypt bs r' = (cs, r'')" by (cases "crypt bs r'")
  have "crypt cs r' = (bs, r'')" using Cons.IH [of r'] c by simp
  then show ?case by (simp add: k c xor.assoc)
qed simp

lemma crypt_append:
  "crypt (bs @ cs) r =
     (let (xs, r) = crypt bs r; (ys, r) = crypt cs r in (xs @ ys, r))"
  by (induction bs arbitrary: r) (simp_all add: Let_def split: prod.split)

text \<open>The keystream: what \<open>crypt\<close> makes of zeros, combined with the text by exclusive or.\<close>

definition keystream :: "nat \<Rightarrow> rc4 \<Rightarrow> bytes" where
  "keystream n r = fst (crypt (replicate n 0) r)"

lemma crypt_keystream: "fst (crypt bs r) = map2 (XOR) bs (keystream (length bs) r)"
  by (induction bs arbitrary: r) (simp_all add: keystream_def Let_def split: prod.split, metis fst_conv)

section \<open>Properties\<close>

text \<open>After either constructor and any number of enciphered bytes and rekeys, the state box is a permutation of the 256 byte values and both indices lie below 256, so no access of \<open>rc4.hpp\<close> leaves its arrays.\<close>

theorem rc4_invariant:
  "rc4_ok (snd (crypt bs (rc4_raw key))) \<and> rc4_ok (snd (crypt bs (rc4_seeded seed))) \<and>
   rc4_ok (snd (crypt cs (rc4_update_key (snd (crypt bs (rc4_seeded seed))))))"
proof -
  have "rc4_ok (snd (crypt bs (rc4_seeded seed)))" by (intro crypt_ok seeded_ok)
  moreover from this have "rc4_ok (rc4_update_key (snd (crypt bs (rc4_seeded seed))))"
    by (intro update_key_ok) (simp add: rc4_ok_def)
  ultimately show ?thesis by (simp add: crypt_ok raw_ok)
qed

text \<open>Two ends that hold equal states stay in step: the second deciphers what the first enciphered, both end in the same state, and cutting the text into pieces, as the record layer and the console stream do, makes no difference.\<close>

theorem crypt_in_step:
  "crypt (fst (crypt bs r)) r = (bs, snd (crypt bs r)) \<and>
   crypt (bs @ cs) r =
     (fst (crypt bs r) @ fst (crypt cs (snd (crypt bs r))), snd (crypt cs (snd (crypt bs r))))"
  by (simp add: crypt_involution crypt_append Let_def split_beta)

text \<open>A rekey replaces the first sixteen key bytes by \<open>MD5(pre || key)\<close> and runs the ordinary key schedule, whatever has been enciphered before.\<close>

theorem rekey_md5:
  "rc4_update_key (snd (crypt bs r)) =
     rc4_schedule ((snd (crypt bs r))\<lparr>rc_key := md5 (take 16 (pre r) @ take 16 (rc_key r)) @ drop 16 (rc_key r),
       keylen := 16\<rparr>)"
proof -
  have "rc_key (snd (crypt bs r)) = rc_key r \<and> pre (snd (crypt bs r)) = pre r"
    by (induction bs r rule: crypt.induct) (auto simp: randomValue_def Let_def split: prod.splits)
  then show ?thesis by (simp add: update_key_md5)
qed

end
