(* ===== verification/Record_Layer.thy ===== *)
theory Record_Layer
  imports Hmac Rc4
begin

text \<open>
  \<open>tls/record.hpp\<close>: record headers, the split of the key block, and \<open>RecordLayerT\<close> with its two
  directions. The template parameter is the record of hash operations, as in \<open>HMAC\<close>. What the
  writer protects the reader in step with it recovers, and both stay in step over any sequence of
  records; a body is accepted exactly when its MAC is the one RFC 2246 prescribes.
\<close>

unbundle bit_operations_syntax

section \<open>Headers\<close>

definition CT_CHANGE_CIPHER_SPEC :: byte where "CT_CHANGE_CIPHER_SPEC = 20"
definition CT_ALERT :: byte where "CT_ALERT = 21"
definition CT_HANDSHAKE :: byte where "CT_HANDSHAKE = 22"
definition CT_APPLICATION_DATA :: byte where "CT_APPLICATION_DATA = 23"

definition VERSION_TLS_1_0 :: u16 where "VERSION_TLS_1_0 = 0x0301"
definition RECORD_HEADER_LEN :: nat where "RECORD_HEADER_LEN = 5"
definition MAX_PLAINTEXT :: nat where "MAX_PLAINTEXT = 16384"
definition MAX_CIPHERTEXT :: nat where "MAX_CIPHERTEXT = 16384 + 2048"

record record_header =
  rh_type :: byte
  rh_version :: u16
  rh_length :: u16

definition be16 :: "byte \<Rightarrow> byte \<Rightarrow> u16" where
  "be16 hi lo = push_bit 8 (ucast hi) OR ucast lo"

definition put16 :: "u16 \<Rightarrow> bytes" where
  "put16 v = [ucast (drop_bit 8 v), ucast v]"

definition parse_record_header :: "bytes \<Rightarrow> record_header option" where
  "parse_record_header p =
     (if length p < RECORD_HEADER_LEN then None
      else (let h = \<lparr>rh_type = p ! 0, rh_version = be16 (p ! 1) (p ! 2), rh_length = be16 (p ! 3) (p ! 4)\<rparr>
            in if unat (rh_length h) \<le> MAX_CIPHERTEXT then Some h else None))"

definition is_valid_content_type :: "byte \<Rightarrow> bool" where
  "is_valid_content_type t \<longleftrightarrow> t = CT_CHANGE_CIPHER_SPEC \<or> t = CT_ALERT \<or> t = CT_HANDSHAKE \<or>
     t = CT_APPLICATION_DATA"

text \<open>The accumulating comparison over \<open>n\<close> bytes.\<close>

definition ct_equal :: "bytes \<Rightarrow> bytes \<Rightarrow> nat \<Rightarrow> bool" where
  "ct_equal a b n = (fold (\<lambda>i diff. diff OR (a ! i XOR b ! i)) [0..<n] 0 = 0)"

section \<open>Key material\<close>

definition KEY_LEN :: nat where "KEY_LEN = 16"

record key_material =
  client_mac :: bytes
  server_mac :: bytes
  client_key :: bytes
  server_key :: bytes

definition key_block_len :: "'h hash_ops \<Rightarrow> nat" where
  "key_block_len H = 2 * h_size H + 2 * KEY_LEN"

definition split_key_block :: "'h hash_ops \<Rightarrow> bytes \<Rightarrow> key_material" where
  "split_key_block H kb =
     (let n = h_size H; p = 0; cm = take n (drop p kb);
          p = p + n; sm = take n (drop p kb);
          p = p + n; ck = take KEY_LEN (drop p kb);
          p = p + KEY_LEN; sk = take KEY_LEN (drop p kb)
      in \<lparr>client_mac = cm, server_mac = sm, client_key = ck, server_key = sk\<rparr>)"

section \<open>The layer\<close>

text \<open>
  \<open>write_active_\<close> is set where \<open>write_rc4_\<close> is, and nowhere else, so one optional cipher stands
  for both; likewise for reading.
\<close>

record 'h record_layer =
  version :: u16
  write_mac :: "'h hmac"
  read_mac :: "'h hmac"
  write_rc4 :: "rc4 option"
  read_rc4 :: "rc4 option"
  write_seq :: u64
  read_seq :: u64

definition hmac_default :: "'h hash_ops \<Rightarrow> 'h hmac" where
  "hmac_default H = \<lparr>inner = h_init H, ipad = replicate BLOCK_SIZE 0, opad = replicate BLOCK_SIZE 0\<rparr>"

definition record_layer_new :: "'h hash_ops \<Rightarrow> u16 \<Rightarrow> 'h record_layer" where
  "record_layer_new H v = \<lparr>version = v, write_mac = hmac_default H, read_mac = hmac_default H,
     write_rc4 = None, read_rc4 = None, write_seq = 0, read_seq = 0\<rparr>"

definition enable_write_cipher :: "'h hash_ops \<Rightarrow> bytes \<Rightarrow> bytes \<Rightarrow> 'h record_layer \<Rightarrow> 'h record_layer" where
  "enable_write_cipher H mac_key enc_key r =
     r\<lparr>write_mac := hmac_init H (take (h_size H) mac_key),
       write_rc4 := Some (rc4_raw (take KEY_LEN enc_key)), write_seq := 0\<rparr>"

definition enable_read_cipher :: "'h hash_ops \<Rightarrow> bytes \<Rightarrow> bytes \<Rightarrow> 'h record_layer \<Rightarrow> 'h record_layer" where
  "enable_read_cipher H mac_key enc_key r =
     r\<lparr>read_mac := hmac_init H (take (h_size H) mac_key),
       read_rc4 := Some (rc4_raw (take KEY_LEN enc_key)), read_seq := 0\<rparr>"

definition record_header_bytes :: "u16 \<Rightarrow> byte \<Rightarrow> nat \<Rightarrow> bytes" where
  "record_header_bytes v type n = type # put16 v @ put16 (word_of_nat n)"

text \<open>The 13 bytes that precede the fragment in the MAC.\<close>

definition mac_header :: "u64 \<Rightarrow> byte \<Rightarrow> u16 \<Rightarrow> nat \<Rightarrow> bytes" where
  "mac_header seq type v n =
     map (\<lambda>i. ucast (drop_bit (56 - 8 * i) seq)) [0..<8] @
     [type, ucast (drop_bit 8 v), ucast v, word_of_nat (drop_bit 8 n), word_of_nat n]"

definition compute_mac ::
  "'h hash_ops \<Rightarrow> 'h hmac \<Rightarrow> u64 \<Rightarrow> byte \<Rightarrow> u16 \<Rightarrow> bytes \<Rightarrow> bytes \<times> 'h hmac" where
  "compute_mac H mac seq type v frag =
     (let mac = hmac_update H (mac_header seq type v (length frag)) mac;
          mac = (if length frag \<noteq> 0 then hmac_update H frag mac else mac)
      in hmac_digest H mac)"

definition protect :: "'h hash_ops \<Rightarrow> byte \<Rightarrow> bytes \<Rightarrow> 'h record_layer \<Rightarrow> bytes option \<times> 'h record_layer" where
  "protect H type data r =
     (if length data > MAX_PLAINTEXT then (None, r)
      else (case write_rc4 r of
              None \<Rightarrow>
                (Some (record_header_bytes (version r) type (length data) @ data),
                 r\<lparr>write_seq := write_seq r + 1\<rparr>)
            | Some rc4 \<Rightarrow>
                (let (mac, hm) = compute_mac H (write_mac r) (write_seq r) type (version r) data;
                     (frag, rc4) = crypt (data @ mac) rc4
                 in (Some (record_header_bytes (version r) type (length frag) @ frag),
                     r\<lparr>write_mac := hm, write_rc4 := Some rc4, write_seq := write_seq r + 1\<rparr>))))"

definition unprotect ::
  "'h hash_ops \<Rightarrow> byte \<Rightarrow> u16 \<Rightarrow> bytes \<Rightarrow> 'h record_layer \<Rightarrow> bytes option \<times> 'h record_layer" where
  "unprotect H type v body r =
     (if length body > MAX_CIPHERTEXT then (None, r)
      else (case read_rc4 r of
              None \<Rightarrow>
                (if length body > MAX_PLAINTEXT then (None, r)
                 else (Some body, r\<lparr>read_seq := read_seq r + 1\<rparr>))
            | Some rc4 \<Rightarrow>
                (if length body < h_size H then (None, r)
                 else (let (buf, rc4) = crypt body rc4;
                           r = r\<lparr>read_rc4 := Some rc4\<rparr>;
                           plain_len = length buf - h_size H
                       in if plain_len > MAX_PLAINTEXT then (None, r)
                          else (let (want, hm) = compute_mac H (read_mac r) (read_seq r) type v (take plain_len buf);
                                    r = r\<lparr>read_mac := hm\<rparr>
                                in if \<not> ct_equal want (drop plain_len buf) (h_size H) then (None, r)
                                   else (Some (take plain_len buf), r\<lparr>read_seq := read_seq r + 1\<rparr>))))))"

section \<open>Headers: round trip\<close>

lemma unat_be16: "unat (be16 hi lo) = 256 * unat hi + unat lo"
proof -
  have b: "unat (b :: byte) < 256" for b using unsigned_less [of b] by simp
  have lo: "unat (ucast lo :: u16) = unat lo" and hi: "unat (ucast hi :: u16) = unat hi"
    using b [of lo] b [of hi] by (simp_all add: unsigned_ucast_eq take_bit_nat_eq_self)
  have "unat (push_bit 8 (ucast hi) :: u16) = 256 * unat hi"
    using b [of hi] by (simp only: unsigned_push_bit_eq hi) (simp add: take_bit_nat_eq_self push_bit_eq_mult)
  then have "unat (be16 hi lo) = (256 * unat hi) OR unat lo"
    by (simp only: be16_def unsigned_or_eq lo)
  also have "\<dots> = 256 * unat hi + unat lo"
    using b [of lo] by (intro or_disjoint_add [of 8]) simp_all
  finally show ?thesis .
qed

lemma be16_split: "be16 (ucast (drop_bit 8 v)) (ucast v) = v"
proof -
  have "unat v < 65536" using unsigned_less [of v] by simp
  then have "unat (ucast (drop_bit 8 v) :: byte) = unat v div 256"
    by (simp add: unsigned_ucast_eq drop_bit_eq_div unat_div_distrib take_bit_eq_mod less_mult_imp_div_less)
  moreover have "unat (ucast v :: byte) = unat v mod 256"
    by (simp add: unsigned_ucast_eq take_bit_eq_mod)
  ultimately show ?thesis by (simp add: word_unat_eq_iff unat_be16)
qed

lemma parse_header_bytes:
  assumes "n \<le> MAX_CIPHERTEXT"
  shows "parse_record_header (record_header_bytes v type n @ body) =
    Some \<lparr>rh_type = type, rh_version = v, rh_length = word_of_nat n\<rparr>"
proof -
  have "n < 65536" using assms by (simp add: MAX_CIPHERTEXT_def)
  then have len: "unat (word_of_nat n :: u16) = n"
    by (simp add: unsigned_of_nat take_bit_eq_mod)
  define w where "w = (word_of_nat n :: u16)"
  have bytes: "record_header_bytes v type n @ body =
      type # ucast (drop_bit 8 v) # ucast v # ucast (drop_bit 8 w) # ucast w # body"
    by (simp add: record_header_bytes_def put16_def w_def)
  have "parse_record_header (type # vh # vl # lh # ll # body) =
      (let h = \<lparr>rh_type = type, rh_version = be16 vh vl, rh_length = be16 lh ll\<rparr>
       in if unat (rh_length h) \<le> MAX_CIPHERTEXT then Some h else None)" for vh vl lh ll
    by (simp add: parse_record_header_def RECORD_HEADER_LEN_def)
  then show ?thesis
    using assms len by (simp add: bytes be16_split Let_def w_def [symmetric])
qed

lemma length_header_bytes [simp]: "length (record_header_bytes v type n) = RECORD_HEADER_LEN"
  by (simp add: record_header_bytes_def put16_def RECORD_HEADER_LEN_def)

section \<open>The comparison and the split\<close>

lemma or_fold_zero:
  "fold (\<lambda>i diff. diff OR (f i :: byte)) xs d = 0 \<longleftrightarrow> d = 0 \<and> (\<forall>i\<in>set xs. f i = 0)"
  by (induction xs arbitrary: d) (auto simp: or_eq_0_iff)

lemma ct_equal_iff: "n \<le> length a \<Longrightarrow> n \<le> length b \<Longrightarrow> ct_equal a b n \<longleftrightarrow> take n a = take n b"
proof -
  assume n: "n \<le> length a" "n \<le> length b"
  have "(x XOR y = 0) = (x = y)" for x y :: byte
    by (auto simp: bit_eq_iff bit_xor_iff)
  then have "ct_equal a b n \<longleftrightarrow> (\<forall>i<n. a ! i = b ! i)"
    by (auto simp: ct_equal_def or_fold_zero)
  with n show ?thesis by (simp add: list_eq_iff_nth_eq)
qed

lemma split_key_block_concat:
  "length kb = key_block_len H \<Longrightarrow>
   (let k = split_key_block H kb
    in client_mac k @ server_mac k @ client_key k @ server_key k = kb \<and>
       length (client_mac k) = h_size H \<and> length (server_mac k) = h_size H \<and>
       length (client_key k) = KEY_LEN \<and> length (server_key k) = KEY_LEN)"
proof -
  assume len: "length kb = key_block_len H"
  let ?n = "h_size H"
  have "take KEY_LEN (drop KEY_LEN (drop ?n (drop ?n kb))) = drop KEY_LEN (drop ?n (drop ?n kb))"
    using len by (simp add: key_block_len_def)
  moreover have "take ?n kb @ take ?n (drop ?n kb) @ take KEY_LEN (drop ?n (drop ?n kb)) @
      drop KEY_LEN (drop ?n (drop ?n kb)) = kb"
    by (simp only: append_take_drop_id)
  ultimately show ?thesis
    using len by (simp add: split_key_block_def key_block_len_def Let_def add_ac)
qed

section \<open>Runs of records\<close>

text \<open>A sequence of messages through \<open>protect\<close>, and of whole records back through \<open>unprotect\<close>.\<close>

fun protect_all ::
  "'h hash_ops \<Rightarrow> (byte \<times> bytes) list \<Rightarrow> 'h record_layer \<Rightarrow> (bytes list \<times> 'h record_layer) option" where
  "protect_all H [] w = Some ([], w)"
| "protect_all H ((type, data) # msgs) w =
     (case protect H type data w of
        (None, _) \<Rightarrow> None
      | (Some rec, w) \<Rightarrow> map_option (\<lambda>(recs, w). (rec # recs, w)) (protect_all H msgs w))"

fun unprotect_all ::
  "'h hash_ops \<Rightarrow> bytes list \<Rightarrow> 'h record_layer \<Rightarrow> ((byte \<times> bytes) list \<times> 'h record_layer) option" where
  "unprotect_all H [] r = Some ([], r)"
| "unprotect_all H (rec # recs) r =
     (case parse_record_header rec of
        None \<Rightarrow> None
      | Some h \<Rightarrow>
          (case unprotect H (rh_type h) (rh_version h) (drop RECORD_HEADER_LEN rec) r of
             (None, _) \<Rightarrow> None
           | (Some data, r) \<Rightarrow> map_option (\<lambda>(msgs, r). ((rh_type h, data) # msgs, r)) (unprotect_all H recs r)))"

section \<open>What the MAC is\<close>

context stream_hash
begin

text \<open>The MAC of RFC 2246, section 6.2.3.1, over the plaintext and its length.\<close>

definition rfc_mac :: "bytes \<Rightarrow> u64 \<Rightarrow> byte \<Rightarrow> u16 \<Rightarrow> bytes \<Rightarrow> bytes" where
  "rfc_mac key seq type v frag = rfc2104 hash key (mac_header seq type v (length frag) @ frag)"

lemma compute_mac_rfc:
  assumes "keyed key [] m"
  shows "\<exists>m'. compute_mac ops m seq type v frag = (rfc_mac key seq type v frag, m') \<and> keyed key [] m'"
proof (cases "length frag = 0")
  case True
  then show ?thesis
    using digest_hmac [OF keyed_update [OF assms, of "mac_header seq type v (length frag)"]]
    by (simp add: compute_mac_def rfc_mac_def)
next
  case False
  then show ?thesis
    using digest_hmac [OF keyed_update [OF keyed_update [OF assms, of "mac_header seq type v (length frag)"], of frag]]
    by (simp add: compute_mac_def rfc_mac_def Let_def)
qed

lemma size_rfc_mac [simp]: "length (rfc_mac key seq type v frag) = size"
  by (simp add: rfc_mac_def)

section \<open>Two ends in step\<close>

text \<open>
  \<open>in_step key w r\<close>: \<open>w\<close> writes and \<open>r\<close> reads under the MAC key \<open>key\<close>, with equal ciphers and
  sequence numbers, or both still in the clear.
\<close>

definition in_step :: "bytes \<Rightarrow> 'h record_layer \<Rightarrow> 'h record_layer \<Rightarrow> bool" where
  "in_step key w r \<longleftrightarrow> write_rc4 w = read_rc4 r \<and> write_seq w = read_seq r \<and>
     (write_rc4 w \<noteq> None \<longrightarrow> keyed key [] (write_mac w) \<and> keyed key [] (read_mac r))"

lemma in_step_new: "in_step key (record_layer_new ops v) (record_layer_new ops v')"
  by (simp add: in_step_def record_layer_new_def)

lemma in_step_enable:
  "in_step (take size mac_key) (enable_write_cipher ops mac_key enc_key w) (enable_read_cipher ops mac_key enc_key r)"
  using keyed_init by (simp add: in_step_def enable_write_cipher_def enable_read_cipher_def size_ops)

lemma record_round_trip:
  assumes step: "in_step key w r" and sent: "protect ops type data w = (Some out, w')"
  shows "\<exists>h r'. parse_record_header out = Some h \<and> rh_type h = type \<and> rh_version h = version w \<and>
    unat (rh_length h) = length (drop RECORD_HEADER_LEN out) \<and>
    unprotect ops type (version w) (drop RECORD_HEADER_LEN out) r = (Some data, r') \<and> in_step key w' r' \<and>
    version w' = version w"
proof -
  have plain: "length data \<le> MAX_PLAINTEXT" using sent by (auto simp: protect_def split: if_splits)
  have hdr: "parse_record_header (record_header_bytes (version w) type n @ body) =
      Some \<lparr>rh_type = type, rh_version = version w, rh_length = word_of_nat n\<rparr>"
    "unat (word_of_nat n :: u16) = n"
    if "n \<le> MAX_CIPHERTEXT" for n body
    using that parse_header_bytes
    by (simp_all add: MAX_CIPHERTEXT_def unsigned_of_nat take_bit_nat_eq_self)
  show ?thesis
  proof (cases "write_rc4 w")
    case None
    then have out: "out = record_header_bytes (version w) type (length data) @ data"
      and w': "w' = w\<lparr>write_seq := write_seq w + 1\<rparr>"
      using sent by (auto simp: protect_def split: if_splits)
    have "length data \<le> MAX_CIPHERTEXT" using plain by (simp add: MAX_PLAINTEXT_def MAX_CIPHERTEXT_def)
    then show ?thesis
      using hdr(1) [of "length data" data] hdr(2) [of "length data"] step None plain
      by (simp add: out w' unprotect_def in_step_def)
  next
    case (Some rc4)
    then have k: "keyed key [] (write_mac w)" "keyed key [] (read_mac r)" and r: "read_rc4 r = Some rc4"
      "read_seq r = write_seq w" using step by (simp_all add: in_step_def)
    let ?mac = "rfc_mac key (write_seq w) type (version w) data"
    obtain hm where hm: "compute_mac ops (write_mac w) (write_seq w) type (version w) data = (?mac, hm)"
        "keyed key [] hm"
      using compute_mac_rfc [OF k(1)] by blast
    obtain hm' where hm': "compute_mac ops (read_mac r) (write_seq w) type (version w) data = (?mac, hm')"
        "keyed key [] hm'"
      using compute_mac_rfc [OF k(2)] by blast
    obtain frag rc4' where c: "crypt (data @ ?mac) rc4 = (frag, rc4')" by (cases "crypt (data @ ?mac) rc4")
    have len: "length frag = length data + size" using length_crypt [of "data @ ?mac" rc4] c by simp
    have out: "out = record_header_bytes (version w) type (length frag) @ frag"
      and w': "w' = w\<lparr>write_mac := hm, write_rc4 := Some rc4', write_seq := write_seq w + 1\<rparr>"
      using sent plain Some hm c by (simp_all add: protect_def)
    have "length frag \<le> MAX_CIPHERTEXT"
      using plain len size_block by (simp add: MAX_PLAINTEXT_def MAX_CIPHERTEXT_def)
    moreover have "crypt frag rc4 = (data @ ?mac, rc4')"
      using crypt_involution [of "data @ ?mac" rc4] c by simp
    moreover have "ct_equal ?mac ?mac size" by (simp add: ct_equal_iff)
    ultimately show ?thesis
      using hdr(1) [of "length frag" frag] hdr(2) [of "length frag"] r plain hm hm' len size_ops
      by (simp add: out w' unprotect_def in_step_def)
  qed
qed

lemma records_round_trip:
  "in_step key w r \<Longrightarrow> protect_all ops msgs w = Some (recs, w') \<Longrightarrow>
   \<exists>r'. unprotect_all ops recs r = Some (msgs, r') \<and> in_step key w' r'"
proof (induction msgs arbitrary: w r recs)
  case (Cons m msgs)
  obtain type data where m: "m = (type, data)" by (cases m)
  obtain rec w1 recs1 where rec: "protect ops type data w = (Some rec, w1)"
    and rest: "protect_all ops msgs w1 = Some (recs1, w')" "recs = rec # recs1"
    using Cons.prems(2) by (auto simp: m split: prod.splits option.splits)
  obtain h r1 where h: "parse_record_header rec = Some h" "rh_type h = type" "rh_version h = version w"
      "unprotect ops type (version w) (drop RECORD_HEADER_LEN rec) r = (Some data, r1)" "in_step key w1 r1"
    using record_round_trip [OF Cons.prems(1) rec] by blast
  from Cons.IH [OF h(5) rest(1)] h rest(2) show ?case by (auto simp: m)
qed simp

text \<open>A protected body is accepted exactly when its last bytes are the MAC of what precedes them.\<close>

lemma unprotect_iff_mac:
  assumes rc: "read_rc4 r = Some rc4" and k: "keyed key [] (read_mac r)"
  shows "fst (unprotect ops type v body r) = Some data \<longleftrightarrow>
    size \<le> length body \<and> length body \<le> MAX_CIPHERTEXT \<and> length data \<le> MAX_PLAINTEXT \<and>
    fst (crypt body rc4) = data @ rfc_mac key (read_seq r) type v data"
proof -
  obtain buf rc4' where c: "crypt body rc4 = (buf, rc4')" by (cases "crypt body rc4")
  have len: "length buf = length body" using length_crypt [of body rc4] c by simp
  let ?n = "length buf - size"
  let ?mac = "rfc_mac key (read_seq r) type v (take ?n buf)"
  obtain hm where hm: "compute_mac ops (read_mac r) (read_seq r) type v (take ?n buf) = (?mac, hm)"
    using compute_mac_rfc [OF k] by blast
  have eq: "ct_equal ?mac (drop ?n buf) size \<longleftrightarrow> drop ?n buf = ?mac" if "size \<le> length buf"
    using that by (simp add: ct_equal_iff) metis
  have split: "(take ?n buf = data \<and> drop ?n buf = ?mac) \<longleftrightarrow> buf = data @ rfc_mac key (read_seq r) type v data"
    if "size \<le> length buf"
  proof
    assume "take ?n buf = data \<and> drop ?n buf = ?mac"
    then show "buf = data @ rfc_mac key (read_seq r) type v data"
      using append_take_drop_id [of ?n buf] by metis
  next
    assume "buf = data @ rfc_mac key (read_seq r) type v data"
    then show "take ?n buf = data \<and> drop ?n buf = ?mac" by simp
  qed
  have val: "fst (unprotect ops type v body r) =
      (if length body > MAX_CIPHERTEXT \<or> length body < size \<or> ?n > MAX_PLAINTEXT \<or> drop ?n buf \<noteq> ?mac
       then None else Some (take ?n buf))"
    using eq [unfolded len] len by (auto simp: unprotect_def rc c size_ops hm [unfolded len] Let_def)
  show ?thesis
  proof (cases "size \<le> length buf")
    case True
    have dl: "length data = ?n" if "take ?n buf = data" using that by auto
    show ?thesis
      unfolding val c fst_conv split [OF True, symmetric]
      using True dl unfolding len by (auto simp: not_less)
  next
    case False
    then show ?thesis unfolding val using len by simp
  qed
qed

end

section \<open>Properties\<close>

lemma protect_succeeds:
  "length data \<le> MAX_PLAINTEXT \<Longrightarrow> \<exists>out w'. protect H type data w = (Some out, w')"
  by (auto simp: protect_def Let_def split: option.splits prod.splits)

lemma protect_all_succeeds:
  "list_all (\<lambda>(type, data). length data \<le> MAX_PLAINTEXT) msgs \<Longrightarrow> \<exists>recs w'. protect_all H msgs w = Some (recs, w')"
proof (induction H msgs w rule: protect_all.induct)
  case (2 H type data msgs w)
  then obtain out w' where w: "protect H type data w = (Some out, w')"
    using protect_succeeds [of data H type w] by auto
  with 2 show ?case by fastforce
qed simp

text \<open>C9: a writer and a reader that enabled their ciphers with the same key material stay in step: any sequence of records of at most 16384 bytes, of any types and including empty ones, is protected, and the reader recovers exactly those messages in order, sequence numbers, MACs and RC4 states included.\<close>

theorem records_delivered:
  assumes "list_all (\<lambda>(type, data). length data \<le> MAX_PLAINTEXT) msgs"
  shows "\<exists>recs w' r'. protect_all MD5_ops msgs (enable_write_cipher MD5_ops mk ek w) = Some (recs, w') \<and>
    unprotect_all MD5_ops recs (enable_read_cipher MD5_ops mk ek r) = Some (msgs, r')"
proof -
  obtain recs w' where w: "protect_all MD5_ops msgs (enable_write_cipher MD5_ops mk ek w) = Some (recs, w')"
    using protect_all_succeeds [OF assms] by blast
  from hmac_md5.records_round_trip [OF hmac_md5.in_step_enable w] w show ?thesis by blast
qed

lemma records_delivered_witness:
  "\<exists>recs w r. protect_all MD5_ops [(23, [1, 2, 3]), (21, []), (23, [9])]
       (enable_write_cipher MD5_ops (replicate 16 1) (replicate 16 2) (record_layer_new MD5_ops 0x0301)) = Some (recs, w) \<and>
    unprotect_all MD5_ops recs
       (enable_read_cipher MD5_ops (replicate 16 1) (replicate 16 2) (record_layer_new MD5_ops 0x0301)) =
         Some ([(23, [1, 2, 3]), (21, []), (23, [9])], r)"
proof -
  have "list_all (\<lambda>(type, data). length data \<le> MAX_PLAINTEXT) [(23, [1, 2, 3]), (21, []), (23, [9])]"
    by (simp add: MAX_PLAINTEXT_def)
  from records_delivered [OF this] show ?thesis .
qed

text \<open>C10: an active reader accepts a body exactly when the body deciphers to some data followed by the RFC 2246 MAC of that data under the current sequence number, record type and version: a forged, truncated, reordered or retyped record is refused.\<close>

theorem record_accepted_iff_mac:
  assumes "read_rc4 r = Some rc4" and "hmac_md5.keyed key [] (read_mac r)"
  shows "fst (unprotect MD5_ops type v body r) = Some data \<longleftrightarrow>
    16 \<le> length body \<and> length body \<le> MAX_CIPHERTEXT \<and> length data \<le> MAX_PLAINTEXT \<and>
    fst (crypt body rc4) = data @ rfc2104 md5 key (mac_header (read_seq r) type v (length data) @ data)"
  using hmac_md5.unprotect_iff_mac [OF assms] by (simp add: hmac_md5.rfc_mac_def)

lemma record_accepted_iff_mac_witness:
  "fst (unprotect MD5_ops 23 0x0301 [1, 2, 3]
     (enable_read_cipher MD5_ops (replicate 16 1) (replicate 16 2) (record_layer_new MD5_ops 0x0301))) = None"
proof -
  let ?r = "enable_read_cipher MD5_ops (replicate 16 1) (replicate 16 2) (record_layer_new MD5_ops 0x0301)"
  have "\<exists>rc4. read_rc4 ?r = Some rc4" "read_mac ?r = hmac_init MD5_ops (replicate 16 1)"
    by (simp_all add: enable_read_cipher_def MD5_ops_def)
  then obtain rc4 where "read_rc4 ?r = Some rc4" "hmac_md5.keyed (replicate 16 1) [] (read_mac ?r)"
    using hmac_md5.keyed_init [of "replicate 16 1"] by auto
  from record_accepted_iff_mac [OF this, of 23 "0x0301" "[1, 2, 3]"] show ?thesis by auto
qed

end
