(* ===== verification/Handshake.thy ===== *)
theory Handshake
  imports Prf Rsa Record_Layer
begin

text \<open>
  \<open>tls/handshake.hpp\<close>: the bounds-checked \<open>Reader\<close>, the transcript of both hashes, the message
  builders and the parsers. A \<open>Reader\<close> is the list of bytes it has left; every method that finds
  too few is \<open>None\<close>. Builders and parsers are inverse, the transcript digests the concatenation of
  all messages without being disturbed, and Finished is the RFC 2246 value.
\<close>

unbundle bit_operations_syntax

section \<open>Constants\<close>

definition HT_HELLO_REQUEST :: byte where "HT_HELLO_REQUEST = 0"
definition HT_CLIENT_HELLO :: byte where "HT_CLIENT_HELLO = 1"
definition HT_SERVER_HELLO :: byte where "HT_SERVER_HELLO = 2"
definition HT_CERTIFICATE :: byte where "HT_CERTIFICATE = 11"
definition HT_SERVER_KEY_EXCHANGE :: byte where "HT_SERVER_KEY_EXCHANGE = 12"
definition HT_CERTIFICATE_REQUEST :: byte where "HT_CERTIFICATE_REQUEST = 13"
definition HT_SERVER_HELLO_DONE :: byte where "HT_SERVER_HELLO_DONE = 14"
definition HT_CLIENT_KEY_EXCHANGE :: byte where "HT_CLIENT_KEY_EXCHANGE = 16"
definition HT_FINISHED :: byte where "HT_FINISHED = 20"

definition TLS_RSA_WITH_RC4_128_MD5 :: u16 where "TLS_RSA_WITH_RC4_128_MD5 = 0x0004"
definition TLS_RSA_WITH_RC4_128_SHA :: u16 where "TLS_RSA_WITH_RC4_128_SHA = 0x0005"

definition HANDSHAKE_HEADER_LEN :: nat where "HANDSHAKE_HEADER_LEN = 4"
definition PREMASTER_LEN :: nat where "PREMASTER_LEN = 48"

section \<open>The reader\<close>

fun read_u8 :: "bytes \<Rightarrow> (byte \<times> bytes) option" where
  "read_u8 (b # r) = Some (b, r)"
| "read_u8 _ = None"

fun read_u16 :: "bytes \<Rightarrow> (u16 \<times> bytes) option" where
  "read_u16 (a # b # r) = Some (be16 a b, r)"
| "read_u16 _ = None"

definition be24 :: "byte \<Rightarrow> byte \<Rightarrow> byte \<Rightarrow> u32" where
  "be24 a b c = (push_bit 16 (ucast a) OR push_bit 8 (ucast b)) OR ucast c"

fun read_u24 :: "bytes \<Rightarrow> (u32 \<times> bytes) option" where
  "read_u24 (a # b # c # r) = Some (be24 a b c, r)"
| "read_u24 _ = None"

definition read_take :: "nat \<Rightarrow> bytes \<Rightarrow> (bytes \<times> bytes) option" where
  "read_take n r = (if length r < n then None else Some (take n r, drop n r))"

section \<open>The transcript\<close>

record transcript =
  tr_md5 :: hash_ctx
  tr_sha1 :: hash_ctx

definition transcript_new :: transcript where
  "transcript_new = \<lparr>tr_md5 = md5_init, tr_sha1 = sha1_init\<rparr>"

definition transcript_update :: "bytes \<Rightarrow> transcript \<Rightarrow> transcript" where
  "transcript_update p t =
     (if length p = 0 then t
      else t\<lparr>tr_md5 := md5_update p (tr_md5 t), tr_sha1 := sha1_update p (tr_sha1 t)\<rparr>)"

definition transcript_snapshot :: "transcript \<Rightarrow> bytes \<times> bytes" where
  "transcript_snapshot t = (fst (md5_digest (tr_md5 t)), fst (sha1_digest (tr_sha1 t)))"

section \<open>Building\<close>

definition put24 :: "nat \<Rightarrow> bytes" where
  "put24 n = [word_of_nat (drop_bit 16 n), word_of_nat (drop_bit 8 n), word_of_nat n]"

definition frame :: "byte \<Rightarrow> bytes \<Rightarrow> bytes" where
  "frame type body = type # put24 (length body) @ body"

definition make_client_random :: "'r rng \<Rightarrow> u32 \<Rightarrow> 'r \<Rightarrow> bytes option \<times> 'r" where
  "make_client_random rng t r =
     (let (tail_bytes, r) = secure_random rng (RANDOM_LEN - 4) r
      in (map_option (\<lambda>bs. [ucast (drop_bit 24 t), ucast (drop_bit 16 t), ucast (drop_bit 8 t), ucast t] @ bs)
            tail_bytes, r))"

definition build_client_hello :: "u16 \<Rightarrow> bytes \<Rightarrow> u16 list \<Rightarrow> bytes" where
  "build_client_hello v random suites =
     frame HT_CLIENT_HELLO
       (put16 v @ take RANDOM_LEN random @ [0x00] @
        [word_of_nat (drop_bit 8 (length suites * 2)), word_of_nat (length suites * 2)] @
        concat (map put16 suites) @ [0x01, 0x00])"

definition make_premaster :: "'r rng \<Rightarrow> u16 \<Rightarrow> 'r \<Rightarrow> bytes option \<times> 'r" where
  "make_premaster rng offered r =
     (let (rest, r) = secure_random rng (PREMASTER_LEN - 2) r
      in (map_option (\<lambda>bs. put16 offered @ bs) rest, r))"

definition build_client_key_exchange ::
  "'r rng \<Rightarrow> nat \<Rightarrow> rsa_public_key \<Rightarrow> bytes \<Rightarrow> 'r \<Rightarrow> bytes drawn \<times> 'r" where
  "build_client_key_exchange rng fuel key premaster r =
     (case rsa_encrypt_pkcs1v15 rng fuel key (take PREMASTER_LEN premaster) r of
        (Drawn ciphertext, r) \<Rightarrow>
          (Drawn (frame HT_CLIENT_KEY_EXCHANGE
             ([word_of_nat (drop_bit 8 (length ciphertext)), word_of_nat (length ciphertext)] @ ciphertext)), r)
      | (Failed, r) \<Rightarrow> (Failed, r)
      | (Out_of_fuel, r) \<Rightarrow> (Out_of_fuel, r))"

definition build_empty_certificate :: bytes where
  "build_empty_certificate = frame HT_CERTIFICATE [0x00, 0x00, 0x00]"

definition build_finished :: "bytes \<Rightarrow> string \<Rightarrow> transcript \<Rightarrow> bytes option" where
  "build_finished master label t =
     (let (m, s) = transcript_snapshot t
      in map_option (frame HT_FINISHED) (derive_verify_data master label m s))"

definition check_finished :: "bytes \<Rightarrow> string \<Rightarrow> transcript \<Rightarrow> bytes \<Rightarrow> bool option" where
  "check_finished master label t body =
     (if length body \<noteq> VERIFY_DATA_LEN then Some False
      else (let (m, s) = transcript_snapshot t
            in map_option (\<lambda>want. ct_equal want body VERIFY_DATA_LEN) (derive_verify_data master label m s)))"

section \<open>Parsing\<close>

record handshake_message =
  hm_type :: byte
  hm_body :: bytes
  hm_total :: nat

definition parse_handshake :: "bytes \<Rightarrow> handshake_message option" where
  "parse_handshake p =
     (case read_u8 p of None \<Rightarrow> None | Some (type, r) \<Rightarrow>
     (case read_u24 r of None \<Rightarrow> None | Some (len, r) \<Rightarrow>
       (if length r < unat len then None
        else Some \<lparr>hm_type = type, hm_body = take (unat len) (drop HANDSHAKE_HEADER_LEN p),
                   hm_total = HANDSHAKE_HEADER_LEN + unat len\<rparr>)))"

record server_hello =
  sh_version :: u16
  sh_random :: bytes
  sh_session_id :: bytes
  sh_cipher_suite :: u16
  sh_compression :: byte

definition parse_server_hello :: "bytes \<Rightarrow> server_hello option" where
  "parse_server_hello body =
     (case read_u16 body of None \<Rightarrow> None | Some (v, r) \<Rightarrow>
     (case read_take RANDOM_LEN r of None \<Rightarrow> None | Some (rnd, r) \<Rightarrow>
     (case read_u8 r of None \<Rightarrow> None | Some (sid_len, r) \<Rightarrow>
       (if unat sid_len > 32 then None
        else (case read_take (unat sid_len) r of None \<Rightarrow> None | Some (sid, r) \<Rightarrow>
             (case read_u16 r of None \<Rightarrow> None | Some (suite, r) \<Rightarrow>
             (case read_u8 r of None \<Rightarrow> None | Some (compression, r) \<Rightarrow>
               Some \<lparr>sh_version = v, sh_random = rnd, sh_session_id = sid, sh_cipher_suite = suite,
                     sh_compression = compression\<rparr>)))))))"

text \<open>The loop over the entries of \<open>Reader list\<close>; each takes at least its three length bytes.\<close>

lemma read_u24_shorter: "read_u24 r = Some (n, r') \<Longrightarrow> length r = length r' + 3"
  by (induction r rule: read_u24.induct) simp_all

lemma read_take_shorter: "read_take n r = Some (bs, r') \<Longrightarrow> length r = length r' + n \<and> r = bs @ r'"
  by (auto simp: read_take_def split: if_splits)

function certificate_entries :: "bytes \<Rightarrow> bytes list option" where
  "certificate_entries r =
     (if r = [] then Some []
      else (case read_u24 r of None \<Rightarrow> None | Some (clen, r) \<Rightarrow>
           (case read_take (unat clen) r of None \<Rightarrow> None | Some (cert, r) \<Rightarrow>
              map_option (\<lambda>cs. cert # cs) (certificate_entries r))))"
  by pat_completeness auto
termination
  by (relation "measure length") (auto dest!: sym [of "Some _"] read_u24_shorter read_take_shorter)

declare certificate_entries.simps [simp del]

definition parse_certificate_list :: "bytes \<Rightarrow> bytes list option" where
  "parse_certificate_list body =
     (case read_u24 body of None \<Rightarrow> None | Some (total_len, r) \<Rightarrow>
       (if length r < unat total_len then None
        else (case certificate_entries (take (unat total_len) (drop 3 body)) of
                None \<Rightarrow> None
              | Some out \<Rightarrow> (if out = [] then None else Some out))))"

record alert =
  al_level :: byte
  al_description :: byte

definition parse_alert :: "bytes \<Rightarrow> alert option" where
  "parse_alert body =
     (if length body \<noteq> 2 then None else Some \<lparr>al_level = body ! 0, al_description = body ! 1\<rparr>)"

definition alert_name :: "byte \<Rightarrow> string" where
  "alert_name d =
     (if d = 0 then ''close_notify'' else if d = 10 then ''unexpected_message''
      else if d = 20 then ''bad_record_mac'' else if d = 21 then ''decryption_failed''
      else if d = 22 then ''record_overflow'' else if d = 30 then ''decompression_failure''
      else if d = 40 then ''handshake_failure'' else if d = 41 then ''no_certificate''
      else if d = 42 then ''bad_certificate'' else if d = 43 then ''unsupported_certificate''
      else if d = 44 then ''certificate_revoked'' else if d = 45 then ''certificate_expired''
      else if d = 46 then ''certificate_unknown'' else if d = 47 then ''illegal_parameter''
      else if d = 48 then ''unknown_ca'' else if d = 49 then ''access_denied''
      else if d = 50 then ''decode_error'' else if d = 51 then ''decrypt_error''
      else if d = 60 then ''export_restriction'' else if d = 70 then ''protocol_version''
      else if d = 71 then ''insufficient_security'' else if d = 80 then ''internal_error''
      else if d = 90 then ''user_canceled'' else if d = 100 then ''no_renegotiation''
      else ''unknown_alert'')"

section \<open>What the transcript stands for\<close>

definition transcript_of :: "bytes \<Rightarrow> transcript \<Rightarrow> bool" where
  "transcript_of m t \<longleftrightarrow> md5_absorbs m (tr_md5 t) \<and> sha1_absorbs m (tr_sha1 t)"

lemma transcript_of_new: "transcript_of [] transcript_new"
  by (simp add: transcript_of_def transcript_new_def md5_absorbs_init sha1_absorbs_init)

lemma transcript_of_update: "transcript_of m t \<Longrightarrow> transcript_of (m @ p) (transcript_update p t)"
  by (simp add: transcript_of_def transcript_update_def md5_absorbs_update sha1_absorbs_update)

lemma transcript_snapshot_val: "transcript_of m t \<Longrightarrow> transcript_snapshot t = (md5 m, sha1 m)"
  using md5_digest_absorbs [of m "tr_md5 t"] sha1_digest_absorbs [of m "tr_sha1 t"]
  by (simp add: transcript_of_def transcript_snapshot_def)

section \<open>Framing\<close>

lemma unat_be24: "unat (be24 a b c) = 65536 * unat a + 256 * unat b + unat c"
proof -
  have lt: "unat (x :: byte) < 256" for x using unsigned_less [of x] by simp
  have up: "unat (ucast x :: u32) = unat x" for x :: byte
    using lt [of x] by (simp add: unsigned_ucast_eq take_bit_nat_eq_self)
  have pa: "unat (push_bit 16 (ucast a) :: u32) = 65536 * unat a"
    using lt [of a] by (simp only: unsigned_push_bit_eq up) (simp add: take_bit_nat_eq_self push_bit_eq_mult)
  have pb: "unat (push_bit 8 (ucast b) :: u32) = 256 * unat b"
    using lt [of b] by (simp only: unsigned_push_bit_eq up) (simp add: take_bit_nat_eq_self push_bit_eq_mult)
  have "(65536 * unat a) OR (256 * unat b) = 65536 * unat a + 256 * unat b"
    using lt [of b] by (intro or_disjoint_add [of 16]) simp_all
  moreover have "(65536 * unat a + 256 * unat b) OR unat c = (65536 * unat a + 256 * unat b) + unat c"
    using lt [of c] by (intro or_disjoint_add [of 8]) (simp_all add: dvd_add)
  ultimately show ?thesis by (simp only: be24_def unsigned_or_eq up pa pb)
qed

lemma unat_small24: "n < 16777216 \<Longrightarrow> unat (word_of_nat n :: u32) = n"
  by (simp add: unsigned_of_nat take_bit_nat_eq_self)

lemma unat_word_of_nat_byte: "unat (word_of_nat m :: byte) = m mod 256"
  by (simp add: unsigned_of_nat take_bit_eq_mod)

lemma bytes_of_24:
  fixes a b c :: nat
  assumes "a < 256" and "b < 256" and "c < 256"
  shows "(65536 * a + 256 * b + c) div 65536 = a" "(65536 * a + 256 * b + c) div 256 = 256 * a + b"
    "(65536 * a + 256 * b + c) mod 256 = c"
proof -
  show "(65536 * a + 256 * b + c) div 65536 = a" "(65536 * a + 256 * b + c) div 256 = 256 * a + b"
    using assms by (auto intro!: div_nat_eqI)
  have "65536 * a + 256 * b + c = 256 * (256 * a + b) + c" by simp
  then show "(65536 * a + 256 * b + c) mod 256 = c" using assms by (simp only: mod_mult_self4) simp
qed

lemma split_24:
  assumes "n < 16777216"
  shows "65536 * (n div 65536 mod 256) + 256 * (n div 256 mod 256) + n mod 256 = (n :: nat)"
proof -
  have "n div 65536 < 256" using assms by (simp add: less_mult_imp_div_less)
  moreover have "n div 256 = 256 * (n div 65536) + n div 256 mod 256"
    using mult_div_mod_eq [of 256 "n div 256"] by (simp add: div_mult2_eq [symmetric])
  moreover have "n = 256 * (n div 256) + n mod 256" by simp
  ultimately show ?thesis by (simp only: mod_less)
qed

lemma be24_put24_word:
  assumes "n < 16777216"
  shows "be24 (word_of_nat (drop_bit 16 n)) (word_of_nat (drop_bit 8 n)) (word_of_nat n) = word_of_nat n"
proof -
  have "unat (be24 (word_of_nat (drop_bit 16 n)) (word_of_nat (drop_bit 8 n)) (word_of_nat n)) =
      65536 * (n div 65536 mod 256) + 256 * (n div 256 mod 256) + n mod 256"
    unfolding unat_be24 unat_word_of_nat_byte drop_bit_eq_div by simp
  then show ?thesis
    using split_24 [OF assms] by (simp only: word_unat_eq_iff unat_small24 [OF assms])
qed

lemma read_put24: "n < 16777216 \<Longrightarrow> read_u24 (put24 n @ r) = Some (word_of_nat n, r)"
  by (simp add: put24_def be24_put24_word)

lemma length_put24 [simp]: "length (put24 n) = 3"
  by (simp add: put24_def)

lemma read_put16: "read_u16 (put16 v @ r) = Some (v, r)"
  by (simp add: put16_def be16_split)

lemma parse_frame:
  "length body < 16777216 \<Longrightarrow> parse_handshake (frame type body @ rest) =
     Some \<lparr>hm_type = type, hm_body = body, hm_total = HANDSHAKE_HEADER_LEN + length body\<rparr>"
  by (simp add: parse_handshake_def frame_def read_put24 unat_small24 HANDSHAKE_HEADER_LEN_def)

text \<open>Conversely, what is parsed is the frame of the type and body returned.\<close>

lemma put24_be24: "put24 (unat (be24 a b c)) = [a, b, c]"
proof -
  have lt: "unat (x :: byte) < 256" for x using unsigned_less [of x] by simp
  let ?n = "65536 * unat a + 256 * unat b + unat c"
  have b: "word_of_nat m = x" if "m mod 256 = unat x" for m and x :: byte
    using that by (simp only: word_unat_eq_iff unat_word_of_nat_byte)
  note n = bytes_of_24 [OF lt [of a] lt [of b] lt [of c]]
  have "word_of_nat (drop_bit 16 ?n) = a"
    by (rule b) (simp add: drop_bit_eq_div n lt)
  moreover have "word_of_nat (drop_bit 8 ?n) = b"
    by (rule b) (simp add: drop_bit_eq_div n lt)
  moreover have "word_of_nat ?n = c"
    by (rule b) (rule n)
  ultimately show ?thesis by (simp only: put24_def unat_be24)
qed

lemma parse_handshake_frame:
  assumes "parse_handshake p = Some m"
  shows "hm_total m \<le> length p" and "take (hm_total m) p = frame (hm_type m) (hm_body m)"
    and "hm_total m = HANDSHAKE_HEADER_LEN + length (hm_body m)"
proof -
  obtain ty a b c r where p: "p = ty # a # b # c # r" and len: "unat (be24 a b c) \<le> length r"
    and m: "m = \<lparr>hm_type = ty, hm_body = take (unat (be24 a b c)) r,
                 hm_total = HANDSHAKE_HEADER_LEN + unat (be24 a b c)\<rparr>"
    using assms
    by (auto simp: parse_handshake_def HANDSHAKE_HEADER_LEN_def not_less split: option.splits if_splits
        elim!: read_u8.elims read_u24.elims)
  have "min (length r) (unat (be24 a b c)) = unat (be24 a b c)" using len by simp
  moreover have "take (HANDSHAKE_HEADER_LEN + k) p = ty # a # b # c # take k r" for k
    by (simp add: p HANDSHAKE_HEADER_LEN_def eval_nat_numeral)
  ultimately show "hm_total m \<le> length p" "take (hm_total m) p = frame (hm_type m) (hm_body m)"
    "hm_total m = HANDSHAKE_HEADER_LEN + length (hm_body m)"
    using len by (simp_all add: m frame_def put24_be24) (simp_all add: p HANDSHAKE_HEADER_LEN_def)
qed

section \<open>Round trips with the reference encodings of the server's messages\<close>

definition server_hello_body :: "server_hello \<Rightarrow> bytes" where
  "server_hello_body sh = put16 (sh_version sh) @ sh_random sh @
     [word_of_nat (length (sh_session_id sh))] @ sh_session_id sh @ put16 (sh_cipher_suite sh) @ [sh_compression sh]"

lemma read_take_append: "length bs = n \<Longrightarrow> read_take n (bs @ r) = Some (bs, r)"
  by (auto simp: read_take_def)

lemma parse_server_hello_body:
  assumes "length (sh_random sh) = 32" and "length (sh_session_id sh) \<le> 32"
  shows "parse_server_hello (server_hello_body sh @ extensions) = Some sh"
proof -
  have n: "unat (word_of_nat (length (sh_session_id sh)) :: byte) = length (sh_session_id sh)"
    using assms(2) by (simp add: unat_word_of_nat_byte)
  show ?thesis
    using assms by (simp add: parse_server_hello_def server_hello_body_def read_put16
        read_take_append RANDOM_LEN_def n)
qed

definition certificate_list_body :: "bytes list \<Rightarrow> bytes" where
  "certificate_list_body cs =
     (let list = concat (map (\<lambda>c. put24 (length c) @ c) cs) in put24 (length list) @ list)"

lemma certificate_entries_concat:
  "list_all (\<lambda>c. length c < 16777216) cs \<Longrightarrow>
   certificate_entries (concat (map (\<lambda>c. put24 (length c) @ c) cs)) = Some cs"
proof (induction cs)
  case Nil
  then show ?case by (simp add: certificate_entries.simps)
next
  case (Cons c cs)
  then have "put24 (length c) @ c @ concat (map (\<lambda>c. put24 (length c) @ c) cs) \<noteq> []"
    by (simp add: put24_def)
  then show ?case
    using Cons by (subst certificate_entries.simps)
      (simp add: read_put24 unat_small24 read_take_append)
qed

lemma parse_certificate_list_body:
  assumes "list_all (\<lambda>c. length c < 16777216) cs" and "cs \<noteq> []"
    and "length (concat (map (\<lambda>c. put24 (length c) @ c) cs)) < 16777216"
  shows "parse_certificate_list (certificate_list_body cs @ rest) = Some cs"
proof -
  let ?list = "concat (map (\<lambda>c. put24 (length c) @ c) cs)"
  have "read_u24 (certificate_list_body cs @ rest) = Some (word_of_nat (length ?list), ?list @ rest)"
    using assms(3) by (simp add: certificate_list_body_def Let_def read_put24)
  moreover have "drop 3 (certificate_list_body cs @ rest) = ?list @ rest"
    by (simp add: certificate_list_body_def Let_def)
  ultimately show ?thesis
    using certificate_entries_concat [OF assms(1)] assms(2,3)
    by (simp add: parse_certificate_list_def unat_small24 del: length_concat)
qed

section \<open>The client's messages\<close>

text \<open>A server reading the ClientHello finds version, random and suites, and no extensions.\<close>

fun read_suites :: "bytes \<Rightarrow> u16 list" where
  "read_suites (a # b # r) = be16 a b # read_suites r"
| "read_suites _ = []"

lemma read_suites_put16: "read_suites (concat (map put16 suites)) = suites"
  by (induction suites) (simp_all add: put16_def be16_split)

lemma length_concat_put16: "length (concat (map put16 suites)) = 2 * length suites"
  by (induction suites) (simp_all add: put16_def)

lemma client_hello_fields:
  assumes "length random = 32" and "length suites < 32768"
  shows "\<exists>m. parse_handshake (build_client_hello v random suites) = Some m \<and> hm_type m = HT_CLIENT_HELLO \<and>
    take 2 (hm_body m) = put16 v \<and> take 32 (drop 2 (hm_body m)) = random \<and> hm_body m ! 34 = 0 \<and>
    unat (be16 (hm_body m ! 35) (hm_body m ! 36)) = 2 * length suites \<and>
    read_suites (take (2 * length suites) (drop 37 (hm_body m))) = suites \<and>
    drop (37 + 2 * length suites) (hm_body m) = [0x01, 0x00]"
proof -
  let ?n = "length suites * 2"
  let ?body = "put16 v @ random @ [0x00] @ [word_of_nat (drop_bit 8 ?n), word_of_nat ?n] @
        concat (map put16 suites) @ [0x01, 0x00]"
  have len: "length ?body < 16777216"
    using assms by (simp add: length_concat_put16 put16_def del: length_concat)
  have hello: "build_client_hello v random suites = frame HT_CLIENT_HELLO ?body"
    using assms(1) by (simp add: build_client_hello_def RANDOM_LEN_def)
  obtain r1 r2 where v: "put16 v = [r1, r2]" by (simp add: put16_def)
  have n: "unat (be16 (word_of_nat (drop_bit 8 ?n)) (word_of_nat ?n)) = ?n"
  proof -
    have "?n div 256 < 256" using assms(2) by (simp add: less_mult_imp_div_less)
    then have "256 * (?n div 256 mod 256) + ?n mod 256 = ?n"
      using mult_div_mod_eq [of 256 ?n] by (simp only: mod_less)
    moreover have "drop_bit 8 ?n = ?n div 256" by (simp only: drop_bit_eq_div) simp
    ultimately show ?thesis
      by (simp only: unat_be16 unat_word_of_nat_byte)
  qed
  have "parse_handshake (build_client_hello v random suites) =
      Some \<lparr>hm_type = HT_CLIENT_HELLO, hm_body = ?body, hm_total = HANDSHAKE_HEADER_LEN + length ?body\<rparr>"
    using parse_frame [OF len, of HT_CLIENT_HELLO "[]"] by (simp only: hello append_Nil2)
  moreover have "take 2 ?body = put16 v" "take 32 (drop 2 ?body) = random" "?body ! 34 = 0"
    "drop 37 ?body = concat (map put16 suites) @ [0x01, 0x00]"
    "?body ! 35 = word_of_nat (drop_bit 8 ?n)" "?body ! 36 = word_of_nat ?n"
    using assms(1) by (simp_all add: v nth_append)
  moreover have "drop (37 + 2 * length suites) ?body = drop (2 * length suites) (drop 37 ?body)"
    by (simp only: drop_drop add.commute)
  ultimately show ?thesis
    using n read_suites_put16 length_concat_put16 [of suites]
    by (simp del: length_concat)
qed

text \<open>Finished: both ends compute the RFC 2246 value of the same transcript.\<close>

definition rfc_finished :: "bytes \<Rightarrow> string \<Rightarrow> bytes \<Rightarrow> bytes" where
  "rfc_finished master label messages = rfc_prf master label (md5 messages @ sha1 messages) 12"

lemma verify_data_rfc: "transcript_of m t \<Longrightarrow>
    (case transcript_snapshot t of (d, s) \<Rightarrow> derive_verify_data master label d s) = Some (rfc_finished master label m)"
  by (simp add: transcript_snapshot_val derive_verify_data_def prf_rfc2246 rfc_finished_def VERIFY_DATA_LEN_def)

lemma build_finished_rfc:
  "transcript_of m t \<Longrightarrow> build_finished master label t = Some (frame HT_FINISHED (rfc_finished master label m))"
  using verify_data_rfc [of m t master label] by (simp add: build_finished_def split: prod.splits)

lemma check_finished_rfc:
  assumes "transcript_of m t"
  shows "check_finished master label t body = Some (body = rfc_finished master label m)"
proof -
  have len: "length (rfc_finished master label m) = 12" by (simp add: rfc_finished_def)
  show ?thesis
  proof (cases "length body = 12")
    case True
    then have "ct_equal (rfc_finished master label m) body 12 \<longleftrightarrow> body = rfc_finished master label m"
      using ct_equal_iff [of 12 "rfc_finished master label m" body] len by auto
    then show ?thesis
      using True verify_data_rfc [OF assms, of master label]
      by (simp add: check_finished_def VERIFY_DATA_LEN_def split: prod.splits)
  next
    case False
    then show ?thesis using len by (auto simp: check_finished_def VERIFY_DATA_LEN_def)
  qed
qed

section \<open>Properties\<close>

text \<open>Framing and parsing of handshake messages are inverse: a frame followed by anything parses to its type and body, and whatever parses begins with the frame of the result, so the reassembly consumes exactly the bytes of one message.\<close>

theorem handshake_frame_round_trip:
  assumes "length body < 16777216"
  shows "parse_handshake (frame type body @ rest) =
      Some \<lparr>hm_type = type, hm_body = body, hm_total = 4 + length body\<rparr> \<and>
    (case parse_handshake p of None \<Rightarrow> True
     | Some m \<Rightarrow> hm_total m \<le> length p \<and> take (hm_total m) p = frame (hm_type m) (hm_body m))"
  using assms parse_handshake_frame(1,2) [of p]
  by (simp add: parse_frame HANDSHAKE_HEADER_LEN_def split: option.split)

lemma handshake_frame_round_trip_witness:
  "parse_handshake (frame 14 [] @ [1]) = Some \<lparr>hm_type = 14, hm_body = [], hm_total = 4\<rparr>"
  using handshake_frame_round_trip [of "[]" 14 "[1]" "[]"] by simp

text \<open>The server's ServerHello and Certificate messages in the encoding of RFC 2246 are parsed back field by field, extensions after the compression byte ignored, and a certificate list of any length in order.\<close>

theorem server_messages_round_trip:
  assumes "length (sh_random sh) = 32" and "length (sh_session_id sh) \<le> 32"
    and "list_all (\<lambda>c. length c < 16777216) cs" and "cs \<noteq> []"
    and "length (concat (map (\<lambda>c. put24 (length c) @ c) cs)) < 16777216"
  shows "parse_server_hello (server_hello_body sh @ extensions) = Some sh \<and>
    parse_certificate_list (certificate_list_body cs @ rest) = Some cs"
  using assms by (simp add: parse_server_hello_body parse_certificate_list_body)

lemma server_messages_round_trip_witness:
  "parse_certificate_list (certificate_list_body [[1, 2], [], [3]]) = Some [[1, 2], [], [3]]"
proof -
  let ?sh = "\<lparr>sh_version = 0x0301, sh_random = replicate 32 1, sh_session_id = [], sh_cipher_suite = 4, sh_compression = 0\<rparr>"
  show ?thesis
    using server_messages_round_trip [of ?sh "[[1, 2], [], [3]]" "[]" "[]"] by simp
qed

text \<open>A server that reads the ClientHello finds the offered version, the 32-byte random, an empty session id, exactly the offered suites in order, null compression, and no extensions.\<close>

theorem client_hello_encoding:
  assumes "length random = 32" and "length suites < 32768"
  shows "\<exists>m. parse_handshake (build_client_hello v random suites) = Some m \<and> hm_type m = HT_CLIENT_HELLO \<and>
    take 2 (hm_body m) = put16 v \<and> take 32 (drop 2 (hm_body m)) = random \<and> hm_body m ! 34 = 0 \<and>
    unat (be16 (hm_body m ! 35) (hm_body m ! 36)) = 2 * length suites \<and>
    read_suites (take (2 * length suites) (drop 37 (hm_body m))) = suites \<and>
    drop (37 + 2 * length suites) (hm_body m) = [0x01, 0x00]"
  using assms by (rule client_hello_fields)

lemma client_hello_encoding_witness:
  "\<exists>m. parse_handshake (build_client_hello 0x0301 (replicate 32 5) [4]) = Some m \<and> hm_body m ! 34 = 0"
  using client_hello_encoding [of "replicate 32 5" "[4]" "0x0301"] by auto

text \<open>Finished: over the messages exchanged so far, in whatever pieces they were absorbed, the client builds the RFC 2246 value and accepts from the server exactly the RFC 2246 value of the server's label; taking a snapshot does not disturb the transcript.\<close>

theorem finished_value:
  "let t = fold transcript_update messages transcript_new
   in build_finished master label t = Some (frame HT_FINISHED (rfc_finished master label (concat messages))) \<and>
      check_finished master label t body = Some (body = rfc_finished master label (concat messages))"
proof -
  have "transcript_of (m @ concat ds) (fold transcript_update ds t)" if "transcript_of m t" for m ds t
    using that
  proof (induction ds arbitrary: m t)
    case (Cons d ds)
    from Cons.IH [OF transcript_of_update [OF Cons.prems]] show ?case by simp
  qed simp
  from this [OF transcript_of_new, of messages]
  show ?thesis by (simp add: build_finished_rfc check_finished_rfc Let_def)
qed

end
