(* ===== verification/Std_String.thy ===== *)
theory Std_String
  imports Prelude "HOL-Library.Sublist"
begin

text \<open>
  The part of the C++ string library the sources use: decimal conversion, \<open>find\<close>, \<open>compare\<close>,
  trimming, ASCII case folding. Positions are \<open>nat\<close>; \<open>npos\<close> is \<open>None\<close>.
\<close>

section \<open>Numbers\<close>

text \<open>\<open>std::to_string\<close> on \<open>int\<close>: decimal digits with a leading minus sign.\<close>

fun dec_digits :: "nat \<Rightarrow> string" where
  "dec_digits n = (if n < 10 then [char_of (48 + n)]
                   else dec_digits (n div 10) @ [char_of (48 + n mod 10)])"

declare dec_digits.simps [simp del]

definition to_string :: "int \<Rightarrow> string" where
  "to_string i = (if i < 0 then ''-'' @ dec_digits (nat (- i)) else dec_digits (nat i))"

definition is_digit :: "char \<Rightarrow> bool" where
  "is_digit c \<longleftrightarrow> 48 \<le> (of_char c :: nat) \<and> (of_char c :: nat) \<le> 57"

definition digit_val :: "char \<Rightarrow> nat" where
  "digit_val c = of_char c - 48"

definition dec_val :: "string \<Rightarrow> nat" where
  "dec_val s = foldl (\<lambda>a c. 10 * a + digit_val c) 0 s"

lemma digit_char: "n < 10 \<Longrightarrow> is_digit (char_of (48 + n)) \<and> digit_val (char_of (48 + n)) = n"
  by (simp add: is_digit_def digit_val_def)

lemma dec_val_snoc: "dec_val (s @ [c]) = 10 * dec_val s + digit_val c"
  by (simp add: dec_val_def)

lemma dec_digits_props: "dec_val (dec_digits n) = n" "list_all is_digit (dec_digits n)" "dec_digits n \<noteq> []"
proof (induction n rule: dec_digits.induct)
  case (1 n)
  show "dec_val (dec_digits n) = n" "list_all is_digit (dec_digits n)" "dec_digits n \<noteq> []"
    using 1 digit_char [of n] digit_char [of "n mod 10"]
    by (cases "n < 10"; simp add: dec_digits.simps [of n] dec_val_def)+
qed

section \<open>Searching\<close>

text \<open>\<open>s.find(pat, from)\<close>: the least position at or after \<open>from\<close> where \<open>pat\<close> begins.\<close>

fun find_str :: "string \<Rightarrow> string \<Rightarrow> nat option" where
  "find_str pat [] = (if pat = [] then Some 0 else None)"
| "find_str pat (c # s) = (if prefix pat (c # s) then Some 0 else map_option Suc (find_str pat s))"

definition find_from :: "string \<Rightarrow> string \<Rightarrow> nat \<Rightarrow> nat option" where
  "find_from s pat from =
     (if from \<le> length s then map_option (\<lambda>k. from + k) (find_str pat (drop from s)) else None)"

lemma find_str_Some:
  "find_str pat s = Some k \<Longrightarrow> k + length pat \<le> length s \<and> prefix pat (drop k s) \<and> (\<forall>j<k. \<not> prefix pat (drop j s))"
proof (induction s arbitrary: k)
  case (Cons c s)
  show ?case
  proof (cases "prefix pat (c # s)")
    case True
    then show ?thesis using Cons.prems prefix_length_le [OF True] by auto
  next
    case False
    then obtain i where i: "find_str pat s = Some i" "k = Suc i" using Cons.prems by auto
    have "\<not> prefix pat (drop j (c # s))" if "j < k" for j
      using that Cons.IH [OF i(1)] False i(2) by (cases j) auto
    with Cons.IH [OF i(1)] i(2) show ?thesis by auto
  qed
qed (auto split: if_splits)

lemma find_str_None: "find_str pat s = None \<longleftrightarrow> (\<forall>j\<le>length s. \<not> prefix pat (drop j s))"
proof (induction s)
  case (Cons c s)
  have "(\<forall>j\<le>Suc (length s). \<not> prefix pat (drop j (c # s))) \<longleftrightarrow>
      \<not> prefix pat (c # s) \<and> (\<forall>j\<le>length s. \<not> prefix pat (drop j s))"
    by (simp only: less_Suc_eq_le [symmetric] All_less_Suc2 drop_Suc_Cons drop0)
  with Cons show ?case by simp
qed auto

lemma find_from_Some:
  "find_from s pat from = Some k \<Longrightarrow> from \<le> k \<and> k + length pat \<le> length s"
  using find_str_Some [of pat "drop from s"] by (auto simp: find_from_def split: if_splits)

text \<open>A front without an occurrence at its positions is skipped.\<close>

lemma find_str_beyond:
  "(\<And>m. m < length s \<Longrightarrow> \<not> prefix pat (drop m (s @ t))) \<Longrightarrow>
   find_str pat (s @ t) = map_option ((+) (length s)) (find_str pat t)"
proof (induction s)
  case Nil
  then show ?case by (simp add: option.map_ident)
next
  case (Cons c s)
  have "\<not> prefix pat (drop m (s @ t))" if "m < length s" for m
    using Cons.prems [of "Suc m"] that by simp
  moreover have "\<not> prefix pat (c # s @ t)" using Cons.prems [of 0] by simp
  ultimately show ?case using Cons.IH by (simp add: option.map_comp o_def)
qed

lemma find_char: "x \<notin> set s \<Longrightarrow> find_str [x] (s @ x # t) = Some (length s)"
  by (induction s) auto

lemma find_str_infix: "find_str pat (s @ pat @ t) \<noteq> None"
proof
  assume "find_str pat (s @ pat @ t) = None"
  from this [unfolded find_str_None, THEN spec, of "length s"] show False by simp
qed

section \<open>Case and space\<close>

definition lower_char :: "char \<Rightarrow> char" where
  "lower_char c = (let n = of_char c :: nat in if 65 \<le> n \<and> n \<le> 90 then char_of (n - 65 + 97) else c)"

definition is_blank :: "char \<Rightarrow> bool" where
  "is_blank c \<longleftrightarrow> c = CHR '' '' \<or> c = CHR 0x09"

definition strip_while :: "(char \<Rightarrow> bool) \<Rightarrow> string \<Rightarrow> string" where
  "strip_while P s = rev (dropWhile P (rev (dropWhile P s)))"

end
