(* ===== verification/Client.thy ===== *)
theory Client
  imports Der Handshake Std_String
begin

text \<open>
  \<open>ClientT\<close> of \<open>tls/client.hpp\<close>: record framing over a transport, reassembly of handshake
  messages, and the handshake. The transport (the template parameter) and the system generator
  are records of functions over states the model does not look into; both states are fields of
  the client. A method is a function from the client to its reply and the client afterwards.
  The loops that wait for a record of some kind carry fuel, one unit per record; \<open>Stuck\<close> is
  running out of it, \<open>Crash\<close> a read outside a buffer.
\<close>

unbundle bit_operations_syntax

section \<open>Replies and the transport\<close>

datatype 'a reply = Got 'a | Error string | Stuck | Crash

datatype received = Data bytes | Recv_timeout | Recv_error

record 't transport =
  tp_connect :: "string \<Rightarrow> u16 \<Rightarrow> int \<Rightarrow> 't \<Rightarrow> string option \<times> 't"
  tp_recv :: "'t \<Rightarrow> received \<times> 't"
  tp_send :: "bytes \<Rightarrow> 't \<Rightarrow> bool \<times> 't"
  tp_valid :: "'t \<Rightarrow> bool"
  tp_close :: "'t \<Rightarrow> 't"

record ('t, 'r) client =
  opt_version :: u16
  opt_timeout_ms :: int
  opt_gmt :: u32
  sock :: 't
  rand :: 'r
  rec_layer :: "hash_ctx record_layer"
  tr :: transcript
  rx :: bytes
  hs :: bytes
  peer_key :: rsa_public_key
  server_cert :: bytes
  suite :: u16
  connected :: bool
  eof :: bool

type_synonym ('a, 't, 'r) action = "('t, 'r) client \<Rightarrow> 'a reply \<times> ('t, 'r) client"

definition returns :: "'a \<Rightarrow> ('a, 't, 'r) action" where
  "returns x c = (Got x, c)"

definition fails :: "string \<Rightarrow> ('a, 't, 'r) action" where
  "fails e c = (Error e, c)"

definition andthen :: "('a, 't, 'r) action \<Rightarrow> ('a \<Rightarrow> ('b, 't, 'r) action) \<Rightarrow> ('b, 't, 'r) action" where
  "andthen m f c =
     (case m c of
        (Got x, c) \<Rightarrow> f x c
      | (Error e, c) \<Rightarrow> (Error e, c)
      | (Stuck, c) \<Rightarrow> (Stuck, c)
      | (Crash, c) \<Rightarrow> (Crash, c))"

definition updates :: "(('t, 'r) client \<Rightarrow> ('t, 'r) client) \<Rightarrow> (unit, 't, 'r) action" where
  "updates f c = (Got (), f c)"

definition client_new :: "u16 \<Rightarrow> int \<Rightarrow> u32 \<Rightarrow> 't \<Rightarrow> 'r \<Rightarrow> ('t, 'r) client" where
  "client_new v timeout gmt s r = \<lparr>opt_version = v, opt_timeout_ms = timeout, opt_gmt = gmt, sock = s, rand = r,
     rec_layer = record_layer_new MD5_ops VERSION_TLS_1_0, tr = transcript_new, rx = [], hs = [],
     peer_key = \<lparr>key_n = replicate RSA_LIMBS 0, key_e = 0, key_k = 0\<rparr>, server_cert = [], suite = 0,
     connected = False, eof = False\<rparr>"

section \<open>Records over the transport\<close>

definition send_record :: "'t transport \<Rightarrow> byte \<Rightarrow> bytes \<Rightarrow> (unit, 't, 'r) action" where
  "send_record TP type data c =
     (case protect MD5_ops type data (rec_layer c) of
        (None, r) \<Rightarrow> (Error ''record protection failed'', c\<lparr>rec_layer := r\<rparr>)
      | (Some out, r) \<Rightarrow>
          (let (ok, s) = tp_send TP out (sock c); c = c\<lparr>rec_layer := r, sock := s\<rparr>
           in if ok then (Got (), c) else (Error ''socket write failed'', c)))"

text \<open>\<open>n == 0\<close> is an empty \<open>Data\<close>.\<close>

function fill :: "'t transport \<Rightarrow> nat \<Rightarrow> (unit, 't, 'r) action" where
  "fill TP need c =
     (if length (rx c) < need
      then (case tp_recv TP (sock c) of
              (Data (b # bs), s) \<Rightarrow> fill TP need (c\<lparr>sock := s, rx := rx c @ b # bs\<rparr>)
            | (Data [], s) \<Rightarrow> (Error ''connection closed by peer'', c\<lparr>sock := s, eof := True\<rparr>)
            | (Recv_timeout, s) \<Rightarrow> (Error ''timed out waiting for data'', c\<lparr>sock := s\<rparr>)
            | (Recv_error, s) \<Rightarrow> (Error ''socket read failed'', c\<lparr>sock := s\<rparr>))
      else (Got (), c))"
  by pat_completeness auto
termination
  by (relation "measure (\<lambda>(TP, need, c). need - length (rx c))") auto

declare fill.simps [simp del]

definition read_record :: "'t transport \<Rightarrow> (record_header \<times> bytes, 't, 'r) action" where
  "read_record TP =
     andthen (fill TP RECORD_HEADER_LEN) (\<lambda>_ c.
       case parse_record_header (rx c) of
         None \<Rightarrow> (Error ''malformed record header'', c)
       | Some h \<Rightarrow>
           if \<not> is_valid_content_type (rh_type h)
           then (Error (''invalid record content type '' @ to_string (uint (rh_type h))), c)
           else andthen (fill TP (RECORD_HEADER_LEN + unat (rh_length h))) (\<lambda>_ c.
             let body = take (unat (rh_length h)) (drop RECORD_HEADER_LEN (rx c))
             in case unprotect MD5_ops (rh_type h) (rh_version h) body (rec_layer c) of
                  (None, r) \<Rightarrow> (Error ''record failed authentication (bad_record_mac)'', c\<lparr>rec_layer := r\<rparr>)
                | (Some plaintext, r) \<Rightarrow>
                    (Got (h, plaintext),
                     c\<lparr>rec_layer := r, rx := drop (RECORD_HEADER_LEN + unat (rh_length h)) (rx c)\<rparr>)) c)"

definition handle_alert :: "bytes \<Rightarrow> (unit, 't, 'r) action" where
  "handle_alert body c =
     (case parse_alert body of
        None \<Rightarrow> (Error ''malformed alert'', c)
      | Some a \<Rightarrow>
          if al_description a = 0 then (Error ''peer sent close_notify'', c\<lparr>eof := True\<rparr>)
          else if al_level a = 2
          then (Error (''fatal alert: '' @ alert_name (al_description a) @ '' ('' @
                  to_string (uint (al_description a)) @ '')''), c)
          else (Got (), c))"

text \<open>
  \<open>next_handshake\<close>: the message and the bytes \<open>store\<close> that go to the transcript.
\<close>

fun next_handshake :: "'t transport \<Rightarrow> nat \<Rightarrow> (bytes \<times> handshake_message, 't, 'r) action" where
  "next_handshake TP fuel c =
     (case parse_handshake (hs c) of
        Some m \<Rightarrow>
          (let store = take (hm_total m) (hs c); c = c\<lparr>hs := drop (hm_total m) (hs c)\<rparr>
           in case parse_handshake store of
                None \<Rightarrow> (Error ''internal: handshake message did not re-parse'', c)
              | Some out \<Rightarrow> (Got (store, out), c))
      | None \<Rightarrow>
          (case fuel of
             0 \<Rightarrow> (Stuck, c)
           | Suc fuel \<Rightarrow>
               andthen (read_record TP) (\<lambda>(h, pt).
                 if rh_type h = CT_ALERT then andthen (handle_alert pt) (\<lambda>_. next_handshake TP fuel)
                 else if rh_type h \<noteq> CT_HANDSHAKE
                 then fails (''expected a handshake record, got content type '' @ to_string (uint (rh_type h)))
                 else andthen (updates (\<lambda>c. c\<lparr>hs := hs c @ pt\<rparr>)) (\<lambda>_. next_handshake TP fuel)) c))"

declare next_handshake.simps [simp del]

fun await_change_cipher_spec :: "'t transport \<Rightarrow> nat \<Rightarrow> (unit, 't, 'r) action" where
  "await_change_cipher_spec TP 0 c = (Stuck, c)"
| "await_change_cipher_spec TP (Suc fuel) c =
     andthen (read_record TP) (\<lambda>(h, pt).
       if rh_type h = CT_ALERT then andthen (handle_alert pt) (\<lambda>_. await_change_cipher_spec TP fuel)
       else if rh_type h \<noteq> CT_CHANGE_CIPHER_SPEC
       then fails (''expected ChangeCipherSpec, got content type '' @ to_string (uint (rh_type h)))
       else if length pt \<noteq> 1 \<or> pt ! 0 \<noteq> 0x01 then fails ''malformed ChangeCipherSpec''
       else returns ()) c"

definition expect_change_cipher_spec :: "'t transport \<Rightarrow> nat \<Rightarrow> (unit, 't, 'r) action" where
  "expect_change_cipher_spec TP fuel c =
     (if hs c \<noteq> [] then (Error ''handshake data remained when ChangeCipherSpec was expected'', c)
      else await_change_cipher_spec TP fuel c)"

section \<open>Application data\<close>

function client_send :: "'t transport \<Rightarrow> bytes \<Rightarrow> (unit, 't, 'r) action" where
  "client_send TP data =
     (if data = [] then returns ()
      else (let n = (if length data < MAX_PLAINTEXT then length data else MAX_PLAINTEXT)
            in andthen (send_record TP CT_APPLICATION_DATA (take n data)) (\<lambda>_. client_send TP (drop n data))))"
  by pat_completeness auto
termination
  by (relation "measure (\<lambda>(TP, data). length data)") (auto simp: MAX_PLAINTEXT_def)

declare client_send.simps [simp del]

text \<open>\<open>recv\<close>: on failure the flag is \<open>eof_\<close>, except after an unexpected record type.\<close>

fun client_recv :: "'t transport \<Rightarrow> nat \<Rightarrow> (bytes + bool \<times> string, 't, 'r) action" where
  "client_recv TP 0 c = (Stuck, c)"
| "client_recv TP (Suc fuel) c =
     (case read_record TP c of
        (Got (h, pt), c) \<Rightarrow>
          if rh_type h = CT_APPLICATION_DATA then (Got (Inl pt), c)
          else if rh_type h = CT_ALERT
          then (case handle_alert pt c of
                  (Got _, c) \<Rightarrow> client_recv TP fuel c
                | (Error e, c) \<Rightarrow> (Got (Inr (eof c, e)), c)
                | (Stuck, c) \<Rightarrow> (Stuck, c)
                | (Crash, c) \<Rightarrow> (Crash, c))
          else (Got (Inr (False, ''unexpected record type '' @ to_string (uint (rh_type h)) @ '' after handshake'')), c)
      | (Error e, c) \<Rightarrow> (Got (Inr (eof c, e)), c)
      | (Stuck, c) \<Rightarrow> (Stuck, c)
      | (Crash, c) \<Rightarrow> (Crash, c))"

definition client_close :: "'t transport \<Rightarrow> ('t, 'r) client \<Rightarrow> ('t, 'r) client" where
  "client_close TP c =
     (let c = (if tp_valid TP (sock c) \<and> write_rc4 (rec_layer c) \<noteq> None
               then snd (send_record TP CT_ALERT [1, 0] c) else c)
      in c\<lparr>sock := tp_close TP (sock c)\<rparr>)"

section \<open>The handshake\<close>

definition hex_digit :: "nat \<Rightarrow> char" where
  "hex_digit n = ''0123456789abcdef'' ! n"

definition hex16 :: "u16 \<Rightarrow> string" where
  "hex16 v = [hex_digit (unat (drop_bit 12 v AND 0xF)), hex_digit (unat (drop_bit 8 v AND 0xF)),
              hex_digit (unat (drop_bit 4 v AND 0xF)), hex_digit (unat (v AND 0xF))]"

definition absorb :: "bytes \<Rightarrow> (unit, 't, 'r) action" where
  "absorb msg = updates (\<lambda>c. c\<lparr>tr := transcript_update msg (tr c)\<rparr>)"

text \<open>A draw from the generator, as \<open>make_client_random\<close> and \<open>make_premaster\<close> make it.\<close>

definition draws :: "('r \<Rightarrow> bytes option \<times> 'r) \<Rightarrow> (bytes, 't, 'r) action" where
  "draws f c =
     (case f (rand c) of
        (None, r) \<Rightarrow> (Error ''the system CSPRNG failed'', c\<lparr>rand := r\<rparr>)
      | (Some bs, r) \<Rightarrow> (Got bs, c\<lparr>rand := r\<rparr>))"

text \<open>A message of the given type, with the error the code reports for another one.\<close>

definition expect_message :: "'t transport \<Rightarrow> nat \<Rightarrow> byte \<Rightarrow> string \<Rightarrow> (bytes \<times> handshake_message, 't, 'r) action" where
  "expect_message TP fuel type name =
     andthen (next_handshake TP fuel) (\<lambda>(msg, m).
       if hm_type m \<noteq> type
       then fails (''expected '' @ name @ '', got handshake type '' @ to_string (uint (hm_type m)))
       else returns (msg, m))"

definition send_client_hello :: "'t transport \<Rightarrow> 'r rng \<Rightarrow> (bytes, 't, 'r) action" where
  "send_client_hello TP rng c =
     andthen (draws (make_client_random rng (opt_gmt c))) (\<lambda>client_random.
       let ch = build_client_hello (opt_version c) client_random [TLS_RSA_WITH_RC4_128_MD5]
       in andthen (absorb ch) (\<lambda>_.
          andthen (send_record TP CT_HANDSHAKE ch) (\<lambda>_. returns client_random))) c"

definition check_server_hello :: "server_hello \<Rightarrow> (bytes, 't, 'r) action" where
  "check_server_hello sh c =
     (if sh_version sh \<noteq> opt_version c
      then (Error (''server chose version 0x'' @ hex16 (sh_version sh) @ '', we offered 0x'' @ hex16 (opt_version c)), c)
      else if sh_cipher_suite sh \<noteq> TLS_RSA_WITH_RC4_128_MD5
      then (Error (''server chose cipher suite 0x'' @ hex16 (sh_cipher_suite sh) @ '', which we did not offer''), c)
      else if sh_compression sh \<noteq> 0 then (Error ''server selected compression'', c)
      else (Got (sh_random sh), c\<lparr>suite := sh_cipher_suite sh\<rparr>))"

definition receive_server_hello :: "'t transport \<Rightarrow> nat \<Rightarrow> (bytes, 't, 'r) action" where
  "receive_server_hello TP fuel =
     andthen (expect_message TP fuel HT_SERVER_HELLO ''ServerHello'') (\<lambda>(msg, m).
     andthen (absorb msg) (\<lambda>_.
       case parse_server_hello (hm_body m) of
         None \<Rightarrow> fails ''malformed ServerHello''
       | Some sh \<Rightarrow> check_server_hello sh))"

definition receive_certificate :: "'t transport \<Rightarrow> nat \<Rightarrow> (unit, 't, 'r) action" where
  "receive_certificate TP fuel =
     andthen (expect_message TP fuel HT_CERTIFICATE ''Certificate'') (\<lambda>(msg, m).
     andthen (absorb msg) (\<lambda>_ c.
       case parse_certificate_list (hm_body m) of
         None \<Rightarrow> (Error ''malformed Certificate message'', c)
       | Some certs \<Rightarrow>
           let c = c\<lparr>server_cert := certs ! 0\<rparr>
           in case parse_certificate_rsa_key (certs ! 0) of
                Inr key \<Rightarrow> (Got (), c\<lparr>peer_key := key\<rparr>)
              | Inl Rejected \<Rightarrow> (Error ''no usable RSA public key in the server certificate'', c)
              | Inl Out_of_bounds \<Rightarrow> (Crash, c)))"

text \<open>The loop up to ServerHelloDone; every turn takes at least one message, hence fuel.\<close>

fun until_hello_done :: "'t transport \<Rightarrow> nat \<Rightarrow> nat \<Rightarrow> bool \<Rightarrow> (bool, 't, 'r) action" where
  "until_hello_done TP fuel 0 cert_requested = (\<lambda>c. (Stuck, c))"
| "until_hello_done TP fuel (Suc n) cert_requested =
     andthen (next_handshake TP fuel) (\<lambda>(msg, m).
     andthen (absorb msg) (\<lambda>_.
       if hm_type m = HT_SERVER_HELLO_DONE then returns cert_requested
       else if hm_type m = HT_CERTIFICATE_REQUEST then until_hello_done TP fuel n True
       else if hm_type m = HT_SERVER_KEY_EXCHANGE
       then fails ''server sent ServerKeyExchange for an RSA key exchange''
       else fails (''unexpected handshake type '' @ to_string (uint (hm_type m)) @ '' before ServerHelloDone'')))"

text \<open>Our flight up to the key exchange: the premaster that was encrypted.\<close>

definition send_key_exchange :: "'t transport \<Rightarrow> 'r rng \<Rightarrow> nat \<Rightarrow> bool \<Rightarrow> (bytes, 't, 'r) action" where
  "send_key_exchange TP rng fuel cert_requested =
     andthen (if cert_requested
              then andthen (absorb build_empty_certificate) (\<lambda>_. send_record TP CT_HANDSHAKE build_empty_certificate)
              else returns ()) (\<lambda>_ c.
       andthen (draws (make_premaster rng (opt_version c))) (\<lambda>premaster c.
         case build_client_key_exchange rng fuel (peer_key c) premaster (rand c) of
           (Failed, r) \<Rightarrow> (Error ''RSA encryption of the premaster failed'', c\<lparr>rand := r\<rparr>)
         | (Out_of_fuel, r) \<Rightarrow> (Stuck, c\<lparr>rand := r\<rparr>)
         | (Drawn cke, r) \<Rightarrow>
             andthen (absorb cke) (\<lambda>_.
             andthen (send_record TP CT_HANDSHAKE cke) (\<lambda>_. returns premaster)) (c\<lparr>rand := r\<rparr>)) c)"

definition derive_keys :: "bytes \<Rightarrow> bytes \<Rightarrow> bytes \<Rightarrow> (bytes \<times> key_material) option" where
  "derive_keys premaster client_random server_random =
     (case derive_master_secret premaster client_random server_random of
        None \<Rightarrow> None
      | Some master \<Rightarrow>
          map_option (\<lambda>kb. (master, split_key_block MD5_ops kb))
            (derive_key_block master server_random client_random (key_block_len MD5_ops)))"

definition send_finished :: "'t transport \<Rightarrow> bytes \<Rightarrow> key_material \<Rightarrow> (unit, 't, 'r) action" where
  "send_finished TP master km =
     andthen (send_record TP CT_CHANGE_CIPHER_SPEC [0x01]) (\<lambda>_.
     andthen (updates (\<lambda>c. c\<lparr>rec_layer := enable_write_cipher MD5_ops (client_mac km) (client_key km) (rec_layer c)\<rparr>)) (\<lambda>_ c.
       case build_finished master ''client finished'' (tr c) of
         None \<Rightarrow> (Stuck, c)
       | Some client_fin \<Rightarrow>
           andthen (absorb client_fin) (\<lambda>_. send_record TP CT_HANDSHAKE client_fin) c))"

definition receive_finished :: "'t transport \<Rightarrow> nat \<Rightarrow> bytes \<Rightarrow> key_material \<Rightarrow> (unit, 't, 'r) action" where
  "receive_finished TP fuel master km =
     andthen (expect_change_cipher_spec TP fuel) (\<lambda>_.
     andthen (updates (\<lambda>c. c\<lparr>rec_layer := enable_read_cipher MD5_ops (server_mac km) (server_key km) (rec_layer c)\<rparr>)) (\<lambda>_.
     andthen (expect_message TP fuel HT_FINISHED ''Finished'') (\<lambda>(msg, m) c.
       case check_finished master ''server finished'' (tr c) (hm_body m) of
         None \<Rightarrow> (Stuck, c)
       | Some False \<Rightarrow> (Error (''the server'' @ [CHR 0x27] @ ''s Finished did not verify''), c)
       | Some True \<Rightarrow> andthen (absorb msg) (\<lambda>_. updates (\<lambda>c. c\<lparr>connected := True\<rparr>)) c)))"

definition client_handshake :: "'t transport \<Rightarrow> 'r rng \<Rightarrow> nat \<Rightarrow> (unit, 't, 'r) action" where
  "client_handshake TP rng fuel =
     andthen (send_client_hello TP rng) (\<lambda>client_random.
     andthen (receive_server_hello TP fuel) (\<lambda>server_random.
     andthen (receive_certificate TP fuel) (\<lambda>_.
     andthen (until_hello_done TP fuel fuel False) (\<lambda>cert_requested.
     andthen (send_key_exchange TP rng fuel cert_requested) (\<lambda>premaster.
       case derive_keys premaster client_random server_random of
         None \<Rightarrow> (\<lambda>c. (Stuck, c))
       | Some (master, km) \<Rightarrow>
           andthen (send_finished TP master km) (\<lambda>_. receive_finished TP fuel master km))))))"

definition client_connect :: "'t transport \<Rightarrow> 'r rng \<Rightarrow> nat \<Rightarrow> string \<Rightarrow> u16 \<Rightarrow> (unit, 't, 'r) action" where
  "client_connect TP rng fuel host port c =
     (case tp_connect TP host port (opt_timeout_ms c) (sock c) of
        (Some err, s) \<Rightarrow> (Error err, c\<lparr>sock := s\<rparr>)
      | (None, s) \<Rightarrow> client_handshake TP rng fuel (c\<lparr>sock := s\<rparr>))"

end
