(* ===== verification/Client_Stream.thy ===== *)
theory Client_Stream
  imports Client
begin

text \<open>
  The client of \<open>tls/client.hpp\<close> over a reliable byte stream. \<open>byte_stream\<close> is the contract of a
  transport that delivers fixed bytes in pieces of any size and takes everything written. Inside
  it \<open>read_record\<close> is a function of the stream alone, and on a finite stream every wait ends. The mock transport of
  \<open>tests/test_client.cpp\<close> fulfils the contract for every positive chunk size.
\<close>

unbundle bit_operations_syntax

section \<open>The contract\<close>

locale byte_stream =
  fixes TP :: "'t transport"
    and inv :: "'t \<Rightarrow> bool"
    and pending :: "'t \<Rightarrow> bytes"
    and sent :: "'t \<Rightarrow> bytes"
  assumes recv_law: "inv s \<Longrightarrow> \<exists>bs s'. tp_recv TP s = (Data bs, s') \<and> inv s' \<and> pending s = bs @ pending s' \<and>
        (bs = [] \<longrightarrow> pending s = []) \<and> sent s' = sent s"
    and send_law: "inv s \<Longrightarrow> \<exists>s'. tp_send TP d s = (True, s') \<and> inv s' \<and> pending s' = pending s \<and> sent s' = sent s @ d"

section \<open>The next record of a stream\<close>

text \<open>
  What \<open>read_record\<close> makes of the bytes to come: its reply, the bytes after it, the record layer,
  and whether it ran into the end.
\<close>

definition record_of ::
  "bytes \<Rightarrow> hash_ctx record_layer \<Rightarrow> (record_header \<times> bytes) reply \<times> bytes \<times> hash_ctx record_layer \<times> bool" where
  "record_of st r =
     (if length st < RECORD_HEADER_LEN then (Error ''connection closed by peer'', st, r, True)
      else case parse_record_header st of
        None \<Rightarrow> (Error ''malformed record header'', st, r, False)
      | Some h \<Rightarrow>
          if \<not> is_valid_content_type (rh_type h)
          then (Error (''invalid record content type '' @ to_string (uint (rh_type h))), st, r, False)
          else let n = unat (rh_length h)
            in if length st < RECORD_HEADER_LEN + n then (Error ''connection closed by peer'', st, r, True)
               else case unprotect MD5_ops (rh_type h) (rh_version h) (take n (drop RECORD_HEADER_LEN st)) r of
                 (None, r) \<Rightarrow> (Error ''record failed authentication (bad_record_mac)'', st, r, False)
               | (Some pt, r) \<Rightarrow> (Got (h, pt), drop (RECORD_HEADER_LEN + n) st, r, False))"

lemma parse_header_append:
  assumes "RECORD_HEADER_LEN \<le> length x"
  shows "parse_record_header (x @ y) = parse_record_header x"
proof -
  have "(x @ y) ! i = x ! i" if "i < 5" for i
    using that assms by (simp add: nth_append RECORD_HEADER_LEN_def)
  with assms show ?thesis by (simp add: parse_record_header_def RECORD_HEADER_LEN_def Let_def)
qed

lemma take_drop_append: "k + n \<le> length x \<Longrightarrow> take n (drop k (x @ y)) = take n (drop k x)"
  by simp

text \<open>A plaintext is never longer than the body it came from.\<close>

lemma crypt_length: "crypt bs r = (cs, r') \<Longrightarrow> length cs = length bs"
  using length_crypt [of bs r] by simp

lemma unprotect_length: "unprotect H type v body r = (Some pt, r') \<Longrightarrow> length pt \<le> length body"
  by (auto simp: unprotect_def Let_def split: if_splits option.splits prod.splits dest!: crypt_length)

lemma record_of_shorter:
  assumes "record_of st r = (Got (h, pt), rest, r', e)"
  shows "length rest + length pt + RECORD_HEADER_LEN \<le> length st"
  using assms
  by (auto simp: record_of_def Let_def split: if_splits option.splits prod.splits dest!: unprotect_length)

lemma record_of_rest: "record_of st r = (rep, rest, r', e) \<Longrightarrow> length rest \<le> length st"
  by (auto simp: record_of_def Let_def split: if_splits option.splits prod.splits)

lemma record_of_reply: "record_of st r = (rep, rest, r', e) \<Longrightarrow> rep \<noteq> Stuck \<and> rep \<noteq> Crash"
  by (auto simp: record_of_def Let_def split: if_splits option.splits prod.splits)

section \<open>Reading over the contract\<close>

context byte_stream
begin

definition stream :: "('t, 'r) client \<Rightarrow> bytes" where
  "stream c = rx c @ pending (sock c)"

lemma fill_result:
  "inv (sock c) \<Longrightarrow> \<exists>s x. inv s \<and> x @ pending s = stream c \<and> sent s = sent (sock c) \<and>
     fill TP need c =
       (if need \<le> length (stream c) then (Got (), c\<lparr>sock := s, rx := x\<rparr>)
        else (Error ''connection closed by peer'', c\<lparr>sock := s, rx := x, eof := True\<rparr>)) \<and>
     (need \<le> length (stream c) \<longrightarrow> need \<le> length x)"
proof (induction "need - length (rx c)" arbitrary: c rule: less_induct)
  case less
  show ?case
  proof (cases "length (rx c) < need")
    case False
    then have "fill TP need c = (Got (), c)" by (simp add: fill.simps)
    with False less.prems show ?thesis
      by (intro exI [of _ "sock c"] exI [of _ "rx c"]) (simp add: stream_def)
  next
    case True
    from recv_law [OF less.prems] obtain bs s
      where s: "tp_recv TP (sock c) = (Data bs, s)" "inv s" "pending (sock c) = bs @ pending s"
        "bs = [] \<longrightarrow> pending (sock c) = []" "sent s = sent (sock c)" by blast
    show ?thesis
    proof (cases bs)
      case Nil
      with s True have "fill TP need c = (Error ''connection closed by peer'', c\<lparr>sock := s, rx := rx c, eof := True\<rparr>)"
        by (simp add: fill.simps)
      with s True Nil show ?thesis
        by (intro exI [of _ s] exI [of _ "rx c"]) (simp add: stream_def)
    next
      case (Cons b bs')
      let ?c = "c\<lparr>sock := s, rx := rx c @ bs\<rparr>"
      have "fill TP need c = fill TP need ?c" using s(1) True Cons by (simp add: fill.simps [of TP need c])
      moreover have "need - length (rx ?c) < need - length (rx c)" using True Cons by simp
      moreover have "stream ?c = stream c" using s(3) by (simp add: stream_def)
      ultimately obtain s' x where "inv s'" "x @ pending s' = stream c" "sent s' = sent (sock c)"
        "fill TP need c = (if need \<le> length (stream c) then (Got (), ?c\<lparr>sock := s', rx := x\<rparr>)
           else (Error ''connection closed by peer'', ?c\<lparr>sock := s', rx := x, eof := True\<rparr>))"
        "need \<le> length (stream c) \<longrightarrow> need \<le> length x"
        using less.hyps [of ?c] s(2,5) by auto
      then show ?thesis by (intro exI [of _ s'] exI [of _ x]) simp
    qed
  qed
qed

lemma read_record_result:
  assumes "inv (sock c)"
  shows "case record_of (stream c) (rec_layer c) of (rep, rest, r, e) \<Rightarrow>
    \<exists>s x. inv s \<and> sent s = sent (sock c) \<and> x @ pending s = rest \<and>
      read_record TP c = (rep, c\<lparr>sock := s, rx := x, rec_layer := r, eof := eof c \<or> e\<rparr>)"
proof -
  obtain s x where first: "inv s" "x @ pending s = stream c" "sent s = sent (sock c)"
    "fill TP RECORD_HEADER_LEN c =
       (if RECORD_HEADER_LEN \<le> length (stream c) then (Got (), c\<lparr>sock := s, rx := x\<rparr>)
        else (Error ''connection closed by peer'', c\<lparr>sock := s, rx := x, eof := True\<rparr>))"
    "RECORD_HEADER_LEN \<le> length (stream c) \<Longrightarrow> RECORD_HEADER_LEN \<le> length x"
    using fill_result [OF assms, of RECORD_HEADER_LEN] by blast
  let ?c = "c\<lparr>sock := s, rx := x\<rparr>"
  show ?thesis
  proof (cases "RECORD_HEADER_LEN \<le> length (stream c)")
    case False
    with first show ?thesis
      by (auto simp: record_of_def read_record_def andthen_def intro!: exI [of _ s] exI [of _ x])
  next
    case True
    have hdr: "parse_record_header x = parse_record_header (stream c)"
      using parse_header_append [OF first(5) [OF True]] first(2) by metis
    have st: "stream ?c = stream c" using first(2) by (simp add: stream_def)
    show ?thesis
    proof (cases "parse_record_header (stream c)")
      case None
      with first True hdr show ?thesis
        by (auto simp: record_of_def read_record_def andthen_def intro!: exI [of _ s] exI [of _ x])
    next
      case (Some h)
      let ?n = "RECORD_HEADER_LEN + unat (rh_length h)"
      obtain t y where second: "inv t" "y @ pending t = stream c" "sent t = sent (sock c)"
        "fill TP ?n ?c = (if ?n \<le> length (stream c) then (Got (), c\<lparr>sock := t, rx := y\<rparr>)
           else (Error ''connection closed by peer'', c\<lparr>sock := t, rx := y, eof := True\<rparr>))"
        "?n \<le> length (stream c) \<Longrightarrow> ?n \<le> length y"
        using fill_result [of ?c ?n] first(1,3) st by auto
      have body: "take (unat (rh_length h)) (drop RECORD_HEADER_LEN y) = take (unat (rh_length h)) (drop RECORD_HEADER_LEN (stream c))"
        "drop ?n y @ pending t = drop ?n (stream c)" if "?n \<le> length (stream c)"
        using second(5) [OF that] unfolding second(2) [symmetric] by simp_all
      consider (bad) "\<not> is_valid_content_type (rh_type h)"
        | (short) "is_valid_content_type (rh_type h)" "length (stream c) < ?n"
        | (whole) "is_valid_content_type (rh_type h)" "?n \<le> length (stream c)"
        by linarith
      then show ?thesis
      proof cases
        case bad
        with first True hdr Some show ?thesis
          by (auto simp: record_of_def read_record_def andthen_def intro!: exI [of _ s] exI [of _ x])
      next
        case short
        with first second True hdr Some show ?thesis
          by (auto simp: record_of_def read_record_def andthen_def intro!: exI [of _ t] exI [of _ y])
      next
        case whole
        obtain out r where u: "unprotect MD5_ops (rh_type h) (rh_version h)
            (take (unat (rh_length h)) (drop RECORD_HEADER_LEN (stream c))) (rec_layer c) = (out, r)" by fastforce
        show ?thesis
        proof (cases out)
          case None
          with whole first second True hdr Some u body show ?thesis
            by (auto simp: record_of_def read_record_def andthen_def Let_def intro!: exI [of _ t] exI [of _ y])
        next
          case (Some pt)
          with whole first second True hdr \<open>parse_record_header (stream c) = _\<close> u body show ?thesis
            by (auto simp: record_of_def read_record_def andthen_def Let_def
                intro!: exI [of _ t] exI [of _ "drop ?n y"])
        qed
      qed
    qed
  qed
qed

section \<open>Every wait ends\<close>

text \<open>What is still to come: bytes of the stream and of half a handshake message.\<close>

definition ahead :: "('t, 'r) client \<Rightarrow> nat" where
  "ahead c = length (stream c) + length (hs c)"

text \<open>With less than \<open>F\<close> ahead, \<open>m\<close> comes to a reply and leaves no more ahead.\<close>

definition ends :: "nat \<Rightarrow> ('a, 't, 'r) action \<Rightarrow> bool" where
  "ends F m \<longleftrightarrow> (\<forall>c. inv (sock c) \<and> ahead c < F \<longrightarrow>
     (case m c of (rep, c') \<Rightarrow> rep \<noteq> Stuck \<and> rep \<noteq> Crash \<and> inv (sock c') \<and> ahead c' \<le> ahead c))"

lemma endsI:
  "(\<And>c. inv (sock c) \<Longrightarrow> ahead c < F \<Longrightarrow>
      (case m c of (rep, c') \<Rightarrow> rep \<noteq> Stuck \<and> rep \<noteq> Crash \<and> inv (sock c') \<and> ahead c' \<le> ahead c)) \<Longrightarrow> ends F m"
  by (simp add: ends_def)

lemma ends_runI:
  "(\<And>c rep c'. m c = (rep, c') \<Longrightarrow> inv (sock c) \<Longrightarrow> ahead c < F \<Longrightarrow>
      rep \<noteq> Stuck \<and> rep \<noteq> Crash \<and> inv (sock c') \<and> ahead c' \<le> ahead c) \<Longrightarrow> ends F m"
  by (auto simp: ends_def split: prod.split)

lemma endsD:
  "ends F m \<Longrightarrow> inv (sock c) \<Longrightarrow> ahead c < F \<Longrightarrow> m c = (rep, c') \<Longrightarrow>
     rep \<noteq> Stuck \<and> rep \<noteq> Crash \<and> inv (sock c') \<and> ahead c' \<le> ahead c"
  unfolding ends_def by fastforce

named_theorems ends_intros \<open>actions that come to a reply\<close>

lemma ends_returns [ends_intros]: "ends F (returns x)"
  by (simp add: ends_def returns_def)

lemma ends_fails [ends_intros]: "ends F (fails e)"
  by (simp add: ends_def fails_def)

lemma ends_andthen [ends_intros]:
  fixes m :: "('a, 't, 'r) action"
  assumes m: "ends F m" and f: "\<And>x. ends F (f x)"
  shows "ends F (andthen m f)"
proof (rule endsI)
  fix c :: "('t, 'r) client"
  assume c: "inv (sock c)" "ahead c < F"
  obtain rep c' where r: "m c = (rep, c')" by fastforce
  from endsD [OF m c r] c(2) have c': "rep \<noteq> Stuck" "rep \<noteq> Crash" "inv (sock c')" "ahead c' \<le> ahead c" "ahead c' < F" by auto
  show "case andthen m f c of (rep, c') \<Rightarrow> rep \<noteq> Stuck \<and> rep \<noteq> Crash \<and> inv (sock c') \<and> ahead c' \<le> ahead c"
  proof (cases rep)
    case (Got x)
    obtain rep2 c2 where r2: "f x c' = (rep2, c2)" by fastforce
    from endsD [OF f c'(3,5) r2] c'(4) r r2 Got show ?thesis by (simp add: andthen_def)
  qed (use r c' in \<open>simp_all add: andthen_def\<close>)
qed

lemma ends_if [ends_intros]: "ends F m \<Longrightarrow> ends F n \<Longrightarrow> ends F (if b then m else n)"
  by simp

lemma ends_look: "(\<And>v. ends F (G v)) \<Longrightarrow> ends F (\<lambda>c. G (g c) c)"
  by (simp add: ends_def)

lemma ends_field:
  "(\<And>c. sock (f c) = sock c \<and> rx (f c) = rx c \<and> hs (f c) = hs c) \<Longrightarrow> ends F (updates f)"
  by (rule endsI) (simp add: updates_def ahead_def stream_def)

lemma ends_absorb [ends_intros]: "ends F (absorb msg)"
  unfolding absorb_def by (rule ends_field) simp

lemma ends_draws [ends_intros]: "ends F (draws f)"
  by (rule endsI) (auto simp: draws_def ahead_def stream_def split: option.splits prod.splits)

lemma ends_handle_alert [ends_intros]: "ends F (handle_alert body)"
  by (rule endsI) (auto simp: handle_alert_def ahead_def stream_def split: option.splits)

lemma ends_check_server_hello [ends_intros]: "ends F (check_server_hello sh)"
  by (rule endsI) (auto simp: check_server_hello_def ahead_def stream_def)

lemma ends_send_record [ends_intros]: "ends F (send_record TP type data :: (unit, 't, 'r) action)"
proof (rule endsI)
  fix c :: "('t, 'r) client"
  assume c: "inv (sock c)"
  obtain out r where p: "protect MD5_ops type data (rec_layer c) = (out, r)" by fastforce
  show "case send_record TP type data c of (rep, c') \<Rightarrow> rep \<noteq> Stuck \<and> rep \<noteq> Crash \<and> inv (sock c') \<and> ahead c' \<le> ahead c"
  proof (cases out)
    case None
    with p c show ?thesis by (simp add: send_record_def ahead_def stream_def)
  next
    case (Some bs)
    obtain s where "tp_send TP bs (sock c) = (True, s)" "inv s" "pending s = pending (sock c)"
      using send_law [OF c, of bs] by blast
    with p Some show ?thesis by (simp add: send_record_def ahead_def stream_def)
  qed
qed

text \<open>A record takes at least its five header bytes from the stream and gives back no more than its body.\<close>

lemma read_record_ahead:
  assumes "inv (sock c)" and "read_record TP c = (rep, c')"
  shows "rep \<noteq> Stuck \<and> rep \<noteq> Crash \<and> inv (sock c') \<and> hs c' = hs c \<and> ahead c' \<le> ahead c \<and>
    (\<forall>h pt. rep = Got (h, pt) \<longrightarrow> ahead c' + length pt + RECORD_HEADER_LEN \<le> ahead c)"
proof -
  obtain rep1 rest r e where o: "record_of (stream c) (rec_layer c) = (rep1, rest, r, e)"
    by (cases "record_of (stream c) (rec_layer c)")
  with read_record_result [OF assms(1)] assms(2) obtain s x where
    "inv s" "x @ pending s = rest" "rep = rep1" "c' = c\<lparr>sock := s, rx := x, rec_layer := r, eof := eof c \<or> e\<rparr>"
    by auto
  moreover have "length rest \<le> length (stream c)" using o by (rule record_of_rest)
  moreover have "rep1 \<noteq> Stuck \<and> rep1 \<noteq> Crash" using o by (rule record_of_reply)
  moreover have "length rest + length pt + RECORD_HEADER_LEN \<le> length (stream c)" if "rep1 = Got (h, pt)" for h pt
    using o that by (simp add: record_of_shorter)
  ultimately show ?thesis by (auto simp: ahead_def stream_def)
qed

lemma handle_alert_frame:
  "handle_alert body c = (rep, c') \<Longrightarrow> sock c' = sock c \<and> rx c' = rx c \<and> hs c' = hs c \<and> rep \<noteq> Stuck \<and> rep \<noteq> Crash"
  by (auto simp: handle_alert_def split: option.splits if_splits)

lemma next_handshake_ahead:
  "inv (sock c) \<Longrightarrow> ahead c < fuel \<Longrightarrow> next_handshake TP fuel c = (rep, c') \<Longrightarrow>
   rep \<noteq> Stuck \<and> rep \<noteq> Crash \<and> inv (sock c') \<and> ahead c' \<le> ahead c \<and> (\<forall>x. rep = Got x \<longrightarrow> ahead c' < ahead c)"
proof (induction fuel arbitrary: c rep c')
  case (Suc fuel)
  show ?case
  proof (cases "parse_handshake (hs c)")
    case (Some m)
    with parse_handshake_frame [OF this] Suc.prems show ?thesis
      by (auto simp: next_handshake.simps [of TP "Suc fuel" c] Let_def ahead_def stream_def HANDSHAKE_HEADER_LEN_def
          split: option.splits)
  next
    case None
    obtain r1 c1 where r1: "read_record TP c = (r1, c1)" by fastforce
    note a1 = read_record_ahead [OF Suc.prems(1) r1]
    show ?thesis
    proof (cases r1)
      case (Got p)
      obtain h pt where p: "p = (h, pt)" by fastforce
      obtain r2 c2 where r2: "handle_alert pt c1 = (r2, c2)" by fastforce
      note a2 = handle_alert_frame [OF r2]
      have small: "ahead c2 \<le> ahead c" "ahead c2 < fuel" "ahead (c1\<lparr>hs := hs c1 @ pt\<rparr>) < fuel"
        "ahead (c1\<lparr>hs := hs c1 @ pt\<rparr>) \<le> ahead c" "inv (sock c2)" "inv (sock (c1\<lparr>hs := hs c1 @ pt\<rparr>))"
        using a1 a2 Got p Suc.prems(2) by (auto simp: ahead_def stream_def RECORD_HEADER_LEN_def)
      from Suc.IH [OF small(5,2)] Suc.IH [OF small(6,3)] show ?thesis
        using Suc.prems(3) None r1 Got p r2 a1 a2 small
        by (cases r2) (fastforce simp: next_handshake.simps [of TP "Suc fuel" c] andthen_def updates_def fails_def
            split: if_splits)+
    qed (use Suc.prems(3) None r1 a1 in \<open>auto simp: next_handshake.simps [of TP "Suc fuel" c] andthen_def\<close>)
  qed
qed simp

lemma ends_next_handshake [ends_intros]: "F \<le> fuel \<Longrightarrow> ends F (next_handshake TP fuel)"
proof (rule ends_runI)
  fix c rep c'
  assume "F \<le> fuel" "next_handshake TP fuel c = (rep, c')" "inv (sock c)" "ahead c < F"
  with next_handshake_ahead [of c fuel rep c']
  show "rep \<noteq> Stuck \<and> rep \<noteq> Crash \<and> inv (sock c') \<and> ahead c' \<le> ahead c" by simp
qed

lemma await_ahead:
  "inv (sock c) \<Longrightarrow> ahead c < fuel \<Longrightarrow> await_change_cipher_spec TP fuel c = (rep, c') \<Longrightarrow>
   rep \<noteq> Stuck \<and> rep \<noteq> Crash \<and> inv (sock c') \<and> ahead c' \<le> ahead c"
proof (induction fuel arbitrary: c rep c')
  case (Suc fuel)
  obtain r1 c1 where r1: "read_record TP c = (r1, c1)" by fastforce
  note a1 = read_record_ahead [OF Suc.prems(1) r1]
  show ?case
  proof (cases r1)
    case (Got p)
    obtain h pt where p: "p = (h, pt)" by fastforce
    obtain r2 c2 where r2: "handle_alert pt c1 = (r2, c2)" by fastforce
    note a2 = handle_alert_frame [OF r2]
    have small: "ahead c2 \<le> ahead c" "ahead c2 < fuel" "inv (sock c2)"
      using a1 a2 Got p Suc.prems(2) by (auto simp: ahead_def stream_def RECORD_HEADER_LEN_def)
    from Suc.IH [OF small(3,2)] show ?thesis
      using Suc.prems(3) r1 Got p r2 a1 a2 small
      by (cases r2) (fastforce simp: andthen_def fails_def returns_def split: if_splits)+
  qed (use Suc.prems(3) r1 a1 in \<open>auto simp: andthen_def\<close>)
qed simp

lemma ends_expect_ccs [ends_intros]: "F \<le> fuel \<Longrightarrow> ends F (expect_change_cipher_spec TP fuel)"
proof (rule ends_runI)
  fix c rep c'
  assume "F \<le> fuel" "expect_change_cipher_spec TP fuel c = (rep, c')" "inv (sock c)" "ahead c < F"
  with await_ahead [of c fuel rep c']
  show "rep \<noteq> Stuck \<and> rep \<noteq> Crash \<and> inv (sock c') \<and> ahead c' \<le> ahead c"
    by (auto simp: expect_change_cipher_spec_def split: if_splits)
qed

lemma ends_expect_message [ends_intros]: "F \<le> fuel \<Longrightarrow> ends F (expect_message TP fuel type name)"
  unfolding expect_message_def by (auto intro!: ends_intros split: prod.splits)

lemma ends_receive_server_hello [ends_intros]: "F \<le> fuel \<Longrightarrow> ends F (receive_server_hello TP fuel)"
  unfolding receive_server_hello_def by (auto intro!: ends_intros split: prod.splits option.splits)

lemma ends_receive_certificate [ends_intros]: "F \<le> fuel \<Longrightarrow> ends F (receive_certificate TP fuel)"
proof -
  assume F: "F \<le> fuel"
  have "ends F (\<lambda>c. case parse_certificate_list body of
         None \<Rightarrow> (Error ''malformed Certificate message'', c)
       | Some certs \<Rightarrow>
           let c = c\<lparr>server_cert := certs ! 0\<rparr>
           in case parse_certificate_rsa_key (certs ! 0) of
                Inr key \<Rightarrow> (Got (), c\<lparr>peer_key := key\<rparr>)
              | Inl Rejected \<Rightarrow> (Error ''no usable RSA public key in the server certificate'', c)
              | Inl Out_of_bounds \<Rightarrow> (Crash, c))" for body
    using parse_certificate_safe
    by (intro endsI) (auto simp: Let_def ahead_def stream_def safe_def split: option.splits sum.splits fault.splits)
  with F show ?thesis
    unfolding receive_certificate_def by (auto intro!: ends_intros split: prod.splits)
qed

lemma until_hello_done_ahead:
  "inv (sock c) \<Longrightarrow> ahead c < fuel \<Longrightarrow> ahead c < n \<Longrightarrow> until_hello_done TP fuel n req c = (rep, c') \<Longrightarrow>
   rep \<noteq> Stuck \<and> rep \<noteq> Crash \<and> inv (sock c') \<and> ahead c' \<le> ahead c"
proof (induction n arbitrary: c req rep c')
  case (Suc n)
  obtain r1 c1 where r1: "next_handshake TP fuel c = (r1, c1)" by fastforce
  note a1 = next_handshake_ahead [OF Suc.prems(1,2) r1]
  show ?case
  proof (cases r1)
    case (Got p)
    obtain msg m where p: "p = (msg, m)" by fastforce
    let ?c = "c1\<lparr>tr := transcript_update msg (tr c1)\<rparr>"
    have small: "ahead ?c \<le> ahead c" "ahead ?c < fuel" "ahead ?c < n" "inv (sock ?c)"
      using a1 Got Suc.prems(2,3) by (auto simp: ahead_def stream_def)
    from Suc.IH [OF small(4,2,3)] show ?thesis
      using Suc.prems(4) r1 Got p a1 small
      by (fastforce simp: andthen_def absorb_def updates_def fails_def returns_def split: if_splits)
  qed (use Suc.prems(4) r1 a1 in \<open>auto simp: andthen_def\<close>)
qed simp

lemma ends_until_hello_done [ends_intros]: "F \<le> fuel \<Longrightarrow> F \<le> n \<Longrightarrow> ends F (until_hello_done TP fuel n req)"
proof (rule ends_runI)
  fix c rep c'
  assume "F \<le> fuel" "F \<le> n" "until_hello_done TP fuel n req c = (rep, c')" "inv (sock c)" "ahead c < F"
  with until_hello_done_ahead [of c fuel n req rep c']
  show "rep \<noteq> Stuck \<and> rep \<noteq> Crash \<and> inv (sock c') \<and> ahead c' \<le> ahead c" by simp
qed

lemma key_exchange_drawn:
  assumes "\<And>r. nonzero_within rng d r"
  shows "fst (build_client_key_exchange rng d key premaster r) \<noteq> Out_of_fuel"
proof -
  have "fst (resample_all rng d ps r) \<noteq> Out_of_fuel" for ps r
    using resample_all_within [OF assms, of ps r] by auto
  then have "fst (pkcs1v15_pad_type2 rng d k msg r) \<noteq> Out_of_fuel" for k msg r
    by (auto simp: pkcs1v15_pad_type2_def Let_def split: option.splits prod.splits drawn.splits) (metis fst_conv)
  then have "fst (rsa_encrypt_pkcs1v15 rng d key msg r) \<noteq> Out_of_fuel" for key msg r
    by (auto simp: rsa_encrypt_pkcs1v15_def split: option.splits prod.splits drawn.splits) (metis fst_conv)
  then show ?thesis
    by (auto simp: build_client_key_exchange_def split: prod.splits drawn.splits) (metis fst_conv)
qed

lemma ends_send_key_exchange [ends_intros]:
  fixes rng :: "'r rng"
  assumes rng: "\<And>r. nonzero_within rng fuel r"
  shows "ends F (send_key_exchange TP rng fuel req)"
proof -
  let ?use = "\<lambda>premaster c. case build_client_key_exchange rng fuel (peer_key c) premaster (rand c) of
           (Failed, r) \<Rightarrow> (Error ''RSA encryption of the premaster failed'', c\<lparr>rand := r\<rparr>)
         | (Out_of_fuel, r) \<Rightarrow> (Stuck, c\<lparr>rand := r\<rparr>)
         | (Drawn cke, r) \<Rightarrow>
             andthen (absorb cke) (\<lambda>_.
             andthen (send_record TP CT_HANDSHAKE cke) (\<lambda>_. returns premaster)) (c\<lparr>rand := r\<rparr>)"
  have use: "ends F (?use premaster)" for premaster
  proof (rule ends_runI)
    fix c c' :: "('t, 'r) client" and rep
    assume run: "?use premaster c = (rep, c')" and c: "inv (sock c)" "ahead c < F"
    obtain out r where b: "build_client_key_exchange rng fuel (peer_key c) premaster (rand c) = (out, r)" by fastforce
    with key_exchange_drawn [OF rng, of "peer_key c" premaster "rand c"] have "out \<noteq> Out_of_fuel" by simp
    moreover have "ends F (andthen (absorb cke) (\<lambda>_. andthen (send_record TP CT_HANDSHAKE cke) (\<lambda>_. returns premaster))
       :: (bytes, 't, 'r) action)" for cke
      by (intro ends_intros)
    from endsD [OF this, of "c\<lparr>rand := r\<rparr>"] run b c
    have "rep \<noteq> Stuck \<and> rep \<noteq> Crash \<and> inv (sock c') \<and> ahead c' \<le> ahead c" if "out = Drawn cke" for cke
      using that by (simp add: ahead_def stream_def)
    ultimately show "rep \<noteq> Stuck \<and> rep \<noteq> Crash \<and> inv (sock c') \<and> ahead c' \<le> ahead c"
      using run b c by (cases out) (auto simp: ahead_def stream_def)
  qed
  have "ends F (andthen (draws (make_premaster rng v)) ?use)" for v
    by (rule ends_andthen [OF ends_draws use])
  then have "ends F (\<lambda>c. andthen (draws (make_premaster rng (opt_version c))) ?use c)"
    by (rule ends_look [where G = "\<lambda>v. andthen (draws (make_premaster rng v)) ?use" and g = opt_version])
  then show ?thesis
    unfolding send_key_exchange_def
    by (intro ends_andthen ends_if ends_absorb ends_send_record ends_returns)
qed

lemma finished_built: "\<exists>fin. build_finished master label t = Some fin"
  by (auto simp: build_finished_def derive_verify_data_def prf_rfc2246 split: prod.split)

lemma finished_checked: "\<exists>ok. check_finished master label t body = Some ok"
  by (auto simp: check_finished_def derive_verify_data_def prf_rfc2246 split: prod.split)

lemma ends_send_finished [ends_intros]: "ends F (send_finished TP master km :: (unit, 't, 'r) action)"
proof -
  have "ends F (\<lambda>c :: ('t, 'r) client. case build_finished master ''client finished'' (tr c) of
         None \<Rightarrow> (Stuck, c)
       | Some client_fin \<Rightarrow> andthen (absorb client_fin) (\<lambda>_. send_record TP CT_HANDSHAKE client_fin) c)"
  proof (rule ends_runI)
    fix c c' :: "('t, 'r) client" and rep
    obtain fin where fin: "build_finished master ''client finished'' (tr c) = Some fin" using finished_built by blast
    assume "(case build_finished master ''client finished'' (tr c) of None \<Rightarrow> (Stuck, c)
       | Some client_fin \<Rightarrow> andthen (absorb client_fin) (\<lambda>_. send_record TP CT_HANDSHAKE client_fin) c) = (rep, c')"
      and c: "inv (sock c)" "ahead c < F"
    then have run: "andthen (absorb fin) (\<lambda>_. send_record TP CT_HANDSHAKE fin) c = (rep, c')" by (simp add: fin)
    have "ends F (andthen (absorb fin) (\<lambda>_. send_record TP CT_HANDSHAKE fin) :: (unit, 't, 'r) action)"
      by (intro ends_intros)
    from endsD [OF this c run]
    show "rep \<noteq> Stuck \<and> rep \<noteq> Crash \<and> inv (sock c') \<and> ahead c' \<le> ahead c" .
  qed
  then show ?thesis
    unfolding send_finished_def by (intro ends_andthen ends_send_record ends_field) simp_all
qed

lemma ends_receive_finished [ends_intros]:
  assumes F: "F \<le> fuel"
  shows "ends F (receive_finished TP fuel master km :: (unit, 't, 'r) action)"
proof -
  have "ends F (\<lambda>c :: ('t, 'r) client. case check_finished master ''server finished'' (tr c) body of
         None \<Rightarrow> (Stuck, c)
       | Some False \<Rightarrow> (Error (''the server'' @ [CHR 0x27] @ ''s Finished did not verify''), c)
       | Some True \<Rightarrow> andthen (absorb msg) (\<lambda>_. updates (\<lambda>c. c\<lparr>connected := True\<rparr>)) c)" for msg body
  proof (rule endsI)
    fix c :: "('t, 'r) client"
    assume "inv (sock c)"
    moreover obtain ok where "check_finished master ''server finished'' (tr c) body = Some ok" using finished_checked by blast
    ultimately show "case (case check_finished master ''server finished'' (tr c) body of
         None \<Rightarrow> (Stuck, c)
       | Some False \<Rightarrow> (Error (''the server'' @ [CHR 0x27] @ ''s Finished did not verify''), c)
       | Some True \<Rightarrow> andthen (absorb msg) (\<lambda>_. updates (\<lambda>c. c\<lparr>connected := True\<rparr>)) c) of
       (rep, c') \<Rightarrow> rep \<noteq> Stuck \<and> rep \<noteq> Crash \<and> inv (sock c') \<and> ahead c' \<le> ahead c"
      by (cases ok) (simp_all add: andthen_def absorb_def updates_def ahead_def stream_def)
  qed
  then show ?thesis
    unfolding receive_finished_def using F
    by (auto intro!: ends_andthen ends_expect_ccs ends_field ends_expect_message split: prod.splits)
qed

lemma ends_send_client_hello [ends_intros]:
  fixes rng :: "'r rng"
  shows "ends F (send_client_hello TP rng)"
proof -
  have "ends F (andthen (draws (make_client_random rng (opt_gmt c))) (\<lambda>client_random.
       let ch = build_client_hello (opt_version c) client_random [TLS_RSA_WITH_RC4_128_MD5]
       in andthen (absorb ch) (\<lambda>_. andthen (send_record TP CT_HANDSHAKE ch) (\<lambda>_. returns client_random)))
       :: (bytes, 't, 'r) action)" for c :: "('t, 'r) client"
    by (auto simp: Let_def intro!: ends_intros)
  then show ?thesis by (simp add: ends_def send_client_hello_def)
qed

text \<open>With fuel for every byte of the stream and a generator that yields nonzero bytes, the handshake ends.\<close>

lemma ends_handshake:
  fixes rng :: "'r rng"
  assumes rng: "\<And>r. nonzero_within rng fuel r"
  shows "ends fuel (client_handshake TP rng fuel)"
  unfolding client_handshake_def
  by (intro ends_andthen ends_send_client_hello ends_receive_server_hello ends_receive_certificate
      ends_until_hello_done ends_send_key_exchange rng order_refl)
    (auto simp: derive_keys_def derive_master_secret_def derive_key_block_def prf_rfc2246
      intro!: ends_andthen ends_send_finished ends_receive_finished split: option.split)

end

section \<open>The mock transport\<close>

text \<open>
  \<open>MockTransport\<close> of \<open>tests/test_client.cpp\<close> without its \<open>on_starved\<close> hook: a script of bytes
  delivered at most \<open>chunk\<close> at a time into the 4096-byte buffer of \<open>fill\<close>, and a log of what the
  client wrote.
\<close>

record mock =
  to_client :: bytes
  from_client :: bytes
  read_pos :: nat
  chunk :: nat
  closed :: bool

definition mock_recv :: "mock \<Rightarrow> received \<times> mock" where
  "mock_recv s =
     (if read_pos s \<ge> length (to_client s) then (Data [], s)
      else (let n = length (to_client s) - read_pos s;
                n = (if n > 4096 then 4096 else n);
                n = (if n > chunk s then chunk s else n)
            in (Data (take n (drop (read_pos s) (to_client s))), s\<lparr>read_pos := read_pos s + n\<rparr>)))"

definition mock_transport :: "mock transport" where
  "mock_transport = \<lparr>tp_connect = (\<lambda>host port timeout s. (None, s)), tp_recv = mock_recv,
     tp_send = (\<lambda>d s. (True, s\<lparr>from_client := from_client s @ d\<rparr>)),
     tp_valid = (\<lambda>s. \<not> closed s), tp_close = (\<lambda>s. s\<lparr>closed := True\<rparr>)\<rparr>"

definition mock_server :: "bytes \<Rightarrow> nat \<Rightarrow> mock" where
  "mock_server script k = \<lparr>to_client = script, from_client = [], read_pos = 0, chunk = k, closed = False\<rparr>"

definition mock_pending :: "mock \<Rightarrow> bytes" where
  "mock_pending s = drop (read_pos s) (to_client s)"

lemma drop_split: "take n (drop p xs) @ drop (p + n) xs = drop p xs"
  by (metis add.commute append_take_drop_id drop_drop)

lemma mock_pending_advance:
  "take n (drop (read_pos s) (to_client s)) @ mock_pending (s\<lparr>read_pos := read_pos s + n\<rparr>) = mock_pending s"
  by (simp add: mock_pending_def drop_split)

text \<open>It gives at least a byte at a time and has not been closed.\<close>

definition mock_open :: "mock \<Rightarrow> bool" where
  "mock_open s \<longleftrightarrow> 0 < chunk s \<and> \<not> closed s"

interpretation mock: byte_stream mock_transport mock_open mock_pending from_client
proof unfold_locales
  fix s :: mock
  assume k: "mock_open s"
  show "\<exists>bs s'. tp_recv mock_transport s = (Data bs, s') \<and> mock_open s' \<and> mock_pending s = bs @ mock_pending s' \<and>
      (bs = [] \<longrightarrow> mock_pending s = []) \<and> from_client s' = from_client s"
  proof (cases "read_pos s \<ge> length (to_client s)")
    case True
    with k show ?thesis by (simp add: mock_transport_def mock_recv_def mock_pending_def)
  next
    case False
    let ?n = "min (min (length (to_client s) - read_pos s) 4096) (chunk s)"
    let ?bs = "take ?n (drop (read_pos s) (to_client s))" and ?s = "s\<lparr>read_pos := read_pos s + ?n\<rparr>"
    show ?thesis
    proof (intro exI conjI)
      show "tp_recv mock_transport s = (Data ?bs, ?s)"
        using False by (simp add: mock_transport_def mock_recv_def Let_def min_def)
      show "mock_pending s = ?bs @ mock_pending ?s"
        by (rule mock_pending_advance [symmetric])
      show "?bs = [] \<longrightarrow> mock_pending s = []"
        using False conjunct1 [OF k [unfolded mock_open_def]] by simp
    qed (use k in \<open>simp_all add: mock_open_def\<close>)
  qed
  show "\<exists>s'. tp_send mock_transport d s = (True, s') \<and> mock_open s' \<and> mock_pending s' = mock_pending s \<and>
      from_client s' = from_client s @ d" for d
    using k by (simp add: mock_transport_def mock_pending_def mock_open_def)
qed

section \<open>Properties\<close>

text \<open>The client at the start of \<open>handshake\<close>, over a scripted server.\<close>

definition scripted_client :: "bytes \<Rightarrow> nat \<Rightarrow> u16 \<Rightarrow> u32 \<Rightarrow> 'r \<Rightarrow> (mock, 'r) client" where
  "scripted_client script k v gmt r = client_new v 15000 gmt (mock_server script k) r"

lemma scripted_client_inv:
  "0 < k \<Longrightarrow> mock_open (sock (scripted_client script k v gmt r))"
  "mock.stream (scripted_client script k v gmt r) = script"
  "hs (scripted_client script k v gmt r) = []"
  by (simp_all add: scripted_client_def client_new_def mock_server_def mock_open_def mock.stream_def mock_pending_def)

text \<open>C8: the handshake always comes to an end: whatever finite byte string a server sends, in whatever pieces, it returns success or an error message, given a generator that yields a nonzero byte within the fuel; one unit of fuel per byte sent is enough, and no certificate makes it read outside a buffer.\<close>

theorem handshake_ends:
  assumes "\<And>r. nonzero_within rng fuel r" and "length script < fuel" and "0 < k"
  shows "case client_handshake mock_transport rng fuel (scripted_client script k v gmt r) of
     (Got u, c) \<Rightarrow> length (mock.stream c) \<le> length script
   | (Error e, c) \<Rightarrow> length (mock.stream c) \<le> length script
   | (Stuck, c) \<Rightarrow> False
   | (Crash, c) \<Rightarrow> False"
proof -
  let ?c = "scripted_client script k v gmt r"
  obtain rep c where run: "client_handshake mock_transport rng fuel ?c = (rep, c)" by fastforce
  have "mock.ahead ?c < fuel"
    using assms(2) by (simp add: mock.ahead_def scripted_client_inv)
  from mock.endsD [OF mock.ends_handshake [OF assms(1)] scripted_client_inv(1) [OF assms(3)] this run]
  have "rep \<noteq> Stuck" "rep \<noteq> Crash" "mock.ahead c \<le> mock.ahead ?c" by blast+
  moreover have "mock.ahead ?c = length script"
    by (simp add: mock.ahead_def scripted_client_inv)
  ultimately have "rep \<noteq> Stuck" "rep \<noteq> Crash" "length (mock.stream c) \<le> length script"
    by (simp_all add: mock.ahead_def)
  then show ?thesis unfolding run by (cases rep) simp_all
qed

lemma counting_rng_within: "2 \<le> d \<Longrightarrow> nonzero_within counting_rng d r"
proof (induction d arbitrary: r)
  case (Suc d r)
  show ?case
  proof (cases "d = 1")
    case True
    with counting_rng_nonzero [of r] show ?thesis by (simp only: numeral_2_eq_2 One_nat_def)
  next
    case False
    then have "nonzero_within counting_rng d (Suc r)" using Suc by simp
    then show ?thesis by (simp only: nonzero_within.simps) (simp add: counting_rng_def)
  qed
qed simp

lemma handshake_ends_witness:
  "fst (client_handshake mock_transport counting_rng 9 (scripted_client [22, 3, 1, 0, 0] 2 0x0301 0 0)) \<noteq> Stuck"
  using handshake_ends [of counting_rng 9 "[22, 3, 1, 0, 0]" 2 "0x0301" 0 0] counting_rng_within
  by (auto split: prod.splits reply.splits)

end
