(* ===== verification/Client_Security.thy ===== *)
theory Client_Security
  imports Client_Stream
begin

text \<open>
  What a completed handshake of \<open>tls/client.hpp\<close> guarantees, over any transport and any generator:
  the checks that were passed, the transcript that both Finished messages cover, and the keys the
  record layer is left with; and that a handshake that fails leaves the client unconnected.
\<close>

unbundle bit_operations_syntax

section \<open>Keys in use\<close>

text \<open>A direction of the record layer works under a MAC key and an RC4 key.\<close>

definition writing :: "bytes \<Rightarrow> bytes \<Rightarrow> hash_ctx record_layer \<Rightarrow> bool" where
  "writing mk ek r \<longleftrightarrow> hmac_md5.keyed mk [] (write_mac r) \<and> (\<exists>bs. write_rc4 r = Some (snd (crypt bs (rc4_raw ek))))"

definition reading :: "bytes \<Rightarrow> bytes \<Rightarrow> hash_ctx record_layer \<Rightarrow> bool" where
  "reading mk ek r \<longleftrightarrow> hmac_md5.keyed mk [] (read_mac r) \<and> (\<exists>bs. read_rc4 r = Some (snd (crypt bs (rc4_raw ek))))"

lemma crypt_state_append: "snd (crypt bs (snd (crypt as r))) = snd (crypt (as @ bs) r)"
  by (simp add: crypt_append Let_def split: prod.split)

lemma compute_mac_keyed:
  assumes "hmac_md5.keyed mk [] m" and "compute_mac MD5_ops m seq type v frag = (d, m')"
  shows "hmac_md5.keyed mk [] m'"
  using hmac_md5.compute_mac_rfc [OF assms(1), of seq type v frag] assms(2) by auto

lemma protect_keys:
  assumes "protect MD5_ops type data r = (out, r')"
  shows "writing mk ek r \<Longrightarrow> writing mk ek r'" and "reading mk ek r \<Longrightarrow> reading mk ek r'"
proof -
  show "writing mk ek r'" if w: "writing mk ek r"
  proof -
    obtain bs where rc: "write_rc4 r = Some (snd (crypt bs (rc4_raw ek)))" and k: "hmac_md5.keyed mk [] (write_mac r)"
      using w by (auto simp: writing_def)
    obtain d m where mac: "compute_mac MD5_ops (write_mac r) (write_seq r) type (version r) data = (d, m)" by fastforce
    show ?thesis
    proof (cases "length data > MAX_PLAINTEXT")
      case True
      with assms w show ?thesis by (simp add: protect_def)
    next
      case False
      obtain frag s where fr: "crypt (data @ d) (snd (crypt bs (rc4_raw ek))) = (frag, s)" by fastforce
      then have "s = snd (crypt (bs @ data @ d) (rc4_raw ek))" by (metis crypt_state_append snd_conv)
      with assms rc mac fr False have "write_rc4 r' = Some (snd (crypt (bs @ data @ d) (rc4_raw ek)))" "write_mac r' = m"
        by (auto simp: protect_def Let_def)
      with compute_mac_keyed [OF k mac] show ?thesis unfolding writing_def by blast
    qed
  qed
  show "reading mk ek r'" if "reading mk ek r"
    using assms that by (auto simp: protect_def reading_def Let_def split: if_splits option.splits prod.splits)
qed

lemma unprotect_keys:
  assumes "unprotect MD5_ops type v body r = (out, r')"
  shows "writing mk ek r \<Longrightarrow> writing mk ek r'" and "reading mk ek r \<Longrightarrow> reading mk ek r'"
proof -
  show "writing mk ek r'" if "writing mk ek r"
    using assms that by (auto simp: unprotect_def writing_def Let_def split: if_splits option.splits prod.splits)
  show "reading mk ek r'" if w: "reading mk ek r"
  proof -
    obtain bs where rc: "read_rc4 r = Some (snd (crypt bs (rc4_raw ek)))" and k: "hmac_md5.keyed mk [] (read_mac r)"
      using w by (auto simp: reading_def)
    have step: "\<exists>bs. snd (crypt body (snd (crypt as (rc4_raw ek)))) = snd (crypt bs (rc4_raw ek))" for as
      by (metis crypt_state_append)
    show ?thesis
      using assms rc k w step [of bs] compute_mac_keyed [OF k]
      by (auto simp: unprotect_def reading_def Let_def split: if_splits prod.splits)
  qed
qed

section \<open>What sending and receiving leave alone\<close>

definition calm :: "('t, 'r) client \<Rightarrow> ('t, 'r) client \<Rightarrow> bool" where
  "calm c c' \<longleftrightarrow> opt_version c' = opt_version c \<and> tr c' = tr c \<and> peer_key c' = peer_key c \<and>
     server_cert c' = server_cert c \<and> suite c' = suite c \<and> connected c' = connected c \<and>
     (\<forall>mk ek. writing mk ek (rec_layer c) \<longrightarrow> writing mk ek (rec_layer c')) \<and>
     (\<forall>mk ek. reading mk ek (rec_layer c) \<longrightarrow> reading mk ek (rec_layer c'))"

lemma calm_refl [simp]: "calm c c"
  by (simp add: calm_def)

lemma calm_trans: "calm a b \<Longrightarrow> calm b c \<Longrightarrow> calm a c"
  by (simp add: calm_def)

lemma calm_updates [simp]:
  "calm c (c\<lparr>sock := s\<rparr>)" "calm c (c\<lparr>rx := x\<rparr>)" "calm c (c\<lparr>hs := x\<rparr>)" "calm c (c\<lparr>eof := e\<rparr>)" "calm c (c\<lparr>rand := r\<rparr>)"
  by (simp_all add: calm_def)

lemma send_record_calm: "send_record TP type data c = (rep, c') \<Longrightarrow> calm c c'"
  by (auto simp: send_record_def calm_def Let_def split: option.splits prod.splits if_splits dest: protect_keys)

lemma fill_calm: "fill TP need c = (rep, c') \<Longrightarrow> calm c c'"
proof (induction TP need c arbitrary: rep c' rule: fill.induct)
  case (1 TP need c)
  show ?case
  proof (cases "length (rx c) < need")
    case True
    obtain r s where r: "tp_recv TP (sock c) = (r, s)" by fastforce
    show ?thesis
    proof (cases "\<exists>b bs. r = Data (b # bs)")
      case True
      then obtain b bs where bs: "r = Data (b # bs)" by blast
      have "calm c (c\<lparr>sock := s, rx := rx c @ b # bs\<rparr>)" by (simp add: calm_def)
      moreover have "calm (c\<lparr>sock := s, rx := rx c @ b # bs\<rparr>) c'"
        using 1 r bs \<open>length (rx c) < need\<close> by (simp add: fill.simps [of TP need c])
      ultimately show ?thesis by (rule calm_trans)
    next
      case False
      with 1(2) r \<open>length (rx c) < need\<close> show ?thesis
        by (auto simp: fill.simps [of TP need c] calm_def split: received.splits list.splits)
    qed
  next
    case False
    with 1(2) show ?thesis by (simp add: fill.simps [of TP need c])
  qed
qed

text \<open>\<open>quiet m\<close>: whatever the reply, the client afterwards is calm.\<close>

definition quiet :: "('a, 't, 'r) action \<Rightarrow> bool" where
  "quiet m \<longleftrightarrow> (\<forall>c rep c'. m c = (rep, c') \<longrightarrow> calm c c')"

lemma quietD: "quiet m \<Longrightarrow> m c = (rep, c') \<Longrightarrow> calm c c'"
  by (simp add: quiet_def)

named_theorems quiet_intros \<open>actions that leave the client calm\<close>

lemma quiet_returns [quiet_intros]: "quiet (returns x)"
  by (simp add: quiet_def returns_def)

lemma quiet_fails [quiet_intros]: "quiet (fails e)"
  by (simp add: quiet_def fails_def)

lemma quiet_andthen [quiet_intros]: "quiet m \<Longrightarrow> (\<And>x. quiet (f x)) \<Longrightarrow> quiet (andthen m f)"
  unfolding quiet_def andthen_def by (auto split: prod.splits reply.splits) (metis calm_trans)

lemma quiet_if [quiet_intros]: "quiet m \<Longrightarrow> quiet n \<Longrightarrow> quiet (if b then m else n)"
  by simp

lemma quiet_buffer [quiet_intros]: "quiet (updates (\<lambda>c. c\<lparr>hs := f c\<rparr>))"
  by (simp add: quiet_def updates_def)

lemma quiet_send_record [quiet_intros]: "quiet (send_record TP type data)"
  by (simp add: quiet_def send_record_calm)

lemma quiet_draws [quiet_intros]: "quiet (draws f)"
  by (auto simp: quiet_def draws_def split: prod.splits option.splits)

lemma quiet_handle_alert [quiet_intros]: "quiet (handle_alert body)"
  by (auto simp: quiet_def handle_alert_def split: option.splits if_splits)

lemma quiet_read_record [quiet_intros]: "quiet (read_record TP)"
proof -
  have "quiet (fill TP n)" for n by (simp add: quiet_def fill_calm)
  moreover have "quiet (\<lambda>c. let body = f c
             in case unprotect MD5_ops (rh_type h) (rh_version h) body (rec_layer c) of
                  (None, r) \<Rightarrow> (Error e, c\<lparr>rec_layer := r\<rparr>)
                | (Some plaintext, r) \<Rightarrow> (Got (h, plaintext), c\<lparr>rec_layer := r, rx := g c\<rparr>))"
    for f h e and g :: "('a, 'b) client \<Rightarrow> bytes"
    by (auto simp: quiet_def calm_def Let_def split: prod.splits option.splits dest: unprotect_keys)
  ultimately have second: "quiet (andthen (fill TP n) (\<lambda>_ c. let body = f c
             in case unprotect MD5_ops (rh_type h) (rh_version h) body (rec_layer c) of
                  (None, r) \<Rightarrow> (Error e, c\<lparr>rec_layer := r\<rparr>)
                | (Some plaintext, r) \<Rightarrow> (Got (h, plaintext), c\<lparr>rec_layer := r, rx := g c\<rparr>)))"
    for n f h e and g :: "('a, 'b) client \<Rightarrow> bytes"
    by (intro quiet_andthen)
  have "quiet (\<lambda>c. case parse_record_header (rx c) of
         None \<Rightarrow> (Error e1, c)
       | Some h \<Rightarrow>
           if \<not> is_valid_content_type (rh_type h) then (Error (e2 h), c) else F h c)"
    if "\<And>h. quiet (F h)" for F :: "record_header \<Rightarrow> ('c, 'a, 'b) action" and e1 e2
    using that unfolding quiet_def by (auto split: option.splits if_splits)
  from this [OF second] show ?thesis
    unfolding read_record_def by (intro quiet_andthen \<open>\<And>n. quiet (fill TP n)\<close>)
qed

lemma quiet_next_handshake [quiet_intros]: "quiet (next_handshake TP fuel :: (bytes \<times> handshake_message, 't, 'r) action)"
proof (induction fuel)
  have taken: "calm c c'" if "next_handshake TP fuel c = (rep, c')" "parse_handshake (hs c) = Some m"
    for fuel m rep and c c' :: "('t, 'r) client"
    using that by (auto simp: next_handshake.simps [of TP fuel c] Let_def split: option.splits)
  {
    case 0
    show ?case
      unfolding quiet_def using taken [of 0] by (auto simp: next_handshake.simps [of TP 0] split: option.splits)
  next
    case (Suc fuel)
    let ?read = "andthen (read_record TP) (\<lambda>(h, pt).
        if rh_type h = CT_ALERT then andthen (handle_alert pt) (\<lambda>_. next_handshake TP fuel)
        else if rh_type h \<noteq> CT_HANDSHAKE
        then fails (''expected a handshake record, got content type '' @ to_string (uint (rh_type h)))
        else andthen (updates (\<lambda>c. c\<lparr>hs := hs c @ pt\<rparr>)) (\<lambda>_. next_handshake TP fuel))"
    have "quiet (?read :: (bytes \<times> handshake_message, 't, 'r) action)"
      using Suc by (auto intro!: quiet_intros split: prod.splits)
    from quietD [OF this] have read: "next_handshake TP (Suc fuel) c = (rep, c') \<Longrightarrow> parse_handshake (hs c) = None \<Longrightarrow> calm c c'"
      for rep and c c' :: "('t, 'r) client" by (simp add: next_handshake.simps [of TP "Suc fuel"])
    show ?case
      unfolding quiet_def
    proof (intro allI impI)
      fix c c' :: "('t, 'r) client" and rep
      assume "next_handshake TP (Suc fuel) c = (rep, c')"
      with taken read show "calm c c'" by (cases "parse_handshake (hs c)") blast+
    qed
  }
qed

lemma quiet_await [quiet_intros]: "quiet (await_change_cipher_spec TP fuel)"
proof (induction fuel)
  case (Suc fuel)
  have "await_change_cipher_spec TP (Suc fuel) = andthen (read_record TP) (\<lambda>(h, pt).
       if rh_type h = CT_ALERT then andthen (handle_alert pt) (\<lambda>_. await_change_cipher_spec TP fuel)
       else if rh_type h \<noteq> CT_CHANGE_CIPHER_SPEC
       then fails (''expected ChangeCipherSpec, got content type '' @ to_string (uint (rh_type h)))
       else if length pt \<noteq> 1 \<or> pt ! 0 \<noteq> 0x01 then fails ''malformed ChangeCipherSpec''
       else returns ())"
    by (rule ext) simp
  then show ?case using Suc by (auto intro!: quiet_intros split: prod.splits)
qed (simp add: quiet_def)

lemma quiet_expect_ccs [quiet_intros]: "quiet (expect_change_cipher_spec TP fuel)"
  using quietD [OF quiet_await] by (auto simp: quiet_def expect_change_cipher_spec_def)

lemma quiet_expect_message [quiet_intros]: "quiet (expect_message TP fuel type name)"
  unfolding expect_message_def by (auto intro!: quiet_intros split: prod.splits)

section \<open>What each step establishes\<close>

lemma andthen_Got: "andthen m f c = (Got y, c') \<longleftrightarrow> (\<exists>x c1. m c = (Got x, c1) \<and> f x c1 = (Got y, c'))"
  by (auto simp: andthen_def split: prod.splits reply.splits)

lemma returns_Got [simp]: "returns x c = (Got y, c') \<longleftrightarrow> y = x \<and> c' = c"
  by (auto simp: returns_def)

lemma fails_Got [simp]: "fails e c \<noteq> (Got y, c')"
  by (simp add: fails_def)

lemma absorb_Got [simp]: "absorb msg c = (Got u, c') \<longleftrightarrow> c' = c\<lparr>tr := transcript_update msg (tr c)\<rparr>"
  by (auto simp: absorb_def updates_def)

lemma parse_handshake_small: "parse_handshake p = Some m \<Longrightarrow> length (hm_body m) < 16777216"
proof -
  have small: "unat n < 16777216" if "read_u24 r = Some (n, r')" for r n r'
  proof -
    have "\<exists>a b c. n = be24 a b c" using that by (cases r rule: read_u24.cases) auto
    then obtain a b c where "n = be24 a b c" by blast
    then show ?thesis using byte_bound [of a] byte_bound [of b] byte_bound [of c] by (simp add: unat_be24)
  qed
  assume "parse_handshake p = Some m"
  then show ?thesis
    by (auto simp: parse_handshake_def min_less_iff_disj split: option.splits if_splits dest!: small)
qed

text \<open>A message comes with the bytes of its frame.\<close>

lemma next_handshake_frame:
  "next_handshake TP fuel c = (Got (msg, m), c') \<Longrightarrow> msg = frame (hm_type m) (hm_body m)"
proof (induction fuel arbitrary: c)
  have taken: "msg = frame (hm_type m) (hm_body m)"
    if "next_handshake TP fuel c = (Got (msg, m), c')" "parse_handshake (hs c) = Some m'" for fuel c m'
  proof -
    note f = parse_handshake_frame [OF that(2)]
    from parse_frame [OF parse_handshake_small [OF that(2)], of "hm_type m'" "[]"] f(2) that show ?thesis
      by (auto simp: next_handshake.simps [of TP fuel c] Let_def split: option.splits)
  qed
  {
    case 0
    then have "parse_handshake (hs c) \<noteq> None" by (auto simp: next_handshake.simps [of TP 0 c] split: option.splits)
    with taken [OF 0] show ?case by blast
  next
    case (Suc fuel)
    show ?case
    proof (cases "parse_handshake (hs c)")
      case None
      with Suc show ?thesis
        by (auto simp: next_handshake.simps [of TP "Suc fuel" c] andthen_Got updates_def split: if_splits)
    qed (use taken [OF Suc.prems] in blast)
  }
qed

lemma expect_message_Got:
  assumes "expect_message TP fuel type name c = (Got (msg, m), c')"
  shows "calm c c' \<and> hm_type m = type \<and> msg = frame type (hm_body m)"
proof -
  have "next_handshake TP fuel c = (Got (msg, m), c')" "hm_type m = type"
    using assms by (auto simp: expect_message_def andthen_Got split: if_splits)
  with next_handshake_frame quietD [OF quiet_next_handshake] show ?thesis by blast
qed

lemma send_client_hello_Got:
  assumes "send_client_hello TP rng c = (Got cr, c')"
  shows "calm (c\<lparr>tr := transcript_update (build_client_hello (opt_version c) cr [TLS_RSA_WITH_RC4_128_MD5]) (tr c)\<rparr>) c'"
proof -
  obtain c1 where d: "draws (make_client_random rng (opt_gmt c)) c = (Got cr, c1)"
    and s: "send_record TP CT_HANDSHAKE (build_client_hello (opt_version c) cr [TLS_RSA_WITH_RC4_128_MD5])
        (c1\<lparr>tr := transcript_update (build_client_hello (opt_version c) cr [TLS_RSA_WITH_RC4_128_MD5]) (tr c1)\<rparr>) = (Got (), c')"
    using assms by (auto simp: send_client_hello_def andthen_Got Let_def)
  from quietD [OF quiet_draws d] send_record_calm [OF s] show ?thesis by (simp add: calm_def)
qed

lemma receive_server_hello_Got:
  assumes "receive_server_hello TP fuel c = (Got sr, c')"
  shows "\<exists>body sh. parse_server_hello body = Some sh \<and> sh_version sh = opt_version c \<and>
    sh_cipher_suite sh = TLS_RSA_WITH_RC4_128_MD5 \<and> sh_compression sh = 0 \<and> sr = sh_random sh \<and>
    calm (c\<lparr>tr := transcript_update (frame HT_SERVER_HELLO body) (tr c), suite := TLS_RSA_WITH_RC4_128_MD5\<rparr>) c'"
proof -
  obtain msg m c1 where e: "expect_message TP fuel HT_SERVER_HELLO ''ServerHello'' c = (Got (msg, m), c1)"
    and r: "(case parse_server_hello (hm_body m) of None \<Rightarrow> fails ''malformed ServerHello'' | Some sh \<Rightarrow> check_server_hello sh)
        (c1\<lparr>tr := transcript_update msg (tr c1)\<rparr>) = (Got sr, c')"
    using assms by (auto simp: receive_server_hello_def andthen_Got)
  from r obtain sh where sh: "parse_server_hello (hm_body m) = Some sh"
    "check_server_hello sh (c1\<lparr>tr := transcript_update msg (tr c1)\<rparr>) = (Got sr, c')"
    by (auto split: option.splits)
  from expect_message_Got [OF e] sh show ?thesis
    by (intro exI [of _ "hm_body m"] exI [of _ sh]) (auto simp: check_server_hello_def calm_def split: if_splits)
qed

lemma receive_certificate_Got:
  assumes "receive_certificate TP fuel c = (Got u, c')"
  shows "\<exists>body certs key. parse_certificate_list body = Some certs \<and> parse_certificate_rsa_key (certs ! 0) = Inr key \<and>
    calm (c\<lparr>tr := transcript_update (frame HT_CERTIFICATE body) (tr c), server_cert := certs ! 0, peer_key := key\<rparr>) c'"
proof -
  obtain msg m c1 where e: "expect_message TP fuel HT_CERTIFICATE ''Certificate'' c = (Got (msg, m), c1)"
    and r: "(case parse_certificate_list (hm_body m) of
         None \<Rightarrow> (Error ''malformed Certificate message'', c1\<lparr>tr := transcript_update msg (tr c1)\<rparr>)
       | Some certs \<Rightarrow>
           let c = c1\<lparr>tr := transcript_update msg (tr c1), server_cert := certs ! 0\<rparr>
           in case parse_certificate_rsa_key (certs ! 0) of
                Inr key \<Rightarrow> (Got (), c\<lparr>peer_key := key\<rparr>)
              | Inl Rejected \<Rightarrow> (Error ''no usable RSA public key in the server certificate'', c)
              | Inl Out_of_bounds \<Rightarrow> (Crash, c)) = (Got u, c')"
    using assms by (auto simp: receive_certificate_def andthen_Got)
  then obtain certs key where k: "parse_certificate_list (hm_body m) = Some certs" "parse_certificate_rsa_key (certs ! 0) = Inr key"
    "c' = c1\<lparr>tr := transcript_update msg (tr c1), server_cert := certs ! 0, peer_key := key\<rparr>"
    by (auto simp: Let_def split: option.splits sum.splits fault.splits)
  from expect_message_Got [OF e] k show ?thesis
    by (intro exI [of _ "hm_body m"] exI [of _ certs] exI [of _ key]) (auto simp: calm_def)
qed

text \<open>The messages between Certificate and the client's flight.\<close>

definition hello_tail :: "bytes list \<Rightarrow> bool" where
  "hello_tail msgs \<longleftrightarrow> (\<exists>reqs body. msgs = reqs @ [frame HT_SERVER_HELLO_DONE body] \<and>
     list_all (\<lambda>m. \<exists>b. m = frame HT_CERTIFICATE_REQUEST b) reqs)"

lemma hello_tail_Cons: "hello_tail msgs \<Longrightarrow> m = frame HT_CERTIFICATE_REQUEST b \<Longrightarrow> hello_tail (m # msgs)"
proof -
  assume "hello_tail msgs" and m: "m = frame HT_CERTIFICATE_REQUEST b"
  then obtain reqs body where "msgs = reqs @ [frame HT_SERVER_HELLO_DONE body]"
    "list_all (\<lambda>m. \<exists>b. m = frame HT_CERTIFICATE_REQUEST b) reqs" by (auto simp: hello_tail_def)
  with m have "m # msgs = (m # reqs) @ [frame HT_SERVER_HELLO_DONE body]"
    "list_all (\<lambda>m. \<exists>b. m = frame HT_CERTIFICATE_REQUEST b) (m # reqs)" by auto
  then show ?thesis unfolding hello_tail_def by blast
qed

lemma until_hello_done_Got:
  "until_hello_done TP fuel n req c = (Got req', c') \<Longrightarrow>
     \<exists>msgs. hello_tail msgs \<and> calm (c\<lparr>tr := fold transcript_update msgs (tr c)\<rparr>) c'"
proof (induction n arbitrary: c req)
  case (Suc n)
  obtain msg m c1 where nx: "next_handshake TP fuel c = (Got (msg, m), c1)"
    and r: "(if hm_type m = HT_SERVER_HELLO_DONE then returns req
       else if hm_type m = HT_CERTIFICATE_REQUEST then until_hello_done TP fuel n True
       else if hm_type m = HT_SERVER_KEY_EXCHANGE
       then fails ''server sent ServerKeyExchange for an RSA key exchange''
       else fails (''unexpected handshake type '' @ to_string (uint (hm_type m)) @ '' before ServerHelloDone''))
        (c1\<lparr>tr := transcript_update msg (tr c1)\<rparr>) = (Got req', c')"
    using Suc.prems by (auto simp: andthen_Got)
  have q: "calm c c1" and f: "msg = frame (hm_type m) (hm_body m)"
    using quietD [OF quiet_next_handshake nx] next_handshake_frame [OF nx] by simp_all
  consider (last_one) "hm_type m = HT_SERVER_HELLO_DONE" "c' = c1\<lparr>tr := transcript_update msg (tr c1)\<rparr>"
    | (asked) "hm_type m = HT_CERTIFICATE_REQUEST"
        "until_hello_done TP fuel n True (c1\<lparr>tr := transcript_update msg (tr c1)\<rparr>) = (Got req', c')"
    using r by (auto split: if_splits)
  then show ?case
  proof cases
    case last_one
    moreover have "hello_tail [msg]"
      using f last_one(1) unfolding hello_tail_def by (intro exI [of _ "[]"] exI [of _ "hm_body m"]) simp
    ultimately show ?thesis
      using q by (intro exI [of _ "[msg]"]) (auto simp: calm_def)
  next
    case asked
    from Suc.IH [OF asked(2)] obtain msgs where "hello_tail msgs"
      "calm (c1\<lparr>tr := fold transcript_update (msg # msgs) (tr c1)\<rparr>) c'" by auto
    moreover from this(1) have "hello_tail (msg # msgs)"
      by (rule hello_tail_Cons) (use f asked(1) in simp)
    ultimately show ?thesis
      using q by (intro exI [of _ "msg # msgs"]) (auto simp: calm_def)
  qed
qed simp

lemma send_key_exchange_Got:
  assumes "send_key_exchange TP rng fuel req c = (Got pm, c')"
  shows "\<exists>cke r r'. build_client_key_exchange rng fuel (peer_key c) pm r = (Drawn cke, r') \<and>
    calm (c\<lparr>tr := transcript_update cke
        (if req then transcript_update build_empty_certificate (tr c) else tr c)\<rparr>) c'"
proof -
  let ?t = "if req then transcript_update build_empty_certificate (tr c) else tr c"
  let ?empty = "if req
        then andthen (absorb build_empty_certificate) (\<lambda>_. send_record TP CT_HANDSHAKE build_empty_certificate)
        else returns ()"
  obtain c1 where e: "?empty c = (Got (), c1)"
    and rest: "andthen (draws (make_premaster rng (opt_version c1))) (\<lambda>premaster c.
         case build_client_key_exchange rng fuel (peer_key c) premaster (rand c) of
           (Failed, r) \<Rightarrow> (Error ''RSA encryption of the premaster failed'', c\<lparr>rand := r\<rparr>)
         | (Out_of_fuel, r) \<Rightarrow> (Stuck, c\<lparr>rand := r\<rparr>)
         | (Drawn cke, r) \<Rightarrow>
             andthen (absorb cke) (\<lambda>_.
             andthen (send_record TP CT_HANDSHAKE cke) (\<lambda>_. returns premaster)) (c\<lparr>rand := r\<rparr>)) c1 = (Got pm, c')"
    using assms unfolding send_key_exchange_def andthen_Got [of ?empty] by auto
  have c1: "calm (c\<lparr>tr := ?t\<rparr>) c1"
    using e by (auto simp: andthen_Got split: if_splits dest!: send_record_calm)
  from rest obtain premaster c2 where d: "draws (make_premaster rng (opt_version c1)) c1 = (Got premaster, c2)"
    and use: "(case build_client_key_exchange rng fuel (peer_key c2) premaster (rand c2) of
           (Failed, r) \<Rightarrow> (Error ''RSA encryption of the premaster failed'', c2\<lparr>rand := r\<rparr>)
         | (Out_of_fuel, r) \<Rightarrow> (Stuck, c2\<lparr>rand := r\<rparr>)
         | (Drawn cke, r) \<Rightarrow>
             andthen (absorb cke) (\<lambda>_.
             andthen (send_record TP CT_HANDSHAKE cke) (\<lambda>_. returns premaster)) (c2\<lparr>rand := r\<rparr>)) = (Got pm, c')"
    unfolding andthen_Got [of "draws _"] by auto
  obtain out r where b: "build_client_key_exchange rng fuel (peer_key c2) premaster (rand c2) = (out, r)" by fastforce
  have "\<exists>cke. out = Drawn cke" using use unfolding b by (cases out) simp_all
  then obtain cke where k: "build_client_key_exchange rng fuel (peer_key c2) premaster (rand c2) = (Drawn cke, r)"
    using b by blast
  have s: "send_record TP CT_HANDSHAKE cke (c2\<lparr>rand := r, tr := transcript_update cke (tr c2)\<rparr>) = (Got (), c')"
    and pm: "premaster = pm"
    using use unfolding k by (auto simp: andthen_Got)
  have "calm (c\<lparr>tr := ?t\<rparr>) c2" using c1 quietD [OF quiet_draws d] by (rule calm_trans)
  with send_record_calm [OF s] k pm show ?thesis
    by (intro exI [of _ cke] exI [of _ "rand c2"] exI [of _ r]) (auto simp: calm_def)
qed

lemma crypt_state_start: "\<exists>bs. r = snd (crypt bs r)"
  by (rule exI [of _ "[]"]) simp

lemma size_MD5_ops: "h_size MD5_ops = 16"
  by (simp add: MD5_ops_def)

lemma writing_enabled: "writing (take 16 mk) (take 16 ek) (enable_write_cipher MD5_ops mk ek r)"
  using crypt_state_start hmac_md5.keyed_init
  by (simp add: writing_def enable_write_cipher_def KEY_LEN_def size_MD5_ops)

lemma reading_enabled: "reading (take 16 mk) (take 16 ek) (enable_read_cipher MD5_ops mk ek r)"
  using crypt_state_start hmac_md5.keyed_init
  by (simp add: reading_def enable_read_cipher_def KEY_LEN_def size_MD5_ops)

lemma enable_other_side:
  "reading mk ek r \<Longrightarrow> reading mk ek (enable_write_cipher MD5_ops mk' ek' r)"
  "writing mk ek r \<Longrightarrow> writing mk ek (enable_read_cipher MD5_ops mk' ek' r)"
  by (simp_all add: reading_def writing_def enable_write_cipher_def enable_read_cipher_def)

lemma send_finished_Got:
  assumes "send_finished TP master km c = (Got u, c')"
  shows "\<exists>fin. build_finished master ''client finished'' (tr c) = Some fin \<and>
    tr c' = transcript_update fin (tr c) \<and> opt_version c' = opt_version c \<and> peer_key c' = peer_key c \<and>
    server_cert c' = server_cert c \<and> suite c' = suite c \<and> connected c' = connected c \<and>
    writing (take 16 (client_mac km)) (take 16 (client_key km)) (rec_layer c')"
proof -
  obtain c1 fin where s1: "send_record TP CT_CHANGE_CIPHER_SPEC [0x01] c = (Got (), c1)"
    and fin: "build_finished master ''client finished'' (tr c1) = Some fin"
    and s2: "send_record TP CT_HANDSHAKE fin
      (c1\<lparr>rec_layer := enable_write_cipher MD5_ops (client_mac km) (client_key km) (rec_layer c1), tr := transcript_update fin (tr c1)\<rparr>) = (Got u, c')"
    using assms by (auto simp: send_finished_def andthen_Got updates_def split: option.splits)
  from send_record_calm [OF s1] send_record_calm [OF s2] fin writing_enabled [of "client_mac km" "client_key km" "rec_layer c1"]
  show ?thesis by (auto simp: calm_def)
qed

lemma receive_finished_Got:
  assumes "receive_finished TP fuel master km c = (Got u, c')"
  shows "\<exists>body. check_finished master ''server finished'' (tr c) body = Some True \<and>
    tr c' = transcript_update (frame HT_FINISHED body) (tr c) \<and> opt_version c' = opt_version c \<and> peer_key c' = peer_key c \<and>
    server_cert c' = server_cert c \<and> suite c' = suite c \<and> connected c' \<and>
    (\<forall>mk ek. writing mk ek (rec_layer c) \<longrightarrow> writing mk ek (rec_layer c')) \<and>
    reading (take 16 (server_mac km)) (take 16 (server_key km)) (rec_layer c')"
proof -
  obtain c1 msg m c2 where x: "expect_change_cipher_spec TP fuel c = (Got (), c1)"
    and e: "expect_message TP fuel HT_FINISHED ''Finished''
      (c1\<lparr>rec_layer := enable_read_cipher MD5_ops (server_mac km) (server_key km) (rec_layer c1)\<rparr>) = (Got (msg, m), c2)"
    and k: "check_finished master ''server finished'' (tr c2) (hm_body m) = Some True"
    and c': "c' = c2\<lparr>tr := transcript_update msg (tr c2), connected := True\<rparr>"
    using assms by (auto simp: receive_finished_def andthen_Got updates_def split: option.splits bool.splits)
  from quietD [OF quiet_expect_ccs x] expect_message_Got [OF e] k c'
    reading_enabled [of "server_mac km" "server_key km" "rec_layer c1"] enable_other_side(2)
  show ?thesis by (intro exI [of _ "hm_body m"]) (auto simp: calm_def)
qed

section \<open>The whole handshake\<close>

lemma handshake_steps:
  assumes "client_handshake TP rng fuel c = (Got u, c')"
  obtains cr c1 sr c2 c3 req c4 pm c5 master km c6
  where "send_client_hello TP rng c = (Got cr, c1)" and "receive_server_hello TP fuel c1 = (Got sr, c2)"
    and "receive_certificate TP fuel c2 = (Got (), c3)" and "until_hello_done TP fuel fuel False c3 = (Got req, c4)"
    and "send_key_exchange TP rng fuel req c4 = (Got pm, c5)" and "derive_keys pm cr sr = Some (master, km)"
    and "send_finished TP master km c5 = (Got (), c6)" and "receive_finished TP fuel master km c6 = (Got u, c')"
proof -
  from assms obtain cr c1 sr c2 w c3 req c4 pm c5
    where steps: "send_client_hello TP rng c = (Got cr, c1)" "receive_server_hello TP fuel c1 = (Got sr, c2)"
      "receive_certificate TP fuel c2 = (Got w, c3)" "until_hello_done TP fuel fuel False c3 = (Got req, c4)"
      "send_key_exchange TP rng fuel req c4 = (Got pm, c5)"
    and last: "(case derive_keys pm cr sr of None \<Rightarrow> (\<lambda>c. (Stuck, c))
       | Some (master, km) \<Rightarrow> andthen (send_finished TP master km) (\<lambda>_. receive_finished TP fuel master km)) c5 = (Got u, c')"
    unfolding client_handshake_def andthen_Got by blast
  have w: "w = ()" by simp
  from last obtain master km where d: "derive_keys pm cr sr = Some (master, km)"
    and f: "andthen (send_finished TP master km) (\<lambda>_. receive_finished TP fuel master km) c5 = (Got u, c')"
    by (auto split: option.splits)
  from f obtain c6 where "send_finished TP master km c5 = (Got (), c6)" "receive_finished TP fuel master km c6 = (Got u, c')"
    unfolding andthen_Got by auto
  with steps [unfolded w] d that show ?thesis by blast
qed

lemma derive_keys_rfc:
  "derive_keys pm cr sr =
     (let master = rfc_prf pm ''master secret'' (take 32 cr @ take 32 sr) 48
      in Some (master, split_key_block MD5_ops (rfc_prf master ''key expansion'' (take 32 sr @ take 32 cr) 64)))"
  by (simp add: derive_keys_def derive_master_secret_def derive_key_block_def prf_rfc2246 RANDOM_LEN_def
      MASTER_SECRET_LEN_def key_block_len_def KEY_LEN_def size_MD5_ops Let_def)

lemma transcript_of_fold:
  "transcript_of m t \<Longrightarrow> transcript_of (m @ concat ds) (fold transcript_update ds t)"
proof (induction ds arbitrary: m t)
  case (Cons d ds)
  from Cons.IH [OF transcript_of_update [OF Cons.prems]] show ?case by simp
qed simp

text \<open>
  Everything up to the client's key exchange: the checks, and the messages in the order in which
  they enter the transcript.
\<close>

definition flight :: "u16 \<Rightarrow> 'r rng \<Rightarrow> nat \<Rightarrow> ('t, 'r) client \<Rightarrow> bytes \<Rightarrow> bytes \<Rightarrow> bytes \<Rightarrow> bytes \<Rightarrow> bool" where
  "flight v rng fuel c cr sr pm log \<longleftrightarrow> (\<exists>sh_body sh cert_body certs tail req cke r1 r2.
    parse_server_hello sh_body = Some sh \<and> sh_version sh = v \<and> sh_cipher_suite sh = TLS_RSA_WITH_RC4_128_MD5 \<and>
    sh_compression sh = 0 \<and> sr = sh_random sh \<and> parse_certificate_list cert_body = Some certs \<and>
    server_cert c = certs ! 0 \<and> parse_certificate_rsa_key (certs ! 0) = Inr (peer_key c) \<and> hello_tail tail \<and>
    build_client_key_exchange rng fuel (peer_key c) pm r1 = (Drawn cke, r2) \<and> suite c = TLS_RSA_WITH_RC4_128_MD5 \<and>
    log = build_client_hello v cr [TLS_RSA_WITH_RC4_128_MD5] @ frame HT_SERVER_HELLO sh_body @
      frame HT_CERTIFICATE cert_body @ concat tail @ (if req then build_empty_certificate else []) @ cke)"

lemma flight_cong:
  "flight v rng fuel c cr sr pm log \<Longrightarrow> server_cert d = server_cert c \<Longrightarrow> peer_key d = peer_key c \<Longrightarrow> suite d = suite c \<Longrightarrow>
   flight v rng fuel d cr sr pm log"
  unfolding flight_def by simp

lemma handshake_flight:
  assumes start: "opt_version c = v" "tr c = transcript_new"
    and steps: "send_client_hello TP rng c = (Got cr, c1)" "receive_server_hello TP fuel c1 = (Got sr, c2)"
      "receive_certificate TP fuel c2 = (Got w, c3)" "until_hello_done TP fuel fuel False c3 = (Got req, c4)"
      "send_key_exchange TP rng fuel req c4 = (Got pm, c5)"
  shows "\<exists>log. flight v rng fuel c5 cr sr pm log \<and> transcript_of log (tr c5)"
proof -
  let ?hello = "build_client_hello v cr [TLS_RSA_WITH_RC4_128_MD5]"
  have a1: "calm (c\<lparr>tr := transcript_update ?hello transcript_new\<rparr>) c1"
    using send_client_hello_Got [OF steps(1)] start by simp
  obtain sh_body sh where sh: "parse_server_hello sh_body = Some sh" "sh_version sh = v"
      "sh_cipher_suite sh = TLS_RSA_WITH_RC4_128_MD5" "sh_compression sh = 0" "sr = sh_random sh"
    and a2: "calm (c1\<lparr>tr := transcript_update (frame HT_SERVER_HELLO sh_body) (tr c1), suite := TLS_RSA_WITH_RC4_128_MD5\<rparr>) c2"
    using receive_server_hello_Got [OF steps(2)] a1 start by (auto simp: calm_def)
  obtain cert_body certs key where certs: "parse_certificate_list cert_body = Some certs"
      "parse_certificate_rsa_key (certs ! 0) = Inr key"
    and a3: "calm (c2\<lparr>tr := transcript_update (frame HT_CERTIFICATE cert_body) (tr c2), server_cert := certs ! 0, peer_key := key\<rparr>) c3"
    using receive_certificate_Got [OF steps(3)] by blast
  obtain tail where tail: "hello_tail tail" and a4: "calm (c3\<lparr>tr := fold transcript_update tail (tr c3)\<rparr>) c4"
    using until_hello_done_Got [OF steps(4)] by blast
  obtain cke r1 r2 where cke: "build_client_key_exchange rng fuel (peer_key c4) pm r1 = (Drawn cke, r2)"
    and a5: "calm (c4\<lparr>tr := transcript_update cke (if req then transcript_update build_empty_certificate (tr c4) else tr c4)\<rparr>) c5"
    using send_key_exchange_Got [OF steps(5)] by blast
  let ?msgs = "[?hello, frame HT_SERVER_HELLO sh_body, frame HT_CERTIFICATE cert_body] @ tail @
      (if req then [build_empty_certificate] else []) @ [cke]"
  have "tr c5 = fold transcript_update ?msgs transcript_new"
    using a1 a2 a3 a4 a5 by (simp add: calm_def)
  then have "transcript_of (concat ?msgs) (tr c5)"
    using transcript_of_fold [OF transcript_of_new, of ?msgs] by simp
  moreover have "peer_key c5 = key" "peer_key c4 = key" "server_cert c5 = certs ! 0" "suite c5 = TLS_RSA_WITH_RC4_128_MD5"
    using a2 a3 a4 a5 by (simp_all add: calm_def)
  then have "flight v rng fuel c5 cr sr pm (concat ?msgs)"
    unfolding flight_def using sh certs tail cke
    by (intro exI [of _ sh_body] exI [of _ sh] exI [of _ cert_body] exI [of _ certs] exI [of _ tail]
        exI [of _ req] exI [of _ cke] exI [of _ r1] exI [of _ r2]) simp
  ultimately show ?thesis by blast
qed

section \<open>Only success connects\<close>

definition keeps :: "('a, 't, 'r) action \<Rightarrow> bool" where
  "keeps m \<longleftrightarrow> (\<forall>c rep c'. m c = (rep, c') \<longrightarrow> connected c' = connected c)"

named_theorems keeps_intros \<open>actions that do not connect\<close>

lemma keeps_quiet: "quiet m \<Longrightarrow> keeps m"
  by (auto simp: keeps_def quiet_def calm_def)

lemma keeps_andthen [keeps_intros]: "keeps m \<Longrightarrow> (\<And>x. keeps (f x)) \<Longrightarrow> keeps (andthen m f)"
  unfolding keeps_def andthen_def by (auto split: prod.splits reply.splits)

lemma keeps_if [keeps_intros]: "keeps m \<Longrightarrow> keeps n \<Longrightarrow> keeps (if b then m else n)"
  by simp

lemma keeps_absorb [keeps_intros]: "keeps (absorb msg)"
  by (simp add: keeps_def absorb_def updates_def)

lemma keeps_layer [keeps_intros]: "keeps (updates (\<lambda>c. c\<lparr>rec_layer := f c\<rparr>))"
  by (simp add: keeps_def updates_def)

lemmas keeps_plumbing [keeps_intros] =
  keeps_quiet [OF quiet_returns] keeps_quiet [OF quiet_fails] keeps_quiet [OF quiet_send_record]
  keeps_quiet [OF quiet_draws] keeps_quiet [OF quiet_next_handshake] keeps_quiet [OF quiet_expect_message]
  keeps_quiet [OF quiet_expect_ccs]

lemma keeps_send_client_hello [keeps_intros]:
  fixes rng :: "'r rng" and TP :: "'t transport"
  shows "keeps (send_client_hello TP rng)"
proof -
  have "keeps (andthen (draws (make_client_random rng (opt_gmt c))) (\<lambda>client_random.
       let ch = build_client_hello (opt_version c) client_random [TLS_RSA_WITH_RC4_128_MD5]
       in andthen (absorb ch) (\<lambda>_. andthen (send_record TP CT_HANDSHAKE ch) (\<lambda>_. returns client_random)))
       :: (bytes, 't, 'r) action)" for c :: "('t, 'r) client"
    by (auto simp: Let_def intro!: keeps_intros)
  then show ?thesis by (simp add: keeps_def send_client_hello_def)
qed

lemma keeps_receive_server_hello [keeps_intros]: "keeps (receive_server_hello TP fuel)"
proof -
  have "keeps (check_server_hello sh)" for sh
    by (auto simp: keeps_def check_server_hello_def split: if_splits)
  then show ?thesis
    unfolding receive_server_hello_def by (auto intro!: keeps_intros split: prod.splits option.splits)
qed

lemma keeps_receive_certificate [keeps_intros]: "keeps (receive_certificate TP fuel)"
proof -
  have "keeps (\<lambda>c. case parse_certificate_list body of
         None \<Rightarrow> (Error ''malformed Certificate message'', c)
       | Some certs \<Rightarrow>
           let c = c\<lparr>server_cert := certs ! 0\<rparr>
           in case parse_certificate_rsa_key (certs ! 0) of
                Inr key \<Rightarrow> (Got (), c\<lparr>peer_key := key\<rparr>)
              | Inl Rejected \<Rightarrow> (Error ''no usable RSA public key in the server certificate'', c)
              | Inl Out_of_bounds \<Rightarrow> (Crash, c))" for body
    by (auto simp: keeps_def Let_def split: option.splits sum.splits fault.splits)
  then show ?thesis
    unfolding receive_certificate_def by (auto intro!: keeps_intros split: prod.splits)
qed

lemma keeps_until_hello_done [keeps_intros]: "keeps (until_hello_done TP fuel n req)"
proof (induction n arbitrary: req)
  case 0
  then show ?case by (simp add: keeps_def)
qed (auto intro!: keeps_intros split: prod.splits)

lemma keeps_send_key_exchange [keeps_intros]:
  fixes rng :: "'r rng"
  shows "keeps (send_key_exchange TP rng fuel req)"
proof -
  have use: "keeps (\<lambda>c. case build_client_key_exchange rng fuel (peer_key c) premaster (rand c) of
           (Failed, r) \<Rightarrow> (Error ''RSA encryption of the premaster failed'', c\<lparr>rand := r\<rparr>)
         | (Out_of_fuel, r) \<Rightarrow> (Stuck, c\<lparr>rand := r\<rparr>)
         | (Drawn cke, r) \<Rightarrow> andthen (absorb cke) (\<lambda>_.
             andthen (send_record TP CT_HANDSHAKE cke) (\<lambda>_. returns premaster)) (c\<lparr>rand := r\<rparr>))" for premaster
    unfolding keeps_def
  proof (intro allI impI)
    fix c rep c'
    assume run: "(case build_client_key_exchange rng fuel (peer_key c) premaster (rand c) of
           (Failed, r) \<Rightarrow> (Error ''RSA encryption of the premaster failed'', c\<lparr>rand := r\<rparr>)
         | (Out_of_fuel, r) \<Rightarrow> (Stuck, c\<lparr>rand := r\<rparr>)
         | (Drawn cke, r) \<Rightarrow> andthen (absorb cke) (\<lambda>_.
             andthen (send_record TP CT_HANDSHAKE cke) (\<lambda>_. returns premaster)) (c\<lparr>rand := r\<rparr>)) = (rep, c')"
    obtain out r where b: "build_client_key_exchange rng fuel (peer_key c) premaster (rand c) = (out, r)" by fastforce
    have "keeps (andthen (absorb cke) (\<lambda>_. andthen (send_record TP CT_HANDSHAKE cke) (\<lambda>_. returns premaster)))" for cke
      by (intro keeps_intros)
    then have "andthen (absorb cke) (\<lambda>_. andthen (send_record TP CT_HANDSHAKE cke) (\<lambda>_. returns premaster)) (c\<lparr>rand := r\<rparr>) = (rep, c')
        \<Longrightarrow> connected c' = connected c" for cke
      unfolding keeps_def by fastforce
    with run show "connected c' = connected c" unfolding b by (cases out) auto
  qed
  have "keeps (andthen (draws (make_premaster rng v)) (\<lambda>premaster c.
         case build_client_key_exchange rng fuel (peer_key c) premaster (rand c) of
           (Failed, r) \<Rightarrow> (Error ''RSA encryption of the premaster failed'', c\<lparr>rand := r\<rparr>)
         | (Out_of_fuel, r) \<Rightarrow> (Stuck, c\<lparr>rand := r\<rparr>)
         | (Drawn cke, r) \<Rightarrow> andthen (absorb cke) (\<lambda>_.
             andthen (send_record TP CT_HANDSHAKE cke) (\<lambda>_. returns premaster)) (c\<lparr>rand := r\<rparr>)))" for v
    by (intro keeps_andthen keeps_plumbing use)
  then have "keeps (\<lambda>c. andthen (draws (make_premaster rng (opt_version c))) (\<lambda>premaster c.
         case build_client_key_exchange rng fuel (peer_key c) premaster (rand c) of
           (Failed, r) \<Rightarrow> (Error ''RSA encryption of the premaster failed'', c\<lparr>rand := r\<rparr>)
         | (Out_of_fuel, r) \<Rightarrow> (Stuck, c\<lparr>rand := r\<rparr>)
         | (Drawn cke, r) \<Rightarrow> andthen (absorb cke) (\<lambda>_.
             andthen (send_record TP CT_HANDSHAKE cke) (\<lambda>_. returns premaster)) (c\<lparr>rand := r\<rparr>)) c)"
    by (simp add: keeps_def)
  then show ?thesis
    unfolding send_key_exchange_def by (intro keeps_andthen keeps_if keeps_absorb keeps_plumbing)
qed

lemma keeps_send_finished [keeps_intros]: "keeps (send_finished TP master km)"
proof -
  have "keeps (andthen (absorb fin) (\<lambda>_. send_record TP CT_HANDSHAKE fin))" for fin
    by (intro keeps_intros)
  then have "keeps (\<lambda>c. case build_finished master ''client finished'' (tr c) of
         None \<Rightarrow> (Stuck, c)
       | Some client_fin \<Rightarrow> andthen (absorb client_fin) (\<lambda>_. send_record TP CT_HANDSHAKE client_fin) c)"
    by (auto simp: keeps_def split: option.splits)
  then show ?thesis
    unfolding send_finished_def by (intro keeps_andthen keeps_layer keeps_plumbing)
qed

text \<open>\<open>gates m\<close>: from an unconnected client, \<open>m\<close> connects exactly when it succeeds.\<close>

definition gates :: "(unit, 't, 'r) action \<Rightarrow> bool" where
  "gates m \<longleftrightarrow> (\<forall>c. \<not> connected c \<longrightarrow> connected (snd (m c)) = (fst (m c) = Got ()))"

lemma gates_andthen: "keeps m \<Longrightarrow> (\<And>x. gates (f x)) \<Longrightarrow> gates (andthen m f)"
  unfolding keeps_def gates_def andthen_def by (auto split: prod.splits reply.splits)

lemma gates_receive_finished: "gates (receive_finished TP fuel master km)"
proof -
  have "gates (\<lambda>c. case check_finished master ''server finished'' (tr c) body of
         None \<Rightarrow> (Stuck, c)
       | Some False \<Rightarrow> (Error (''the server'' @ [CHR 0x27] @ ''s Finished did not verify''), c)
       | Some True \<Rightarrow> andthen (absorb msg) (\<lambda>_. updates (\<lambda>c. c\<lparr>connected := True\<rparr>)) c)" for msg body
    by (auto simp: gates_def andthen_def absorb_def updates_def split: option.splits bool.splits)
  then show ?thesis
    unfolding receive_finished_def
    by (intro gates_andthen keeps_layer keeps_plumbing) (auto split: prod.split)
qed

lemma gates_handshake:
  fixes rng :: "'r rng"
  shows "gates (client_handshake TP rng fuel)"
proof -
  have "gates (case derive_keys pm cr sr of None \<Rightarrow> (\<lambda>c. (Stuck, c))
       | Some (master, km) \<Rightarrow> andthen (send_finished TP master km) (\<lambda>_. receive_finished TP fuel master km))" for pm cr sr
    by (simp add: derive_keys_rfc Let_def gates_andthen keeps_send_finished gates_receive_finished)
  then show ?thesis
    unfolding client_handshake_def
    by (intro gates_andthen keeps_send_client_hello keeps_receive_server_hello keeps_receive_certificate
        keeps_until_hello_done keeps_send_key_exchange)
qed

section \<open>Properties\<close>

text \<open>The client counts as connected exactly when the handshake succeeded: no error, at whatever point, leaves it connected.\<close>

theorem connected_iff_success:
  "connected (snd (client_handshake TP rng fuel (client_new v timeout gmt s r))) \<longleftrightarrow>
   fst (client_handshake TP rng fuel (client_new v timeout gmt s r)) = Got ()"
proof -
  have "\<not> connected (client_new v timeout gmt s r)" by (simp add: client_new_def)
  with gates_handshake show ?thesis unfolding gates_def by blast
qed

end
