(* ===== verification/Client_Written.thy ===== *)
theory Client_Written
  imports Client_Security
begin

text \<open>
  What a peer reads of the records the client of \<open>tls/client.hpp\<close> writes. A peer reads a stream of
  bytes record by record with the reading side of the same record layer; \<open>written\<close> follows, over any
  transport that keeps the contract \<open>byte_stream\<close>, what it has read of the bytes sent so far. The
  actions of the client that only receive are \<open>silent\<close>: they leave that as it is.
\<close>

unbundle bit_operations_syntax

section \<open>Reading records from a stream\<close>

lemma record_of_protected:
  assumes step: "hmac_md5.in_step key w r" and sent: "protect MD5_ops type data w = (Some out, w')"
    and type: "is_valid_content_type type"
  shows "\<exists>h r'. record_of (out @ rest) r = (Got (h, data), rest, r', False) \<and> rh_type h = type \<and> hmac_md5.in_step key w' r'"
proof -
  obtain h r' where h: "parse_record_header out = Some h" "rh_type h = type" "rh_version h = version w"
    "unat (rh_length h) = length (drop RECORD_HEADER_LEN out)"
    and u: "unprotect MD5_ops type (version w) (drop RECORD_HEADER_LEN out) r = (Some data, r')"
    and s: "hmac_md5.in_step key w' r'"
    using hmac_md5.record_round_trip [OF step sent] by blast
  have len: "RECORD_HEADER_LEN \<le> length out" using h(1) by (auto simp: parse_record_header_def split: if_splits)
  have "parse_record_header (out @ rest) = Some h" using parse_header_append [OF len] h(1) by simp
  moreover have "take (unat (rh_length h)) (drop RECORD_HEADER_LEN (out @ rest)) = drop RECORD_HEADER_LEN out"
    "drop (RECORD_HEADER_LEN + unat (rh_length h)) (out @ rest) = rest"
    using len by (simp_all add: h(4))
  moreover have "\<not> length (out @ rest) < RECORD_HEADER_LEN + unat (rh_length h)" using len by (simp add: h(4))
  ultimately show ?thesis
    using h(2,3) u s len type by (auto simp: record_of_def Let_def)
qed

text \<open>The next \<open>n\<close> records of a stream, read as the client reads them: their types and data, and what is left.\<close>

fun read_records ::
  "nat \<Rightarrow> bytes \<Rightarrow> hash_ctx record_layer \<Rightarrow> ((byte \<times> bytes) list \<times> bytes \<times> hash_ctx record_layer) option" where
  "read_records 0 st r = Some ([], st, r)"
| "read_records (Suc n) st r =
     (case record_of st r of
        (Got (h, data), st, r, _) \<Rightarrow>
          map_option (\<lambda>(msgs, st, r). ((rh_type h, data) # msgs, st, r)) (read_records n st r)
      | _ \<Rightarrow> None)"

lemma record_of_append:
  assumes "record_of st r = (Got x, rest, r', e)"
  shows "record_of (st @ y) r = (Got x, rest @ y, r', e)"
proof -
  have len: "RECORD_HEADER_LEN \<le> length st" using assms by (auto simp: record_of_def split: if_splits)
  then have "parse_record_header (st @ y) = parse_record_header st" by (rule parse_header_append)
  with assms len show ?thesis
    by (auto simp: record_of_def Let_def split: if_splits option.splits prod.splits)
qed

lemma read_records_append:
  "read_records n st r = Some (msgs, [], r') \<Longrightarrow>
   read_records (n + m) (st @ y) r = map_option (\<lambda>(ms, st, r). (msgs @ ms, st, r)) (read_records m y r')"
proof (induction n arbitrary: st r msgs)
  case (Suc n)
  from Suc.prems obtain h d st1 r1 e ms where o: "record_of st r = (Got (h, d), st1, r1, e)"
    and rest: "read_records n st1 r1 = Some (ms, [], r')" "msgs = (rh_type h, d) # ms"
    by (auto split: prod.splits reply.splits)
  from record_of_append [OF o, of y] Suc.IH [OF rest(1)] rest(2) show ?case
    by (cases "read_records m y r'") auto
qed (cases "read_records m y r'"; auto)

context byte_stream
begin

text \<open>
  \<open>written key base reader msgs c\<close>: after \<open>base\<close>, a peer whose layer was \<open>reader\<close> reads the records of
  \<open>msgs\<close> and no more, and its layer is then in step with the client's.
\<close>

definition written ::
  "bytes \<Rightarrow> bytes \<Rightarrow> hash_ctx record_layer \<Rightarrow> (byte \<times> bytes) list \<Rightarrow> ('t, 'r) client \<Rightarrow> bool" where
  "written key base reader msgs c \<longleftrightarrow> inv (sock c) \<and>
     (\<exists>out r. sent (sock c) = base @ out \<and> read_records (length msgs) out reader = Some (msgs, [], r) \<and>
        hmac_md5.in_step key (rec_layer c) r)"

lemma written_send:
  assumes w: "written key base reader msgs c" and type: "is_valid_content_type type"
    and run: "send_record TP type data c = (Got (), c')"
  shows "written key base reader (msgs @ [(type, data)]) c'"
proof -
  obtain out r where o: "inv (sock c)" "sent (sock c) = base @ out"
    "read_records (length msgs) out reader = Some (msgs, [], r)" "hmac_md5.in_step key (rec_layer c) r"
    using w by (auto simp: written_def)
  obtain rec l s where p: "protect MD5_ops type data (rec_layer c) = (Some rec, l)" "tp_send TP rec (sock c) = (True, s)"
    "c' = c\<lparr>rec_layer := l, sock := s\<rparr>"
    using run by (auto simp: send_record_def Let_def split: prod.splits option.splits if_splits)
  have s: "inv s" "sent s = (base @ out) @ rec" using send_law [OF o(1), of rec] p(2) o(2) by auto
  obtain h r' where rr: "record_of (rec @ []) r = (Got (h, data), [], r', False)" "rh_type h = type" "hmac_md5.in_step key l r'"
    using record_of_protected [OF o(4) p(1) type, of "[]"] by blast
  then have "read_records (length msgs + 1) (out @ rec) reader = Some (msgs @ [(type, data)], [], r')"
    unfolding read_records_append [OF o(3)] by simp
  with s rr(3) p(3) show ?thesis by (auto simp: written_def)
qed

text \<open>Actions that write nothing: what they do to the transport and to the writing half of the layer.\<close>

definition same_writer :: "('t, 'r) client \<Rightarrow> ('t, 'r) client \<Rightarrow> bool" where
  "same_writer c d \<longleftrightarrow> inv (sock d) \<and> sent (sock d) = sent (sock c) \<and> write_rc4 (rec_layer d) = write_rc4 (rec_layer c) \<and>
     write_seq (rec_layer d) = write_seq (rec_layer c) \<and> write_mac (rec_layer d) = write_mac (rec_layer c)"

definition silent :: "('a, 't, 'r) action \<Rightarrow> bool" where
  "silent m \<longleftrightarrow> (\<forall>c. inv (sock c) \<longrightarrow> same_writer c (snd (m c)))"

lemma silentD: "silent m \<Longrightarrow> inv (sock c) \<Longrightarrow> m c = (rep, c') \<Longrightarrow> same_writer c c'"
  unfolding silent_def by force

lemma written_silent: "silent m \<Longrightarrow> written key base reader msgs c \<Longrightarrow> m c = (rep, c') \<Longrightarrow> written key base reader msgs c'"
  using silentD [of m c rep c'] unfolding written_def same_writer_def hmac_md5.in_step_def by auto

named_theorems silent_intros \<open>actions that write nothing\<close>

lemma silent_local [silent_intros]:
  "silent (returns x)" "silent (fails e)" "silent (\<lambda>c. (Stuck, c))" "silent (absorb msg)" "silent (handle_alert pt)"
  "silent (check_server_hello sh)"
  by (auto simp: silent_def same_writer_def returns_def fails_def absorb_def updates_def handle_alert_def check_server_hello_def
      split: option.split)

lemma silent_updates [silent_intros]: "(\<And>c. inv (sock c) \<Longrightarrow> same_writer c (f c)) \<Longrightarrow> silent (updates f)"
  by (simp add: silent_def updates_def)

lemma silent_look: "(\<And>v. silent (F v)) \<Longrightarrow> silent (\<lambda>c. F (g c) c)"
  by (simp add: silent_def)

lemma silent_if [silent_intros]: "silent m \<Longrightarrow> silent n \<Longrightarrow> silent (if b then m else n)"
  by simp

lemma silent_andthen [silent_intros]:
  fixes m :: "('a, 't, 'r) action"
  assumes m: "silent m" and f: "\<And>x. silent (f x)"
  shows "silent (andthen m f)"
  unfolding silent_def
proof (intro allI impI)
  fix c :: "('t, 'r) client"
  assume c: "inv (sock c)"
  obtain rep c' where r: "m c = (rep, c')" by fastforce
  note s = silentD [OF m c r]
  then have i: "inv (sock c')" by (simp add: same_writer_def)
  show "same_writer c (snd (andthen m f c))"
  proof (cases rep)
    case (Got x)
    obtain rep2 c2 where r2: "f x c' = (rep2, c2)" by fastforce
    from silentD [OF f i r2] s r r2 Got show ?thesis by (simp add: andthen_def same_writer_def)
  qed (use r s in \<open>simp_all add: andthen_def\<close>)
qed

lemma silent_read_record [silent_intros]: "silent (read_record TP :: (record_header \<times> bytes, 't, 'r) action)"
  unfolding silent_def
proof (intro allI impI)
  fix c :: "('t, 'r) client"
  assume c: "inv (sock c)"
  obtain rep rest r e where o: "record_of (stream c) (rec_layer c) = (rep, rest, r, e)"
    by (cases "record_of (stream c) (rec_layer c)")
  have "write_rc4 r = write_rc4 (rec_layer c) \<and> write_seq r = write_seq (rec_layer c) \<and> write_mac r = write_mac (rec_layer c)"
    using o by (auto simp: record_of_def unprotect_def Let_def split: if_splits option.splits prod.splits)
  with read_record_result [OF c] o show "same_writer c (snd (read_record TP c))"
    by (auto simp: same_writer_def)
qed


lemma silent_next_handshake [silent_intros]: "silent (next_handshake TP fuel :: (bytes \<times> handshake_message, 't, 'r) action)"
proof (induction fuel)
  case 0
  show ?case by (auto simp: silent_def next_handshake.simps [of TP 0] same_writer_def Let_def split: option.split)
next
  case (Suc fuel)
  let ?read = "andthen (read_record TP) (\<lambda>(h, pt).
      if rh_type h = CT_ALERT then andthen (handle_alert pt) (\<lambda>_. next_handshake TP fuel)
      else if rh_type h \<noteq> CT_HANDSHAKE
      then fails (''expected a handshake record, got content type '' @ to_string (uint (rh_type h)))
      else andthen (updates (\<lambda>c. c\<lparr>hs := hs c @ pt\<rparr>)) (\<lambda>_. next_handshake TP fuel)) :: (bytes \<times> handshake_message, 't, 'r) action"
  have "silent ?read"
    unfolding case_prod_beta by (intro silent_intros Suc.IH) (simp add: same_writer_def)
  then show ?case
    by (auto simp: silent_def next_handshake.simps [of TP "Suc fuel"] Let_def split: option.split) (auto simp: same_writer_def)
qed

lemma silent_await [silent_intros]: "silent (await_change_cipher_spec TP fuel :: (unit, 't, 'r) action)"
proof (induction fuel)
  case (Suc fuel)
  then show ?case
    unfolding await_change_cipher_spec.simps case_prod_beta by (intro silent_intros)
qed (simp add: silent_local await_change_cipher_spec.simps [abs_def])

lemma silent_expect_change_cipher_spec [silent_intros]:
  "silent (expect_change_cipher_spec TP fuel :: (unit, 't, 'r) action)"
  using silent_await [of fuel] by (auto simp: silent_def expect_change_cipher_spec_def) (simp add: same_writer_def)

lemma silent_expect_message [silent_intros]:
  "silent (expect_message TP fuel type name :: (bytes \<times> handshake_message, 't, 'r) action)"
  unfolding expect_message_def case_prod_beta by (intro silent_intros)

lemma silent_receive_server_hello [silent_intros]: "silent (receive_server_hello TP fuel :: (bytes, 't, 'r) action)"
  unfolding receive_server_hello_def case_prod_beta
  by (intro silent_intros) (simp split: option.split add: silent_local)

lemma silent_receive_certificate [silent_intros]: "silent (receive_certificate TP fuel :: (unit, 't, 'r) action)"
  unfolding receive_certificate_def case_prod_beta
  by (intro silent_intros) (auto simp: silent_def same_writer_def Let_def split: option.split sum.split fault.split)

lemma silent_until_hello_done [silent_intros]: "silent (until_hello_done TP fuel n req :: (bool, 't, 'r) action)"
proof (induction n arbitrary: req)
  case (Suc n)
  then show ?case unfolding until_hello_done.simps case_prod_beta by (intro silent_intros)
qed (simp add: silent_local)

lemma silent_receive_finished [silent_intros]: "silent (receive_finished TP fuel master km :: (unit, 't, 'r) action)"
proof -
  have "silent (andthen (absorb msg) (\<lambda>_. updates (\<lambda>c. c\<lparr>connected := True\<rparr>)) :: (unit, 't, 'r) action)" for msg
    by (intro silent_intros) (simp add: same_writer_def)
  then have "silent (\<lambda>c :: ('t, 'r) client. case check_finished master l (tr c) body of
         None \<Rightarrow> (Stuck, c)
       | Some False \<Rightarrow> (Error e, c)
       | Some True \<Rightarrow> andthen (absorb msg) (\<lambda>_. updates (\<lambda>c. c\<lparr>connected := True\<rparr>)) c)" for l body e msg
    by (auto simp: silent_def split: option.split bool.split) (auto simp: same_writer_def)
  then show ?thesis
    unfolding receive_finished_def case_prod_beta
    by (intro silent_intros) (simp_all add: same_writer_def enable_read_cipher_def)
qed

lemma silent_client_recv [silent_intros]: "silent (client_recv TP fuel :: (bytes + bool \<times> string, 't, 'r) action)"
proof (induction fuel)
  case (Suc fuel)
  show ?case
    unfolding silent_def
  proof (intro allI impI)
    fix c :: "('t, 'r) client"
    assume c: "inv (sock c)"
    obtain rep c1 where r: "read_record TP c = (rep, c1)" by fastforce
    note s1 = silentD [OF silent_read_record c r]
    then have i1: "inv (sock c1)" by (simp add: same_writer_def)
    show "same_writer c (snd (client_recv TP (Suc fuel) c))"
    proof (cases rep)
      case (Got p)
      obtain h pt where p: "p = (h, pt)" by fastforce
      obtain rep2 c2 where a: "handle_alert pt c1 = (rep2, c2)" by fastforce
      have "silent (handle_alert pt :: (unit, 't, 'r) action)" by (rule silent_local)
      note s2 = silentD [OF this i1 a]
      then have "same_writer c2 (snd (client_recv TP fuel c2))" using Suc.IH by (simp add: silent_def same_writer_def)
      with s1 s2 r a Got p show ?thesis by (cases rep2) (auto simp: same_writer_def)
    qed (use r s1 in simp_all)
  qed
qed (simp add: silent_def same_writer_def)

text \<open>The actions of the client that send.\<close>

lemma written_field:
  "written key base reader msgs c \<Longrightarrow> sock d = sock c \<Longrightarrow> rec_layer d = rec_layer c \<Longrightarrow> written key base reader msgs d"
  by (simp add: written_def)

lemma handshake_types: "is_valid_content_type CT_HANDSHAKE" "is_valid_content_type CT_CHANGE_CIPHER_SPEC"
  "is_valid_content_type CT_APPLICATION_DATA" "is_valid_content_type CT_ALERT"
  by (simp_all add: is_valid_content_type_def CT_HANDSHAKE_def CT_CHANGE_CIPHER_SPEC_def CT_APPLICATION_DATA_def CT_ALERT_def)

lemma written_hello:
  fixes rng :: "'r rng"
  assumes w: "written key base reader msgs c" and run: "send_client_hello TP rng c = (Got cr, c')"
  shows "written key base reader (msgs @ [(CT_HANDSHAKE, build_client_hello (opt_version c) cr [TLS_RSA_WITH_RC4_128_MD5])]) c'"
proof -
  obtain r1 where "send_record TP CT_HANDSHAKE (build_client_hello (opt_version c) cr [TLS_RSA_WITH_RC4_128_MD5])
      (c\<lparr>rand := r1, tr := transcript_update (build_client_hello (opt_version c) cr [TLS_RSA_WITH_RC4_128_MD5]) (tr c)\<rparr>) = (Got (), c')"
    using run by (auto simp: send_client_hello_def andthen_def draws_def absorb_def updates_def returns_def Let_def
        split: prod.splits option.splits reply.splits)
  with written_send [OF written_field [OF w] handshake_types(1) this] show ?thesis by simp
qed

lemma written_key_exchange:
  fixes rng :: "'r rng"
  assumes w: "written key base reader msgs c" and run: "send_key_exchange TP rng fuel False c = (Got pm, c')"
    and pm: "make_premaster rng (opt_version c) (rand c) = (Some pm, r1)"
    and cke: "build_client_key_exchange rng fuel (peer_key c) pm r1 = (Drawn cke, r2)"
  shows "written key base reader (msgs @ [(CT_HANDSHAKE, cke)]) c'"
proof -
  have "send_record TP CT_HANDSHAKE cke (c\<lparr>rand := r2, tr := transcript_update cke (tr c)\<rparr>) = (Got (), c')"
    using run pm cke by (auto simp: send_key_exchange_def andthen_def draws_def absorb_def updates_def returns_def
        split: prod.splits reply.splits)
  with written_send [OF written_field [OF w] handshake_types(1) this] show ?thesis by simp
qed

lemma written_rekeyed:
  assumes "written key base reader msgs c"
  shows "\<exists>out r. read_records (length msgs) out reader = Some (msgs, [], r) \<and>
    written (take 16 mk) (base @ out) (enable_read_cipher MD5_ops mk ek r) []
      (c\<lparr>rec_layer := enable_write_cipher MD5_ops mk ek (rec_layer c)\<rparr>)"
  using assms hmac_md5.in_step_enable [of mk ek] by (fastforce simp: written_def size_MD5_ops)

lemma written_finished:
  assumes w: "written key base reader msgs c" and t: "transcript_of log (tr c)"
    and run: "send_finished TP master km c = (Got (), c')"
  shows "\<exists>out r. read_records (Suc (length msgs)) out reader = Some (msgs @ [(CT_CHANGE_CIPHER_SPEC, [1])], [], r) \<and>
    written (take 16 (client_mac km)) (base @ out) (enable_read_cipher MD5_ops (client_mac km) (client_key km) r)
      [(CT_HANDSHAKE, frame HT_FINISHED (rfc_finished master ''client finished'' log))] c'"
proof -
  let ?fin = "frame HT_FINISHED (rfc_finished master ''client finished'' log)"
  obtain c1 where c1: "send_record TP CT_CHANGE_CIPHER_SPEC [1] c = (Got (), c1)"
    using run by (auto simp: send_finished_def andthen_def split: prod.splits reply.splits)
  have "tr c1 = tr c" using c1 by (auto simp: send_record_def Let_def split: prod.splits option.splits if_splits)
  with t have b: "build_finished master ''client finished'' (tr c1) = Some ?fin" using build_finished_rfc [OF t] by simp
  let ?c2 = "c1\<lparr>rec_layer := enable_write_cipher MD5_ops (client_mac km) (client_key km) (rec_layer c1)\<rparr>"
  have c': "send_record TP CT_HANDSHAKE ?fin (?c2\<lparr>tr := transcript_update ?fin (tr c1)\<rparr>) = (Got (), c')"
    using run c1 b by (simp add: send_finished_def andthen_def absorb_def updates_def)
  obtain out r where o: "read_records (Suc (length msgs)) out reader = Some (msgs @ [(CT_CHANGE_CIPHER_SPEC, [1])], [], r)"
    "written (take 16 (client_mac km)) (base @ out) (enable_read_cipher MD5_ops (client_mac km) (client_key km) r) [] ?c2"
    using written_rekeyed [OF written_send [OF w handshake_types(2) c1], of "client_mac km" "client_key km"] by auto
  with written_send [OF written_field [OF o(2)] handshake_types(1) c'] show ?thesis by auto
qed

end

end
