(* ===== verification/Der_Roundtrip.thy ===== *)
theory Der_Roundtrip
  imports Der
begin

text \<open>
  The other direction of \<open>tls/der.hpp\<close>: a reference DER encoder, and the proof that the parser
  reads back what it writes, up to a certificate whose \<open>tbsCertificate\<close> holds a
  SubjectPublicKeyInfo somewhere behind fields of other shapes.
\<close>

unbundle bit_operations_syntax

section \<open>The reference encoder\<close>

fun be_bytes :: "nat \<Rightarrow> bytes" where
  "be_bytes n = (if n < 256 then [word_of_nat n] else be_bytes (n div 256) @ [word_of_nat (n mod 256)])"

declare be_bytes.simps [simp del]

definition der_length :: "nat \<Rightarrow> bytes" where
  "der_length n = (if n < 128 then [word_of_nat n]
                   else (let bs = be_bytes n in word_of_nat (128 + length bs) # bs))"

definition tlv :: "byte \<Rightarrow> bytes \<Rightarrow> bytes" where
  "tlv t c = t # der_length (length c) @ c"

lemma be_bytes_val: "be_val (be_bytes n) = n"
proof (induction n rule: be_bytes.induct)
  case (1 n)
  show ?case
  proof (cases "n < 256")
    case True
    then show ?thesis by (simp add: be_bytes.simps [of n] be_val_Cons unsigned_of_nat take_bit_eq_mod)
  next
    case False
    then show ?thesis
      using 1 by (simp add: be_bytes.simps [of n] be_val_snoc unsigned_of_nat take_bit_eq_mod)
  qed
qed

lemma be_bytes_length: "n < 256 ^ Suc k \<Longrightarrow> 1 \<le> length (be_bytes n) \<and> length (be_bytes n) \<le> Suc k"
proof (induction k arbitrary: n)
  case 0
  then show ?case by (simp add: be_bytes.simps [of n])
next
  case (Suc k)
  then have "n div 256 < 256 ^ Suc k" by (simp add: less_mult_imp_div_less)
  from Suc.IH [OF this] show ?case by (subst (1 2) be_bytes.simps) simp
qed

section \<open>Where bytes are\<close>

definition holds_at :: "bytes \<Rightarrow> nat \<Rightarrow> bytes \<Rightarrow> bool" where
  "holds_at buf p bs \<longleftrightarrow> p + length bs \<le> length buf \<and> take (length bs) (drop p buf) = bs"

lemma holds_at_append: "holds_at buf p (xs @ ys) \<longleftrightarrow> holds_at buf p xs \<and> holds_at buf (p + length xs) ys"
  by (auto simp: holds_at_def take_add add.commute append_eq_conv_conj min_absorb2)

lemma holds_at_Cons: "holds_at buf p (b # bs) \<longleftrightarrow> p < length buf \<and> buf ! p = b \<and> holds_at buf (Suc p) bs"
  by (cases "p < length buf") (auto simp: holds_at_def Cons_nth_drop_Suc [symmetric])

lemma holds_at_whole: "holds_at buf 0 buf"
  by (simp add: holds_at_def)

lemma or_byte: "push_bit 8 n OR unat (b :: byte) = 256 * n + unat b"
  using or_disjoint_add [of 8 "push_bit 8 n" "unat b"] byte_bound [of b]
  by (simp add: push_bit_eq_mult mult.commute)

lemma long_length_val:
  "holds_at buf p bs \<Longrightarrow> long_length buf p (length bs) n = Inr (n * 256 ^ length bs + be_val bs)"
proof (induction bs arbitrary: p n)
  case (Cons b bs)
  then have "p < length buf" "buf ! p = b" "holds_at buf (Suc p) bs" by (simp_all add: holds_at_Cons)
  then show ?case
    using Cons.IH by (simp add: or_byte be_val_Cons algebra_simps)
qed simp

lemma parse_length_der:
  assumes at: "holds_at buf p (der_length n)" and n: "n < 256 ^ 4" and l: "p + length (der_length n) \<le> limit"
  shows "parse_length buf p limit = Inr (n, p + length (der_length n))"
proof (cases "n < 128")
  case True
  have "word_of_nat n \<noteq> (0x80 :: byte)"
  proof
    assume "word_of_nat n = (0x80 :: byte)"
    then have "unat (word_of_nat n :: byte) = unat (0x80 :: byte)" by simp
    then show False using True by (simp add: unsigned_of_nat take_bit_eq_mod)
  qed
  moreover have "word_of_nat n AND (0x80 :: byte) = 0"
  proof -
    have "\<not> bit n 7" using True by (simp add: bit_iff_odd)
    then have "\<not> bit (word_of_nat n :: byte) 7" by (simp add: bit_of_nat_iff)
    then have "word_of_nat n AND (2 :: byte) ^ 7 = 0" by (simp only: and_exp_eq_0_iff_not_bit not_False_eq_True)
    then show ?thesis by simp
  qed
  ultimately show ?thesis
    using at True by (simp add: parse_length_def der_length_def holds_at_Cons Let_def
        unsigned_of_nat take_bit_eq_mod)
next
  case False
  let ?bs = "be_bytes n"
  have k: "1 \<le> length ?bs" "length ?bs \<le> 4" using be_bytes_length [of n 3] n by simp_all
  have len: "der_length n = word_of_nat (128 + length ?bs) # ?bs" using False by (simp add: der_length_def Let_def)
  have first: "word_of_nat (128 + k) \<noteq> (0x80 :: byte)" "word_of_nat (128 + k) AND (0x80 :: byte) \<noteq> 0"
    "unat (word_of_nat (128 + k) AND (0x7F :: byte)) = k" if "k \<in> {1, 2, 3, 4}" for k
    using that by auto
  have kk: "length ?bs \<in> {1, 2, 3, 4}" using k by auto
  note f = first [OF kk]
  have at': "p < length buf" "buf ! p = word_of_nat (128 + length ?bs)" "holds_at buf (Suc p) ?bs"
    using at by (simp_all add: len holds_at_Cons)
  have "long_length buf (Suc p) (length ?bs) 0 = Inr n"
    using long_length_val [OF at'(3), of 0] by (simp add: be_bytes_val)
  moreover have "\<not> limit - Suc p < length ?bs" "?bs \<noteq> []" using l k by (auto simp: len)
  ultimately show ?thesis
    using at' f k by (simp add: parse_length_def len Let_def)
qed

text \<open>\<open>denotes buf p e t c\<close>: \<open>e\<close> is the element of \<open>tlv t c\<close> that stands at \<open>p\<close>.\<close>

definition denotes :: "bytes \<Rightarrow> nat \<Rightarrow> element \<Rightarrow> byte \<Rightarrow> bytes \<Rightarrow> bool" where
  "denotes buf p e t c \<longleftrightarrow> tag e = t \<and> len e = length c \<and> end_ptr e = p + length (tlv t c) \<and>
     end_ptr e = content e + len e \<and> holds_at buf (content e) c"

lemma parse_tlv_der:
  assumes at: "holds_at buf p (tlv t c)" and t: "t AND 0x1F \<noteq> 0x1F" and c: "length c < 256 ^ 4"
    and l: "p + length (tlv t c) \<le> limit"
  shows "\<exists>e. parse_tlv buf p limit = Inr e \<and> denotes buf p e t c"
proof -
  let ?n = "length c"
  have parts: "p < length buf" "buf ! p = t" "holds_at buf (Suc p) (der_length ?n)"
    "holds_at buf (Suc p + length (der_length ?n)) c"
    using at by (simp_all add: tlv_def holds_at_Cons holds_at_append)
  have "1 \<le> length (der_length ?n)" by (simp add: der_length_def Let_def)
  moreover have lim: "Suc p + length (der_length ?n) + ?n \<le> limit" using l by (simp add: tlv_def)
  ultimately show ?thesis
    using parts t parse_length_der [OF parts(3) c, of limit]
    by (simp add: parse_tlv_def Let_def denotes_def tlv_def)
qed

lemma iter_next_der:
  assumes "holds_at buf (it_p it) (tlv t c)" and "t AND 0x1F \<noteq> 0x1F" and "length c < 256 ^ 4"
    and "it_p it + length (tlv t c) \<le> it_limit it"
  shows "\<exists>e. iter_next buf it = Inr (e, it\<lparr>it_p := it_p it + length (tlv t c)\<rparr>) \<and> denotes buf (it_p it) e t c"
proof -
  obtain e where e: "parse_tlv buf (it_p it) (it_limit it) = Inr e" "denotes buf (it_p it) e t c"
    using parse_tlv_der [OF assms] by blast
  moreover have "it_p it < it_limit it" using assms(4) by (simp add: tlv_def)
  ultimately show ?thesis by (auto simp: iter_next_def denotes_def)
qed

section \<open>Integers\<close>

fun magnitude :: "bytes \<Rightarrow> bytes" where
  "magnitude [] = []"
| "magnitude (b # bs) = (if bs \<noteq> [] \<and> b = 0 then magnitude bs else b # bs)"

lemma magnitude_val: "be_val (magnitude bs) = be_val bs"
  by (induction bs rule: magnitude.induct) (simp_all add: be_val_Cons)

lemma trim_der:
  "holds_at buf p bs \<Longrightarrow>
   \<exists>q. trim_leading_zeros buf p (length bs) = Inr (q, length (magnitude bs)) \<and> holds_at buf q (magnitude bs)"
proof (induction bs arbitrary: p rule: magnitude.induct)
  case (2 b bs)
  then have "p < length buf" "buf ! p = b" "holds_at buf (Suc p) bs" by (simp_all add: holds_at_Cons)
  then show ?case using 2 by (cases "bs = []") auto
qed simp

lemma exponent_val: "length ep \<le> 4 \<Longrightarrow> unat (exponent_of ep) = be_val ep"
proof (induction ep rule: rev_induct)
  case Nil
  then show ?case by (simp add: exponent_of_def)
next
  case (snoc b ep)
  let ?e = "exponent_of ep"
  have e: "unat ?e = be_val ep" using snoc by simp
  have "be_val ep < 256 ^ length ep" by (rule be_val_bound)
  also have "(256::nat) ^ length ep \<le> 256 ^ 3" using snoc.prems by (intro power_increasing) simp_all
  finally have small: "be_val ep < 16777216" by simp
  have p: "unat (push_bit 8 ?e) = push_bit 8 (be_val ep)"
    using small by (simp only: unsigned_push_bit_eq e) (simp add: take_bit_nat_eq_self push_bit_eq_mult)
  have b: "unat (ucast b :: u32) = unat b"
    using byte_bound [of b] by (simp add: unsigned_ucast_eq take_bit_nat_eq_self)
  have "exponent_of (ep @ [b]) = push_bit 8 ?e OR ucast b" by (simp add: exponent_of_def)
  then have "unat (exponent_of (ep @ [b])) = push_bit 8 (be_val ep) OR unat b"
    by (simp only: unsigned_or_eq p b)
  then show ?case by (simp only: or_byte be_val_snoc)
qed

text \<open>A modulus and an exponent the client accepts, as the contents of two INTEGERs.\<close>

definition acceptable_key :: "bytes \<Rightarrow> bytes \<Rightarrow> bool" where
  "acceptable_key nb eb \<longleftrightarrow> 64 \<le> length (magnitude nb) \<and> length (magnitude nb) \<le> 256 \<and>
     0 < be_val nb \<and> length (magnitude eb) \<le> 4 \<and> 3 \<le> be_val eb"

lemma key_from_integers_der:
  assumes ok: "acceptable_key nb eb" and n: "denotes buf p n_int TAG_INTEGER nb"
    and e: "denotes buf q e_int TAG_INTEGER eb"
  shows "\<exists>key. key_from_integers buf n_int e_int = Inr key \<and> limbs_val (key_n key) = be_val nb \<and>
    unat (key_e key) = be_val eb \<and> key_k key = length (magnitude nb)"
proof -
  obtain np where np: "trim_leading_zeros buf (content n_int) (len n_int) = Inr (np, length (magnitude nb))"
      "holds_at buf np (magnitude nb)"
    using trim_der [of buf "content n_int" nb] n by (auto simp: denotes_def)
  obtain ep where ep: "trim_leading_zeros buf (content e_int) (len e_int) = Inr (ep, length (magnitude eb))"
      "holds_at buf ep (magnitude eb)"
    using trim_der [of buf "content e_int" eb] e by (auto simp: denotes_def)
  have spans: "read_span buf np (length (magnitude nb)) = Inr (magnitude nb)"
    "read_span buf ep (length (magnitude eb)) = Inr (magnitude eb)"
    using np(2) ep(2) by (simp_all add: holds_at_def)
  have nlen: "magnitude nb \<noteq> []" using ok by (auto simp: acceptable_key_def)
  have elen: "magnitude eb \<noteq> []" using ok be_val_Nil magnitude_val [of eb] by (auto simp: acceptable_key_def)
  have "be_val nb < 256 ^ length (magnitude nb)"
    using be_val_bound [of "magnitude nb"] by (simp add: magnitude_val)
  also have "(256::nat) ^ length (magnitude nb) \<le> 256 ^ (4 * RSA_LIMBS)"
    using ok by (intro power_increasing) (simp_all add: acceptable_key_def RSA_LIMBS_def)
  finally have "from_bytes RSA_LIMBS (magnitude nb) \<noteq> None"
    using from_bytes_val(1) [of RSA_LIMBS "magnitude nb"] by (simp add: magnitude_val)
  then obtain v where v: "from_bytes RSA_LIMBS (magnitude nb) = Some v" by blast
  have vv: "limbs_val v = be_val nb" using from_bytes_val(2) [OF v] by (simp add: magnitude_val)
  have ee: "unat (exponent_of (magnitude eb)) = be_val eb"
    using exponent_val [of "magnitude eb"] ok by (simp add: acceptable_key_def magnitude_val)
  have "key_valid \<lparr>key_n = v, key_e = exponent_of (magnitude eb), key_k = length (magnitude nb)\<rparr>"
    using ok ee vv by (simp add: key_valid_def acceptable_key_def RSA_BYTES_def RSA_LIMBS_def
        limbs_zero_val word_le_nat_alt)
  then show ?thesis
    using np ep spans nlen elen v vv ee ok
    by (simp add: key_from_integers_def Let_def acceptable_key_def RSA_BYTES_def RSA_LIMBS_def)
qed

section \<open>SubjectPublicKeyInfo and certificate\<close>

definition rsa_key_der :: "bytes \<Rightarrow> bytes \<Rightarrow> bytes" where
  "rsa_key_der nb eb = tlv TAG_SEQUENCE (tlv TAG_INTEGER nb @ tlv TAG_INTEGER eb)"

definition spki_content :: "bytes \<Rightarrow> bytes \<Rightarrow> bytes \<Rightarrow> bytes" where
  "spki_content params nb eb =
     tlv TAG_SEQUENCE (tlv TAG_OID OID_RSA_ENCRYPTION @ params) @
     tlv TAG_BIT_STRING (0x00 # rsa_key_der nb eb)"

lemma tags_low: "TAG_INTEGER AND 0x1F \<noteq> 0x1F" "TAG_BIT_STRING AND 0x1F \<noteq> 0x1F"
  "TAG_OID AND 0x1F \<noteq> 0x1F" "TAG_SEQUENCE AND 0x1F \<noteq> 0x1F"
  by (simp_all add: TAG_INTEGER_def TAG_BIT_STRING_def TAG_OID_def TAG_SEQUENCE_def)

lemma tags_distinct: "TAG_SEQUENCE \<noteq> TAG_INTEGER" "TAG_SEQUENCE \<noteq> TAG_BIT_STRING" "TAG_SEQUENCE \<noteq> TAG_OID"
  by (simp_all add: TAG_INTEGER_def TAG_BIT_STRING_def TAG_OID_def TAG_SEQUENCE_def)

lemma length_tlv_ge: "length c \<le> length (tlv t c)"
  by (simp add: tlv_def)

text \<open>The first and the following child of an element.\<close>

lemma denotes_iter:
  assumes "denotes buf p e t c"
  shows "it_p (iter_of e) = content e" "it_limit (iter_of e) = end_ptr e" "holds_at buf (content e) c"
    "end_ptr e = content e + length c" "tag e = t" "len e = length c"
  using assms by (simp_all add: denotes_def iter_of_def)

lemma first_child:
  assumes d: "denotes buf p e t (tlv t1 c1 @ rest)" and t: "t1 AND 0x1F \<noteq> 0x1F" and l: "length c1 < 256 ^ 4"
  shows "\<exists>e1. iter_next buf (iter_of e) =
      Inr (e1, \<lparr>it_p = content e + length (tlv t1 c1), it_limit = content e + length (tlv t1 c1) + length rest\<rparr>) \<and>
    denotes buf (content e) e1 t1 c1 \<and> holds_at buf (content e + length (tlv t1 c1)) rest"
  using iter_next_der [of buf "iter_of e" t1 c1] t l denotes_iter [OF d]
  by (auto simp: holds_at_append iter_of_def add.assoc)

lemma next_child:
  assumes "holds_at buf p (tlv t1 c1 @ rest)" and t: "t1 AND 0x1F \<noteq> 0x1F" and l: "length c1 < 256 ^ 4"
  shows "\<exists>e1. iter_next buf \<lparr>it_p = p, it_limit = p + length (tlv t1 c1 @ rest)\<rparr> =
      Inr (e1, \<lparr>it_p = p + length (tlv t1 c1), it_limit = p + length (tlv t1 c1) + length rest\<rparr>) \<and>
    denotes buf p e1 t1 c1 \<and> holds_at buf (p + length (tlv t1 c1)) rest"
  using iter_next_der [of buf "\<lparr>it_p = p, it_limit = p + length (tlv t1 c1 @ rest)\<rparr>" t1 c1] assms
  by (auto simp: holds_at_append add.assoc)

lemma is_oid_der: "denotes buf p e TAG_OID oid \<Longrightarrow> is_oid buf e oid = Inr True"
  by (auto simp: denotes_def is_oid_def holds_at_def)

lemma parse_spki_der:
  assumes ok: "acceptable_key nb eb" and d: "denotes buf p spki TAG_SEQUENCE (spki_content params nb eb)"
    and small: "length (spki_content params nb eb) < 256 ^ 4"
  shows "\<exists>key. parse_spki_rsa buf spki = Inr key \<and> limbs_val (key_n key) = be_val nb \<and>
    unat (key_e key) = be_val eb \<and> key_k key = length (magnitude nb)"
proof -
  let ?algc = "tlv TAG_OID OID_RSA_ENCRYPTION @ params"
  let ?ints = "tlv TAG_INTEGER nb @ tlv TAG_INTEGER eb"
  have sizes: "length ?algc < 256 ^ 4" "length (0x00 # rsa_key_der nb eb) < 256 ^ 4"
    "length ?ints < 256 ^ 4" "length nb < 256 ^ 4" "length eb < 256 ^ 4"
    using small length_tlv_ge [of ?algc TAG_SEQUENCE] length_tlv_ge [of "0x00 # rsa_key_der nb eb" TAG_BIT_STRING]
      length_tlv_ge [of ?ints TAG_SEQUENCE] length_tlv_ge [of nb TAG_INTEGER] length_tlv_ge [of eb TAG_INTEGER]
    by (simp_all add: spki_content_def rsa_key_der_def)
  have oid_size: "length OID_RSA_ENCRYPTION < 256 ^ 4" by (simp add: OID_RSA_ENCRYPTION_def)
  obtain alg it where alg: "iter_next buf (iter_of spki) = Inr (alg, it)" "denotes buf (content spki) alg TAG_SEQUENCE ?algc"
    and it: "it = \<lparr>it_p = content spki + length (tlv TAG_SEQUENCE ?algc),
        it_limit = content spki + length (tlv TAG_SEQUENCE ?algc) + length (tlv TAG_BIT_STRING (0x00 # rsa_key_der nb eb))\<rparr>"
      "holds_at buf (content spki + length (tlv TAG_SEQUENCE ?algc)) (tlv TAG_BIT_STRING (0x00 # rsa_key_der nb eb))"
    using first_child [OF d [unfolded spki_content_def] tags_low(4) sizes(1)] by blast
  obtain oid oit where oid: "iter_next buf (iter_of alg) = Inr (oid, oit)" "denotes buf (content alg) oid TAG_OID OID_RSA_ENCRYPTION"
    using first_child [OF alg(2) tags_low(3) oid_size] by blast
  obtain bits bit_it where bits: "iter_next buf it = Inr (bits, bit_it)"
      "denotes buf (it_p it) bits TAG_BIT_STRING (0x00 # rsa_key_der nb eb)"
    using iter_next_der [of buf it TAG_BIT_STRING "0x00 # rsa_key_der nb eb"] it tags_low(2) sizes(2) by auto
  note b = denotes_iter [OF bits(2)]
  have b0: "content bits < length buf" "buf ! content bits = 0x00" "holds_at buf (content bits + 1) (rsa_key_der nb eb)"
    using b(3) by (simp_all add: holds_at_Cons)
  have l2: "\<not> len bits < 2" using b(6) by (simp add: rsa_key_der_def tlv_def)
  obtain rsa where rsa: "parse_tlv buf (content bits + 1) (end_ptr bits) = Inr rsa"
      "denotes buf (content bits + 1) rsa TAG_SEQUENCE ?ints"
    using parse_tlv_der [OF b0(3) [unfolded rsa_key_der_def] tags_low(4) sizes(3), of "end_ptr bits"] b(4)
    by (auto simp: rsa_key_der_def)
  obtain n_int rit where n: "iter_next buf (iter_of rsa) = Inr (n_int, rit)" "denotes buf (content rsa) n_int TAG_INTEGER nb"
    and rit: "rit = \<lparr>it_p = content rsa + length (tlv TAG_INTEGER nb),
        it_limit = content rsa + length (tlv TAG_INTEGER nb) + length (tlv TAG_INTEGER eb)\<rparr>"
      "holds_at buf (content rsa + length (tlv TAG_INTEGER nb)) (tlv TAG_INTEGER eb)"
    using first_child [OF rsa(2) tags_low(1) sizes(4)] by blast
  obtain e_int eit where e: "iter_next buf rit = Inr (e_int, eit)" "denotes buf (it_p rit) e_int TAG_INTEGER eb"
    using iter_next_der [of buf rit TAG_INTEGER eb] rit tags_low(1) sizes(5) by auto
  have "parse_spki_rsa buf spki = key_from_integers buf n_int e_int"
    using alg oid bits rsa n e b0 l2 denotes_iter(5) [OF d] denotes_iter(5) [OF alg(2)] denotes_iter(5) [OF bits(2)]
      denotes_iter(5) [OF rsa(2)] denotes_iter(5) [OF n(2)] denotes_iter(5) [OF e(2)] is_oid_der [OF oid(2)]
    by (simp add: parse_spki_rsa_def)
  then show ?thesis using key_from_integers_der [OF ok n(2) e(2)] by simp
qed

text \<open>
  A field of \<open>tbsCertificate\<close> that cannot be taken for the key: not a SEQUENCE, or a SEQUENCE
  whose first component is not one. The version, the serial number, the signature algorithm, the
  names and the validity all have this shape.
\<close>

definition other_field :: "byte \<times> bytes \<Rightarrow> bool" where
  "other_field f \<longleftrightarrow> fst f AND 0x1F \<noteq> 0x1F \<and> length (snd f) < 256 ^ 4 \<and>
     (fst f \<noteq> TAG_SEQUENCE \<or>
      (\<exists>t c rest. snd f = tlv t c @ rest \<and> t \<noteq> TAG_SEQUENCE \<and> t AND 0x1F \<noteq> 0x1F \<and> length c < 256 ^ 4))"

lemma other_field_rejected:
  assumes f: "other_field (t, c)" and d: "denotes buf p e t c" and t: "t = TAG_SEQUENCE"
  shows "parse_spki_rsa buf e = Inl Rejected"
proof -
  obtain t1 c1 rest where c: "c = tlv t1 c1 @ rest" "t1 \<noteq> TAG_SEQUENCE" "t1 AND 0x1F \<noteq> 0x1F" "length c1 < 256 ^ 4"
    using f t by (auto simp: other_field_def)
  obtain e1 it where "iter_next buf (iter_of e) = Inr (e1, it)" "denotes buf (content e) e1 t1 c1"
    using first_child [OF d [unfolded c(1)] c(3,4)] by blast
  with c(2) denotes_iter(5) [OF d] t show ?thesis by (simp add: parse_spki_rsa_def denotes_def)
qed

definition fields_der :: "(byte \<times> bytes) list \<Rightarrow> bytes" where
  "fields_der fs = concat (map (\<lambda>(t, c). tlv t c) fs)"

lemma scan_tbs_der:
  "list_all other_field fs \<Longrightarrow> acceptable_key nb eb \<Longrightarrow> length (spki_content params nb eb) < 256 ^ 4 \<Longrightarrow>
   holds_at buf p (fields_der fs @ tlv TAG_SEQUENCE (spki_content params nb eb) @ rest) \<Longrightarrow>
   \<exists>key. scan_tbs buf \<lparr>it_p = p, it_limit = p + length (fields_der fs @ tlv TAG_SEQUENCE (spki_content params nb eb) @ rest)\<rparr>
       = Inr key \<and> limbs_val (key_n key) = be_val nb \<and> unat (key_e key) = be_val eb \<and>
     key_k key = length (magnitude nb)"
proof (induction fs arbitrary: p)
  case Nil
  then have at: "holds_at buf p (tlv TAG_SEQUENCE (spki_content params nb eb) @ rest)" by (simp add: fields_der_def)
  obtain e it where e: "iter_next buf \<lparr>it_p = p, it_limit = p + length (tlv TAG_SEQUENCE (spki_content params nb eb) @ rest)\<rparr> = Inr (e, it)"
      "denotes buf p e TAG_SEQUENCE (spki_content params nb eb)"
    using next_child [OF at tags_low(4) Nil.prems(3)] by blast
  obtain key where key: "parse_spki_rsa buf e = Inr key" "limbs_val (key_n key) = be_val nb" "unat (key_e key) = be_val eb"
      "key_k key = length (magnitude nb)"
    using parse_spki_der [OF Nil.prems(2) e(2) Nil.prems(3)] by blast
  then show ?case
    using e(1) denotes_iter(5) [OF e(2)] by (subst scan_tbs.simps) (simp add: fields_der_def)
next
  case (Cons f fs)
  obtain t c where f: "f = (t, c)" by (cases f)
  let ?more = "fields_der fs @ tlv TAG_SEQUENCE (spki_content params nb eb) @ rest"
  have whole: "fields_der (f # fs) @ tlv TAG_SEQUENCE (spki_content params nb eb) @ rest = tlv t c @ ?more"
    by (simp add: fields_der_def f)
  have shape: "other_field (t, c)" "t AND 0x1F \<noteq> 0x1F" "length c < 256 ^ 4"
    using Cons.prems(1) by (auto simp: f other_field_def)
  have at: "holds_at buf p (tlv t c @ ?more)" using Cons.prems(4) by (simp only: whole)
  obtain e where e: "iter_next buf \<lparr>it_p = p, it_limit = p + length (tlv t c @ ?more)\<rparr> =
      Inr (e, \<lparr>it_p = p + length (tlv t c), it_limit = p + length (tlv t c) + length ?more\<rparr>)"
    and d: "denotes buf p e t c" and more: "holds_at buf (p + length (tlv t c)) ?more"
    using next_child [OF at shape(2,3)] by blast
  have "scan_tbs buf \<lparr>it_p = p, it_limit = p + length (tlv t c @ ?more)\<rparr> =
      scan_tbs buf \<lparr>it_p = p + length (tlv t c), it_limit = p + length (tlv t c) + length ?more\<rparr>"
    using e denotes_iter(5) [OF d] other_field_rejected [OF shape(1) d]
    by (subst scan_tbs.simps) (simp del: length_append)
  then show ?case
    using Cons.IH [OF _ Cons.prems(2,3) more] Cons.prems(1) unfolding whole by simp
qed

definition certificate_der :: "(byte \<times> bytes) list \<Rightarrow> bytes \<Rightarrow> bytes \<Rightarrow> bytes \<Rightarrow> bytes \<Rightarrow> bytes \<Rightarrow> bytes" where
  "certificate_der fs params nb eb later sig =
     tlv TAG_SEQUENCE (tlv TAG_SEQUENCE
       (fields_der fs @ tlv TAG_SEQUENCE (spki_content params nb eb) @ later) @ sig)"

lemma parse_certificate_der:
  assumes fs: "list_all other_field fs" and ok: "acceptable_key nb eb"
    and small: "length (certificate_der fs params nb eb later sig) < 256 ^ 4"
  shows "\<exists>key. parse_certificate_rsa_key (certificate_der fs params nb eb later sig) = Inr key \<and>
    limbs_val (key_n key) = be_val nb \<and> unat (key_e key) = be_val eb \<and> key_k key = length (magnitude nb)"
proof -
  let ?spki = "spki_content params nb eb"
  let ?tbs = "fields_der fs @ tlv TAG_SEQUENCE ?spki @ later"
  let ?top = "tlv TAG_SEQUENCE ?tbs @ sig"
  let ?cert = "certificate_der fs params nb eb later sig"
  have cert: "?cert = tlv TAG_SEQUENCE ?top" by (simp add: certificate_der_def)
  have sizes: "length ?top < 256 ^ 4" "length ?tbs < 256 ^ 4" "length ?spki < 256 ^ 4"
    using small length_tlv_ge [of ?top TAG_SEQUENCE] length_tlv_ge [of ?tbs TAG_SEQUENCE]
      length_tlv_ge [of ?spki TAG_SEQUENCE]
    unfolding cert by simp_all
  obtain top where top: "parse_tlv ?cert 0 (length ?cert) = Inr top" "denotes ?cert 0 top TAG_SEQUENCE ?top"
    using parse_tlv_der [of ?cert 0 TAG_SEQUENCE ?top "length ?cert"] holds_at_whole [of ?cert]
      tags_low(4) sizes(1) by (auto simp: cert)
  obtain tbs it where tbs: "iter_next ?cert (iter_of top) = Inr (tbs, it)" "denotes ?cert (content top) tbs TAG_SEQUENCE ?tbs"
    using first_child [OF top(2) tags_low(4) sizes(2)] by blast
  note d = denotes_iter [OF tbs(2)]
  have it: "iter_of tbs = \<lparr>it_p = content tbs, it_limit = content tbs + length ?tbs\<rparr>"
    using d(6) by (simp add: iter_of_def)
  obtain key where key: "scan_tbs ?cert (iter_of tbs) = Inr key" "limbs_val (key_n key) = be_val nb"
      "unat (key_e key) = be_val eb" "key_k key = length (magnitude nb)"
    using scan_tbs_der [OF fs ok sizes(3) d(3)] unfolding it by blast
  have "?cert \<noteq> []" by (simp add: cert tlv_def)
  then show ?thesis
    using top(1) tbs(1) key denotes_iter(5) [OF top(2)] d(5)
    by (simp add: parse_certificate_rsa_key_def)
qed

section \<open>Properties\<close>

text \<open>C38: for any acceptable modulus and exponent (64 to 256 significant modulus bytes, exponent of at most four bytes and at least 3, both with any leading zeros) and any DER certificate that holds them behind fields of other shapes, the parser returns exactly that key.\<close>

theorem certificate_round_trip:
  assumes "list_all other_field fs" and "acceptable_key nb eb"
    and "length (certificate_der fs params nb eb later sig) < 256 ^ 4"
  shows "\<exists>key. parse_certificate_rsa_key (certificate_der fs params nb eb later sig) = Inr key \<and>
    limbs_val (key_n key) = be_val nb \<and> unat (key_e key) = be_val eb \<and> key_k key = length (magnitude nb)"
  using assms by (rule parse_certificate_der)

text \<open>A 512-bit key \<open>256 ^ 63 * 128 + 1\<close> with exponent 65537, behind a serial number and a validity.\<close>

definition sample_modulus :: bytes where
  "sample_modulus = 0 # 128 # replicate 62 0 @ [1]"

definition sample_certificate :: bytes where
  "sample_certificate = certificate_der [(0x02, [7]), (0x30, [0x17, 0x01, 0x41])] [0x05, 0x00] sample_modulus [1, 0, 1] [] [0x03, 0x01, 0x00]"

lemma sample_facts:
  "list_all other_field [(0x02, [7]), (0x30, [0x17, 0x01, 0x41])]"
  "acceptable_key sample_modulus [1, 0, 1]"
  "length sample_certificate < 256 ^ 4"
proof -
  have "\<exists>t c rest. [0x17, 0x01, 0x41] = tlv t c @ rest \<and> t \<noteq> TAG_SEQUENCE \<and> t AND 0x1F \<noteq> 0x1F \<and> length c < 256 ^ 4"
    by (intro exI [where x = "0x17"] exI [where x = "[0x41]"] exI [where x = "[]"])
      (simp add: tlv_def der_length_def TAG_SEQUENCE_def)
  then show "list_all other_field [(0x02, [7]), (0x30, [0x17, 0x01, 0x41])]"
    by (simp add: other_field_def TAG_SEQUENCE_def)
  have "magnitude sample_modulus = 128 # replicate 62 0 @ [1]" by (simp add: sample_modulus_def)
  moreover have "0 < be_val sample_modulus" by (simp add: sample_modulus_def be_val_Cons be_val_append)
  ultimately show "acceptable_key sample_modulus [1, 0, 1]"
    by (simp add: acceptable_key_def be_val_Cons)
  show "length sample_certificate < 256 ^ 4"
    by (simp add: sample_certificate_def certificate_der_def fields_der_def spki_content_def rsa_key_der_def
        sample_modulus_def tlv_def der_length_def be_bytes.simps OID_RSA_ENCRYPTION_def Let_def)
qed

lemma certificate_round_trip_witness:
  "\<exists>key. parse_certificate_rsa_key sample_certificate = Inr key \<and> unat (key_e key) = 65537 \<and> key_k key = 64"
proof -
  note t = certificate_round_trip [OF sample_facts(1,2) sample_facts(3) [unfolded sample_certificate_def],
      folded sample_certificate_def]
  moreover have "length (magnitude sample_modulus) = 64" by (simp add: sample_modulus_def)
  moreover have "be_val [1, 0, 1] = 65537" by (simp add: be_val_Cons)
  ultimately show ?thesis by (auto simp: sample_certificate_def)
qed

text \<open>Whatever certificate a key came from, the public operation on it is \<open>m ^ e mod n\<close> for every input of up to 256 bytes, and the result has exactly the byte length of the modulus.\<close>

theorem certificate_key_encrypts:
  assumes "parse_certificate_rsa_key cert = Inr key" and "length inp \<le> 256"
  shows "\<exists>out. rsa_public_op key inp = Some out \<and> length out = key_k key \<and>
    be_val out = be_val inp ^ unat (key_e key) mod limbs_val (key_n key)"
proof -
  have u: "key_usable key" using assms(1) by (rule parse_certificate_usable)
  have "be_val inp < 256 ^ length inp" by (rule be_val_bound)
  also have "\<dots> \<le> 256 ^ RSA_BYTES"
    using assms(2) by (intro power_increasing) (simp_all add: RSA_BYTES_def RSA_LIMBS_def)
  finally have "be_val inp < 256 ^ RSA_BYTES" .
  with u show ?thesis unfolding key_usable_def by (intro rsa_public_op_val) auto
qed

lemma certificate_key_encrypts_witness:
  "\<exists>key out. parse_certificate_rsa_key sample_certificate = Inr key \<and> rsa_public_op key [2] = Some out \<and> length out = 64"
proof -
  have "\<exists>key. parse_certificate_rsa_key sample_certificate = Inr key \<and>
      limbs_val (key_n key) = be_val sample_modulus \<and> unat (key_e key) = be_val [1, 0, 1] \<and>
      key_k key = length (magnitude sample_modulus)"
    unfolding sample_certificate_def
    by (rule parse_certificate_der [OF sample_facts(1,2) sample_facts(3) [unfolded sample_certificate_def]])
  then obtain key where key: "parse_certificate_rsa_key sample_certificate = Inr key"
    and k: "key_k key = length (magnitude sample_modulus)" by blast
  have "key_k key = 64" unfolding k by (simp add: sample_modulus_def)
  with certificate_key_encrypts [OF key, of "[2]"] key show ?thesis by auto
qed

end
