(* ===== verification/Client_Complete.thy ===== *)
theory Client_Complete
  imports Client_Written Der_Roundtrip
begin

text \<open>
  The handshake of \<open>tls/client.hpp\<close> against a server that follows RFC 2246. The server's records are
  made by the record layer model itself; the client completes whatever the chunk size of the
  transport. This is the other half of what a completed handshake guarantees: the guarantee is not
  vacuous, and the checks refuse no honest server of this kind.
\<close>

unbundle bit_operations_syntax

section \<open>One step of the client at a time\<close>

lemma andthen_run: "m c = (Got x, c1) \<Longrightarrow> andthen m f c = f x c1"
  by (simp add: andthen_def)

lemma parse_handshake_Nil [simp]: "parse_handshake [] = None"
  by (simp add: parse_handshake_def)

section \<open>Sizes\<close>

lemma length_frame [simp]: "length (frame type body) = HANDSHAKE_HEADER_LEN + length body"
  by (simp add: frame_def HANDSHAKE_HEADER_LEN_def)

lemma draw_sizes:
  assumes "rng_fills rng"
  shows "make_client_random rng gmt r = (Some cr, r') \<Longrightarrow> length cr = 32"
    and "make_premaster rng v r = (Some pm, r') \<Longrightarrow> length pm = 48"
  using assms
  by (auto simp: make_client_random_def make_premaster_def secure_random_def rng_fills_def RANDOM_LEN_def
      PREMASTER_LEN_def put16_def Let_def split: prod.splits if_splits) (metis fst_conv)+

lemma public_op_short:
  assumes key: "key_usable key" and out: "rsa_public_op key inp = Some out"
  shows "length out \<le> 256"
proof -
  obtain m where m: "from_bytes RSA_LIMBS inp = Some m"
    using out by (auto simp: rsa_public_op_def split: if_splits option.splits)
  then have "be_val inp < 256 ^ RSA_BYTES"
    using from_bytes_val(1) [of RSA_LIMBS inp] by (auto simp: RSA_BYTES_def not_le [symmetric])
  with key out show ?thesis
    using rsa_public_op_val [of key inp] by (auto simp: key_usable_def key_valid_def RSA_BYTES_def RSA_LIMBS_def)
qed

lemma key_exchange_short:
  assumes key: "key_usable key" and drawn: "build_client_key_exchange rng fuel key pm r = (Drawn cke, r')"
  shows "length cke \<le> MAX_PLAINTEXT"
proof -
  obtain out r1 where e: "rsa_encrypt_pkcs1v15 rng fuel key (take PREMASTER_LEN pm) r = (Drawn out, r1)"
    and cke: "length cke = HANDSHAKE_HEADER_LEN + 2 + length out"
    using drawn by (auto simp: build_client_key_exchange_def split: prod.splits drawn.splits)
  obtain em where "rsa_public_op key em = Some out"
    using e by (auto simp: rsa_encrypt_pkcs1v15_def split: prod.splits drawn.splits option.splits if_splits)
  from public_op_short [OF key this] cke show ?thesis
    by (simp add: MAX_PLAINTEXT_def HANDSHAKE_HEADER_LEN_def)
qed

context byte_stream
begin

text \<open>
  \<open>expects key w rest c\<close>: \<open>c\<close> stands between two records, \<open>rest\<close> is to come, and the peer's layer \<open>w\<close> is
  in step with it. \<open>moved c c'\<close>: only the transport, the buffer and the record layer differ.
\<close>

definition expects :: "bytes \<Rightarrow> hash_ctx record_layer \<Rightarrow> bytes \<Rightarrow> ('t, 'r) client \<Rightarrow> bool" where
  "expects key w rest c \<longleftrightarrow> inv (sock c) \<and> hs c = [] \<and> stream c = rest \<and> hmac_md5.in_step key w (rec_layer c)"

definition moved :: "('t, 'r) client \<Rightarrow> ('t, 'r) client \<Rightarrow> bool" where
  "moved c c' \<longleftrightarrow> (\<exists>s x l. c' = c\<lparr>sock := s, rx := x, rec_layer := l\<rparr>)"

lemma moved_layer: "moved c (c\<lparr>rec_layer := l, sock := s\<rparr>)"
  unfolding moved_def by (intro exI [of _ s] exI [of _ "rx c"] exI [of _ l]) simp

lemma movedE: "moved c c' \<Longrightarrow> (\<And>s x l. c' = c\<lparr>sock := s, rx := x, rec_layer := l\<rparr> \<Longrightarrow> P) \<Longrightarrow> P"
  unfolding moved_def by blast

lemma movedI: "d = c\<lparr>sock := sock d, rx := rx d, rec_layer := rec_layer d\<rparr> \<Longrightarrow> moved c d"
  unfolding moved_def by blast

lemma moved_fields:
  "moved c c' \<Longrightarrow> opt_version c' = opt_version c \<and> opt_gmt c' = opt_gmt c \<and> rand c' = rand c \<and> tr c' = tr c \<and>
     peer_key c' = peer_key c \<and> hs c' = hs c"
  by (auto simp: moved_def)

lemma expects_field:
  "expects key w rest c \<Longrightarrow> sock (f c) = sock c \<Longrightarrow> rx (f c) = rx c \<Longrightarrow> hs (f c) = hs c \<Longrightarrow>
     rec_layer (f c) = rec_layer c \<Longrightarrow> expects key w rest (f c)"
  by (simp add: expects_def stream_def)

lemma read_next:
  assumes c: "expects key w (out @ rest) c" and sent: "protect MD5_ops type data w = (Some out, w')"
    and type: "is_valid_content_type type"
  shows "\<exists>h c'. read_record TP c = (Got (h, data), c') \<and> rh_type h = type \<and> expects key w' rest c' \<and> moved c c'"
proof -
  have i: "inv (sock c)" and st: "stream c = out @ rest" and step: "hmac_md5.in_step key w (rec_layer c)" and "hs c = []"
    using c by (simp_all add: expects_def)
  obtain h r' where o: "record_of (out @ rest) (rec_layer c) = (Got (h, data), rest, r', False)" "rh_type h = type"
    "hmac_md5.in_step key w' r'"
    using record_of_protected [OF step sent type] by blast
  with read_record_result [OF i] st obtain s x where "inv s" "x @ pending s = rest"
    "read_record TP c = (Got (h, data), c\<lparr>sock := s, rx := x, rec_layer := r', eof := eof c\<rparr>)"
    by auto
  with o \<open>hs c = []\<close> show ?thesis
    by (intro exI [of _ h] exI [of _ "c\<lparr>sock := s, rx := x, rec_layer := r'\<rparr>"])
      (auto simp: expects_def stream_def moved_def intro: exI [of _ s])
qed

lemma send_next:
  assumes c: "expects key w rest c" and small: "length data \<le> MAX_PLAINTEXT"
  shows "\<exists>c'. send_record TP type data c = (Got (), c') \<and> expects key w rest c' \<and> moved c c'"
proof -
  obtain out l where p: "protect MD5_ops type data (rec_layer c) = (Some out, l)" using protect_succeeds [OF small] by blast
  then have l: "read_rc4 l = read_rc4 (rec_layer c)" "read_seq l = read_seq (rec_layer c)" "read_mac l = read_mac (rec_layer c)"
    by (auto simp: protect_def Let_def split: if_splits option.splits prod.splits)
  obtain s where "tp_send TP out (sock c) = (True, s)" "inv s" "pending s = pending (sock c)"
    using send_law [of "sock c" out] c by (auto simp: expects_def)
  with p l c have "send_record TP type data c = (Got (), c\<lparr>rec_layer := l, sock := s\<rparr>)"
    "expects key w rest (c\<lparr>rec_layer := l, sock := s\<rparr>)"
    by (auto simp: send_record_def expects_def stream_def hmac_md5.in_step_def)
  then show ?thesis using moved_layer by blast
qed

text \<open>A record that carries exactly one handshake message.\<close>

lemma next_message:
  assumes c: "expects key w (out @ rest) c" and sent: "protect MD5_ops CT_HANDSHAKE (frame type body) w = (Some out, w')"
    and small: "length body < 16777216" and fuel: "0 < fuel"
  shows "\<exists>m c'. next_handshake TP fuel c = (Got (frame type body, m), c') \<and> hm_type m = type \<and> hm_body m = body \<and>
    expects key w' rest c' \<and> moved c c'"
proof -
  obtain n where n: "fuel = Suc n" using fuel by (cases fuel) auto
  have v: "is_valid_content_type CT_HANDSHAKE" "CT_HANDSHAKE \<noteq> CT_ALERT"
    by (simp_all add: is_valid_content_type_def CT_HANDSHAKE_def CT_ALERT_def)
  obtain h c1 where r: "read_record TP c = (Got (h, frame type body), c1)" "rh_type h = CT_HANDSHAKE"
    "expects key w' rest c1" "moved c c1"
    using read_next [OF c sent v(1)] by blast
  have hs: "hs c = []" "hs c1 = []" using c r(3) by (simp_all add: expects_def)
  define m where "m = \<lparr>hm_type = type, hm_body = body, hm_total = HANDSHAKE_HEADER_LEN + length body\<rparr>"
  have pm: "parse_handshake (frame type body) = Some m"
    using parse_frame [OF small, of type "[]"] by (simp add: m_def)
  have "next_handshake TP fuel c = next_handshake TP n (c1\<lparr>hs := frame type body\<rparr>)"
    using r hs v by (simp add: n next_handshake.simps [of TP "Suc n" c] andthen_def updates_def)
  also have "\<dots> = (Got (frame type body, m), c1)"
    using pm hs by (simp add: next_handshake.simps [of TP n] m_def)
  finally show ?thesis
    using r(3,4) by (intro exI [of _ m] exI [of _ c1]) (simp add: m_def)
qed


section \<open>The steps of the handshake\<close>

lemma hello_step:
  fixes rng :: "'r rng"
  assumes c: "expects key w rest c" and cr: "make_client_random rng (opt_gmt c) (rand c) = (Some cr, r1)" "length cr = 32"
  shows "\<exists>c'. send_client_hello TP rng c = (Got cr, c') \<and> expects key w rest c' \<and>
    moved (c\<lparr>rand := r1, tr := transcript_update (build_client_hello (opt_version c) cr [TLS_RSA_WITH_RC4_128_MD5]) (tr c)\<rparr>) c'"
proof -
  let ?ch = "build_client_hello (opt_version c) cr [TLS_RSA_WITH_RC4_128_MD5]"
  let ?c1 = "c\<lparr>rand := r1, tr := transcript_update ?ch (tr c)\<rparr>"
  have "expects key w rest ?c1" by (rule expects_field [OF c]) simp_all
  moreover have "length ?ch \<le> MAX_PLAINTEXT"
    by (simp add: build_client_hello_def cr RANDOM_LEN_def HANDSHAKE_HEADER_LEN_def MAX_PLAINTEXT_def put16_def)
  ultimately obtain c' where "send_record TP CT_HANDSHAKE ?ch ?c1 = (Got (), c')" "expects key w rest c'" "moved ?c1 c'"
    using send_next by blast
  then show ?thesis
    by (intro exI [of _ c'])
      (simp add: send_client_hello_def andthen_def draws_def cr absorb_def updates_def returns_def Let_def)
qed

lemma expect_next:
  assumes c: "expects key w (out @ rest) c" and sent: "protect MD5_ops CT_HANDSHAKE (frame type body) w = (Some out, w')"
    and small: "length body < 16777216" and fuel: "0 < fuel"
  shows "\<exists>m c'. expect_message TP fuel type name c = (Got (frame type body, m), c') \<and> hm_body m = body \<and>
    expects key w' rest c' \<and> moved c c'"
proof -
  obtain m c' where "next_handshake TP fuel c = (Got (frame type body, m), c')" "hm_type m = type" "hm_body m = body"
    "expects key w' rest c'" "moved c c'"
    using next_message [OF assms] by blast
  then show ?thesis by (auto simp: expect_message_def andthen_def returns_def)
qed

lemma moved_over:
  "moved c c' \<Longrightarrow> moved (c\<lparr>tr := t\<rparr>) (c'\<lparr>tr := t\<rparr>)"
  "moved c c' \<Longrightarrow> moved (c\<lparr>tr := t, suite := k\<rparr>) (c'\<lparr>tr := t, suite := k\<rparr>)"
  "moved c c' \<Longrightarrow> moved (c\<lparr>tr := t, server_cert := x, peer_key := y\<rparr>) (c'\<lparr>tr := t, server_cert := x, peer_key := y\<rparr>)"
  by (rule movedI; elim movedE; simp)+

lemma server_hello_step:
  assumes c: "expects key w (out @ rest) c"
    and sent: "protect MD5_ops CT_HANDSHAKE (frame HT_SERVER_HELLO (server_hello_body sh)) w = (Some out, w')"
    and sizes: "length (sh_random sh) = 32" "length (sh_session_id sh) \<le> 32"
    and chosen: "sh_version sh = opt_version c" "sh_cipher_suite sh = TLS_RSA_WITH_RC4_128_MD5" "sh_compression sh = 0"
    and fuel: "0 < fuel"
  shows "\<exists>c'. receive_server_hello TP fuel c = (Got (sh_random sh), c') \<and> expects key w' rest c' \<and>
    moved (c\<lparr>tr := transcript_update (frame HT_SERVER_HELLO (server_hello_body sh)) (tr c), suite := sh_cipher_suite sh\<rparr>) c'"
proof -
  let ?m = "frame HT_SERVER_HELLO (server_hello_body sh)"
  have "length (server_hello_body sh) < 16777216" using sizes by (simp add: server_hello_body_def put16_def)
  then obtain m c1 where m: "expect_message TP fuel HT_SERVER_HELLO ''ServerHello'' c = (Got (?m, m), c1)"
    "hm_body m = server_hello_body sh" "expects key w' rest c1" "moved c c1"
    using expect_next [OF c sent _ fuel] by blast
  have f: "opt_version c1 = opt_version c" "tr c1 = tr c" using moved_fields [OF m(4)] by auto
  have "parse_server_hello (server_hello_body sh) = Some sh"
    using parse_server_hello_body [OF sizes, of "[]"] by simp
  then have "receive_server_hello TP fuel c =
      (Got (sh_random sh), c1\<lparr>tr := transcript_update ?m (tr c), suite := sh_cipher_suite sh\<rparr>)"
    using m chosen f by (simp add: receive_server_hello_def andthen_def absorb_def updates_def check_server_hello_def)
  moreover have "expects key w' rest (c1\<lparr>tr := transcript_update ?m (tr c), suite := sh_cipher_suite sh\<rparr>)"
    by (rule expects_field [OF m(3)]) simp_all
  ultimately show ?thesis using moved_over(2) [OF m(4)] by blast
qed

lemma certificate_step:
  assumes c: "expects key w (out @ rest) c"
    and sent: "protect MD5_ops CT_HANDSHAKE (frame HT_CERTIFICATE (certificate_list_body certs)) w = (Some out, w')"
    and sizes: "list_all (\<lambda>c. length c < 16777216) certs" "certs \<noteq> []"
      "length (concat (map (\<lambda>c. put24 (length c) @ c) certs)) < 16777213"
    and parsed: "parse_certificate_rsa_key (certs ! 0) = Inr pk" and fuel: "0 < fuel"
  shows "\<exists>c'. receive_certificate TP fuel c = (Got (), c') \<and> expects key w' rest c' \<and>
    moved (c\<lparr>tr := transcript_update (frame HT_CERTIFICATE (certificate_list_body certs)) (tr c),
             server_cert := certs ! 0, peer_key := pk\<rparr>) c'"
proof -
  let ?m = "frame HT_CERTIFICATE (certificate_list_body certs)"
  have "length (certificate_list_body certs) < 16777216" using sizes by (simp add: certificate_list_body_def Let_def)
  then obtain m c1 where m: "expect_message TP fuel HT_CERTIFICATE ''Certificate'' c = (Got (?m, m), c1)"
    "hm_body m = certificate_list_body certs" "expects key w' rest c1" "moved c c1"
    using expect_next [OF c sent _ fuel] by blast
  have f: "tr c1 = tr c" using moved_fields [OF m(4)] by auto
  let ?d = "c1\<lparr>tr := transcript_update ?m (tr c), server_cert := certs ! 0, peer_key := pk\<rparr>"
  have "parse_certificate_list (certificate_list_body certs) = Some certs"
    using parse_certificate_list_body [OF sizes(1,2), of "[]"] sizes(3) by simp
  then have "receive_certificate TP fuel c = (Got (), ?d)"
    using m parsed f by (simp add: receive_certificate_def andthen_def absorb_def updates_def Let_def)
  moreover have "expects key w' rest ?d" by (rule expects_field [OF m(3)]) simp_all
  ultimately show ?thesis using moved_over(3) [OF m(4)] by blast
qed

lemma hello_done_step:
  assumes c: "expects key w (out @ rest) c"
    and sent: "protect MD5_ops CT_HANDSHAKE (frame HT_SERVER_HELLO_DONE []) w = (Some out, w')" and fuel: "0 < fuel"
  shows "\<exists>c'. until_hello_done TP fuel fuel req c = (Got req, c') \<and> expects key w' rest c' \<and>
    moved (c\<lparr>tr := transcript_update (frame HT_SERVER_HELLO_DONE []) (tr c)\<rparr>) c'"
proof -
  let ?m = "frame HT_SERVER_HELLO_DONE []"
  obtain n where n: "fuel = Suc n" using fuel by (cases fuel) auto
  obtain m c1 where m: "next_handshake TP fuel c = (Got (?m, m), c1)" "hm_type m = HT_SERVER_HELLO_DONE"
    "expects key w' rest c1" "moved c c1"
    using next_message [OF c sent _ fuel] by auto
  have f: "tr c1 = tr c" using moved_fields [OF m(4)] by auto
  let ?d = "c1\<lparr>tr := transcript_update ?m (tr c)\<rparr>"
  have "until_hello_done TP fuel fuel req c = (Got req, ?d)"
    using m(1,2) f by (simp add: n andthen_def absorb_def updates_def returns_def)
  moreover have "expects key w' rest ?d" by (rule expects_field [OF m(3)]) simp_all
  ultimately show ?thesis using moved_over(1) [OF m(4)] by blast
qed

lemma key_exchange_step:
  fixes rng :: "'r rng"
  assumes c: "expects key w rest c" and key: "key_usable (peer_key c)"
    and pm: "make_premaster rng (opt_version c) (rand c) = (Some pm, r1)"
    and cke: "build_client_key_exchange rng fuel (peer_key c) pm r1 = (Drawn cke, r2)"
  shows "\<exists>c'. send_key_exchange TP rng fuel False c = (Got pm, c') \<and> expects key w rest c' \<and>
    moved (c\<lparr>rand := r2, tr := transcript_update cke (tr c)\<rparr>) c'"
proof -
  let ?c1 = "c\<lparr>rand := r2, tr := transcript_update cke (tr c)\<rparr>"
  have "expects key w rest ?c1" by (rule expects_field [OF c]) simp_all
  from send_next [OF this key_exchange_short [OF key cke]] obtain c'
    where "send_record TP CT_HANDSHAKE cke ?c1 = (Got (), c')" "expects key w rest c'" "moved ?c1 c'" by blast
  then show ?thesis
    by (intro exI [of _ c'])
      (simp add: send_key_exchange_def andthen_def draws_def pm cke absorb_def updates_def returns_def)
qed

lemma moved_trans: "moved a b \<Longrightarrow> moved b c \<Longrightarrow> moved a c"
  by (rule movedI; elim movedE; simp)

lemma moved_writer: "moved c c' \<Longrightarrow> moved c (c'\<lparr>rec_layer := l\<rparr>)"
  by (rule movedI; elim movedE; simp)

lemma expects_writer: "expects key w rest c \<Longrightarrow> expects key w rest (c\<lparr>rec_layer := enable_write_cipher MD5_ops mk ek (rec_layer c)\<rparr>)"
  by (auto simp: expects_def stream_def hmac_md5.in_step_def enable_write_cipher_def)

lemma finished_sent_step:
  assumes c: "expects key w rest c" and t: "transcript_of log (tr c)"
  shows "\<exists>c'. send_finished TP master km c = (Got (), c') \<and> expects key w rest c' \<and>
    moved (c\<lparr>tr := transcript_update (frame HT_FINISHED (rfc_finished master ''client finished'' log)) (tr c)\<rparr>) c'"
proof -
  let ?fin = "frame HT_FINISHED (rfc_finished master ''client finished'' log)"
  obtain c1 where c1: "send_record TP CT_CHANGE_CIPHER_SPEC [1] c = (Got (), c1)" "expects key w rest c1" "moved c c1"
    using send_next [OF c, of "[1]"] by (auto simp: MAX_PLAINTEXT_def)
  let ?c2 = "c1\<lparr>rec_layer := enable_write_cipher MD5_ops (client_mac km) (client_key km) (rec_layer c1)\<rparr>"
  let ?c3 = "?c2\<lparr>tr := transcript_update ?fin (tr c)\<rparr>"
  have f: "tr c1 = tr c" using moved_fields [OF c1(3)] by auto
  have "expects key w rest ?c3" by (rule expects_field [OF expects_writer [OF c1(2)]]) simp_all
  moreover have "length ?fin \<le> MAX_PLAINTEXT"
    by (simp add: rfc_finished_def HANDSHAKE_HEADER_LEN_def MAX_PLAINTEXT_def)
  ultimately obtain c' where c': "send_record TP CT_HANDSHAKE ?fin ?c3 = (Got (), c')" "expects key w rest c'" "moved ?c3 c'"
    using send_next by blast
  have "send_finished TP master km c = (Got (), c')"
    using c1(1) c'(1) f build_finished_rfc [OF t, of master "''client finished''"]
    by (simp add: send_finished_def andthen_def absorb_def updates_def)
  moreover have "moved (c\<lparr>tr := transcript_update ?fin (tr c)\<rparr>) c'"
    using moved_trans [OF moved_over(1) [OF moved_writer [OF c1(3)]] c'(3)] by simp
  ultimately show ?thesis using c'(2) by blast
qed

text \<open>The server's ChangeCipherSpec in the clear and its Finished under the new keys.\<close>

lemma finished_received_step:
  assumes c: "expects key w (ccs @ out @ rest) c" and fuel: "0 < fuel"
    and ccs: "protect MD5_ops CT_CHANGE_CIPHER_SPEC [1] w = (Some ccs, w1)"
    and sent: "protect MD5_ops CT_HANDSHAKE (frame HT_FINISHED (rfc_finished master ''server finished'' log))
      (enable_write_cipher MD5_ops (server_mac km) (server_key km) w1) = (Some out, w2)"
    and t: "transcript_of log (tr c)"
  shows "\<exists>c'. receive_finished TP fuel master km c = (Got (), c') \<and> expects (take 16 (server_mac km)) w2 rest c'"
proof -
  let ?body = "rfc_finished master ''server finished'' log"
  obtain n where n: "fuel = Suc n" using fuel by (cases fuel) auto
  have v: "is_valid_content_type CT_CHANGE_CIPHER_SPEC" "CT_CHANGE_CIPHER_SPEC \<noteq> CT_ALERT"
    by (simp_all add: is_valid_content_type_def CT_CHANGE_CIPHER_SPEC_def CT_ALERT_def)
  obtain h c1 where c1: "read_record TP c = (Got (h, [1]), c1)" "rh_type h = CT_CHANGE_CIPHER_SPEC"
    "expects key w1 (out @ rest) c1" "moved c c1"
    using read_next [OF c ccs v(1)] by blast
  have x: "expect_change_cipher_spec TP fuel c = (Got (), c1)"
    using c c1 v by (simp add: n expect_change_cipher_spec_def expects_def andthen_def returns_def)
  let ?c2 = "c1\<lparr>rec_layer := enable_read_cipher MD5_ops (server_mac km) (server_key km) (rec_layer c1)\<rparr>"
  have e: "expects (take 16 (server_mac km)) (enable_write_cipher MD5_ops (server_mac km) (server_key km) w1) (out @ rest) ?c2"
    using c1(3) hmac_md5.in_step_enable by (simp add: expects_def stream_def size_MD5_ops)
  have small: "length ?body < 16777216" by (simp add: rfc_finished_def)
  obtain m c3
    where m: "expect_message TP fuel HT_FINISHED ''Finished'' ?c2 = (Got (frame HT_FINISHED ?body, m), c3)"
      "hm_body m = ?body" "expects (take 16 (server_mac km)) w2 rest c3" "moved ?c2 c3"
    using expect_next [OF e sent small fuel] by blast
  have "tr c3 = tr c" using moved_fields [OF m(4)] moved_fields [OF c1(4)] by simp
  then have "check_finished master ''server finished'' (tr c3) ?body = Some True"
    using check_finished_rfc [OF t] by simp
  then have "receive_finished TP fuel master km c = (Got (), c3\<lparr>tr := transcript_update (frame HT_FINISHED ?body) (tr c3), connected := True\<rparr>)"
    using x m(1,2) by (simp add: receive_finished_def andthen_def absorb_def updates_def)
  moreover have "expects (take 16 (server_mac km)) w2 rest (c3\<lparr>tr := transcript_update (frame HT_FINISHED ?body) (tr c3), connected := True\<rparr>)"
    by (rule expects_field [OF m(3)]) simp_all
  ultimately show ?thesis by blast
qed

end

section \<open>A server that follows RFC 2246\<close>

definition flight_log :: "u16 \<Rightarrow> bytes \<Rightarrow> server_hello \<Rightarrow> bytes list \<Rightarrow> bytes \<Rightarrow> bytes" where
  "flight_log v cr sh certs cke = build_client_hello v cr [TLS_RSA_WITH_RC4_128_MD5] @
     frame HT_SERVER_HELLO (server_hello_body sh) @ frame HT_CERTIFICATE (certificate_list_body certs) @
     frame HT_SERVER_HELLO_DONE [] @ cke"

definition session_master :: "bytes \<Rightarrow> bytes \<Rightarrow> bytes \<Rightarrow> bytes" where
  "session_master pm cr sr = rfc_prf pm ''master secret'' (cr @ sr) 48"

definition session_keys :: "bytes \<Rightarrow> bytes \<Rightarrow> bytes \<Rightarrow> key_material" where
  "session_keys master cr sr = split_key_block MD5_ops (rfc_prf master ''key expansion'' (sr @ cr) 64)"

text \<open>
  What it sends: four records in the clear, then its Finished and any application data under the keys
  of the session.
\<close>

definition plain_flight :: "server_hello \<Rightarrow> bytes list \<Rightarrow> (byte \<times> bytes) list" where
  "plain_flight sh certs =
     [(CT_HANDSHAKE, frame HT_SERVER_HELLO (server_hello_body sh)),
      (CT_HANDSHAKE, frame HT_CERTIFICATE (certificate_list_body certs)),
      (CT_HANDSHAKE, frame HT_SERVER_HELLO_DONE []), (CT_CHANGE_CIPHER_SPEC, [1])]"

definition honest_session :: "u16 \<Rightarrow> bytes \<Rightarrow> server_hello \<Rightarrow> bytes list \<Rightarrow> bytes \<Rightarrow> bytes \<Rightarrow> bytes list \<Rightarrow> bytes" where
  "honest_session v cr sh certs pm cke parts =
     (let log = flight_log v cr sh certs cke;
          master = session_master pm cr (sh_random sh);
          km = session_keys master cr (sh_random sh);
          client_fin = frame HT_FINISHED (rfc_finished master ''client finished'' log);
          server_fin = frame HT_FINISHED (rfc_finished master ''server finished'' (log @ client_fin))
      in case protect_all MD5_ops (plain_flight sh certs) (record_layer_new MD5_ops VERSION_TLS_1_0) of
           None \<Rightarrow> []
         | Some (recs, w) \<Rightarrow>
             concat recs @
             (case protect_all MD5_ops ((CT_HANDSHAKE, server_fin) # map (Pair CT_APPLICATION_DATA) parts)
                     (enable_write_cipher MD5_ops (server_mac km) (server_key km) w) of
                None \<Rightarrow> []
              | Some (recs, _) \<Rightarrow> concat recs))"

text \<open>No application data; and what the client writes before its cipher is on.\<close>

definition honest_script :: "u16 \<Rightarrow> bytes \<Rightarrow> server_hello \<Rightarrow> bytes list \<Rightarrow> bytes \<Rightarrow> bytes \<Rightarrow> bytes" where
  "honest_script v cr sh certs pm cke = honest_session v cr sh certs pm cke []"

definition client_flight :: "u16 \<Rightarrow> bytes \<Rightarrow> bytes \<Rightarrow> (byte \<times> bytes) list" where
  "client_flight v cr cke =
     [(CT_HANDSHAKE, build_client_hello v cr [TLS_RSA_WITH_RC4_128_MD5]), (CT_HANDSHAKE, cke), (CT_CHANGE_CIPHER_SPEC, [1])]"

text \<open>The sizes a ServerHello and a certificate list of one record each have.\<close>

definition sendable :: "u16 \<Rightarrow> server_hello \<Rightarrow> bytes list \<Rightarrow> bool" where
  "sendable v sh certs \<longleftrightarrow>
     sh_version sh = v \<and> length (sh_random sh) = 32 \<and> length (sh_session_id sh) \<le> 32 \<and>
     sh_cipher_suite sh = TLS_RSA_WITH_RC4_128_MD5 \<and> sh_compression sh = 0 \<and>
     certs \<noteq> [] \<and> length (certificate_list_body certs) + 4 \<le> MAX_PLAINTEXT"

lemma sendable_lists:
  assumes "sendable v sh certs"
  shows "list_all (\<lambda>c. length c < 16777216) certs" "length (concat (map (\<lambda>c. put24 (length c) @ c) certs)) < 16777213"
proof -
  have n: "length (concat (map (\<lambda>c. put24 (length c) @ c) certs)) \<le> 16384"
    using assms by (simp add: sendable_def certificate_list_body_def MAX_PLAINTEXT_def Let_def)
  then show "length (concat (map (\<lambda>c. put24 (length c) @ c) certs)) < 16777213" by simp
  have "length c \<le> length (concat (map (\<lambda>c. put24 (length c) @ c) certs))" if "c \<in> set certs" for c
    using that by (induction certs) auto
  with n show "list_all (\<lambda>c. length c < 16777216) certs" by (force simp: list_all_iff)
qed

lemma plain_flight_sent:
  assumes "sendable v sh certs"
  obtains o1 o2 o3 o4 w1 w2 w3 w4
  where "protect MD5_ops CT_HANDSHAKE (frame HT_SERVER_HELLO (server_hello_body sh)) (record_layer_new MD5_ops VERSION_TLS_1_0) = (Some o1, w1)"
    and "protect MD5_ops CT_HANDSHAKE (frame HT_CERTIFICATE (certificate_list_body certs)) w1 = (Some o2, w2)"
    and "protect MD5_ops CT_HANDSHAKE (frame HT_SERVER_HELLO_DONE []) w2 = (Some o3, w3)"
    and "protect MD5_ops CT_CHANGE_CIPHER_SPEC [1] w3 = (Some o4, w4)"
    and "protect_all MD5_ops (plain_flight sh certs) (record_layer_new MD5_ops VERSION_TLS_1_0) = Some ([o1, o2, o3, o4], w4)"
proof -
  have "list_all (\<lambda>(type, data). length data \<le> MAX_PLAINTEXT) (plain_flight sh certs)"
    using assms by (simp add: plain_flight_def sendable_def HANDSHAKE_HEADER_LEN_def MAX_PLAINTEXT_def server_hello_body_def put16_def)
  from protect_all_succeeds [OF this] obtain recs w
    where p: "protect_all MD5_ops (plain_flight sh certs) (record_layer_new MD5_ops VERSION_TLS_1_0) = Some (recs, w)"
    by blast
  then show ?thesis
    unfolding plain_flight_def by (auto split: prod.splits option.splits intro!: that simp: plain_flight_def)
qed

lemma starts:
  assumes "0 < k"
  shows "mock.expects key (record_layer_new MD5_ops VERSION_TLS_1_0) script (client_new v t gmt (mock_server script k) r)"
    and "mock.written key [] (record_layer_new MD5_ops VERSION_TLS_1_0) [] (client_new v t gmt (mock_server script k) r)"
  using assms
  by (simp_all add: mock.expects_def mock.written_def mock.stream_def client_new_def mock_server_def mock_open_def mock_pending_def hmac_md5.in_step_new)

text \<open>The flight up to the key exchange, then the two Finished messages.\<close>

lemma honest_flight:
  fixes rng :: "'r rng" and c0 :: "(mock, 'r) client"
  assumes rng: "rng_fills rng" and fuel: "0 < fuel" and sh: "sendable v sh certs"
    and parsed: "parse_certificate_rsa_key (certs ! 0) = Inr pk"
    and cr: "make_client_random rng gmt r = (Some cr, r1)" and pm: "make_premaster rng v r1 = (Some pm, r2)"
    and cke: "build_client_key_exchange rng fuel pk pm r2 = (Drawn cke, r3)"
    and e0: "mock.expects key w0 (o1 @ o2 @ o3 @ rest) c0"
    and s0: "mock.written ckey [] reader [] c0"
    and f0: "opt_version c0 = v" "opt_gmt c0 = gmt" "rand c0 = r" "tr c0 = transcript_new"
    and p1: "protect MD5_ops CT_HANDSHAKE (frame HT_SERVER_HELLO (server_hello_body sh)) w0 = (Some o1, w1)"
    and p2: "protect MD5_ops CT_HANDSHAKE (frame HT_CERTIFICATE (certificate_list_body certs)) w1 = (Some o2, w2)"
    and p3: "protect MD5_ops CT_HANDSHAKE (frame HT_SERVER_HELLO_DONE []) w2 = (Some o3, w3)"
  shows "\<exists>c1 c2 c3 c4 c5. send_client_hello mock_transport rng c0 = (Got cr, c1) \<and>
    receive_server_hello mock_transport fuel c1 = (Got (sh_random sh), c2) \<and>
    receive_certificate mock_transport fuel c2 = (Got (), c3) \<and>
    until_hello_done mock_transport fuel fuel False c3 = (Got False, c4) \<and>
    send_key_exchange mock_transport rng fuel False c4 = (Got pm, c5) \<and>
    mock.expects key w3 rest c5 \<and> transcript_of (flight_log v cr sh certs cke) (tr c5) \<and>
    mock.written ckey [] reader [(CT_HANDSHAKE, build_client_hello v cr [TLS_RSA_WITH_RC4_128_MD5]), (CT_HANDSHAKE, cke)] c5"
proof -
  have s: "sh_version sh = v" "length (sh_random sh) = 32" "length (sh_session_id sh) \<le> 32"
    "sh_cipher_suite sh = TLS_RSA_WITH_RC4_128_MD5" "sh_compression sh = 0" "certs \<noteq> []"
    using sh by (simp_all add: sendable_def)
  obtain c1 where c1: "send_client_hello mock_transport rng c0 = (Got cr, c1)" "mock.expects key w0 (o1 @ o2 @ o3 @ rest) c1"
    and m1: "mock.moved (c0\<lparr>rand := r1, tr := transcript_update (build_client_hello v cr [TLS_RSA_WITH_RC4_128_MD5]) transcript_new\<rparr>) c1"
    using mock.hello_step [OF e0, of rng cr r1] f0 cr draw_sizes(1) [OF rng cr] by auto
  from mock.moved_fields [OF m1] f0 have f1: "opt_version c1 = v" "rand c1 = r1"
    "transcript_of (build_client_hello v cr [TLS_RSA_WITH_RC4_128_MD5]) (tr c1)"
    using transcript_of_update [OF transcript_of_new] by auto
  obtain c2 where c2: "receive_server_hello mock_transport fuel c1 = (Got (sh_random sh), c2)" "mock.expects key w1 (o2 @ o3 @ rest) c2"
    and m2: "mock.moved (c1\<lparr>tr := transcript_update (frame HT_SERVER_HELLO (server_hello_body sh)) (tr c1), suite := sh_cipher_suite sh\<rparr>) c2"
    using mock.server_hello_step [OF c1(2) p1 s(2,3) _ s(4,5) fuel] f1 s(1) by auto
  obtain c3 where c3: "receive_certificate mock_transport fuel c2 = (Got (), c3)" "mock.expects key w2 (o3 @ rest) c3"
    and m3: "mock.moved (c2\<lparr>tr := transcript_update (frame HT_CERTIFICATE (certificate_list_body certs)) (tr c2),
      server_cert := certs ! 0, peer_key := pk\<rparr>) c3"
    using mock.certificate_step [OF c2(2) p2 sendable_lists(1) [OF sh] s(6) sendable_lists(2) [OF sh] parsed fuel] by blast
  obtain c4 where c4: "until_hello_done mock_transport fuel fuel False c3 = (Got False, c4)" "mock.expects key w3 rest c4"
    and m4: "mock.moved (c3\<lparr>tr := transcript_update (frame HT_SERVER_HELLO_DONE []) (tr c3)\<rparr>) c4"
    using mock.hello_done_step [OF c3(2) p3 fuel] by blast
  have f4: "opt_version c4 = v" "rand c4 = r1" "peer_key c4 = pk"
    using f1 mock.moved_fields [OF m2] mock.moved_fields [OF m3] mock.moved_fields [OF m4] by simp_all
  have u: "key_usable (peer_key c4)" using parse_certificate_usable [OF parsed] f4 by simp
  obtain c5 where c5: "send_key_exchange mock_transport rng fuel False c4 = (Got pm, c5)" "mock.expects key w3 rest c5"
    and m5: "mock.moved (c4\<lparr>rand := r3, tr := transcript_update cke (tr c4)\<rparr>) c5"
    using mock.key_exchange_step [OF c4(2) u, of rng pm r2 fuel cke r3] f4 pm cke by auto
  have "transcript_of (flight_log v cr sh certs cke) (tr c5)"
    using transcript_of_update [OF transcript_of_update [OF transcript_of_update [OF transcript_of_update [OF f1(3)]]]]
      mock.moved_fields [OF m2] mock.moved_fields [OF m3] mock.moved_fields [OF m4] mock.moved_fields [OF m5]
    by (simp add: flight_log_def)
  moreover have "mock.written ckey [] reader [(CT_HANDSHAKE, build_client_hello v cr [TLS_RSA_WITH_RC4_128_MD5])] c1"
    using mock.written_hello [OF s0 c1(1)] f0(1) by simp
  from mock.written_silent [OF mock.silent_until_hello_done mock.written_silent [OF mock.silent_receive_certificate
      mock.written_silent [OF mock.silent_receive_server_hello this c2(1)] c3(1)] c4(1)]
  have "mock.written ckey [] reader [(CT_HANDSHAKE, build_client_hello v cr [TLS_RSA_WITH_RC4_128_MD5])] c4" .
  then have "mock.written ckey [] reader [(CT_HANDSHAKE, build_client_hello v cr [TLS_RSA_WITH_RC4_128_MD5]), (CT_HANDSHAKE, cke)] c5"
    using mock.written_key_exchange [OF _ c5(1), of ckey "[]" reader _ r2 cke r3] f4 pm cke by fastforce
  ultimately show ?thesis using c1(1) c2(1) c3(1) c4(1) c5 by blast
qed

lemma protect_all_app_data:
  "list_all (\<lambda>p. length p \<le> MAX_PLAINTEXT) parts \<Longrightarrow>
   \<exists>recs w'. protect_all H (map (Pair CT_APPLICATION_DATA) parts) w = Some (recs, w')"
  by (rule protect_all_succeeds) (simp add: list_all_iff)

lemma honest_session_run:
  fixes rng :: "'r rng"
  assumes rng: "rng_fills rng" and fuel: "0 < fuel" and sh: "sendable v sh certs"
    and parsed: "parse_certificate_rsa_key (certs ! 0) = Inr pk"
    and cr: "make_client_random rng gmt r = (Some cr, r1)" and pm: "make_premaster rng v r1 = (Some pm, r2)"
    and cke: "build_client_key_exchange rng fuel pk pm r2 = (Drawn cke, r3)"
    and parts: "list_all (\<lambda>p. length p \<le> MAX_PLAINTEXT) parts"
    and e0: "mock.expects [] (record_layer_new MD5_ops VERSION_TLS_1_0) (honest_session v cr sh certs pm cke parts) c0"
    and s0: "mock.written [] [] (record_layer_new MD5_ops VERSION_TLS_1_0) [] c0"
    and f0: "opt_version c0 = v" "opt_gmt c0 = gmt" "rand c0 = r" "tr c0 = transcript_new"
  defines "master \<equiv> session_master pm cr (sh_random sh)" 
  defines "km \<equiv> session_keys master cr (sh_random sh)"
  defines "fin \<equiv> frame HT_FINISHED (rfc_finished master ''client finished'' (flight_log v cr sh certs cke))"
  obtains c key w recs w' base reader where "client_handshake mock_transport rng fuel c0 = (Got (), c)"
    and "protect_all MD5_ops (map (Pair CT_APPLICATION_DATA) parts) w = Some (recs, w')" and "mock.expects key w (concat recs) c"
    and "read_records 3 base (record_layer_new MD5_ops VERSION_TLS_1_0) = Some (client_flight v cr cke, [], reader)"
    and "mock.written (take 16 (client_mac km)) base (enable_read_cipher MD5_ops (client_mac km) (client_key km) reader)
      [(CT_HANDSHAKE, fin)] c"
proof -
  let ?log = "flight_log v cr sh certs cke" and ?sr = "sh_random sh"
  let ?log2 = "?log @ fin"
  let ?sfin = "frame HT_FINISHED (rfc_finished master ''server finished'' ?log2)"
  obtain o1 o2 o3 o4 w1 w2 w3 w4
    where p1: "protect MD5_ops CT_HANDSHAKE (frame HT_SERVER_HELLO (server_hello_body sh)) (record_layer_new MD5_ops VERSION_TLS_1_0) = (Some o1, w1)"
      and p2: "protect MD5_ops CT_HANDSHAKE (frame HT_CERTIFICATE (certificate_list_body certs)) w1 = (Some o2, w2)"
      and p3: "protect MD5_ops CT_HANDSHAKE (frame HT_SERVER_HELLO_DONE []) w2 = (Some o3, w3)"
      and p4: "protect MD5_ops CT_CHANGE_CIPHER_SPEC [1] w3 = (Some o4, w4)"
      and all: "protect_all MD5_ops (plain_flight sh certs) (record_layer_new MD5_ops VERSION_TLS_1_0) = Some ([o1, o2, o3, o4], w4)"
    by (rule plain_flight_sent [OF sh])
  have "length ?sfin \<le> MAX_PLAINTEXT" by (simp add: rfc_finished_def HANDSHAKE_HEADER_LEN_def MAX_PLAINTEXT_def)
  then obtain o5 w5 where p5: "protect MD5_ops CT_HANDSHAKE ?sfin
      (enable_write_cipher MD5_ops (server_mac km) (server_key km) w4) = (Some o5, w5)"
    using protect_succeeds by blast
  obtain recs w6 where p6: "protect_all MD5_ops (map (Pair CT_APPLICATION_DATA) parts) w5 = Some (recs, w6)"
    using protect_all_app_data [OF parts] by blast
  have "honest_session v cr sh certs pm cke parts = o1 @ o2 @ o3 @ o4 @ o5 @ concat recs"
    by (simp add: honest_session_def Let_def all p5 [unfolded fin_def km_def master_def] p6)
  note e0 = e0 [unfolded this]
  obtain c1 c2 c3 c4 c5 where run: "send_client_hello mock_transport rng c0 = (Got cr, c1)"
    "receive_server_hello mock_transport fuel c1 = (Got ?sr, c2)" "receive_certificate mock_transport fuel c2 = (Got (), c3)"
    "until_hello_done mock_transport fuel fuel False c3 = (Got False, c4)"
    "send_key_exchange mock_transport rng fuel False c4 = (Got pm, c5)"
    and e5: "mock.expects [] w3 (o4 @ o5 @ concat recs) c5" and t5: "transcript_of ?log (tr c5)"
    and s5: "mock.written [] [] (record_layer_new MD5_ops VERSION_TLS_1_0)
      [(CT_HANDSHAKE, build_client_hello v cr [TLS_RSA_WITH_RC4_128_MD5]), (CT_HANDSHAKE, cke)] c5"
    using honest_flight [OF rng fuel sh parsed cr pm cke e0 s0 f0 p1 p2 p3] by blast
  obtain c6 where c6: "send_finished mock_transport master km c5 = (Got (), c6)" "mock.expects [] w3 (o4 @ o5 @ concat recs) c6"
    and m6: "mock.moved (c5\<lparr>tr := transcript_update fin (tr c5)\<rparr>) c6"
    using mock.finished_sent_step [OF e5 t5] unfolding fin_def by blast
  have t6: "transcript_of ?log2 (tr c6)" using transcript_of_update [OF t5] mock.moved_fields [OF m6] by simp
  obtain base reader where b: "read_records 3 base (record_layer_new MD5_ops VERSION_TLS_1_0) = Some (client_flight v cr cke, [], reader)"
    and s6: "mock.written (take 16 (client_mac km)) base (enable_read_cipher MD5_ops (client_mac km) (client_key km) reader)
      [(CT_HANDSHAKE, fin)] c6"
    using mock.written_finished [OF s5 t5 c6(1)] by (auto simp: client_flight_def fin_def numeral_3_eq_3 simp del: read_records.simps)
  obtain c7 where c7: "receive_finished mock_transport fuel master km c6 = (Got (), c7)"
    and e7: "mock.expects (take 16 (server_mac km)) w5 (concat recs) c7"
    using mock.finished_received_step [OF c6(2) fuel p4 p5 t6] by blast
  have keys: "derive_keys pm cr ?sr = Some (master, km)"
    using draw_sizes(1) [OF rng cr] sh by (simp add: master_def km_def derive_keys_rfc session_master_def session_keys_def sendable_def Let_def)
  have "client_handshake mock_transport rng fuel c0 = (Got (), c7)"
    unfolding client_handshake_def using run c6(1) c7 keys by (simp add: andthen_def)
  from that [OF this p6 e7 b mock.written_silent [OF mock.silent_receive_finished s6 c7]] show ?thesis .
qed

lemma honest_run:
  fixes rng :: "'r rng"
  assumes rng: "rng_fills rng" and k: "0 < k" and fuel: "0 < fuel" and sh: "sendable v sh certs"
    and parsed: "parse_certificate_rsa_key (certs ! 0) = Inr pk"
    and cr: "make_client_random rng gmt r = (Some cr, r1)" and pm: "make_premaster rng v r1 = (Some pm, r2)"
    and cke: "build_client_key_exchange rng fuel pk pm r2 = (Drawn cke, r3)"
  shows "fst (client_handshake mock_transport rng fuel (scripted_client (honest_script v cr sh certs pm cke) k v gmt r)) = Got ()"
proof -
  let ?c = "client_new v 15000 gmt (mock_server (honest_script v cr sh certs pm cke) k) r"
  have f: "opt_version ?c = v" "opt_gmt ?c = gmt" "rand ?c = r" "tr ?c = transcript_new" by (simp_all add: client_new_def)
  have "mock.expects [] (record_layer_new MD5_ops VERSION_TLS_1_0) (honest_session v cr sh certs pm cke []) ?c"
    unfolding honest_script_def by (rule starts [OF k])
  moreover have "list_all (\<lambda>p :: bytes. length p \<le> MAX_PLAINTEXT) []" by simp
  ultimately obtain c where "client_handshake mock_transport rng fuel ?c = (Got (), c)"
    using honest_session_run [OF rng fuel sh parsed cr pm cke _ _ starts(2) [OF k] f] by blast
  then show ?thesis by (simp add: scripted_client_def)
qed

section \<open>A session that exists\<close>

lemma draws_succeed:
  assumes "\<And>n r. fst (rng n r) \<noteq> None" and "rng_fills rng"
  shows "\<exists>cr r'. make_client_random rng gmt r = (Some cr, r')" and "\<exists>pm r'. make_premaster rng v r = (Some pm, r')"
proof -
  have "\<exists>bs r'. secure_random rng n r = (Some bs, r')" for n r
    using assms(1) [of n r] by (cases "rng n r") (auto simp: secure_random_def)
  then show "\<exists>cr r'. make_client_random rng gmt r = (Some cr, r')" and "\<exists>pm r'. make_premaster rng v r = (Some pm, r')"
    unfolding make_client_random_def make_premaster_def Let_def
    by (metis (no_types, lifting) case_prod_conv option.map(2))+
qed

lemma key_exchange_possible:
  assumes rng: "\<And>n r. fst (rng n r) \<noteq> None" "\<And>r. nonzero_within rng fuel r" and fill: "rng_fills rng"
    and key: "key_usable key" and pm: "length pm = 48"
  shows "\<exists>cke r'. build_client_key_exchange rng fuel key pm r = (Drawn cke, r')"
proof -
  have k: "64 \<le> key_k key" "key_k key \<le> 256" "key_valid key" "length (key_n key) = RSA_LIMBS" "limbs_val (key_n key) < 256 ^ key_k key"
    using key by (simp_all add: key_usable_def key_valid_def RSA_BYTES_def RSA_LIMBS_def)
  obtain em r1 where em: "pkcs1v15_pad_type2 rng fuel (key_k key) pm r = (Drawn em, r1)"
    using pad_total [of rng fuel "key_k key" pm r] rng k(1) pm by auto
  have "be_val em < 256 ^ (key_k key - 1)" using legal_padding_value [OF pad_legal [OF fill em]] .
  also have "\<dots> \<le> 256 ^ RSA_BYTES" using k(2) by (intro power_increasing) (auto simp: RSA_BYTES_def RSA_LIMBS_def)
  finally obtain out where "rsa_public_op key em = Some out" using rsa_public_op_val [OF k(3-5)] by blast
  then show ?thesis using em k(3) pm
    by (simp add: build_client_key_exchange_def rsa_encrypt_pkcs1v15_def PREMASTER_LEN_def)
qed

definition sample_hello :: server_hello where
  "sample_hello = \<lparr>sh_version = 0x0301, sh_random = replicate 32 7, sh_session_id = [1, 2],
     sh_cipher_suite = TLS_RSA_WITH_RC4_128_MD5, sh_compression = 0\<rparr>"

lemma counting_rng_total: "fst (counting_rng n r) \<noteq> None" "rng_fills counting_rng"
  by (simp_all add: counting_rng_def rng_fills_def)

lemma length_sample_certificate: "length sample_certificate < 200"
  by (simp add: sample_certificate_def certificate_der_def fields_der_def spki_content_def rsa_key_der_def
      sample_modulus_def tlv_def der_length_def be_bytes.simps OID_RSA_ENCRYPTION_def Let_def)

lemma sample_session:
  obtains pk cr r1 pm r2 cke r3 where "sendable 0x0301 sample_hello [sample_certificate]"
    and "parse_certificate_rsa_key ([sample_certificate] ! 0) = Inr pk" and "make_client_random counting_rng gmt 0 = (Some cr, r1)"
    and "make_premaster counting_rng 0x0301 r1 = (Some pm, r2)"
    and "build_client_key_exchange counting_rng 9 pk pm r2 = (Drawn cke, r3)"
proof -
  obtain pk where pk: "parse_certificate_rsa_key sample_certificate = Inr pk"
    using parse_certificate_der [OF sample_facts(1,2) sample_facts(3) [unfolded sample_certificate_def]]
    by (auto simp: sample_certificate_def)
  have s: "sendable 0x0301 sample_hello [sample_certificate]"
    using length_sample_certificate
    by (simp add: sendable_def sample_hello_def certificate_list_body_def MAX_PLAINTEXT_def Let_def)
  obtain cr r1 where cr: "make_client_random counting_rng gmt 0 = (Some cr, r1)"
    using draws_succeed(1) [OF counting_rng_total] by blast
  obtain pm r2 where pm: "make_premaster counting_rng 0x0301 r1 = (Some pm, r2)"
    using draws_succeed(2) [OF counting_rng_total] by blast
  obtain cke r3 where "build_client_key_exchange counting_rng 9 pk pm r2 = (Drawn cke, r3)"
    using key_exchange_possible [OF counting_rng_total(1) counting_rng_within counting_rng_total(2)
        parse_certificate_usable [OF pk] draw_sizes(2) [OF counting_rng_total(2) pm]] by fastforce
  with pk s cr pm show ?thesis by (intro that) simp_all
qed

section \<open>Properties\<close>

text \<open>C6: a handshake that returns success, whatever the transport, the server and the generator did, has passed every check (\<open>flight\<close>: offered version, RC4-128-MD5, no compression, the key of the first certificate, the premaster encrypted to it); the transcript is that flight followed by both Finished messages, each the RFC 2246 value of all that precedes it under the master secret, so the server's Finished was verified; and both directions of the record layer work under the MAC and RC4 keys of the RFC 2246 key block.\<close>

theorem completed_handshake:
  assumes "client_handshake TP rng fuel (client_new v timeout gmt s r) = (Got u, c)"
  shows "\<exists>cr sr pm log. flight v rng fuel c cr sr pm log \<and> connected c \<and>
    (let master = rfc_prf pm ''master secret'' (take 32 cr @ take 32 sr) 48;
         km = split_key_block MD5_ops (rfc_prf master ''key expansion'' (take 32 sr @ take 32 cr) 64);
         client_fin = frame HT_FINISHED (rfc_finished master ''client finished'' log);
         server_fin = frame HT_FINISHED (rfc_finished master ''server finished'' (log @ client_fin))
     in transcript_of (log @ client_fin @ server_fin) (tr c) \<and>
        writing (client_mac km) (client_key km) (rec_layer c) \<and> reading (server_mac km) (server_key km) (rec_layer c))"
proof -
  from assms obtain cr c1 sr c2 c3 req c4 pm c5 master km c6
    where steps: "send_client_hello TP rng (client_new v timeout gmt s r) = (Got cr, c1)" "receive_server_hello TP fuel c1 = (Got sr, c2)"
      "receive_certificate TP fuel c2 = (Got (), c3)" "until_hello_done TP fuel fuel False c3 = (Got req, c4)"
      "send_key_exchange TP rng fuel req c4 = (Got pm, c5)" "derive_keys pm cr sr = Some (master, km)"
      "send_finished TP master km c5 = (Got (), c6)" "receive_finished TP fuel master km c6 = (Got u, c)"
    by (rule handshake_steps)
  obtain log where log: "flight v rng fuel c5 cr sr pm log" "transcript_of log (tr c5)"
    using handshake_flight [OF _ _ steps(1-5), of v] by (auto simp: client_new_def)
  let ?cfin = "frame HT_FINISHED (rfc_finished master ''client finished'' log)"
  have f1: "tr c6 = transcript_update ?cfin (tr c5)" "peer_key c6 = peer_key c5" "server_cert c6 = server_cert c5"
    "suite c6 = suite c5" "writing (take 16 (client_mac km)) (take 16 (client_key km)) (rec_layer c6)"
    using send_finished_Got [OF steps(7)] build_finished_rfc [OF log(2)] by auto
  have t6: "transcript_of (log @ ?cfin) (tr c6)"
    unfolding f1(1) by (rule transcript_of_update [OF log(2)])
  obtain body where body: "check_finished master ''server finished'' (tr c6) body = Some True"
    and f2: "tr c = transcript_update (frame HT_FINISHED body) (tr c6)" "peer_key c = peer_key c6" "server_cert c = server_cert c6"
      "suite c = suite c6" "connected c" "writing (take 16 (client_mac km)) (take 16 (client_key km)) (rec_layer c)"
      "reading (take 16 (server_mac km)) (take 16 (server_key km)) (rec_layer c)"
    using receive_finished_Got [OF steps(8)] f1(5) by blast
  have "body = rfc_finished master ''server finished'' (log @ ?cfin)"
    using body check_finished_rfc [OF t6] by simp
  with transcript_of_update [OF t6, of "frame HT_FINISHED body"] f2(1)
  have t7: "transcript_of (log @ ?cfin @ frame HT_FINISHED (rfc_finished master ''server finished'' (log @ ?cfin))) (tr c)" by simp
  have m: "rfc_prf pm ''master secret'' (take 32 cr @ take 32 sr) 48 = master"
    and k: "split_key_block MD5_ops (rfc_prf master ''key expansion'' (take 32 sr @ take 32 cr) 64) = km"
    using steps(6) by (auto simp: derive_keys_rfc Let_def)
  have "take 16 (client_mac km) = client_mac km" "take 16 (server_mac km) = server_mac km"
    "take 16 (client_key km) = client_key km" "take 16 (server_key km) = server_key km"
    unfolding k [symmetric] by (simp_all add: split_key_block_def Let_def size_MD5_ops KEY_LEN_def)
  with f2(5-7) t7 flight_cong [OF log(1), of c] f1 f2(2-4) show ?thesis
    by (intro exI [of _ cr] exI [of _ sr] exI [of _ pm] exI [of _ log]) (simp add: Let_def m k)
qed

lemma completed_handshake_witness:
  "\<exists>script c. client_handshake mock_transport counting_rng 9 (client_new 0x0301 15000 5 (mock_server script 1) 0) = (Got (), c) \<and>
     connected c \<and> suite c = TLS_RSA_WITH_RC4_128_MD5"
proof -
  obtain pk cr r1 pm r2 cke r3 where s: "sendable 0x0301 sample_hello [sample_certificate]"
    "parse_certificate_rsa_key ([sample_certificate] ! 0) = Inr pk" "make_client_random counting_rng 5 0 = (Some cr, r1)"
    "make_premaster counting_rng 0x0301 r1 = (Some pm, r2)"
    "build_client_key_exchange counting_rng 9 pk pm r2 = (Drawn cke, r3)"
    by (rule sample_session)
  let ?script = "honest_script 0x0301 cr sample_hello [sample_certificate] pm cke"
  obtain c where c: "client_handshake mock_transport counting_rng 9 (client_new 0x0301 15000 5 (mock_server ?script 1) 0) = (Got (), c)"
    using honest_run [OF counting_rng_total(2) _ _ s, of 1]
    unfolding scripted_client_def by (metis prod.collapse zero_less_numeral zero_less_one)
  from completed_handshake [OF c] have "connected c \<and> suite c = TLS_RSA_WITH_RC4_128_MD5"
    by (auto simp: flight_def)
  with c show ?thesis by blast
qed

text \<open>A server that follows RFC 2246 (any ServerHello of at most 32 bytes of session id choosing the offered version and suite, any certificate list of one record whose first certificate carries a usable RSA key, the Finished values of the transcript under the keys of the premaster it decrypts) is accepted, at any positive chunk size of the transport: the handshake succeeds and the client is connected.\<close>

theorem honest_server_completes:
  assumes "rng_fills rng" and "0 < k" and "0 < fuel" and "sendable v sh certs"
    and "parse_certificate_rsa_key (certs ! 0) = Inr pk"
    and "make_client_random rng gmt r = (Some cr, r1)" and "make_premaster rng v r1 = (Some pm, r2)"
    and "build_client_key_exchange rng fuel pk pm r2 = (Drawn cke, r3)"
  shows "case client_handshake mock_transport rng fuel (scripted_client (honest_script v cr sh certs pm cke) k v gmt r) of
    (reply, c) \<Rightarrow> reply = Got () \<and> connected c"
proof -
  let ?c = "scripted_client (honest_script v cr sh certs pm cke) k v gmt r"
  have "fst (client_handshake mock_transport rng fuel ?c) = Got ()" by (rule honest_run [OF assms])
  moreover from this have "connected (snd (client_handshake mock_transport rng fuel ?c))"
    using gates_handshake [of mock_transport rng fuel] by (simp add: gates_def scripted_client_def client_new_def)
  ultimately show ?thesis by (simp add: split_beta)
qed

lemma honest_server_completes_witness:
  "\<exists>script. fst (client_handshake mock_transport counting_rng 9 (scripted_client script 3 0x0301 5 0)) = Got ()"
proof -
  obtain pk cr r1 pm r2 cke r3 where s: "sendable 0x0301 sample_hello [sample_certificate]"
    "parse_certificate_rsa_key ([sample_certificate] ! 0) = Inr pk" "make_client_random counting_rng 5 0 = (Some cr, r1)"
    "make_premaster counting_rng 0x0301 r1 = (Some pm, r2)"
    "build_client_key_exchange counting_rng 9 pk pm r2 = (Drawn cke, r3)"
    by (rule sample_session)
  then show ?thesis
    using honest_server_completes [OF counting_rng_total(2) _ _ s, of 3] by (auto simp: split_beta)
qed

end
