(* ===== verification/Http.thy ===== *)
theory Http
  imports Client Prf
begin

text \<open>
  The HTTPS helper at the end of \<open>tls/client.hpp\<close>: \<open>header_value\<close>, \<open>dechunk\<close> and \<open>https_get\<close>. Strings
  are lists of characters; \<open>size_t\<close> is 64 bits wide, and the sum \<open>pos + size\<close> in \<open>dechunk\<close> wraps as the
  code's does. The loops of \<open>dechunk\<close> and \<open>https_get\<close> carry fuel.
\<close>

unbundle bit_operations_syntax

section \<open>Strings\<close>

definition chars :: "bytes \<Rightarrow> string" where
  "chars bs = map (\<lambda>b. char_of (unat b)) bs"

definition crlf :: string where
  "crlf = [CHR 0x0D, CHR 0x0A]"

definition is_c_space :: "char \<Rightarrow> bool" where
  "is_c_space c \<longleftrightarrow> c = CHR '' '' \<or> (9 \<le> (of_char c :: nat) \<and> (of_char c :: nat) \<le> 13)"

text \<open>\<open>strtoul(s, nullptr, 10)\<close>, with a 64-bit \<open>unsigned long\<close>: a value out of range is the largest one.\<close>

definition strtoul :: "string \<Rightarrow> nat" where
  "strtoul s =
     (let s = dropWhile is_c_space s;
          (neg, s) = (case s of c # cs \<Rightarrow> if c = CHR ''-'' then (True, cs) else if c = CHR ''+'' then (False, cs) else (False, s)
                      | [] \<Rightarrow> (False, s));
          v = dec_val (takeWhile is_digit s)
      in if v \<ge> 2 ^ 64 then 2 ^ 64 - 1 else if neg \<and> v > 0 then 2 ^ 64 - v else v)"

text \<open>\<open>atoi\<close>: the value, for numbers that fit in an \<open>int\<close>.\<close>

definition atoi :: "string \<Rightarrow> int" where
  "atoi s =
     (let s = dropWhile is_c_space s;
          (neg, s) = (case s of c # cs \<Rightarrow> if c = CHR ''-'' then (True, cs) else if c = CHR ''+'' then (False, cs) else (False, s)
                      | [] \<Rightarrow> (False, s));
          v = int (dec_val (takeWhile is_digit s))
      in if neg then - v else v)"

section \<open>Headers\<close>

definition to_lower :: "string \<Rightarrow> string" where
  "to_lower s = map lower_char s"

text \<open>\<open>substr(vs, ve - vs)\<close> after both trimming loops.\<close>

definition trimmed :: "string \<Rightarrow> nat \<Rightarrow> nat \<Rightarrow> string" where
  "trimmed headers vs stop =
     (if vs \<le> stop then strip_while is_blank (take (stop - vs) (drop vs headers)) else drop vs headers)"

function header_scan :: "string \<Rightarrow> string \<Rightarrow> string \<Rightarrow> nat \<Rightarrow> string" where
  "header_scan headers hay needle pos =
     (if pos < length hay
      then (let eol = find_from hay crlf pos;
                stop = (case eol of None \<Rightarrow> length hay | Some e \<Rightarrow> e)
            in if take (length needle) (drop pos hay) = needle then trimmed headers (pos + length needle) stop
               else (case eol of None \<Rightarrow> '''' | Some e \<Rightarrow> header_scan headers hay needle (e + 2)))
      else '''')"
  by pat_completeness auto
termination
  by (relation "measure (\<lambda>(headers, hay, needle, pos). length hay - pos)") (auto dest!: find_from_Some [OF sym])

declare header_scan.simps [simp del]

definition header_value :: "string \<Rightarrow> string \<Rightarrow> string" where
  "header_value headers name = header_scan headers (to_lower headers) (to_lower name @ '':'') 0"

section \<open>Chunked transfer coding\<close>

definition hex_char_val :: "char \<Rightarrow> u64 option" where
  "hex_char_val c =
     (let n = of_char c :: nat
      in if 48 \<le> n \<and> n \<le> 57 then Some (word_of_nat (n - 48))
         else if 97 \<le> n \<and> n \<le> 102 then Some (word_of_nat (n - 97 + 10))
         else if 65 \<le> n \<and> n \<le> 70 then Some (word_of_nat (n - 65 + 10))
         else None)"

text \<open>The loop over a size line: the size and \<open>any\<close>.\<close>

fun chunk_size :: "string \<Rightarrow> u64 \<Rightarrow> bool \<Rightarrow> (u64 \<times> bool) option" where
  "chunk_size [] n any = Some (n, any)"
| "chunk_size (c # cs) n any =
     (case hex_char_val c of
        Some v \<Rightarrow> chunk_size cs (n * 16 + v) True
      | None \<Rightarrow> if is_blank c then chunk_size cs n any else None)"

definition size_line :: "string \<Rightarrow> string" where
  "size_line line = (case find_str '';'' line of None \<Rightarrow> line | Some semi \<Rightarrow> take semi line)"

fun dechunk_loop :: "nat \<Rightarrow> string \<Rightarrow> nat \<Rightarrow> string \<Rightarrow> (bool \<times> string) option" where
  "dechunk_loop 0 inp pos out = None"
| "dechunk_loop (Suc fuel) inp pos out =
     (case find_from inp crlf pos of
        None \<Rightarrow> Some (False, out)
      | Some eol \<Rightarrow>
          (case chunk_size (size_line (take (eol - pos) (drop pos inp))) 0 False of
             None \<Rightarrow> Some (False, out)
           | Some (n, any) \<Rightarrow>
               if \<not> any then Some (False, out)
               else (let pos = eol + 2
                     in if n = 0 then Some (True, out)
                        else if unat (word_of_nat pos + n) > length inp then Some (False, out)
                        else (let out = out @ take (unat n) (drop pos inp);
                                  pos = unat (word_of_nat pos + n)
                              in if take 2 (drop pos inp) \<noteq> crlf then Some (False, out)
                                 else dechunk_loop fuel inp (pos + 2) out))))"

declare dechunk_loop.simps(2) [simp del]

definition dechunk :: "nat \<Rightarrow> string \<Rightarrow> string \<Rightarrow> (bool \<times> string) option" where
  "dechunk fuel inp out = dechunk_loop fuel inp 0 out"

section \<open>The request\<close>

record http_response =
  r_status :: int
  r_headers :: string
  r_body :: string

definition request_text :: "string \<Rightarrow> string \<Rightarrow> string \<Rightarrow> string" where
  "request_text host path cookie =
     ''GET '' @ path @ '' HTTP/1.1'' @ crlf @ ''Host: '' @ host @ crlf @
     ''User-Agent: ilo2-console/1.0'' @ crlf @ ''Accept: */*'' @ crlf @
     (if cookie \<noteq> [] then ''Cookie: '' @ cookie @ crlf else []) @ ''Connection: close'' @ crlf @ crlf"

definition SIZE_MAX :: nat where "SIZE_MAX = 2 ^ 64 - 1"

definition is_chunked :: "string \<Rightarrow> bool" where
  "is_chunked h \<longleftrightarrow> find_str ''chunked'' (header_value h ''Transfer-Encoding'') \<noteq> None"

text \<open>The framing of a response once its headers are complete: chunked, and the content length.\<close>

record framing =
  header_end :: "nat option"
  chunked :: bool
  content_length :: nat

definition find_framing :: "string \<Rightarrow> framing \<Rightarrow> framing" where
  "find_framing raw fr =
     (case header_end fr of
        Some e \<Rightarrow> fr
      | None \<Rightarrow>
          (case find_str (crlf @ crlf) raw of
             None \<Rightarrow> fr
           | Some e \<Rightarrow>
               (let h = take e raw; cl = header_value h ''Content-Length''
                in fr\<lparr>header_end := Some e, chunked := is_chunked h,
                      content_length := (if cl \<noteq> [] then strtoul cl else content_length fr)\<rparr>)))"

text \<open>The completeness test; \<open>None\<close> is a \<open>dechunk\<close> that runs out of fuel.\<close>

definition response_complete :: "nat \<Rightarrow> string \<Rightarrow> framing \<Rightarrow> bool option" where
  "response_complete fuel raw fr =
     (case header_end fr of
        None \<Rightarrow> Some False
      | Some e \<Rightarrow>
          (let b = drop (e + 4) raw
           in if chunked fr then map_option fst (dechunk fuel b [])
              else Some (content_length fr \<noteq> SIZE_MAX \<and> content_length fr \<le> length b)))"

fun receive_response :: "'t transport \<Rightarrow> nat \<Rightarrow> nat \<Rightarrow> string \<Rightarrow> framing \<Rightarrow> (string, 't, 'r) action" where
  "receive_response TP fuel 0 raw fr c = (Stuck, c)"
| "receive_response TP fuel (Suc n) raw fr c =
     (let fr = find_framing raw fr
      in case response_complete fuel raw fr of
           None \<Rightarrow> (Stuck, c)
         | Some True \<Rightarrow> (Got raw, c)
         | Some False \<Rightarrow>
             andthen (client_recv TP fuel) (\<lambda>r c.
               case r of
                 Inr (True, e) \<Rightarrow> (Got raw, c)
               | Inr (False, e) \<Rightarrow> (Error e, client_close TP c)
               | Inl chunk \<Rightarrow>
                   (let raw = raw @ chars chunk
                    in if length raw > 8 * 1024 * 1024 then (Error ''response too large'', client_close TP c)
                       else receive_response TP fuel n raw fr c)) c)"

definition parse_status :: "string \<Rightarrow> string \<Rightarrow> int" where
  "parse_status raw h =
     (if take 5 raw = ''HTTP/''
      then (case find_str '' '' h of None \<Rightarrow> 0 | Some sp \<Rightarrow> atoi (drop (sp + 1) h)) else 0)"

text \<open>What is made of the bytes received: an error message or the response.\<close>

definition parse_response :: "nat \<Rightarrow> string \<Rightarrow> (string + http_response) option" where
  "parse_response fuel raw =
     (if raw = [] then Some (Inl ''empty response'')
      else (let (h, b) = (case find_str (crlf @ crlf) raw of
                            None \<Rightarrow> (raw, [])
                          | Some e \<Rightarrow> (take e raw, drop (e + 4) raw));
                st = parse_status raw h
            in if is_chunked h
               then (case dechunk fuel b [] of
                       None \<Rightarrow> None
                     | Some (False, _) \<Rightarrow> Some (Inl ''malformed chunked response body'')
                     | Some (True, d) \<Rightarrow> Some (Inr \<lparr>r_status = st, r_headers = h, r_body = d\<rparr>))
               else (let cl = header_value h ''Content-Length'';
                         b = (if cl \<noteq> [] then take (strtoul cl) b else b)
                     in Some (Inr \<lparr>r_status = st, r_headers = h, r_body = b\<rparr>))))"

definition https_get ::
  "'t transport \<Rightarrow> 'r rng \<Rightarrow> nat \<Rightarrow> string \<Rightarrow> u16 \<Rightarrow> string \<Rightarrow> string \<Rightarrow> (http_response, 't, 'r) action" where
  "https_get TP rng fuel host port path cookie =
     andthen (client_connect TP rng fuel host port) (\<lambda>_ c.
       case client_send TP (ascii (request_text host path cookie)) c of
         (Error e, c) \<Rightarrow> (Error e, client_close TP c)
       | (Stuck, c) \<Rightarrow> (Stuck, c)
       | (Crash, c) \<Rightarrow> (Crash, c)
       | (Got _, c) \<Rightarrow>
           andthen (receive_response TP fuel fuel [] \<lparr>header_end = None, chunked = False, content_length = SIZE_MAX\<rparr>) (\<lambda>raw c.
             let c = client_close TP c
             in case parse_response fuel raw of
                  None \<Rightarrow> (Stuck, c)
                | Some (Inl e) \<Rightarrow> (Error e, c)
                | Some (Inr r) \<Rightarrow> (Got r, c)) c)"

lemma length_crlf [simp]: "length crlf = 2"
  by (simp add: crlf_def)

section \<open>Encoding chunks\<close>

text \<open>The transfer coding of RFC 7230, section 4.1, without extensions and trailer.\<close>

fun hex_digits :: "nat \<Rightarrow> string" where
  "hex_digits n = (if n < 16 then [hex_digit n] else hex_digits (n div 16) @ [hex_digit (n mod 16)])"

declare hex_digits.simps [simp del]

definition encode_chunk :: "string \<Rightarrow> string" where
  "encode_chunk c = hex_digits (length c) @ crlf @ c @ crlf"

definition last_chunk :: string where
  "last_chunk = ''0'' @ crlf"

definition encode_chunks :: "string list \<Rightarrow> string" where
  "encode_chunks cs = concat (map encode_chunk cs) @ last_chunk"

lemma hex_digit_cases:
  assumes "n < 16"
  shows "hex_digit n \<in> set ''0123456789abcdef''" and "hex_char_val (hex_digit n) = Some (word_of_nat n)"
proof -
  show "hex_digit n \<in> set ''0123456789abcdef''" using assms unfolding hex_digit_def by (intro nth_mem) simp
  have "n \<in> set [0..<16]" using assms by simp
  then show "hex_char_val (hex_digit n) = Some (word_of_nat n)"
    by (auto simp: upt_rec hex_digit_def hex_char_val_def)
qed

lemma hex_digits_chars: "set (hex_digits n) \<subseteq> set ''0123456789abcdef'' \<and> hex_digits n \<noteq> []"
proof (induction n rule: hex_digits.induct)
  case (1 n)
  then show ?case
    using hex_digit_cases(1) [of n] hex_digit_cases(1) [of "n mod 16"] by (cases "n < 16") (simp_all add: hex_digits.simps [of n])
qed

lemma chunk_size_append:
  "chunk_size (as @ bs) n any = (case chunk_size as n any of None \<Rightarrow> None | Some (m, any) \<Rightarrow> chunk_size bs m any)"
  by (induction as arbitrary: n any) (simp_all split: option.split)

lemma chunk_size_hex: "chunk_size (hex_digits n) 0 False = Some (word_of_nat n, True)"
proof (induction n rule: hex_digits.induct)
  case (1 n)
  show ?case
  proof (cases "n < 16")
    case True
    then show ?thesis by (simp add: hex_digits.simps [of n] hex_digit_cases(2))
  next
    case False
    have "word_of_nat (n div 16) * 16 + word_of_nat (n mod 16) = (word_of_nat (n div 16 * 16 + n mod 16) :: u64)"
      by (simp only: of_nat_add of_nat_mult of_nat_numeral)
    then have "word_of_nat (n div 16) * 16 + word_of_nat (n mod 16) = (word_of_nat n :: u64)" by (simp only: div_mult_mod_eq)
    with False 1 show ?thesis by (simp add: hex_digits.simps [of n] chunk_size_append hex_digit_cases(2))
  qed
qed

lemma find_str_skip: "c \<notin> set xs \<Longrightarrow> find_str (c # pat) (xs @ ys) = map_option (\<lambda>k. length xs + k) (find_str (c # pat) ys)"
proof (induction xs)
  case Nil
  then show ?case by (simp add: option.map_ident)
next
  case (Cons x xs)
  then show ?case by (simp add: option.map_comp comp_def)
qed

lemma find_crlf: "CHR 0x0D \<notin> set xs \<Longrightarrow> find_str crlf (xs @ crlf @ ys) = Some (length xs)"
  using find_str_skip [of "CHR 0x0D" xs "[CHR 0x0A]" "crlf @ ys"] by (simp add: crlf_def)

lemma no_crlf: "CHR 0x0A \<notin> set xs \<Longrightarrow> find_str crlf xs = None"
  by (induction xs) (auto simp: crlf_def dest: set_mono_prefix)

lemma find_from_suffix: "find_from (p @ s) pat (length p) = map_option (\<lambda>k. length p + k) (find_str pat s)"
  by (simp add: find_from_def)

lemma size_line_hex: "size_line (hex_digits n) = hex_digits n"
proof -
  have "CHR '';'' \<notin> set (hex_digits n)" using hex_digits_chars [of n] by auto
  from find_str_skip [OF this, of "[]" "[]"] show ?thesis by (simp add: size_line_def)
qed

lemma hex_plain: "CHR 0x0D \<notin> set (hex_digits n)" "CHR 0x0A \<notin> set (hex_digits n)"
  using hex_digits_chars [of n] by auto

section \<open>One turn of the decoder\<close>

lemma turn_size:
  assumes "inp = p @ hex_digits n @ crlf @ s" and "pos = length p + length (hex_digits n) + 2"
  shows "dechunk_loop (Suc fuel) inp (length p) out =
     (if (word_of_nat n :: u64) = 0 then Some (True, out)
      else if unat (word_of_nat pos + word_of_nat n :: u64) > length inp then Some (False, out)
      else (let out = out @ take (unat (word_of_nat n :: u64)) (drop pos inp); q = unat (word_of_nat pos + word_of_nat n :: u64)
            in if take 2 (drop q inp) \<noteq> crlf then Some (False, out) else dechunk_loop fuel inp (q + 2) out))"
  unfolding assms using find_crlf [OF hex_plain(1) [of n], of s]
  by (simp add: dechunk_loop.simps(2) find_from_suffix size_line_hex chunk_size_hex Let_def)

lemma unat_sum: "a + b < 2 ^ 64 \<Longrightarrow> unat (word_of_nat a + word_of_nat b :: u64) = a + b"
  by (simp only: of_nat_add [symmetric] unsigned_of_nat) (simp add: take_bit_nat_eq_self)

lemma word_size: "0 < n \<Longrightarrow> n < 2 ^ 64 \<Longrightarrow> (word_of_nat n :: u64) \<noteq> 0 \<and> unat (word_of_nat n :: u64) = n"
  by (simp only: unsigned_of_nat unat_eq_0 [symmetric]) (simp add: take_bit_nat_eq_self)

lemma turn_chunk:
  assumes "c \<noteq> []" and "length (p @ encode_chunk c @ s) < 2 ^ 64"
  shows "dechunk_loop (Suc fuel) (p @ encode_chunk c @ s) (length p) out =
    dechunk_loop fuel (p @ encode_chunk c @ s) (length (p @ encode_chunk c)) (out @ c)"
proof -
  let ?pos = "length p + length (hex_digits (length c)) + 2"
  have n: "?pos + length c < 2 ^ 64" "0 < length c" "length c < 2 ^ 64"
    using assms by (simp_all add: encode_chunk_def crlf_def)
  have front: "p @ encode_chunk c @ s = (p @ hex_digits (length c) @ crlf) @ c @ crlf @ s" by (simp add: encode_chunk_def)
  have l: "length (p @ hex_digits (length c) @ crlf) = ?pos" by (simp add: crlf_def)
  have d: "drop ?pos (p @ encode_chunk c @ s) = c @ crlf @ s" "drop (?pos + length c) (p @ encode_chunk c @ s) = crlf @ s"
    unfolding front by (simp_all add: l [symmetric])
  have "length (p @ encode_chunk c) = ?pos + length c + 2" by (simp add: encode_chunk_def crlf_def)
  moreover have "p @ encode_chunk c @ s = p @ hex_digits (length c) @ crlf @ c @ crlf @ s" by (simp add: encode_chunk_def)
  ultimately show ?thesis
    using turn_size [of "p @ encode_chunk c @ s" p "length c" "c @ crlf @ s" ?pos fuel out] d word_size [OF n(2,3)] unat_sum [OF n(1)]
    by (simp add: Let_def crlf_def add.assoc)
qed

lemma turn_last: "dechunk_loop (Suc fuel) (p @ last_chunk @ s) (length p) out = Some (True, out)"
proof -
  have e: "p @ last_chunk @ s = p @ hex_digits 0 @ crlf @ s" by (simp add: last_chunk_def hex_digits.simps hex_digit_def)
  show ?thesis using turn_size [OF e refl] by simp
qed

lemma dechunk_decodes:
  assumes "list_all (\<lambda>c. c \<noteq> []) cs" and "length (p @ encode_chunks cs @ s) < 2 ^ 64" and "length cs < fuel"
  shows "dechunk_loop fuel (p @ encode_chunks cs @ s) (length p) out = Some (True, out @ concat cs)"
  using assms
proof (induction cs arbitrary: p out fuel)
  case Nil
  then show ?case using turn_last [of _ p s out] by (cases fuel) (simp_all add: encode_chunks_def)
next
  case (Cons c cs)
  then obtain f where f: "fuel = Suc f" by (cases fuel) auto
  have e: "p @ encode_chunks (c # cs) @ s = p @ encode_chunk c @ encode_chunks cs @ s" by (simp add: encode_chunks_def)
  have "dechunk_loop fuel (p @ encode_chunk c @ encode_chunks cs @ s) (length p) out =
      dechunk_loop f ((p @ encode_chunk c) @ encode_chunks cs @ s) (length (p @ encode_chunk c)) (out @ c)"
    using turn_chunk [of c p "encode_chunks cs @ s" f out] Cons.prems f e by simp
  also have "\<dots> = Some (True, (out @ c) @ concat cs)"
    using Cons.prems f e by (intro Cons.IH) simp_all
  finally show ?case by (simp add: e)
qed

section \<open>Incomplete bodies\<close>

text \<open>A decoder that stops inside a chunk reports failure.\<close>

lemma turn_no_line: "find_str crlf q = None \<Longrightarrow> dechunk_loop (Suc fuel) (p @ q) (length p) out = Some (False, out)"
  by (simp add: dechunk_loop.simps(2) find_from_suffix)

lemma cut_line: "k < length xs + 2 \<Longrightarrow> CHR 0x0D \<notin> set xs \<Longrightarrow> CHR 0x0A \<notin> set xs \<Longrightarrow> find_str crlf (take k (xs @ crlf @ ys)) = None"
  by (intro no_crlf) (auto simp: crlf_def take_append take_Cons' dest: in_set_takeD)

lemma cut_chunk:
  assumes c: "c \<noteq> []" and k: "k < length (encode_chunk c)" and small: "length (p @ encode_chunk c) < 2 ^ 64"
  shows "\<exists>out'. dechunk_loop (Suc fuel) (p @ take k (encode_chunk c)) (length p) out = Some (False, out')"
proof (cases "k < length (hex_digits (length c)) + 2")
  case True
  from turn_no_line [OF cut_line [OF this hex_plain]] show ?thesis unfolding encode_chunk_def by blast
next
  case False
  let ?n = "length c" and ?h = "hex_digits (length c)"
  let ?pos = "length p + length ?h + 2"
  define j where "j = k - (length ?h + 2)"
  have j: "j < ?n + 2" using k False by (simp add: j_def encode_chunk_def crlf_def)
  have t: "take k (encode_chunk c) = ?h @ crlf @ take j (c @ crlf)"
    using False by (simp add: encode_chunk_def j_def crlf_def take_Cons')
  have n: "?pos + ?n < 2 ^ 64" "0 < ?n" "?n < 2 ^ 64" using c small by (simp_all add: encode_chunk_def crlf_def)
  define inp where "inp = p @ ?h @ crlf @ take j (c @ crlf)"
  define pos where "pos = ?pos"
  have "drop (pos + ?n) inp = drop ?n (take j (c @ crlf))" by (simp add: inp_def pos_def)
  also have "\<dots> = take (j - ?n) crlf" by (simp only: drop_take) simp
  finally have d: "take 2 (drop (pos + ?n) inp) \<noteq> crlf" using j by (auto simp: crlf_def take_Cons')
  have "unat (word_of_nat pos + word_of_nat ?n :: u64) = pos + ?n" unfolding pos_def by (rule unat_sum [OF n(1)])
  then have "\<exists>out'. dechunk_loop (Suc fuel) inp (length p) out = Some (False, out')"
    using turn_size [OF inp_def pos_def] word_size [OF n(2,3)] d by (simp add: Let_def)
  then show ?thesis by (simp only: t inp_def)
qed

lemma cut_last: "k < length last_chunk \<Longrightarrow> dechunk_loop (Suc fuel) (p @ take k last_chunk) (length p) out = Some (False, out)"
  by (intro turn_no_line no_crlf) (auto simp: last_chunk_def crlf_def take_Cons')

lemma dechunk_waits:
  assumes "list_all (\<lambda>c. c \<noteq> []) cs" and "length (p @ encode_chunks cs) < 2 ^ 64" and "length cs < fuel"
    and "k < length (encode_chunks cs)"
  shows "\<exists>out'. dechunk_loop fuel (p @ take k (encode_chunks cs)) (length p) out = Some (False, out')"
  using assms
proof (induction cs arbitrary: p out fuel k)
  case Nil
  then show ?case using cut_last [of k _ p out] by (cases fuel) (simp_all add: encode_chunks_def)
next
  case (Cons c cs)
  then obtain f where f: "fuel = Suc f" by (cases fuel) auto
  have e: "encode_chunks (c # cs) = encode_chunk c @ encode_chunks cs" by (simp add: encode_chunks_def)
  show ?case
  proof (cases "k < length (encode_chunk c)")
    case True
    then show ?thesis using cut_chunk [of c k p f out] Cons.prems by (simp add: e f)
  next
    case False
    define i where "i = k - length (encode_chunk c)"
    have t: "take k (encode_chunks (c # cs)) = encode_chunk c @ take i (encode_chunks cs)" using False by (simp add: e i_def)
    have i: "i < length (encode_chunks cs)" using Cons.prems(4) False by (simp add: e i_def)
    have "dechunk_loop fuel (p @ encode_chunk c @ take i (encode_chunks cs)) (length p) out =
        dechunk_loop f ((p @ encode_chunk c) @ take i (encode_chunks cs)) (length (p @ encode_chunk c)) (out @ c)"
      using turn_chunk [of c p "take i (encode_chunks cs)" f out] Cons.prems f i by (simp add: e)
    then show ?thesis
      unfolding t using Cons.IH [of "p @ encode_chunk c" f i "out @ c"] Cons.prems f i by (simp add: e)
  qed
qed

section \<open>The sum that wraps\<close>

text \<open>A body whose second size line, \<open>0xFFFFFFFFFFFFFFEC\<close>, moves \<open>pos\<close> back by twenty bytes to the end of the first chunk.\<close>

definition back_jump :: string where
  "back_jump = ''1'' @ crlf @ ''A'' @ crlf @ ''FFFFFFFFFFFFFFEC'' @ crlf"

lemma back_jump_chars: "back_jump = [CHR ''1'', CHR 0x0D, CHR 0x0A, CHR ''A'', CHR 0x0D, CHR 0x0A, CHR ''F'', CHR ''F'', CHR ''F'',
   CHR ''F'', CHR ''F'', CHR ''F'', CHR ''F'', CHR ''F'', CHR ''F'', CHR ''F'', CHR ''F'', CHR ''F'', CHR ''F'', CHR ''F'',
   CHR ''E'', CHR ''C'', CHR 0x0D, CHR 0x0A]"
  by (simp add: back_jump_def crlf_def)

lemma back_jump_turn: "dechunk_loop (Suc fuel) back_jump 6 out = dechunk_loop fuel back_jump 6 out"
proof -
  have "find_from back_jump crlf 6 = Some 22" by (simp add: back_jump_chars find_from_def crlf_def)
  moreover have "chunk_size (size_line (take (22 - 6) (drop 6 back_jump))) 0 False = Some (0xFFFFFFFFFFFFFFEC, True)"
    by (simp add: back_jump_chars size_line_def hex_char_val_def)
  moreover have "(word_of_nat 24 + 0xFFFFFFFFFFFFFFEC :: u64) = 4" by simp
  moreover have "drop 24 back_jump = []" "length back_jump = 24" "take 2 (drop 4 back_jump) = crlf"
    by (simp_all add: back_jump_chars crlf_def)
  ultimately show ?thesis by (simp add: dechunk_loop.simps(2))
qed

lemma back_jump_start: "dechunk_loop (Suc fuel) back_jump 0 out = dechunk_loop fuel back_jump 6 (out @ ''A'')"
proof -
  have "find_from back_jump crlf 0 = Some 1" by (simp add: back_jump_chars find_from_def crlf_def)
  moreover have "chunk_size (size_line (take (1 - 0) (drop 0 back_jump))) 0 False = Some (1, True)"
    by (simp add: back_jump_chars size_line_def hex_char_val_def)
  moreover have "take 1 (drop 3 back_jump) = ''A''" "length back_jump = 24" "take 2 (drop 4 back_jump) = crlf"
    by (simp_all add: back_jump_chars crlf_def)
  ultimately show ?thesis by (simp add: dechunk_loop.simps(2) numeral_3_eq_3)
qed

section \<open>Properties\<close>

text \<open>C16: \<open>dechunk\<close> is both decoder and completeness test: of the chunked coding of any sequence of non-empty chunks, whatever follows it, it returns exactly their concatenation, and on every proper prefix of the coding it reports that the body is not complete; one turn per chunk is enough.\<close>

theorem dechunk_exact:
  assumes "list_all (\<lambda>c. c \<noteq> []) cs" and "length (encode_chunks cs @ rest) < 2 ^ 64" and "length cs < fuel"
    and "k < length (encode_chunks cs)"
  shows "dechunk fuel (encode_chunks cs @ rest) [] = Some (True, concat cs) \<and>
    map_option fst (dechunk fuel (take k (encode_chunks cs)) []) = Some False"
  using dechunk_decodes [OF assms(1), of "[]" rest fuel "[]"] dechunk_waits [OF assms(1), of "[]" fuel k "[]"] assms(2-4)
  by (auto simp: dechunk_def)

lemma dechunk_exact_witness:
  "dechunk 3 (encode_chunks [''<html>'', ''x''] @ crlf) [] = Some (True, ''<html>x'') \<and>
   map_option fst (dechunk 3 (take 4 (encode_chunks [''<html>'', ''x''])) []) = Some False"
proof -
  have l: "length (encode_chunks [''<html>'', ''x''] @ crlf) = 22" "4 < length (encode_chunks [''<html>'', ''x''])"
    by (simp_all add: encode_chunks_def encode_chunk_def last_chunk_def hex_digits.simps hex_digit_def)
  show ?thesis
    using dechunk_exact [of "[''<html>'', ''x'']" crlf 3 4, unfolded l(1)] l(2) by simp
qed

text \<open>C17: \<open>dechunk\<close> does not return on every input: the test \<open>pos + size > in.size()\<close> wraps, and after the 24 bytes \<open>1 CRLF A CRLF FFFFFFFFFFFFFFEC CRLF\<close> the position goes back to the end of the first chunk for ever, so no number of turns ends the loop and a server can hang the client with one page.\<close>

theorem dechunk_hangs: "dechunk fuel back_jump [] = None"
proof -
  have "dechunk_loop f back_jump 6 out = None" for f out
    by (induction f) (simp_all add: back_jump_turn)
  then show ?thesis by (cases fuel) (simp_all add: dechunk_def back_jump_start)
qed

end
