(* ===== verification/Ribcl.thy ===== *)
theory Ribcl
  imports Http
begin

text \<open>
  \<open>ilo/ribcl.hpp\<close>: the commands and their documents, the attribute scanner, what is made of a reply,
  and the exchange. \<open>ribcl_exchange\<close> is a template over the client, so it takes the client's \<open>send\<close>
  and \<open>recv\<close> as a record; \<open>ribcl_run\<close> instantiates them with the model of \<open>ClientT\<close>. The pause after
  the prolog has no effect in the model.
\<close>

unbundle bit_operations_syntax

section \<open>Documents\<close>

definition esc_char :: "char \<Rightarrow> string" where
  "esc_char ch =
     (if ch = CHR ''&'' then ''&amp;'' else if ch = CHR ''<'' then ''&lt;'' else if ch = CHR ''>'' then ''&gt;''
      else if ch = CHR 0x22 then ''&quot;'' else if ch = CHR 0x27 then ''&apos;'' else [ch])"

definition xml_attr_escape :: "string \<Rightarrow> string" where
  "xml_attr_escape s = concat (map esc_char s)"

datatype ribcl_command =
    GetPowerStatus | GetEmbeddedHealth | GetPowerReadings | GetOneTimeBoot
  | GetVmStatus | GetFwVersion
  | PowerOn | PowerOff | ForcePowerOff | Reset | ColdBoot | UidOn | UidOff | SetOneTimeBoot
  | InsertVirtualMedia | EjectVirtualMedia | SetVmBootOption

record ribcl_args =
  arg_device :: string
  arg_image_url :: string
  arg_boot_option :: string
  arg_boot_device :: string

definition no_args :: ribcl_args where
  "no_args = \<lparr>arg_device = '''', arg_image_url = '''', arg_boot_option = '''', arg_boot_device = ''''\<rparr>"

definition ribcl_is_write :: "ribcl_command \<Rightarrow> bool" where
  "ribcl_is_write c \<longleftrightarrow>
     c \<notin> {GetPowerStatus, GetEmbeddedHealth, GetPowerReadings, GetOneTimeBoot, GetVmStatus, GetFwVersion}"

definition ribcl_wrapper :: "ribcl_command \<Rightarrow> string" where
  "ribcl_wrapper c =
     (if c \<in> {GetVmStatus, GetFwVersion, InsertVirtualMedia, EjectVirtualMedia, SetVmBootOption}
      then ''RIB_INFO'' else ''SERVER_INFO'')"

fun ribcl_command_name :: "ribcl_command \<Rightarrow> string" where
  "ribcl_command_name GetPowerStatus = ''power status''"
| "ribcl_command_name GetEmbeddedHealth = ''health''"
| "ribcl_command_name GetPowerReadings = ''power readings''"
| "ribcl_command_name GetOneTimeBoot = ''one-time boot''"
| "ribcl_command_name GetVmStatus = ''virtual media status''"
| "ribcl_command_name GetFwVersion = ''firmware version''"
| "ribcl_command_name PowerOn = ''power on''"
| "ribcl_command_name PowerOff = ''power off''"
| "ribcl_command_name ForcePowerOff = ''force power off''"
| "ribcl_command_name Reset = ''reset''"
| "ribcl_command_name ColdBoot = ''cold boot''"
| "ribcl_command_name UidOn = ''UID on''"
| "ribcl_command_name UidOff = ''UID off''"
| "ribcl_command_name SetOneTimeBoot = ''set one-time boot''"
| "ribcl_command_name InsertVirtualMedia = ''insert virtual media''"
| "ribcl_command_name EjectVirtualMedia = ''eject virtual media''"
| "ribcl_command_name SetVmBootOption = ''set virtual media boot option''"

definition or_default :: "string \<Rightarrow> string \<Rightarrow> string" where
  "or_default s d = (if s = [] then d else s)"

text \<open>The element inside the wrapper.\<close>

fun ribcl_inner :: "ribcl_command \<Rightarrow> ribcl_args \<Rightarrow> string" where
  "ribcl_inner GetPowerStatus args = ''<GET_HOST_POWER_STATUS/>''"
| "ribcl_inner GetEmbeddedHealth args = ''<GET_EMBEDDED_HEALTH/>''"
| "ribcl_inner GetPowerReadings args = ''<GET_POWER_READINGS/>''"
| "ribcl_inner GetOneTimeBoot args = ''<GET_ONE_TIME_BOOT/>''"
| "ribcl_inner GetFwVersion args = ''<GET_FW_VERSION/>''"
| "ribcl_inner PowerOn args = ''<SET_HOST_POWER HOST_POWER=\"Yes\"/>''"
| "ribcl_inner PowerOff args = ''<SET_HOST_POWER HOST_POWER=\"No\"/>''"
| "ribcl_inner ForcePowerOff args = ''<HOLD_PWR_BTN/>''"
| "ribcl_inner Reset args = ''<RESET_SERVER/>''"
| "ribcl_inner ColdBoot args = ''<COLD_BOOT_SERVER/>''"
| "ribcl_inner UidOn args = ''<UID_CONTROL UID=\"Yes\"/>''"
| "ribcl_inner UidOff args = ''<UID_CONTROL UID=\"No\"/>''"
| "ribcl_inner GetVmStatus args =
     ''<GET_VM_STATUS DEVICE=\"'' @ xml_attr_escape (or_default (arg_device args) ''CDROM'') @ ''\"/>''"
| "ribcl_inner InsertVirtualMedia args =
     ''<INSERT_VIRTUAL_MEDIA DEVICE=\"'' @ xml_attr_escape (or_default (arg_device args) ''CDROM'') @
     ''\" IMAGE_URL=\"'' @ xml_attr_escape (arg_image_url args) @ ''\"/>''"
| "ribcl_inner EjectVirtualMedia args =
     ''<EJECT_VIRTUAL_MEDIA DEVICE=\"'' @ xml_attr_escape (or_default (arg_device args) ''CDROM'') @ ''\"/>''"
| "ribcl_inner SetVmBootOption args =
     ''<SET_VM_STATUS DEVICE=\"'' @ xml_attr_escape (or_default (arg_device args) ''CDROM'') @ ''\">'' @ crlf @
     ''<VM_BOOT_OPTION VALUE=\"'' @ xml_attr_escape (or_default (arg_boot_option args) ''NO_BOOT'') @
     ''\"/>'' @ crlf @ ''</SET_VM_STATUS>''"
| "ribcl_inner SetOneTimeBoot args =
     ''<SET_ONE_TIME_BOOT value=\"'' @ xml_attr_escape (or_default (arg_boot_device args) ''NORMAL'') @ ''\"/>''"

definition ribcl_body :: "ribcl_command \<Rightarrow> ribcl_args \<Rightarrow> string" where
  "ribcl_body c args =
     ''<'' @ ribcl_wrapper c @ '' MODE=\"'' @ (if ribcl_is_write c then ''write'' else ''read'') @ ''\">'' @ crlf @
     ribcl_inner c args @ crlf @ ''</'' @ ribcl_wrapper c @ ''>''"

definition ribcl_prolog :: string where
  "ribcl_prolog = ''<?xml version=\"1.0\"?>'' @ crlf"

definition ribcl_document :: "string \<Rightarrow> string \<Rightarrow> string \<Rightarrow> string" where
  "ribcl_document user pass b =
     ''<RIBCL VERSION=\"2.0\">'' @ crlf @
     ''<LOGIN USER_LOGIN=\"'' @ xml_attr_escape user @ ''\" PASSWORD=\"'' @ xml_attr_escape pass @ ''\">'' @ crlf @
     b @ crlf @ ''</LOGIN>'' @ crlf @ ''</RIBCL>'' @ crlf"

section \<open>Replies\<close>

definition is_xml_space :: "char \<Rightarrow> bool" where
  "is_xml_space c \<longleftrightarrow> c = CHR '' '' \<or> c = CHR 0x09 \<or> c = CHR 0x0D \<or> c = CHR 0x0A"

definition is_name_char :: "char \<Rightarrow> bool" where
  "is_name_char c \<longleftrightarrow> (let n = of_char c :: nat
     in 65 \<le> n \<and> n \<le> 90 \<or> 97 \<le> n \<and> n \<le> 122 \<or> 48 \<le> n \<and> n \<le> 57) \<or> c = CHR ''_'' \<or> c = CHR ''-''"

lemma after_shorter: "name \<noteq> [] \<Longrightarrow> find_str name s = Some k \<Longrightarrow> length (drop (k + length name) s) < length s"
  using find_str_Some [of name s k] by (cases name) auto

lemma value_shorter:
  assumes "length after < length s" and "i = dropWhile P after" and "j = dropWhile Q (tl i)"
  shows "length (drop n (tl j)) < length s"
proof -
  have "length j \<le> length (tl i)" unfolding assms(3) by (rule length_dropWhile_le)
  moreover have "length i \<le> length after" unfolding assms(2) by (rule length_dropWhile_le)
  ultimately show ?thesis using assms(1) by simp
qed

text \<open>
  The loop of \<open>ribcl_attr_values\<close> on what is left of the document; \<open>glued\<close> says that a name character
  comes right before it. The names searched for are not empty.
\<close>

function attr_values :: "string \<Rightarrow> bool \<Rightarrow> string \<Rightarrow> string list" where
  "attr_values name glued s =
     (if name = [] then []
      else (case find_str name s of
              None \<Rightarrow> []
            | Some start \<Rightarrow>
                (let after = drop (start + length name) s;
                     i = dropWhile is_xml_space after
                 in if (if start = 0 then glued else is_name_char (s ! (start - 1)))
                    then attr_values name (is_name_char (last name)) after
                    else if after \<noteq> [] \<and> is_name_char (hd after)
                    then attr_values name (is_name_char (last name)) after
                    else if i = [] \<or> hd i \<noteq> CHR ''=''
                    then attr_values name (is_name_char (last name)) after
                    else (let i = dropWhile is_xml_space (tl i)
                          in if i = [] then []
                             else if hd i \<noteq> CHR 0x22 \<and> hd i \<noteq> CHR 0x27
                             then attr_values name (is_name_char (last name)) after
                             else (case find_str [hd i] (tl i) of
                                     None \<Rightarrow> []
                                   | Some stop \<Rightarrow> take stop (tl i) # attr_values name False (drop (stop + 1) (tl i)))))))"
  by pat_completeness auto

termination
  by (relation "measure (\<lambda>(name, glued, s). length s)")
    (auto simp del: length_drop intro: after_shorter value_shorter)

declare attr_values.simps [simp del]

definition ribcl_attr_values :: "string \<Rightarrow> string \<Rightarrow> string list" where
  "ribcl_attr_values doc name = attr_values name False doc"

text \<open>\<open>strtoul(s, nullptr, 0)\<close>: hexadecimal after \<open>0x\<close>, octal after \<open>0\<close>, decimal otherwise.\<close>

definition alnum_val :: "char \<Rightarrow> nat" where
  "alnum_val c =
     (let n = of_char c :: nat
      in if 48 \<le> n \<and> n \<le> 57 then n - 48 else if 97 \<le> n \<and> n \<le> 122 then n - 87
         else if 65 \<le> n \<and> n \<le> 90 then n - 55 else 36)"

definition radix_of :: "string \<Rightarrow> nat \<times> string" where
  "radix_of s =
     (if length s \<ge> 3 \<and> hd s = CHR ''0'' \<and> (s ! 1 = CHR ''x'' \<or> s ! 1 = CHR ''X'') \<and> alnum_val (s ! 2) < 16
      then (16, drop 2 s)
      else if s \<noteq> [] \<and> hd s = CHR ''0'' then (8, s) else (10, s))"

definition strtoul0 :: "string \<Rightarrow> nat" where
  "strtoul0 s =
     (let s = dropWhile is_c_space s;
          (neg, s) = (case s of c # cs \<Rightarrow> if c = CHR ''-'' then (True, cs) else if c = CHR ''+'' then (False, cs) else (False, s)
                      | [] \<Rightarrow> (False, s));
          (radix, s) = radix_of s;
          v = foldl (\<lambda>a c. radix * a + alnum_val c) 0 (takeWhile (\<lambda>c. alnum_val c < radix) s)
      in if v \<ge> 2 ^ 64 then 2 ^ 64 - 1 else if neg \<and> v > 0 then 2 ^ 64 - v else v)"

record ribcl_reply =
  rr_raw :: string
  rr_ok :: bool
  rr_message :: string
  rr_host_power :: string

definition ribcl_parse :: "string \<Rightarrow> ribcl_reply" where
  "ribcl_parse raw =
     (let statuses = ribcl_attr_values raw ''STATUS'';
          messages = ribcl_attr_values raw ''MESSAGE'';
          power = ribcl_attr_values raw ''HOST_POWER''
      in \<lparr>rr_raw = raw,
          rr_ok = (statuses \<noteq> [] \<and> list_all (\<lambda>s. strtoul0 s = 0) statuses),
          rr_message = (case find (\<lambda>m. m \<noteq> ''No error'') messages of None \<Rightarrow> '''' | Some m \<Rightarrow> m),
          rr_host_power = (if power = [] then '''' else last power)\<rparr>)"

text \<open>The text of an element, from its opening up to the first \<open>/>\<close>, and its first attribute of a name.\<close>

definition element_of :: "string \<Rightarrow> string \<Rightarrow> string option" where
  "element_of opening raw =
     (case find_str opening raw of
        None \<Rightarrow> None
      | Some a \<Rightarrow> (case find_from raw ''/>'' a of None \<Rightarrow> None | Some b \<Rightarrow> Some (take (b - a) (drop a raw))))"

definition first_attr :: "string \<Rightarrow> string \<Rightarrow> string" where
  "first_attr el name = (case ribcl_attr_values el name of [] \<Rightarrow> '''' | v # vs \<Rightarrow> v)"

record vm_status =
  vm_valid :: bool
  vm_applet :: string
  vm_device :: string
  vm_boot_option :: string
  vm_write_protect :: bool
  vm_image_inserted :: bool
  vm_image_url :: string

definition vm_status_none :: vm_status where
  "vm_status_none = \<lparr>vm_valid = False, vm_applet = '''', vm_device = '''', vm_boot_option = '''', vm_write_protect = False,
     vm_image_inserted = False, vm_image_url = ''''\<rparr>"

definition parse_vm_status :: "string \<Rightarrow> vm_status" where
  "parse_vm_status raw =
     (case element_of ''<GET_VM_STATUS'' raw of
        None \<Rightarrow> vm_status_none
      | Some el \<Rightarrow>
          \<lparr>vm_valid = (first_attr el ''DEVICE'' \<noteq> ''''), vm_applet = first_attr el ''VM_APPLET'', vm_device = first_attr el ''DEVICE'',
           vm_boot_option = first_attr el ''BOOT_OPTION'', vm_write_protect = (first_attr el ''WRITE_PROTECT'' = ''YES''),
           vm_image_inserted = (first_attr el ''IMAGE_INSERTED'' = ''YES''), vm_image_url = first_attr el ''IMAGE_URL''\<rparr>)"

record fw_info =
  fw_valid :: bool
  fw_version :: string
  fw_date :: string
  fw_processor :: string
  fw_license :: string

definition fw_info_none :: fw_info where
  "fw_info_none = \<lparr>fw_valid = False, fw_version = '''', fw_date = '''', fw_processor = '''', fw_license = ''''\<rparr>"

definition parse_fw_version :: "string \<Rightarrow> fw_info" where
  "parse_fw_version raw =
     (case element_of ''<GET_FW_VERSION'' raw of
        None \<Rightarrow> fw_info_none
      | Some el \<Rightarrow>
          \<lparr>fw_valid = (first_attr el ''FIRMWARE_VERSION'' \<noteq> ''''), fw_version = first_attr el ''FIRMWARE_VERSION'',
           fw_date = first_attr el ''FIRMWARE_DATE'', fw_processor = first_attr el ''MANAGEMENT_PROCESSOR'',
           fw_license = first_attr el ''LICENSE_TYPE''\<rparr>)"

definition vm_scripting_licensed :: "fw_info \<Rightarrow> bool" where
  "vm_scripting_licensed f \<longleftrightarrow> fw_valid f \<and> find_str ''Advanced'' (fw_license f) \<noteq> None"

definition ribcl_reply_complete :: "string \<Rightarrow> bool" where
  "ribcl_reply_complete raw \<longleftrightarrow>
     find_str ''HOST_POWER='' raw \<noteq> None \<or> find_str ''</GET_EMBEDDED_HEALTH_DATA>'' raw \<noteq> None \<or>
     find_str ''</GET_POWER_READINGS>'' raw \<noteq> None \<or> find_str ''IMAGE_URL='' raw \<noteq> None \<or>
     find_str ''LICENSE_TYPE='' raw \<noteq> None \<or> find_str ''</GET_ONE_TIME_BOOT>'' raw \<noteq> None"

section \<open>The exchange\<close>

record 'c tls_peer =
  peer_send :: "bytes \<Rightarrow> 'c \<Rightarrow> unit reply \<times> 'c"
  peer_recv :: "'c \<Rightarrow> (bytes + bool \<times> string) reply \<times> 'c"

text \<open>The reading loop; fuel, since a peer may send empty records for ever.\<close>

fun read_reply :: "'c tls_peer \<Rightarrow> (string \<Rightarrow> bool) \<Rightarrow> nat \<Rightarrow> string \<Rightarrow> 'c \<Rightarrow> string reply \<times> 'c" where
  "read_reply P complete 0 raw c = (Stuck, c)"
| "read_reply P complete (Suc fuel) raw c =
     (case peer_recv P c of
        (Got (Inr (ended, e)), c) \<Rightarrow> if ended \<or> raw \<noteq> [] then (Got raw, c) else (Error e, c)
      | (Got (Inl chunk), c) \<Rightarrow>
          (let raw = raw @ chars chunk
           in if complete raw then (Got raw, c)
              else if length raw > 2 ^ 20 then (Error ''RIBCL reply too large'', c)
              else read_reply P complete fuel raw c)
      | (Error e, c) \<Rightarrow> (Error e, c)
      | (Stuck, c) \<Rightarrow> (Stuck, c)
      | (Crash, c) \<Rightarrow> (Crash, c))"

definition peer_then :: "('a reply \<times> 'c) \<Rightarrow> ('a \<Rightarrow> 'c \<Rightarrow> 'b reply \<times> 'c) \<Rightarrow> 'b reply \<times> 'c" where
  "peer_then m f =
     (case m of (Got x, c) \<Rightarrow> f x c | (Error e, c) \<Rightarrow> (Error e, c) | (Stuck, c) \<Rightarrow> (Stuck, c) | (Crash, c) \<Rightarrow> (Crash, c))"

definition ribcl_exchange ::
  "'c tls_peer \<Rightarrow> nat \<Rightarrow> string \<Rightarrow> string \<Rightarrow> string \<Rightarrow> (string \<Rightarrow> bool) \<Rightarrow> 'c \<Rightarrow> string reply \<times> 'c" where
  "ribcl_exchange P fuel user pass b complete c =
     peer_then (peer_send P (ascii ribcl_prolog) c) (\<lambda>_ c.
     peer_then (peer_send P (ascii (ribcl_document user pass b)) c) (\<lambda>_ c.
     read_reply P complete fuel [] c))"

definition client_peer :: "'t transport \<Rightarrow> nat \<Rightarrow> ('t, 'r) client tls_peer" where
  "client_peer TP fuel = \<lparr>peer_send = client_send TP, peer_recv = client_recv TP fuel\<rparr>"

text \<open>\<open>patience ms\<close> is \<open>set_recv_timeout\<close> of the transport.\<close>

definition ribcl_run ::
  "'t transport \<Rightarrow> (int \<Rightarrow> 't \<Rightarrow> 't) \<Rightarrow> 'r rng \<Rightarrow> nat \<Rightarrow> string \<Rightarrow> u16 \<Rightarrow> string \<Rightarrow> string \<Rightarrow> ribcl_command \<Rightarrow> ribcl_args \<Rightarrow>
   't \<times> 'r \<Rightarrow> ribcl_reply reply \<times> ('t \<times> 'r)" where
  "ribcl_run TP patience rng fuel host port user pass cmd args w =
     (let (s, r) = w;
          (res, c) = peer_then (client_connect TP rng fuel host port (client_new VERSION_TLS_1_0 8000 0 s r)) (\<lambda>_ c.
            let media = (ribcl_wrapper cmd = ''RIB_INFO'' \<and> ribcl_is_write cmd);
                c = c\<lparr>sock := patience (if media then 5000 else 1000) (sock c)\<rparr>;
                (res, c) = ribcl_exchange (client_peer TP fuel) fuel user pass (ribcl_body cmd args) ribcl_reply_complete c
            in (res, client_close TP c))
      in (case res of
            Got raw \<Rightarrow> if raw = [] then Error ''no RIBCL reply'' else Got (ribcl_parse raw)
          | Error e \<Rightarrow> Error e
          | Stuck \<Rightarrow> Stuck
          | Crash \<Rightarrow> Crash, (sock c, rand c)))"

end
