(* ===== verification/Ribcl_Replies.thy ===== *)
theory Ribcl_Replies
  imports Ribcl
begin

text \<open>
  What \<open>ilo/ribcl.hpp\<close> makes of replies and of the texts it is given. A reply is described as a list of
  pieces, junk and attributes; the scanner's result on the text of the pieces is the list of the
  attributes of the name, in order. From this: the verdict on a whole reply, and what happens when
  the reading stops in the middle of one.
\<close>

section \<open>Texts as pieces\<close>

datatype piece = Junk string | Attribute string string string char string

fun piece_text :: "piece \<Rightarrow> string" where
  "piece_text (Junk j) = j"
| "piece_text (Attribute n b1 b2 q v) = n @ (b1 @ [CHR ''=''] @ b2 @ [q]) @ (v @ [q])"

definition pieces_text :: "piece list \<Rightarrow> string" where
  "pieces_text ps = concat (map piece_text ps)"

fun values_of :: "string \<Rightarrow> piece list \<Rightarrow> string list" where
  "values_of name [] = []"
| "values_of name (Junk j # ps) = values_of name ps"
| "values_of name (Attribute n b1 b2 q v # ps) = (if n = name then v # values_of name ps else values_of name ps)"

text \<open>Junk holds no \<open>=\<close> and ends outside a name; a value holds neither \<open>=\<close> nor its own quote.\<close>

definition detached :: "string \<Rightarrow> bool" where
  "detached s \<longleftrightarrow> s = [] \<or> hd s \<noteq> CHR ''='' \<and> \<not> is_xml_space (hd s)"

definition junk :: "string \<Rightarrow> string \<Rightarrow> bool" where
  "junk j s \<longleftrightarrow> j \<noteq> [] \<and> CHR ''='' \<notin> set j \<and> \<not> is_name_char (last j) \<and> (is_xml_space (last j) \<longrightarrow> detached s)"

definition a_name :: "string \<Rightarrow> bool" where
  "a_name n \<longleftrightarrow> n \<noteq> [] \<and> list_all is_name_char n"

definition attribute :: "string \<Rightarrow> string \<Rightarrow> string \<Rightarrow> char \<Rightarrow> string \<Rightarrow> bool" where
  "attribute n b1 b2 q v \<longleftrightarrow> a_name n \<and> list_all is_xml_space b1 \<and> list_all is_xml_space b2 \<and> (q = CHR 0x22 \<or> q = CHR 0x27) \<and>
     q \<notin> set v \<and> CHR ''='' \<notin> set v"

fun well_placed :: "piece list \<Rightarrow> string \<Rightarrow> bool" where
  "well_placed [] s \<longleftrightarrow> True"
| "well_placed (Junk j # ps) s \<longleftrightarrow> junk j (pieces_text ps @ s) \<and> well_placed ps s"
| "well_placed (Attribute n b1 b2 q v # ps) s \<longleftrightarrow> attribute n b1 b2 q v \<and> well_placed ps s"

lemma special_chars [simp]:
  "\<not> is_name_char (CHR ''='')" "\<not> is_name_char (CHR 0x22)" "\<not> is_name_char (CHR 0x27)"
  "\<not> is_xml_space (CHR ''='')" "\<not> is_xml_space (CHR 0x22)" "\<not> is_xml_space (CHR 0x27)"
  by (simp_all add: is_name_char_def is_xml_space_def)

lemma space_name: "is_xml_space c \<Longrightarrow> \<not> is_name_char c"
  by (auto simp: is_name_char_def is_xml_space_def)

section \<open>The scanner on pieces\<close>

text \<open>The scanner skips a front in which the name does not begin.\<close>

lemma attr_values_shift:
  assumes "name \<noteq> []" and "j \<noteq> []" and "\<And>m. m < length j \<Longrightarrow> \<not> prefix name (drop m (j @ s))"
  shows "attr_values name glued (j @ s) = attr_values name (is_name_char (last j)) s"
proof -
  have f: "find_str name (j @ s) = map_option ((+) (length j)) (find_str name s)" by (rule find_str_beyond) (rule assms(3))
  have c: "(if length j + k = 0 then glued else is_name_char ((j @ s) ! (length j + k - 1))) =
      (if k = 0 then is_name_char (last j) else is_name_char (s ! (k - 1)))" for k
    using assms(2) by (auto simp: nth_append last_conv_nth)
  show ?thesis
  proof (cases "find_str name s")
    case None
    with f show ?thesis by (simp add: attr_values.simps [of name])
  next
    case (Some k)
    then have "find_str name (j @ s) = Some (length j + k)" using f by simp
    with Some show ?thesis
      unfolding attr_values.simps [of name glued "j @ s"] attr_values.simps [of name "is_name_char (last j)" s]
      by (simp only: option.case c) (simp add: add.assoc)
  qed
qed

text \<open>A turn that rejects its hit.\<close>

lemma attr_values_reject:
  assumes "name \<noteq> []" and "find_str name s = Some k"
    and "(if k = 0 then glued else is_name_char (s ! (k - 1))) \<or>
      drop (k + length name) s \<noteq> [] \<and> is_name_char (hd (drop (k + length name) s)) \<or>
      dropWhile is_xml_space (drop (k + length name) s) = [] \<or>
      hd (dropWhile is_xml_space (drop (k + length name) s)) \<noteq> CHR ''=''"
  shows "attr_values name glued s = attr_values name (is_name_char (last name)) (drop (k + length name) s)"
proof -
  define after where "after = drop (k + length name) s"
  define b where "b = (if k = 0 then glued else is_name_char (s ! (k - 1)))"
  have "b \<or> after \<noteq> [] \<and> is_name_char (hd after) \<or> dropWhile is_xml_space after = [] \<or>
      hd (dropWhile is_xml_space after) \<noteq> CHR ''=''"
    using assms(3) by (simp only: after_def b_def)
  then show ?thesis
    unfolding attr_values.simps [of name glued s] assms(2) option.case Let_def after_def [symmetric] b_def [symmetric]
    using assms(1) by (simp only: if_True if_False split: if_split) blast
qed

lemma prefix_nth: "prefix p s \<Longrightarrow> i < length p \<Longrightarrow> p ! i = s ! i \<and> i < length s"
  by (auto simp: prefix_def nth_append)

lemma prefix_inside:
  assumes "prefix name (drop m (j @ s))" and "m < length j" and "length j < m + length name"
  shows "name ! (length j - 1 - m) = last j \<and> length j - m < length name \<and> s \<noteq> [] \<and> name ! (length j - m) = hd s"
proof -
  have a: "length j - 1 - m < length name" "length j - m < length name" using assms(2,3) by simp_all
  note n = prefix_nth [OF assms(1) a(1)] prefix_nth [OF assms(1) a(2)]
  have "drop m (j @ s) ! (length j - 1 - m) = j ! (length j - 1)" 
    using assms(2) by (simp add: nth_append del: One_nat_def) auto
  moreover have "j ! (length j - 1) = last j" using assms(2) by (intro last_conv_nth [symmetric]) auto
  moreover have "drop m (j @ s) ! (length j - m) = s ! 0" using assms(2) by (simp add: nth_append)
  moreover have "s \<noteq> []" using n(2) assms(2) by auto
  ultimately show ?thesis using n a by (simp add: hd_conv_nth)
qed

lemma found: "m < length j \<Longrightarrow> prefix name (drop m (j @ s)) \<Longrightarrow> \<exists>k. find_str name (j @ s) = Some k \<and> k < length j"
proof -
  assume m: "m < length j" "prefix name (drop m (j @ s))"
  then have "find_str name (j @ s) \<noteq> None" unfolding find_str_None by (intro notI) (drule spec [of _ m], simp)
  then obtain k where k: "find_str name (j @ s) = Some k" by blast
  with find_str_Some [OF k] m show ?thesis by (intro exI [of _ k]) (metis linorder_neqE_nat less_trans)
qed

text \<open>Characters that are not of names are skipped.\<close>

lemma attr_values_blank:
  assumes "a_name name" and "j \<noteq> []" and "list_all (\<lambda>c. \<not> is_name_char c) j"
  shows "attr_values name glued (j @ s) = attr_values name False s"
proof -
  have "\<not> prefix name (drop m (j @ s))" if "m < length j" for m
  proof
    assume "prefix name (drop m (j @ s))"
    then have "hd name = j ! m"
      using prefix_nth [of name "drop m (j @ s)" 0] assms(1) that by (simp add: a_name_def hd_conv_nth nth_append)
    moreover have "is_name_char (hd name)" using assms(1) by (cases name) (simp_all add: a_name_def)
    moreover have "\<not> is_name_char (j ! m)" using assms(3) that by (simp add: list_all_length)
    ultimately show False by simp
  qed
  then have "attr_values name glued (j @ s) = attr_values name (is_name_char (last j)) s"
    using assms(1,2) by (intro attr_values_shift) (auto simp: a_name_def)
  moreover have "\<not> is_name_char (last j)" using assms(2,3) by (simp add: list_all_iff)
  ultimately show ?thesis by simp
qed

lemma last_name: "a_name n \<Longrightarrow> is_name_char (last n)"
  by (simp add: a_name_def list_all_iff)

lemma hd_dropWhile_set: "dropWhile P xs \<noteq> [] \<Longrightarrow> hd (dropWhile P xs) \<in> set xs"
  by (metis dropWhile_eq_drop hd_in_set in_set_dropD)

text \<open>A hit inside junk is rejected.\<close>

lemma attr_values_junk:
  assumes "a_name name"
  shows "junk j s \<Longrightarrow> attr_values name glued (j @ s) = attr_values name False s"
proof (induction "length j" arbitrary: j glued rule: less_induct)
  case less
  note j = less.prems [unfolded junk_def]
  have name: "name \<noteq> []" using assms by (simp add: a_name_def)
  show ?case
  proof (cases "\<exists>m<length j. prefix name (drop m (j @ s))")
    case False
    then have "attr_values name glued (j @ s) = attr_values name (is_name_char (last j)) s"
      using name j by (intro attr_values_shift) auto
    then show ?thesis using j by simp
  next
    case True
    then obtain k where k: "find_str name (j @ s) = Some k" and kj: "k < length j" using found by blast
    note f = find_str_Some [OF k]
    have kl: "k + length name \<le> length j"
    proof (rule ccontr)
      assume "\<not> k + length name \<le> length j"
      then have "name ! (length j - 1 - k) = last j" "length j - 1 - k < length name"
        using prefix_inside [of name k j s] f kj by auto
      then show False using assms j by (metis a_name_def list_all_length)
    qed
    let ?j = "drop (k + length name) j"
    have ne: "?j \<noteq> []"
    proof
      assume "?j = []"
      then have "k + length name = length j" using kl by simp
      moreover have "prefix name (drop k j @ s)" using f kj by simp
      ultimately have "prefix name (drop k j @ s)" "length (drop k j) = length name" by simp_all
      then have "drop k j = name" by (auto simp: prefix_def)
      then have "j = take k j @ name" using append_take_drop_id [of k j] by simp
      then have "last j = last name" using name by (metis last_append)
      then show False using j last_name [OF assms] by simp
    qed
    have after: "drop (k + length name) (j @ s) = ?j @ s" using kl by simp
    have jj: "junk ?j s" using j ne by (auto simp: junk_def dest: in_set_dropD)
    have i: "dropWhile is_xml_space (?j @ s) = [] \<or> hd (dropWhile is_xml_space (?j @ s)) \<noteq> CHR ''=''"
    proof (cases "\<forall>c\<in>set ?j. is_xml_space c")
      case True
      then have "detached s" "dropWhile is_xml_space (?j @ s) = dropWhile is_xml_space s"
        using j ne last_in_set [OF ne] by (auto simp: dropWhile_append2 junk_def)
      then show ?thesis by (cases s) (auto simp: detached_def)
    next
      case False
      then have "dropWhile is_xml_space (?j @ s) = dropWhile is_xml_space ?j @ s" "dropWhile is_xml_space ?j \<noteq> []"
        by (auto simp: dropWhile_append1)
      then show ?thesis using hd_dropWhile_set [of is_xml_space ?j] j by (auto dest: in_set_dropD)
    qed
    have "attr_values name glued (j @ s) = attr_values name (is_name_char (last name)) (?j @ s)"
      using attr_values_reject [OF name k, of glued] i by (simp only: after simp_thms)
    also have "\<dots> = attr_values name False s"
      using jj kl name by (intro less.hyps) (cases name; simp)
    finally show ?thesis .
  qed
qed

text \<open>Another attribute's name is skipped, even when the name searched for is a part of it.\<close>

lemma attr_values_name:
  assumes "a_name name" and "s = [] \<or> \<not> is_name_char (hd s)"
  shows "a_name n \<Longrightarrow> glued \<or> n \<noteq> name \<Longrightarrow> attr_values name glued (n @ s) = attr_values name True s"
proof (induction "length n" arbitrary: n glued rule: less_induct)
  case less
  have name: "name \<noteq> []" using assms by (simp add: a_name_def)
  have n: "n \<noteq> []" "list_all is_name_char n" using less.prems by (simp_all add: a_name_def)
  show ?case
  proof (cases "\<exists>m<length n. prefix name (drop m (n @ s))")
    case False
    then have "attr_values name glued (n @ s) = attr_values name (is_name_char (last n)) s"
      using name n by (intro attr_values_shift) auto
    then show ?thesis using last_name [OF less.prems(1)] by simp
  next
    case True
    then obtain k where k: "find_str name (n @ s) = Some k" and kj: "k < length n" using found by blast
    note f = find_str_Some [OF k]
    have kl: "k + length name \<le> length n"
    proof (rule ccontr)
      assume "\<not> k + length name \<le> length n"
      then have "length n - k < length name" "s \<noteq> []" "name ! (length n - k) = hd s"
        using prefix_inside [of name k n s] f kj by auto
      then show False using assms by (metis a_name_def list_all_length)
    qed
    let ?n = "drop (k + length name) n"
    have after: "drop (k + length name) (n @ s) = ?n @ s" using kl by simp
    have "attr_values name glued (n @ s) = attr_values name (is_name_char (last name)) (?n @ s)"
    proof (cases "k = 0 \<and> \<not> glued")
      case False
      then have "if k = 0 then glued else is_name_char ((n @ s) ! (k - 1))"
        using n kj by (auto simp: nth_append list_all_length)
      from attr_values_reject [OF name k disjI1 [OF this]] show ?thesis unfolding after .
    next
      case True
      then have "prefix name (n @ s)" using f by simp
      then have "take (length name) n = name" using kl True by (auto simp: prefix_def append_eq_append_conv_if split: if_splits)
      then have "?n \<noteq> []" using True less.prems(2) by auto
      moreover from this have "is_name_char (hd (?n @ s))"
        using n(2) in_set_dropD [OF hd_in_set [of ?n]] by (simp add: list_all_iff)
      ultimately show ?thesis using attr_values_reject [OF name k, of glued] after by simp
    qed
    also have "\<dots> = attr_values name True (?n @ s)" using last_name [OF assms(1)] by simp
    also have "\<dots> = attr_values name True s"
    proof (cases "?n = []")
      case False
      then have "a_name ?n" using n(2) by (auto simp: a_name_def list_all_iff dest: in_set_dropD)
      then show ?thesis using False name kl by (intro less.hyps) (cases name; simp)+
    qed simp
    finally show ?thesis .
  qed
qed

text \<open>The scanner's result on a text of pieces.\<close>

lemma attr_values_attribute:
  assumes "a_name name" and a: "attribute n b1 b2 q v"
  shows "attr_values name False (piece_text (Attribute n b1 b2 q v) @ s) =
    (if n = name then v # attr_values name False s else attr_values name False s)"
proof -
  let ?m = "b1 @ [CHR ''=''] @ b2 @ [q]"
  note a = a [unfolded attribute_def]
  have sp: "list_all (\<lambda>c. \<not> is_name_char c) ?m" using a by (auto simp: list_all_iff space_name)
  have hd_m: "\<not> is_name_char (hd (?m @ x))" for x using a by (cases b1) (auto simp: space_name)
  have junk_v: "junk (v @ [q]) s" using a by (auto simp: junk_def)
  show ?thesis
  proof (cases "n = name")
    case False
    have "attr_values name False (n @ (?m @ ((v @ [q]) @ s))) = attr_values name True (?m @ ((v @ [q]) @ s))"
      using assms(1) False a hd_m by (intro attr_values_name) auto
    also have "\<dots> = attr_values name False ((v @ [q]) @ s)"
      using assms(1) sp by (intro attr_values_blank) auto
    also have "\<dots> = attr_values name False s" by (rule attr_values_junk [OF assms(1) junk_v])
    finally show ?thesis using False by simp
  next
    case True
    let ?t = "name @ ?m @ v @ q # s"
    have name: "name \<noteq> []" using assms(1) by (simp add: a_name_def)
    have f: "find_str name ?t = Some 0" using name by (cases name) simp_all
    have d: "dropWhile is_xml_space (?m @ v @ q # s) = CHR ''='' # b2 @ [q] @ v @ q # s"
      using a by (auto simp: dropWhile_append2 list_all_iff)
    have q: "dropWhile is_xml_space (b2 @ [q] @ v @ q # s) = q # v @ q # s"
      using a by (auto simp: dropWhile_append2 list_all_iff)
    have c: "find_str [q] (v @ q # s) = Some (length v)" using a by (intro find_char) simp
    have n: "\<not> is_name_char (hd (?m @ v @ q # s))" by (rule hd_m)
    have "attr_values name False ?t = v # attr_values name False s"
      unfolding attr_values.simps [of name False ?t] f option.case Let_def
      using name a n by (simp add: d [simplified] q [simplified] c) blast
    with True show ?thesis by simp
  qed
qed

lemma scan_pieces:
  assumes "a_name name"
  shows "well_placed ps s \<Longrightarrow> attr_values name False (pieces_text ps @ s) = values_of name ps @ attr_values name False s"
proof (induction ps)
  case (Cons p ps)
  show ?case
  proof (cases p)
    case (Junk j)
    then have "attr_values name False (j @ (pieces_text ps @ s)) = attr_values name False (pieces_text ps @ s)"
      using Cons.prems by (intro attr_values_junk [OF assms]) simp
    with Cons Junk show ?thesis by (simp add: pieces_text_def)
  next
    case (Attribute n b1 b2 q v)
    then have "attribute n b1 b2 q v" using Cons.prems by simp
    from attr_values_attribute [OF assms this, of "pieces_text ps @ s"] Cons Attribute show ?thesis
      by (simp add: pieces_text_def)
  qed
qed (simp add: pieces_text_def)

lemma well_placed_append:
  "well_placed (ps @ qs) s \<longleftrightarrow> well_placed ps (pieces_text qs @ s) \<and> well_placed qs s"
  by (induction ps s rule: well_placed.induct) (auto simp: pieces_text_def)

lemma values_of_append: "values_of name (ps @ qs) = values_of name ps @ values_of name qs"
  by (induction name ps rule: values_of.induct) auto

lemma values_of_concat: "values_of name (concat pss) = concat (map (values_of name) pss)"
  by (induction pss) (simp_all add: values_of_append)

section \<open>What the firmware sends\<close>

text \<open>Status, message and perhaps a power state: one of the documents a reply is a run of, as recorded in \<open>testdata\<close>.\<close>

record stage =
  s_status :: u16
  s_message :: string
  s_power :: "string option"

definition hex_upper :: "nat \<Rightarrow> char" where
  "hex_upper n = ''0123456789ABCDEF'' ! n"

definition status_text :: "u16 \<Rightarrow> string" where
  "status_text v = ''0x'' @ map (\<lambda>k. hex_upper (unat v div 16 ^ k mod 16)) [3, 2, 1, 0]"

definition power_pieces :: "string option \<Rightarrow> piece list" where
  "power_pieces p = (case p of None \<Rightarrow> [] | Some v \<Rightarrow>
     [Junk (''<GET_HOST_POWER'' @ crlf @ ''    ''), Attribute ''HOST_POWER'' '''' '''' (CHR 0x22) v, Junk (crlf @ ''    />'' @ crlf)])"

definition stage_front :: "stage \<Rightarrow> piece list" where
  "stage_front s =
     [Junk ''<?xml '', Attribute ''version'' '''' '''' (CHR 0x22) ''1.0'',
      Junk (''?>'' @ crlf @ ''<RIBCL ''), Attribute ''VERSION'' '''' '''' (CHR 0x22) ''2.22'',
      Junk (''>'' @ crlf @ ''<RESPONSE'' @ crlf @ ''    ''), Attribute ''STATUS'' '''' '''' (CHR 0x22) (status_text (s_status s)),
      Junk (crlf @ ''    ''), Attribute ''MESSAGE'' '''' '''' (CHR 0x27) (s_message s), Junk (crlf @ ''     />'' @ crlf)]"

definition stage_pieces :: "stage \<Rightarrow> piece list" where
  "stage_pieces s = stage_front s @ power_pieces (s_power s) @ [Junk (''</RIBCL>'' @ crlf)]"

definition reply_text :: "stage list \<Rightarrow> string" where
  "reply_text ss = pieces_text (concat (map stage_pieces ss))"

text \<open>Messages and power states without the characters the scanner cannot skip.\<close>

definition plain_stage :: "stage \<Rightarrow> bool" where
  "plain_stage s \<longleftrightarrow> CHR 0x27 \<notin> set (s_message s) \<and> CHR ''='' \<notin> set (s_message s) \<and>
     (\<forall>v. s_power s = Some v \<longrightarrow> CHR 0x22 \<notin> set v \<and> CHR ''='' \<notin> set v)"

lemma hex_upper_val:
  assumes "n < 16"
  shows "alnum_val (hex_upper n) = n" and "hex_upper n \<noteq> CHR ''=''" and "hex_upper n \<noteq> CHR 0x22"
proof -
  have "n \<in> set [0..<16]" using assms by simp
  then show "alnum_val (hex_upper n) = n" "hex_upper n \<noteq> CHR ''=''" "hex_upper n \<noteq> CHR 0x22"
    by (auto simp: upt_rec hex_upper_def alnum_val_def)
qed

lemma status_text_chars: "CHR ''='' \<notin> set (status_text v)" "CHR 0x22 \<notin> set (status_text v)"
  by (auto simp: status_text_def hex_upper_val(2,3) dest: sym)

lemma four_digits:
  fixes n :: nat
  assumes "n < 65536"
  shows "16 * (16 * (16 * (n div 4096 mod 16) + n div 256 mod 16) + n div 16 mod 16) + n mod 16 = n"
proof -
  have "n div 4096 < 16" using assms by (simp add: less_mult_imp_div_less)
  moreover have "n div 4096 = n div 16 div 16 div 16" "n div 256 = n div 16 div 16" by (simp_all add: div_mult2_eq [symmetric])
  moreover have "16 * (a div 16) + a mod 16 = a" for a :: nat by simp
  ultimately show ?thesis by (metis mod_less)
qed

lemma strtoul0_status: "strtoul0 (status_text v) = unat v"
proof -
  have u: "unat v < 65536" using unsigned_less [of v, where ?'a = nat] by simp
  have a: "alnum_val (hex_upper (n mod 16)) = n mod 16" for n by (simp add: hex_upper_val(1))
  have "unat v div 4096 < 16" using u by (simp add: less_mult_imp_div_less)
  then have b: "alnum_val (hex_upper (unat v div 4096)) = unat v div 4096" and m: "unat v div 4096 mod 16 = unat v div 4096"
    by (simp_all add: hex_upper_val(1))
  have r: "radix_of (status_text v) = (16, drop 2 (status_text v))"
    by (simp add: radix_of_def status_text_def a)
  have w: "takeWhile (\<lambda>c. alnum_val c < 16) (drop 2 (status_text v)) = drop 2 (status_text v)"
    by (simp add: status_text_def a)
  have f: "foldl (\<lambda>b c. 16 * b + alnum_val c) 0 (drop 2 (status_text v)) = unat v"
    using four_digits [OF u] by (simp add: status_text_def a b m)
  have h: "status_text v = CHR ''0'' # tl (status_text v)" by (simp add: status_text_def)
  have s: "dropWhile is_c_space (status_text v) = status_text v" by (subst h, subst (2) h) (simp add: is_c_space_def)
  have "(case status_text v of c # cs \<Rightarrow> if c = CHR ''-'' then (True, cs) else if c = CHR ''+'' then (False, cs) else (False, status_text v)
      | [] \<Rightarrow> (False, status_text v)) = (False, status_text v)" by (subst h) simp
  then show ?thesis using u by (simp add: strtoul0_def s r w f Let_def)
qed

lemma reply_names: "a_name ''STATUS''" "a_name ''MESSAGE''" "a_name ''HOST_POWER''" "a_name ''version''" "a_name ''VERSION''"
  by (simp_all add: a_name_def is_name_char_def)

lemma front_placed: "plain_stage s \<Longrightarrow> detached t \<Longrightarrow> well_placed (stage_front s) t"
  by (simp add: stage_front_def junk_def attribute_def detached_def reply_names pieces_text_def crlf_def is_name_char_def is_xml_space_def
      status_text_chars plain_stage_def)

lemma power_placed: "plain_stage s \<Longrightarrow> detached t \<Longrightarrow> well_placed (power_pieces (s_power s)) t"
  by (auto simp: power_pieces_def junk_def attribute_def detached_def reply_names pieces_text_def crlf_def is_name_char_def is_xml_space_def
      plain_stage_def split: option.split)

lemma detached_texts: "detached (pieces_text (power_pieces p @ Junk (''</RIBCL>'' @ crlf) # ps) @ t)"
  by (cases p) (simp_all add: power_pieces_def pieces_text_def detached_def is_xml_space_def)

lemma stage_placed: "plain_stage s \<Longrightarrow> detached t \<Longrightarrow> well_placed (stage_pieces s) t"
  unfolding stage_pieces_def well_placed_append
  using front_placed [OF _ detached_texts [of "s_power s" "[]" t, simplified]]
  by (auto simp: pieces_text_def intro!: power_placed)
    (simp_all add: detached_def junk_def crlf_def is_name_char_def is_xml_space_def)

lemma detached_reply: "detached t \<Longrightarrow> detached (pieces_text (concat (map stage_pieces ss)) @ t)"
  by (cases ss) (simp_all add: pieces_text_def stage_pieces_def stage_front_def detached_def is_xml_space_def)

lemma reply_placed: "list_all plain_stage ss \<Longrightarrow> detached t \<Longrightarrow> well_placed (concat (map stage_pieces ss)) t"
  by (induction ss) (simp_all add: pieces_text_def well_placed_append stage_placed detached_reply [unfolded pieces_text_def])

lemma stage_values:
  "values_of ''STATUS'' (stage_pieces s) = [status_text (s_status s)]" "values_of ''MESSAGE'' (stage_pieces s) = [s_message s]"
  "values_of ''HOST_POWER'' (stage_pieces s) = (case s_power s of None \<Rightarrow> [] | Some v \<Rightarrow> [v])"
  by (simp_all add: stage_pieces_def stage_front_def power_pieces_def split: option.split)

lemma reply_values:
  assumes "list_all plain_stage ss" and "detached t"
  shows "ribcl_attr_values (reply_text ss @ t) ''STATUS'' = map (\<lambda>s. status_text (s_status s)) ss @ ribcl_attr_values t ''STATUS''"
    and "ribcl_attr_values (reply_text ss @ t) ''MESSAGE'' = map s_message ss @ ribcl_attr_values t ''MESSAGE''"
    and "ribcl_attr_values (reply_text ss @ t) ''HOST_POWER'' = List.map_filter s_power ss @ ribcl_attr_values t ''HOST_POWER''"
proof -
  note p = scan_pieces [OF _ reply_placed [OF assms]] reply_names values_of_concat stage_values
  have c: "concat (map (\<lambda>s. [f s]) ss) = map f ss" "concat (map (\<lambda>s. case s_power s of None \<Rightarrow> [] | Some v \<Rightarrow> [v]) ss) = List.map_filter s_power ss"
    for f :: "stage \<Rightarrow> string"
    by (induction ss) (simp_all add: map_filter_simps split: option.split)
  show "ribcl_attr_values (reply_text ss @ t) ''STATUS'' = map (\<lambda>s. status_text (s_status s)) ss @ ribcl_attr_values t ''STATUS''"
    "ribcl_attr_values (reply_text ss @ t) ''MESSAGE'' = map s_message ss @ ribcl_attr_values t ''MESSAGE''"
    "ribcl_attr_values (reply_text ss @ t) ''HOST_POWER'' = List.map_filter s_power ss @ ribcl_attr_values t ''HOST_POWER''"
    by (simp_all add: ribcl_attr_values_def reply_text_def p o_def c)
qed

section \<open>A reply cut short\<close>

definition power_cut :: string where
  "power_cut = ''<GET_HOST_POWER'' @ crlf @ ''    HOST_POWER=''"

lemma power_cut_values:
  "ribcl_attr_values power_cut ''STATUS'' = []" "ribcl_attr_values power_cut ''MESSAGE'' = []"
  "ribcl_attr_values power_cut ''HOST_POWER'' = []"
  by (simp_all add: ribcl_attr_values_def power_cut_def crlf_def attr_values.simps)
    (simp add: is_name_char_def is_xml_space_def attr_values.simps)

lemma front_values:
  assumes "plain_stage s" and "detached t"
  shows "ribcl_attr_values (pieces_text (stage_front s) @ t) ''STATUS'' = status_text (s_status s) # ribcl_attr_values t ''STATUS''"
    and "ribcl_attr_values (pieces_text (stage_front s) @ t) ''MESSAGE'' = s_message s # ribcl_attr_values t ''MESSAGE''"
    and "ribcl_attr_values (pieces_text (stage_front s) @ t) ''HOST_POWER'' = ribcl_attr_values t ''HOST_POWER''"
  using scan_pieces [OF _ front_placed [OF assms]] reply_names
  by (simp_all add: ribcl_attr_values_def) (simp_all add: stage_front_def)

text \<open>
  The marker for the firmware version is not the text the firmware writes: \<open>LICENSE_TYPE\<close> is followed
  by a space there (\<open>testdata/fw_version.xml\<close>), so such a reply is only complete when the stream ends.
\<close>

definition fw_element :: string where
  "fw_element = ''<GET_FW_VERSION'' @ crlf @ ''   FIRMWARE_VERSION = \"2.29\"'' @ crlf @ ''   FIRMWARE_DATE = \"Jul 16 2015\"'' @ crlf @
     ''   MANAGEMENT_PROCESSOR = \"iLO2\"'' @ crlf @ ''   LICENSE_TYPE = \"iLO 2 Advanced\"'' @ crlf @ ''    />'' @ crlf"

lemma license_marker_missed:
  "\<not> ribcl_reply_complete fw_element" "fw_license (parse_fw_version fw_element) = ''iLO 2 Advanced''"
  by (simp add: ribcl_reply_complete_def fw_element_def crlf_def)
    (simp add: parse_fw_version_def fw_element_def crlf_def element_of_def find_from_def first_attr_def ribcl_attr_values_def,
     simp add: attr_values.simps [of "''LICENSE_TYPE''"] is_xml_space_def is_name_char_def)

section \<open>Escaping\<close>

text \<open>The reader of attribute values, for the five entities.\<close>

definition xml_entities :: "(string \<times> char) list" where
  "xml_entities = [(''&amp;'', CHR ''&''), (''&lt;'', CHR ''<''), (''&gt;'', CHR ''>''), (''&quot;'', CHR 0x22), (''&apos;'', CHR 0x27)]"

fun xml_unescape :: "string \<Rightarrow> string" where
  "xml_unescape [] = []"
| "xml_unescape (c # s) =
     (case find (\<lambda>(e, ch). prefix e (c # s)) xml_entities of
        None \<Rightarrow> c # xml_unescape s
      | Some (e, ch) \<Rightarrow> ch # xml_unescape (drop (length e - 1) s))"

declare xml_unescape.simps(2) [simp del]

lemma unescape_char: "xml_unescape (esc_char c @ s) = c # xml_unescape s"
  by (simp add: esc_char_def xml_unescape.simps(2) xml_entities_def)

lemma escape_char: "set (esc_char c) \<inter> {CHR ''<'', CHR ''>'', CHR 0x22, CHR 0x27} = {}"
  by (auto simp: esc_char_def)

section \<open>The exchange with a source of replies\<close>

text \<open>
  What the exchange relies on of a connection: \<open>holds ws cs c\<close> says that the peer has been sent the texts
  \<open>ws\<close> and that the chunks \<open>cs\<close> are still to come; then the stream ends with the outcome \<open>fin\<close>. The
  exchange is followed once, over this contract; a scripted peer fulfils it here, and the TLS client of
  \<open>tls/client.hpp\<close> before a server that follows the RFC fulfils it in \<open>Ribcl_Tls\<close>.
\<close>

lemma find_map: "find P (map f xs) = map_option f (find (\<lambda>x. P (f x)) xs)"
  by (induction xs) simp_all

lemma upt_1_Suc: "[1..<Suc (Suc n)] = 1 # map Suc [1..<Suc n]"
  by (simp add: upt_conv_Cons map_Suc_upt del: upt_Suc)

locale reply_source =
  fixes P :: "'c tls_peer"
    and holds :: "bytes list \<Rightarrow> bytes list \<Rightarrow> 'c \<Rightarrow> bool"
    and fin :: "bool \<times> string"
  assumes takes: "holds ws cs c \<Longrightarrow> \<exists>c'. peer_send P d c = (Got (), c') \<and> holds (ws @ [d]) cs c'"
    and brings: "holds ws (x # cs) c \<Longrightarrow> \<exists>c'. peer_recv P c = (Got (Inl x), c') \<and> holds ws cs c'"
    and ends: "holds ws [] c \<Longrightarrow> \<exists>c'. peer_recv P c = (Got (Inr fin), c') \<and> holds ws [] c'"
begin

lemma read_source:
  "holds ws cs c \<Longrightarrow> length cs < fuel \<Longrightarrow> length raw + length (concat cs) \<le> 2 ^ 20 \<Longrightarrow>
   \<exists>c'. case find (\<lambda>n. complete (raw @ chars (concat (take n cs)))) [1..<Suc (length cs)] of
      Some n \<Rightarrow> read_reply P complete fuel raw c = (Got (raw @ chars (concat (take n cs))), c') \<and> holds ws (drop n cs) c'
    | None \<Rightarrow> read_reply P complete fuel raw c =
        (if fst fin \<or> raw @ chars (concat cs) \<noteq> [] then Got (raw @ chars (concat cs)) else Error (snd fin), c') \<and> holds ws [] c'"
proof (induction cs arbitrary: raw fuel c)
  case Nil
  obtain c' where "peer_recv P c = (Got (Inr fin), c')" "holds ws [] c'" using ends [OF Nil.prems(1)] by blast
  with Nil.prems(2) show ?case by (cases fuel; cases fin) (auto simp: chars_def)
next
  case (Cons x xs)
  obtain k where k: "fuel = Suc k" using Cons.prems by (cases fuel) auto
  have ch: "raw @ chars (x @ y) = (raw @ chars x) @ chars y" for y by (simp add: chars_def)
  have l: "length (chars x) = length x" by (simp add: chars_def)
  obtain c1 where c1: "peer_recv P c = (Got (Inl x), c1)" "holds ws xs c1" using brings [OF Cons.prems(1)] by blast
  have step: "read_reply P complete fuel raw c =
      (if complete (raw @ chars x) then (Got (raw @ chars x), c1) else read_reply P complete k (raw @ chars x) c1)"
    using Cons.prems k l c1(1) by (simp add: Let_def)
  have IH: "\<exists>c'. case find (\<lambda>n. complete ((raw @ chars x) @ chars (concat (take n xs)))) [1..<Suc (length xs)] of
      Some n \<Rightarrow> read_reply P complete k (raw @ chars x) c1 = (Got ((raw @ chars x) @ chars (concat (take n xs))), c') \<and> holds ws (drop n xs) c'
    | None \<Rightarrow> read_reply P complete k (raw @ chars x) c1 =
        (if fst fin \<or> (raw @ chars x) @ chars (concat xs) \<noteq> [] then Got ((raw @ chars x) @ chars (concat xs)) else Error (snd fin), c') \<and> holds ws [] c'"
    using Cons.prems k l by (intro Cons.IH [OF c1(2)]) simp_all
  show ?case
  proof (cases "complete (raw @ chars x)")
    case True
    then show ?thesis unfolding step length_Cons upt_1_Suc using c1(2) by auto
  next
    case False
    have tk: "raw @ chars (concat (take (Suc n) (x # xs))) = (raw @ chars x) @ chars (concat (take n xs))" for n
      by (simp add: ch)
    have one: "raw @ chars (concat (take 1 (x # xs))) = raw @ chars x" by simp
    show ?thesis
      using IH False unfolding step length_Cons upt_1_Suc find.simps find_map one tk
      by (cases "find (\<lambda>n. complete ((raw @ chars x) @ chars (concat (take n xs)))) [1..<Suc (length xs)]")
        (simp_all only: if_False option.case option.map drop_Suc_Cons concat.simps ch tk)
  qed
qed

text \<open>The exchange: both writes, and the reply up to the chunk that completes it.\<close>

lemma exchange_source:
  assumes h: "holds ws cs c" and fuel: "length cs < fuel" and small: "length (concat cs) \<le> 2 ^ 20"
  shows "\<exists>c'. case find (\<lambda>n. complete (chars (concat (take n cs)))) [1..<Suc (length cs)] of
      Some n \<Rightarrow> ribcl_exchange P fuel user pass b complete c = (Got (chars (concat (take n cs))), c') \<and>
        holds (ws @ [ascii ribcl_prolog, ascii (ribcl_document user pass b)]) (drop n cs) c'
    | None \<Rightarrow> ribcl_exchange P fuel user pass b complete c =
          (if fst fin \<or> concat cs \<noteq> [] then Got (chars (concat cs)) else Error (snd fin), c') \<and>
        holds (ws @ [ascii ribcl_prolog, ascii (ribcl_document user pass b)]) [] c'"
proof -
  obtain c1 where c1: "peer_send P (ascii ribcl_prolog) c = (Got (), c1)" "holds (ws @ [ascii ribcl_prolog]) cs c1"
    using takes [OF h] by blast
  obtain c2 where c2: "peer_send P (ascii (ribcl_document user pass b)) c1 = (Got (), c2)"
    "holds ((ws @ [ascii ribcl_prolog]) @ [ascii (ribcl_document user pass b)]) cs c2"
    using takes [OF c1(2)] by blast
  have ne: "chars (concat cs) \<noteq> [] \<longleftrightarrow> concat cs \<noteq> []" by (simp only: chars_def map_is_Nil_conv)
  have run: "ribcl_exchange P fuel user pass b complete c = read_reply P complete fuel [] c2"
    by (simp add: ribcl_exchange_def peer_then_def c1(1) c2(1))
  from small have "length ([] :: string) + length (concat cs) \<le> 2 ^ 20" by simp
  from read_source [OF c2(2) fuel this, of complete] show ?thesis
    unfolding run ne [symmetric] by (simp only: append_Nil append_assoc append_Cons)
qed

end

text \<open>Its state: what was written, the chunks still to come, and how the stream ends.\<close>

definition script_peer :: "(bytes list \<times> bytes list \<times> bool \<times> string) tls_peer" where
  "script_peer = \<lparr>peer_send = (\<lambda>data (ws, cs, fin). (Got (), (ws @ [data], cs, fin))),
     peer_recv = (\<lambda>(ws, cs, fin). case cs of [] \<Rightarrow> (Got (Inr fin), (ws, cs, fin)) | x # xs \<Rightarrow> (Got (Inl x), (ws, xs, fin)))\<rparr>"

interpretation script: reply_source script_peer "\<lambda>ws cs (ws', cs', f). ws' = ws \<and> cs' = cs \<and> f = fin" fin
  for fin
  by unfold_locales (auto simp: script_peer_def)

section \<open>Properties\<close>



text \<open>C22: a status read can stop before its answer: when a chunk of the reply ends right after \<open>HOST_POWER=\<close>, the marker the reader waits for, the exchange ends with the documents received so far, and the reply counts as a success (if no document reported an error) without the power state it was made for.\<close>

theorem status_read_cut:
  assumes "list_all plain_stage (ss @ [s])" and "list_all (\<lambda>s. s_status s = 0 \<and> s_power s = None) (ss @ [s])"
    and "chars chunk = reply_text ss @ pieces_text (stage_front s) @ power_cut" and "peer_recv P c = (Got (Inl chunk), c')"
  shows "read_reply P ribcl_reply_complete (Suc fuel) [] c = (Got (chars chunk), c') \<and>
    rr_ok (ribcl_parse (chars chunk)) \<and> rr_host_power (ribcl_parse (chars chunk)) = ''''"
proof -
  let ?raw = "reply_text ss @ pieces_text (stage_front s) @ power_cut"
  have "?raw = (reply_text ss @ pieces_text (stage_front s) @ ''<GET_HOST_POWER'' @ crlf @ ''    '') @ ''HOST_POWER='' @ []"
    by (simp add: power_cut_def)
  then have c: "ribcl_reply_complete ?raw" unfolding ribcl_reply_complete_def using find_str_infix by metis
  have d: "detached power_cut" "detached (pieces_text (stage_front s) @ power_cut)"
    by (simp_all add: power_cut_def detached_def is_xml_space_def stage_front_def pieces_text_def)
  have a: "list_all plain_stage ss" "plain_stage s" using assms(1) by simp_all
  note v = reply_values [OF a(1) d(2)] front_values [OF a(2) d(1)] power_cut_values
  have none: "List.map_filter s_power ss = []" using assms(2) by (induction ss) (simp_all add: map_filter_simps)
  have "rr_ok (ribcl_parse ?raw)" "rr_host_power (ribcl_parse ?raw) = ''''"
    using assms(2) by (simp_all add: ribcl_parse_def v none strtoul0_status list_all_iff)
  with c show ?thesis by (simp add: assms(3,4) Let_def)
qed

lemma status_read_cut_witness:
  "\<exists>chunk. read_reply script_peer ribcl_reply_complete 1 [] ([], [chunk], True, '''') = (Got (chars chunk), ([], [], True, '''')) \<and>
     rr_ok (ribcl_parse (chars chunk)) \<and> rr_host_power (ribcl_parse (chars chunk)) = ''''"
proof -
  let ?s = "\<lparr>s_status = 0, s_message = ''No error'', s_power = None\<rparr>"
  let ?raw = "reply_text [] @ pieces_text (stage_front ?s) @ power_cut"
  let ?chunk = "map (\<lambda>c. word_of_nat (of_char c)) ?raw"
  have "list_all plain_stage ([] @ [?s])" "list_all (\<lambda>s. s_status s = 0 \<and> s_power s = None) ([] @ [?s])"
    by (simp_all add: plain_stage_def)
  note p = this
  have c: "chars ?chunk = ?raw" by (simp add: chars_def o_def unat_of_nat)
  have "peer_recv script_peer ([], [?chunk], True, '''') = (Got (Inl ?chunk), ([], [], True, ''''))" by (simp add: script_peer_def)
  from status_read_cut [OF p c this, of 0] show ?thesis unfolding One_nat_def by (rule exI [of _ ?chunk])
qed

text \<open>The exchange against any scripted peer: the prolog and the document are written, each on its own, and the reply is the text of the first chunks after which the reader is satisfied; when no chunk satisfies it, everything up to the end of the stream, and an error exactly when the stream ended without an orderly close and without any text. Nothing beyond the reply is read.\<close>

theorem exchange_reads:
  assumes "length cs < fuel" and "length (concat cs) \<le> 2 ^ 20"
  shows "ribcl_exchange script_peer fuel user pass b complete (ws, cs, orderly, e) =
    (let ws = ws @ [ascii ribcl_prolog, ascii (ribcl_document user pass b)]
     in case find (\<lambda>n. complete (chars (concat (take n cs)))) [1..<Suc (length cs)] of
          Some n \<Rightarrow> (Got (chars (concat (take n cs))), (ws, drop n cs, orderly, e))
        | None \<Rightarrow> (if orderly \<or> concat cs \<noteq> [] then Got (chars (concat cs)) else Error e, (ws, [], orderly, e)))"
  using script.exchange_source [of ws cs "(orderly, e)" "(ws, cs, orderly, e)", OF _ assms, where complete = complete and user = user and pass = pass and b = b]
  by (cases "find (\<lambda>n. complete (chars (concat (take n cs)))) [1..<Suc (length cs)]") (auto simp: Let_def simp del: upt_Suc)

lemma exchange_reads_witness:
  "ribcl_exchange script_peer 5 ''u'' ''p'' '''' (\<lambda>s. length s > 1) ([], [[65], [66], [67]], True, '''') =
     (Got ''AB'', ([ascii ribcl_prolog, ascii (ribcl_document ''u'' ''p'' '''')], [[67]], True, ''''))"
proof -
  have "length [[65], [66], [67 :: byte]] < 5" "length (concat [[65], [66], [67 :: byte]]) \<le> 2 ^ 20" by simp_all
  from exchange_reads [OF this, of "''u''" "''p''" "''''" "\<lambda>s. length s > 1" "[]" True "''''"]
  show ?thesis by (simp add: upt_rec chars_def char_of_def bit_0)
qed

text \<open>Escaping loses nothing and lets nothing escape: an XML reader gets any user name, password, device or URL back from its escaped form, which holds no angle bracket and no quote.\<close>

theorem escape_round_trip:
  "xml_unescape (xml_attr_escape s) = s \<and> set (xml_attr_escape s) \<inter> {CHR ''<'', CHR ''>'', CHR 0x22, CHR 0x27} = {}"
proof (induction s)
  case (Cons c s)
  then show ?case using unescape_char [of c "xml_attr_escape s"] escape_char [of c]
    by (simp add: xml_attr_escape_def Int_Un_distrib2)
qed (simp add: xml_attr_escape_def)

end
