(* ===== verification/Ribcl_Tls.thy ===== *)
theory Ribcl_Tls
  imports Client_Complete Ribcl_Replies
begin

text \<open>
  \<open>ribcl_run\<close> of \<open>ilo/ribcl.hpp\<close> from end to end: the exchange over the TLS client, before a server that
  follows RFC 2246 and sends any application data. The client's \<open>send\<close> and \<open>recv\<close> fulfil the contract
  \<open>reply_source\<close> of the exchange; \<open>server_reads\<close> says what such a server reads off the connection.
\<close>

unbundle bit_operations_syntax

section \<open>Application data\<close>

lemma read_records_cipher:
  "read_records n st r = Some (msgs, rest, r') \<Longrightarrow> read_rc4 r \<noteq> None \<Longrightarrow> read_rc4 r' \<noteq> None"
proof (induction n arbitrary: st r msgs)
  case (Suc n)
  then obtain h d st1 r1 e ms where o: "record_of st r = (Got (h, d), st1, r1, e)" "read_records n st1 r1 = Some (ms, rest, r')"
    by (auto split: prod.splits reply.splits)
  from o(1) Suc.prems(2) have "read_rc4 r1 \<noteq> None"
    by (auto simp: record_of_def unprotect_def Let_def split: if_splits option.splits prod.splits)
  with Suc.IH o(2) show ?case by blast
qed simp

lemma protect_all_Cons:
  assumes "protect_all H ((type, data) # msgs) w = Some (recs, w')"
  obtains out w1 recs1 where "protect H type data w = (Some out, w1)" "protect_all H msgs w1 = Some (recs1, w')" "recs = out # recs1"
  using assms by (auto split: prod.splits option.splits)

context byte_stream
begin

lemma send_data:
  assumes "expects key w rest c" and "written ckey base reader msgs c"
  shows "\<exists>c' parts. client_send TP data c = (Got (), c') \<and> expects key w rest c' \<and> concat parts = data \<and>
    written ckey base reader (msgs @ map (Pair CT_APPLICATION_DATA) parts) c'"
  using assms
proof (induction "length data" arbitrary: data c msgs rule: less_induct)
  case less
  show ?case
  proof (cases "data = []")
    case True
    with less.prems show ?thesis
      by (intro exI [of _ c] exI [of _ "[]"]) (simp add: client_send.simps returns_def)
  next
    case False
    let ?n = "if length data < MAX_PLAINTEXT then length data else MAX_PLAINTEXT"
    have n: "length (take ?n data) \<le> MAX_PLAINTEXT" "length (drop ?n data) < length data"
      using False by (simp_all add: MAX_PLAINTEXT_def)
    obtain c1 where c1: "send_record TP CT_APPLICATION_DATA (take ?n data) c = (Got (), c1)" "expects key w rest c1"
      using send_next [OF less.prems(1) n(1)] by blast
    note w1 = written_send [OF less.prems(2) handshake_types(3) c1(1)]
    obtain c' parts where c': "client_send TP (drop ?n data) c1 = (Got (), c')" "expects key w rest c'"
      "concat parts = drop ?n data"
      "written ckey base reader ((msgs @ [(CT_APPLICATION_DATA, take ?n data)]) @ map (Pair CT_APPLICATION_DATA) parts) c'"
      using less.hyps [OF n(2) c1(2) w1] by blast
    have "client_send TP data c = (Got (), c')"
      using False c1(1) c'(1) by (subst client_send.simps) (simp add: andthen_def Let_def)
    moreover have "concat (take ?n data # parts) = data" using c'(3) by simp
    ultimately show ?thesis using c'(2,4) by (intro exI [of _ c'] exI [of _ "take ?n data # parts"]) simp
  qed
qed

lemma recv_data:
  assumes c: "expects key w (out @ rest) c" and sent: "protect MD5_ops CT_APPLICATION_DATA data w = (Some out, w')"
  shows "\<exists>c'. client_recv TP (Suc fuel) c = (Got (Inl data), c') \<and> expects key w' rest c'"
proof -
  obtain h c1 where "read_record TP c = (Got (h, data), c1)" "rh_type h = CT_APPLICATION_DATA" "expects key w' rest c1"
    using read_next [OF c sent handshake_types(3)] by blast
  then show ?thesis by simp
qed

lemma recv_end:
  assumes c: "expects key w [] c"
  shows "\<exists>c'. client_recv TP (Suc fuel) c = (Got (Inr (True, ''connection closed by peer'')), c') \<and> expects key w [] c'"
proof -
  have i: "inv (sock c)" "stream c = []" using c by (simp_all add: expects_def)
  have "record_of (stream c) (rec_layer c) = (Error ''connection closed by peer'', [], rec_layer c, True)"
    using i(2) by (simp add: record_of_def RECORD_HEADER_LEN_def)
  with read_record_result [OF i(1)] obtain s x where "inv s" "x @ pending s = []"
    "read_record TP c = (Error ''connection closed by peer'', c\<lparr>sock := s, rx := x, eof := True\<rparr>)"
    by auto
  with c show ?thesis by (auto simp: expects_def stream_def)
qed

lemma written_cipher:
  assumes "written key base reader msgs c" and "read_rc4 reader \<noteq> None"
  shows "write_rc4 (rec_layer c) \<noteq> None"
proof -
  obtain out r where "read_records (length msgs) out reader = Some (msgs, [], r)" "hmac_md5.in_step key (rec_layer c) r"
    using assms(1) by (auto simp: written_def)
  with read_records_cipher [OF this(1) assms(2)] show ?thesis by (simp add: hmac_md5.in_step_def)
qed

text \<open>The close: a last record with the alert.\<close>

lemma written_close:
  assumes w: "written key base reader msgs c" and r: "read_rc4 reader \<noteq> None" and v: "tp_valid TP (sock c)"
  shows "\<exists>d. client_close TP c = d\<lparr>sock := tp_close TP (sock d)\<rparr> \<and> written key base reader (msgs @ [(CT_ALERT, [1, 0])]) d \<and>
    rand d = rand c"
proof -
  obtain out l where p: "protect MD5_ops CT_ALERT [1, 0] (rec_layer c) = (Some out, l)"
    using protect_succeeds [of "[1, 0]" MD5_ops CT_ALERT "rec_layer c"] by (auto simp: MAX_PLAINTEXT_def)
  obtain s where "tp_send TP out (sock c) = (True, s)" using send_law w unfolding written_def by blast
  with p have d: "send_record TP CT_ALERT [1, 0] c = (Got (), c\<lparr>rec_layer := l, sock := s\<rparr>)"
    by (simp add: send_record_def)
  with written_send [OF w handshake_types(4) d] written_cipher [OF w r] v show ?thesis
    by (intro exI [of _ "c\<lparr>rec_layer := l, sock := s\<rparr>"]) (simp add: client_close_def Let_def)
qed

text \<open>
  The client between two records of application data: \<open>cs\<close> are to come, and the peer has read, after the
  messages \<open>first\<close>, application data that make up the texts \<open>ws\<close>.
\<close>

definition talks ::
  "bytes \<times> bytes \<times> bytes \<times> hash_ctx record_layer \<Rightarrow> (byte \<times> bytes) list \<Rightarrow> bytes list \<Rightarrow> bytes list \<Rightarrow>
   ('t, 'r) client \<Rightarrow> bool" where
  "talks K first ws cs c \<longleftrightarrow> (case K of (key, ckey, base, reader) \<Rightarrow>
     (\<exists>w recs w' parts. protect_all MD5_ops (map (Pair CT_APPLICATION_DATA) cs) w = Some (recs, w') \<and>
        expects key w (concat recs) c \<and> concat parts = concat ws \<and>
        written ckey base reader (first @ map (Pair CT_APPLICATION_DATA) parts) c))"

lemma talks_start:
  assumes "protect_all MD5_ops (map (Pair CT_APPLICATION_DATA) cs) w = Some (recs, w')" and "expects key w (concat recs) c"
    and "written ckey base reader first c"
  shows "talks (key, ckey, base, reader) first [] cs c"
  unfolding talks_def prod.case
  using assms by (intro exI [of _ w] exI [of _ recs] exI [of _ w'] exI [of _ "[]"]) simp

lemma talks_send:
  assumes "talks K first ws cs c"
  shows "\<exists>c'. client_send TP d c = (Got (), c') \<and> talks K first (ws @ [d]) cs c'"
proof -
  obtain key ckey base reader where K: "K = (key, ckey, base, reader)" by (cases K)
  obtain w recs w' parts where p: "protect_all MD5_ops (map (Pair CT_APPLICATION_DATA) cs) w = Some (recs, w')"
    "expects key w (concat recs) c" "concat parts = concat ws"
    "written ckey base reader (first @ map (Pair CT_APPLICATION_DATA) parts) c"
    using assms by (auto simp: talks_def K)
  from send_data [OF p(2,4)] obtain c' ps where "client_send TP d c = (Got (), c')" "expects key w (concat recs) c'"
    "concat ps = d" "written ckey base reader ((first @ map (Pair CT_APPLICATION_DATA) parts) @ map (Pair CT_APPLICATION_DATA) ps) c'"
    by blast
  with p(1,3) show ?thesis
    unfolding talks_def K prod.case
    by (intro exI [of _ c'] conjI exI [of _ w] exI [of _ recs] exI [of _ w'] exI [of _ "parts @ ps"]) simp_all
qed

lemma talks_brings:
  assumes "talks K first ws (x # cs) c"
  shows "\<exists>c'. client_recv TP (Suc fuel) c = (Got (Inl x), c') \<and> talks K first ws cs c'"
proof -
  obtain key ckey base reader where K: "K = (key, ckey, base, reader)" by (cases K)
  obtain w recs w' parts where p: "protect_all MD5_ops (map (Pair CT_APPLICATION_DATA) (x # cs)) w = Some (recs, w')"
    "expects key w (concat recs) c" "concat parts = concat ws"
    "written ckey base reader (first @ map (Pair CT_APPLICATION_DATA) parts) c"
    using assms by (auto simp: talks_def K simp del: list.map)
  obtain out w1 recs1 where o: "protect MD5_ops CT_APPLICATION_DATA x w = (Some out, w1)"
    "protect_all MD5_ops (map (Pair CT_APPLICATION_DATA) cs) w1 = Some (recs1, w')" "recs = out # recs1"
    using protect_all_Cons [OF p(1) [unfolded list.map]] by blast
  obtain c' where c': "client_recv TP (Suc fuel) c = (Got (Inl x), c')" "expects key w1 (concat recs1) c'"
    using recv_data [OF p(2) [unfolded o(3) concat.simps] o(1)] by blast
  with written_silent [OF silent_client_recv p(4) c'(1)] o(2) p(3) show ?thesis by (auto simp: talks_def K)
qed

lemma talks_ends:
  assumes "talks K first ws [] c"
  shows "\<exists>c'. client_recv TP (Suc fuel) c = (Got (Inr (True, ''connection closed by peer'')), c') \<and> talks K first ws [] c'"
proof -
  obtain key ckey base reader where K: "K = (key, ckey, base, reader)" by (cases K)
  obtain w parts where p: "expects key w [] c" "concat parts = concat ws"
    "written ckey base reader (first @ map (Pair CT_APPLICATION_DATA) parts) c"
    using assms by (auto simp: talks_def K)
  obtain c' where c': "client_recv TP (Suc fuel) c = (Got (Inr (True, ''connection closed by peer'')), c')" "expects key w [] c'"
    using recv_end [OF p(1)] by blast
  with written_silent [OF silent_client_recv p(3) c'(1)] p(2) show ?thesis by (auto simp: talks_def K)
qed

end

interpretation tls: reply_source "client_peer mock_transport (Suc fuel) :: (mock, 'r) client tls_peer" "mock.talks K first"
  "(True, ''connection closed by peer'')" for fuel K first
  by unfold_locales (simp_all add: client_peer_def mock.talks_send mock.talks_brings mock.talks_ends del: client_recv.simps)


section \<open>What the server reads\<close>

text \<open>
  Records in the clear up to the ChangeCipherSpec, then records under the client's keys, up to the end
  of what was sent.
\<close>

definition server_reads :: "bytes \<Rightarrow> (byte \<times> bytes) list \<Rightarrow> key_material \<Rightarrow> (byte \<times> bytes) list \<Rightarrow> bool" where
  "server_reads sent plain km secret \<longleftrightarrow>
     (case read_records (length plain) sent (record_layer_new MD5_ops VERSION_TLS_1_0) of
        None \<Rightarrow> False
      | Some (msgs, rest, r) \<Rightarrow> msgs = plain \<and>
          (case read_records (length secret) rest (enable_read_cipher MD5_ops (client_mac km) (client_key km) r) of
             None \<Rightarrow> False
           | Some (msgs, rest, _) \<Rightarrow> msgs = secret \<and> rest = []))"

lemma server_reads_written:
  assumes plain: "read_records (length plain) base (record_layer_new MD5_ops VERSION_TLS_1_0) = Some (plain, [], reader)"
    and w: "mock.written key base (enable_read_cipher MD5_ops (client_mac km) (client_key km) reader) secret c"
  shows "server_reads (from_client (sock c)) plain km secret"
proof -
  obtain out r where o: "from_client (sock c) = base @ out"
    "read_records (length secret) out (enable_read_cipher MD5_ops (client_mac km) (client_key km) reader) = Some (secret, [], r)"
    using w by (auto simp: mock.written_def)
  have "read_records (length plain) (base @ out) (record_layer_new MD5_ops VERSION_TLS_1_0) = Some (plain, out, reader)"
    using read_records_append [OF plain, of 0 out] by simp
  with o show ?thesis by (simp add: server_reads_def)
qed

text \<open>The text the reader stops with: the first chunks that satisfy it, or all of them.\<close>

definition first_reply :: "(string \<Rightarrow> bool) \<Rightarrow> bytes list \<Rightarrow> string" where
  "first_reply complete cs =
     (case find (\<lambda>n. complete (chars (concat (take n cs)))) [1..<Suc (length cs)] of
        Some n \<Rightarrow> chars (concat (take n cs))
      | None \<Rightarrow> chars (concat cs))"

lemma exchange_over_tls:
  fixes c :: "(mock, 'r) client"
  assumes t: "mock.talks K first ws cs c" and fuel: "length cs < fuel" and small: "length (concat cs) \<le> 2 ^ 20"
  shows "\<exists>c' left. ribcl_exchange (client_peer mock_transport fuel) fuel user pass b complete c = (Got (first_reply complete cs), c') \<and>
    mock.talks K first (ws @ [ascii ribcl_prolog, ascii (ribcl_document user pass b)]) left c'"
proof -
  obtain n where n: "fuel = Suc n" using fuel by (cases fuel) auto
  obtain c' where "case find (\<lambda>n. complete (chars (concat (take n cs)))) [1..<Suc (length cs)] of
      Some n \<Rightarrow> ribcl_exchange (client_peer mock_transport fuel) fuel user pass b complete c = (Got (chars (concat (take n cs))), c') \<and>
        mock.talks K first (ws @ [ascii ribcl_prolog, ascii (ribcl_document user pass b)]) (drop n cs) c'
    | None \<Rightarrow> ribcl_exchange (client_peer mock_transport fuel) fuel user pass b complete c =
          (if fst (True, ''connection closed by peer'') \<or> concat cs \<noteq> [] then Got (chars (concat cs))
           else Error (snd (True, ''connection closed by peer'')), c') \<and>
        mock.talks K first (ws @ [ascii ribcl_prolog, ascii (ribcl_document user pass b)]) [] c'"
    using tls.exchange_source [OF t fuel small, where complete = complete and user = user and pass = pass and b = b] unfolding n by blast
  then show ?thesis
    unfolding first_reply_def
    by (cases "find (\<lambda>n. complete (chars (concat (take n cs)))) [1..<Suc (length cs)]") (auto simp del: upt_Suc)
qed

text \<open>The session after the handshake, with nothing said yet.\<close>

lemma honest_session_talks:
  fixes rng :: "'r rng"
  assumes rng: "rng_fills rng" and k: "0 < k" and fuel: "0 < fuel" and sh: "sendable v sh certs"
    and parsed: "parse_certificate_rsa_key (certs ! 0) = Inr pk"
    and cr: "make_client_random rng gmt r = (Some cr, r1)" and pm: "make_premaster rng v r1 = (Some pm, r2)"
    and cke: "build_client_key_exchange rng fuel pk pm r2 = (Drawn cke, r3)"
    and parts: "list_all (\<lambda>p. length p \<le> MAX_PLAINTEXT) parts"
  defines "master \<equiv> session_master pm cr (sh_random sh)"
  defines "km \<equiv> session_keys master cr (sh_random sh)"
  defines "fin \<equiv> frame HT_FINISHED (rfc_finished master ''client finished'' (flight_log v cr sh certs cke))"
  obtains c key base reader
  where "client_connect mock_transport rng fuel host port
      (client_new v timeout gmt (mock_server (honest_session v cr sh certs pm cke parts) k) r) = (Got (), c)"
    and "read_records (length (client_flight v cr cke)) base (record_layer_new MD5_ops VERSION_TLS_1_0) =
      Some (client_flight v cr cke, [], reader)"
    and "mock.talks (key, take 16 (client_mac km), base, enable_read_cipher MD5_ops (client_mac km) (client_key km) reader)
      [(CT_HANDSHAKE, fin)] [] parts c"
proof -
  let ?c0 = "client_new v timeout gmt (mock_server (honest_session v cr sh certs pm cke parts) k) r"
  have f: "opt_version ?c0 = v" "opt_gmt ?c0 = gmt" "rand ?c0 = r" "tr ?c0 = transcript_new" by (simp_all add: client_new_def)
  obtain c key w recs w' base reader where c: "client_handshake mock_transport rng fuel ?c0 = (Got (), c)"
    and p: "protect_all MD5_ops (map (Pair CT_APPLICATION_DATA) parts) w = Some (recs, w')" "mock.expects key w (concat recs) c"
    and b: "read_records 3 base (record_layer_new MD5_ops VERSION_TLS_1_0) = Some (client_flight v cr cke, [], reader)"
    and s: "mock.written (take 16 (client_mac km)) base (enable_read_cipher MD5_ops (client_mac km) (client_key km) reader)
      [(CT_HANDSHAKE, fin)] c"
    using honest_session_run [OF rng fuel sh parsed cr pm cke parts starts(1) [OF k] starts(2) [OF k] f]
    unfolding master_def km_def fin_def by metis
  have "length (client_flight v cr cke) = 3" by (simp add: client_flight_def)
  moreover have "client_connect mock_transport rng fuel host port ?c0 = (Got (), c)"
    using c by (simp add: client_connect_def mock_transport_def)
  ultimately show ?thesis using that b mock.talks_start [OF p s] by simp
qed

section \<open>Properties\<close>

text \<open>C19: a power, media or health command from end to end: before any server that follows RFC 2246 and answers with any records of application data, whatever the chunk size of the transport, the call returns the verdict on the text of the first records that complete a reply (or all of them), and an error only when there was no text; and the server, reading the connection with the keys of the session, reads the hello, the key exchange and the ChangeCipherSpec, then the client's Finished, then the prolog and the document of the command with the credentials, cut into records, then the close alert, and nothing else.\<close>

theorem ribcl_over_tls:
  fixes rng :: "'r rng"
  assumes rng: "rng_fills rng" and k: "0 < k" and fuel: "length parts < fuel" and sh: "sendable VERSION_TLS_1_0 sh certs"
    and parsed: "parse_certificate_rsa_key (certs ! 0) = Inr pk"
    and cr: "make_client_random rng 0 r = (Some cr, r1)" and pm: "make_premaster rng VERSION_TLS_1_0 r1 = (Some pm, r2)"
    and cke: "build_client_key_exchange rng fuel pk pm r2 = (Drawn cke, r3)"
    and parts: "list_all (\<lambda>p. length p \<le> MAX_PLAINTEXT) parts" "length (concat parts) \<le> 2 ^ 20"
  shows "case ribcl_run mock_transport (\<lambda>ms s. s) rng fuel host port user pass cmd args
      (mock_server (honest_session VERSION_TLS_1_0 cr sh certs pm cke parts) k, r) of
    (reply, s, r') \<Rightarrow>
      (let raw = first_reply ribcl_reply_complete parts; master = session_master pm cr (sh_random sh);
           fin = frame HT_FINISHED (rfc_finished master ''client finished'' (flight_log VERSION_TLS_1_0 cr sh certs cke))
       in reply = (if raw = [] then Error ''no RIBCL reply'' else Got (ribcl_parse raw)) \<and>
          (\<exists>texts. concat texts = ascii ribcl_prolog @ ascii (ribcl_document user pass (ribcl_body cmd args)) \<and>
             server_reads (from_client s) (client_flight VERSION_TLS_1_0 cr cke) (session_keys master cr (sh_random sh))
               ((CT_HANDSHAKE, fin) # map (Pair CT_APPLICATION_DATA) texts @ [(CT_ALERT, [1, 0])])))"
proof -
  let ?s = "mock_server (honest_session VERSION_TLS_1_0 cr sh certs pm cke parts) k" and ?v = VERSION_TLS_1_0
  let ?c0 = "client_new VERSION_TLS_1_0 8000 0 ?s r"
  define master where "master = session_master pm cr (sh_random sh)"
  define km where "km = session_keys master cr (sh_random sh)"
  define fin where "fin = frame HT_FINISHED (rfc_finished master ''client finished'' (flight_log ?v cr sh certs cke))"
  obtain c key base reader where c: "client_connect mock_transport rng fuel host port ?c0 = (Got (), c)"
    and b: "read_records (length (client_flight ?v cr cke)) base (record_layer_new MD5_ops VERSION_TLS_1_0) =
      Some (client_flight ?v cr cke, [], reader)"
    and t0: "mock.talks (key, take 16 (client_mac km), base, enable_read_cipher MD5_ops (client_mac km) (client_key km) reader)
      [(CT_HANDSHAKE, fin)] [] parts c"
    using honest_session_talks [OF rng k _ sh parsed cr pm cke parts(1), of host port 8000] fuel
    unfolding master_def km_def fin_def by (metis gr_zeroI not_less_zero)
  let ?reader = "enable_read_cipher MD5_ops (client_mac km) (client_key km) reader"
  obtain c1 left
    where x: "ribcl_exchange (client_peer mock_transport fuel) fuel user pass (ribcl_body cmd args) ribcl_reply_complete c =
        (Got (first_reply ribcl_reply_complete parts), c1)"
      and t: "mock.talks (key, take 16 (client_mac km), base, ?reader) [(CT_HANDSHAKE, fin)]
        ([] @ [ascii ribcl_prolog, ascii (ribcl_document user pass (ribcl_body cmd args))]) left c1"
    using exchange_over_tls [OF t0 fuel parts(2)] by blast
  obtain texts where texts: "concat texts = ascii ribcl_prolog @ ascii (ribcl_document user pass (ribcl_body cmd args))"
    and s1: "mock.written (take 16 (client_mac km)) base ?reader ([(CT_HANDSHAKE, fin)] @ map (Pair CT_APPLICATION_DATA) texts) c1"
    using t by (auto simp: mock.talks_def)
  have "tp_valid mock_transport (sock c1)" using s1 by (simp add: mock.written_def mock_open_def mock_transport_def)
  from mock.written_close [OF s1 _ this] obtain d where d: "client_close mock_transport c1 = d\<lparr>sock := tp_close mock_transport (sock d)\<rparr>"
    and s2: "mock.written (take 16 (client_mac km)) base ?reader
      (([(CT_HANDSHAKE, fin)] @ map (Pair CT_APPLICATION_DATA) texts) @ [(CT_ALERT, [1, 0])]) d"
    by (auto simp: enable_read_cipher_def)
  from server_reads_written [OF b s2] have "server_reads (from_client (sock d)) (client_flight ?v cr cke) km
      ((CT_HANDSHAKE, fin) # map (Pair CT_APPLICATION_DATA) texts @ [(CT_ALERT, [1, 0])])" by simp
  then show ?thesis
    using c x d texts unfolding master_def [symmetric] km_def [symmetric] fin_def [symmetric] Let_def
    by (auto simp: ribcl_run_def peer_then_def Let_def mock_transport_def)
qed

lemma ribcl_over_tls_witness:
  "\<exists>script. fst (ribcl_run mock_transport (\<lambda>ms s. s) counting_rng 9 ''ilo'' 443 ''u'' ''p'' GetPowerStatus no_args
     (mock_server script 1, 0)) = Got (ribcl_parse ''<R'')"
proof -
  obtain pk cr r1 pm r2 cke r3 where s: "sendable VERSION_TLS_1_0 sample_hello [sample_certificate]"
    "parse_certificate_rsa_key ([sample_certificate] ! 0) = Inr pk" "make_client_random counting_rng 0 0 = (Some cr, r1)"
    "make_premaster counting_rng VERSION_TLS_1_0 r1 = (Some pm, r2)"
    "build_client_key_exchange counting_rng 9 pk pm r2 = (Drawn cke, r3)"
    unfolding VERSION_TLS_1_0_def by (rule sample_session [of 0])
  let ?parts = "[[60, 82]] :: bytes list"
  have p: "length ?parts < 9" "list_all (\<lambda>p. length p \<le> MAX_PLAINTEXT) ?parts" "length (concat ?parts) \<le> 2 ^ 20"
    by (simp_all add: MAX_PLAINTEXT_def)
  have "first_reply ribcl_reply_complete ?parts = ''<R''"
    by (simp add: first_reply_def ribcl_reply_complete_def chars_def char_of_def bit_simps)
  with ribcl_over_tls [OF counting_rng_total(2) zero_less_one p(1) s p(2,3), where host = "''ilo''" and port = 443 and user = "''u''" and pass = "''p''"
      and cmd = GetPowerStatus and args = no_args]
  show ?thesis by (auto simp: Let_def split_beta)
qed

end
