(* ===== verification/Health.thy ===== *)
theory Health
  imports Http
begin

text \<open>
  \<open>ilo/health.hpp\<close>: the tag scanner and the parsers of the health report and the power readings. The
  scanner looks at one tag at a time, from \<open><\<close> to the next \<open>></\<close>; what it reads of a tag never depends on
  anything behind that, so the model hands the text in between to the attribute loop.
\<close>

section \<open>Data\<close>

record health_fan =
  hf_label :: string
  hf_zone :: string
  hf_status :: string
  hf_speed :: int

record health_temp =
  ht_label :: string
  ht_location :: string
  ht_status :: string
  ht_reading :: int
  ht_caution :: int
  ht_critical :: int

record health_supply =
  hs_label :: string
  hs_status :: string

record health_drive =
  hd_bay :: int
  hd_product :: string
  hd_status :: string

record health_glance =
  hg_fans :: string
  hg_fan_redundancy :: string
  hg_temperature :: string
  hg_vrm :: string
  hg_supplies :: string
  hg_supply_redundancy :: string
  hg_drives :: string

record health_data =
  h_valid :: bool
  h_fans :: "health_fan list"
  h_temps :: "health_temp list"
  h_supplies :: "health_supply list"
  h_drives :: "health_drive list"
  h_glance :: health_glance

record power_readings =
  pr_valid :: bool
  pr_present :: int
  pr_average :: int
  pr_maximum :: int
  pr_minimum :: int

definition fan_new :: health_fan where
  "fan_new = \<lparr>hf_label = '''', hf_zone = '''', hf_status = '''', hf_speed = -1\<rparr>"

definition temp_new :: health_temp where
  "temp_new = \<lparr>ht_label = '''', ht_location = '''', ht_status = '''', ht_reading = -1, ht_caution = -1, ht_critical = -1\<rparr>"

definition supply_new :: health_supply where
  "supply_new = \<lparr>hs_label = '''', hs_status = ''''\<rparr>"

definition drive_new :: health_drive where
  "drive_new = \<lparr>hd_bay = 0, hd_product = '''', hd_status = ''''\<rparr>"

definition glance_new :: health_glance where
  "glance_new = \<lparr>hg_fans = '''', hg_fan_redundancy = '''', hg_temperature = '''', hg_vrm = '''', hg_supplies = '''',
     hg_supply_redundancy = '''', hg_drives = ''''\<rparr>"

definition health_new :: health_data where
  "health_new = \<lparr>h_valid = False, h_fans = [], h_temps = [], h_supplies = [], h_drives = [], h_glance = glance_new\<rparr>"

definition power_readings_new :: power_readings where
  "power_readings_new = \<lparr>pr_valid = False, pr_present = -1, pr_average = -1, pr_maximum = -1, pr_minimum = -1\<rparr>"

section \<open>The tag scanner\<close>

record xml_tag =
  tag_name :: string
  tag_closing :: bool
  tag_attrs :: "(string \<times> string) list"

definition tag_attr :: "string \<Rightarrow> xml_tag \<Rightarrow> string option" where
  "tag_attr key t = map_of (tag_attrs t) key"

definition tag_value :: "string \<Rightarrow> xml_tag \<Rightarrow> string" where
  "tag_value key t = (case tag_attr key t of None \<Rightarrow> '''' | Some v \<Rightarrow> v)"

definition tag_space :: "char \<Rightarrow> bool" where
  "tag_space c \<longleftrightarrow> c = CHR '' '' \<or> c = CHR 0x09 \<or> c = CHR 0x0D \<or> c = CHR 0x0A"

definition tag_char :: "char \<Rightarrow> bool" where
  "tag_char c \<longleftrightarrow> \<not> tag_space c \<and> c \<noteq> CHR ''='' \<and> c \<noteq> CHR ''/'' \<and> c \<noteq> CHR ''>'' \<and> c \<noteq> CHR 0x22 \<and> c \<noteq> CHR 0x27"

lemma attribute_shorter:
  fixes s :: string
  defines "i \<equiv> dropWhile tag_space s"
  defines "j \<equiv> dropWhile tag_space (dropWhile tag_char i)"
  defines "k \<equiv> dropWhile tag_space (tl j)"
  assumes i: "i \<noteq> []"
  shows "takeWhile tag_char i \<noteq> [] \<Longrightarrow> length j < length s"
    and "length (tl j) < length s"
    and "j \<noteq> [] \<Longrightarrow> length k < length s"
    and "j \<noteq> [] \<Longrightarrow> length (drop n (tl k)) < length s"
proof -
  have a: "length i \<le> length s" unfolding i_def by (rule length_dropWhile_le)
  have b: "length j \<le> length (dropWhile tag_char i)" unfolding j_def by (rule length_dropWhile_le)
  have c: "length (takeWhile tag_char i) + length (dropWhile tag_char i) = length i"
    by (metis length_append takeWhile_dropWhile_id)
  have d: "length k \<le> length (tl j)" unfolding k_def by (rule length_dropWhile_le)
  have e: "length i > 0" using i by simp
  have "length (tl j) = length j - 1" by simp
  then show s1: "length (tl j) < length s" using a b c e by linarith
  show "length j < length s" if "takeWhile tag_char i \<noteq> []"
  proof -
    have "0 < length (takeWhile tag_char i)" using that by simp
    then show ?thesis using a b c by linarith
  qed
  show s3: "length k < length s" if "j \<noteq> []" using d s1 by linarith
  show "length (drop n (tl k)) < length s" if "j \<noteq> []" using s3 [OF that] by simp
qed

text \<open>The loop over the attributes, on what is left of the tag.\<close>

function tag_attributes :: "string \<Rightarrow> (string \<times> string) list" where
  "tag_attributes s =
     (let i = dropWhile tag_space s
      in if i = [] \<or> hd i = CHR ''/'' then []
         else (let key = takeWhile tag_char i; j = dropWhile tag_space (dropWhile tag_char i)
               in if j = [] \<or> hd j \<noteq> CHR ''='' then tag_attributes (if key = [] then tl j else j)
                  else (let k = dropWhile tag_space (tl j)
                        in if k = [] then []
                           else if hd k \<noteq> CHR 0x22 \<and> hd k \<noteq> CHR 0x27 then tag_attributes k
                           else (case find_str [hd k] (tl k) of
                                   None \<Rightarrow> []
                                 | Some stop \<Rightarrow> (key, take stop (tl k)) # tag_attributes (drop (stop + 1) (tl k))))))"
  by pat_completeness auto

termination
  by (relation "measure length")
    (simp_all del: length_tl length_drop add: attribute_shorter split: if_splits)

declare tag_attributes.simps [simp del]

text \<open>What is between \<open><\<close> and \<open>></\<close>; \<open>None\<close> where the scanner passes over it.\<close>

definition read_tag :: "string \<Rightarrow> xml_tag option" where
  "read_tag r =
     (if r \<noteq> [] \<and> (hd r = CHR ''?'' \<or> hd r = CHR ''!'') then None
      else (let closing = (r \<noteq> [] \<and> hd r = CHR ''/'');
                s = (if closing then tl r else r);
                name = takeWhile tag_char s
            in if name = [] then None
               else Some \<lparr>tag_name = name, tag_closing = closing, tag_attrs = tag_attributes (dropWhile tag_char s)\<rparr>))"

function xml_next_tag :: "string \<Rightarrow> (xml_tag \<times> string) option" where
  "xml_next_tag s =
     (case find_str ''<'' s of
        None \<Rightarrow> None
      | Some lt \<Rightarrow>
          (case find_str ''>'' (drop lt s) of
             None \<Rightarrow> None
           | Some gap \<Rightarrow>
               (case read_tag (take (gap - 1) (drop (lt + 1) s)) of
                  None \<Rightarrow> xml_next_tag (drop (lt + gap + 1) s)
                | Some t \<Rightarrow> Some (t, drop (lt + gap + 1) s))))"
  by pat_completeness auto
termination
proof (relation "measure length", simp_all)
  fix s :: string and lt
  assume "find_str ''<'' s = Some lt"
  then have "0 < length s" using find_str_Some by fastforce
  then show "length s - Suc (lt + x2) < length s" for x2 by simp
qed

declare xml_next_tag.simps [simp del]

lemma xml_next_tag_shorter: "xml_next_tag s = Some (t, r) \<Longrightarrow> length r < length s"
proof (induction s rule: xml_next_tag.induct)
  case (1 s)
  obtain lt gap where f: "find_str ''<'' s = Some lt" "find_str ''>'' (drop lt s) = Some gap"
    using "1.prems" by (subst (asm) xml_next_tag.simps) (auto split: option.splits)
  have shorter: "length (drop (lt + gap + 1) s) < length s" using find_str_Some [OF f(1)] by auto
  show ?case
  proof (cases "read_tag (take (gap - 1) (drop (lt + 1) s))")
    case None
    then have "xml_next_tag (drop (lt + gap + 1) s) = Some (t, r)"
      using "1.prems" by (subst (asm) xml_next_tag.simps) (simp add: f)
    with "1.IH" [OF f None] shorter show ?thesis by linarith
  next
    case (Some u)
    then have "r = drop (lt + gap + 1) s" using "1.prems" by (subst (asm) xml_next_tag.simps) (simp add: f)
    with shorter show ?thesis by simp
  qed
qed

text \<open>The tags a loop over \<open>xml_next_tag\<close> sees.\<close>

function xml_tags :: "string \<Rightarrow> xml_tag list" where
  "xml_tags s = (case xml_next_tag s of None \<Rightarrow> [] | Some (t, r) \<Rightarrow> t # xml_tags r)"
  by pat_completeness auto
termination by (relation "measure length") (auto intro: xml_next_tag_shorter)

declare xml_tags.simps [simp del]

section \<open>The parsers\<close>

text \<open>\<open>strtol\<close> in base 10 with 64 bit \<open>long\<close>, then the conversion to \<open>int\<close>.\<close>

definition health_int :: "string \<Rightarrow> int" where
  "health_int v =
     (if v = [] \<or> v = ''n/a'' \<or> v = ''N/A'' then -1
      else (let s = dropWhile is_c_space v;
                neg = (s \<noteq> [] \<and> hd s = CHR ''-'');
                s = (if s \<noteq> [] \<and> (hd s = CHR ''-'' \<or> hd s = CHR ''+'') then tl s else s);
                ds = takeWhile is_digit s;
                n = (if neg then - int (dec_val ds) else int (dec_val ds))
            in if ds = [] then -1
               else signed_take_bit 31 (max (- (2 ^ 63)) (min (2 ^ 63 - 1) n))))"

datatype health_section = SecNone | SecFans | SecTemps | SecSupplies | SecDrives | SecGlance

definition section_of :: "string \<Rightarrow> health_section" where
  "section_of name =
     (if name = ''FANS'' then SecFans else if name = ''TEMPERATURE'' then SecTemps
      else if name = ''POWER_SUPPLIES'' then SecSupplies else if name = ''DRIVES'' then SecDrives
      else if name = ''HEALTH_AT_A_GLANCE'' then SecGlance else SecNone)"

text \<open>An assignment to a field of \<open>back()\<close>; nothing happens on an empty vector.\<close>

definition set_back :: "('a \<Rightarrow> 'a) \<Rightarrow> 'a list \<Rightarrow> 'a list" where
  "set_back f xs = (if xs = [] then [] else butlast xs @ [f (last xs)])"

definition set_fan :: "string \<Rightarrow> string \<Rightarrow> health_fan \<Rightarrow> health_fan" where
  "set_fan name v f =
     (if name = ''LABEL'' then f\<lparr>hf_label := v\<rparr> else if name = ''ZONE'' then f\<lparr>hf_zone := v\<rparr>
      else if name = ''STATUS'' then f\<lparr>hf_status := v\<rparr> else if name = ''SPEED'' then f\<lparr>hf_speed := health_int v\<rparr> else f)"

definition set_temp :: "string \<Rightarrow> string \<Rightarrow> health_temp \<Rightarrow> health_temp" where
  "set_temp name v x =
     (if name = ''LABEL'' then x\<lparr>ht_label := v\<rparr> else if name = ''LOCATION'' then x\<lparr>ht_location := v\<rparr>
      else if name = ''STATUS'' then x\<lparr>ht_status := v\<rparr>
      else if name = ''CURRENTREADING'' then x\<lparr>ht_reading := health_int v\<rparr>
      else if name = ''CAUTION'' then x\<lparr>ht_caution := health_int v\<rparr>
      else if name = ''CRITICAL'' then x\<lparr>ht_critical := health_int v\<rparr> else x)"

definition set_supply :: "string \<Rightarrow> string \<Rightarrow> health_supply \<Rightarrow> health_supply" where
  "set_supply name v x =
     (if name = ''LABEL'' then x\<lparr>hs_label := v\<rparr> else if name = ''STATUS'' then x\<lparr>hs_status := v\<rparr> else x)"

definition set_drive :: "xml_tag \<Rightarrow> health_drive \<Rightarrow> health_drive" where
  "set_drive t x =
     (if tag_name t = ''PRODUCT'' then x\<lparr>hd_product := tag_value ''ID'' t\<rparr>
      else if tag_name t = ''DRIVE_STATUS'' then x\<lparr>hd_status := tag_value ''VALUE'' t\<rparr> else x)"

definition unless_empty :: "string \<Rightarrow> string \<Rightarrow> string" where
  "unless_empty new old = (if new = [] then old else new)"

definition set_glance :: "string \<Rightarrow> string \<Rightarrow> string \<Rightarrow> health_glance \<Rightarrow> health_glance" where
  "set_glance name st red g =
     (if name = ''FANS'' then g\<lparr>hg_fans := unless_empty st (hg_fans g), hg_fan_redundancy := unless_empty red (hg_fan_redundancy g)\<rparr>
      else if name = ''TEMPERATURE'' then g\<lparr>hg_temperature := unless_empty st (hg_temperature g)\<rparr>
      else if name = ''VRM'' then g\<lparr>hg_vrm := unless_empty st (hg_vrm g)\<rparr>
      else if name = ''POWER_SUPPLIES'' then g\<lparr>hg_supplies := unless_empty st (hg_supplies g),
                                             hg_supply_redundancy := unless_empty red (hg_supply_redundancy g)\<rparr>
      else if name = ''DRIVE'' then g\<lparr>hg_drives := unless_empty st (hg_drives g)\<rparr> else g)"

text \<open>One turn of the loop of \<open>parse_embedded_health\<close>.\<close>

fun health_step :: "health_data \<times> health_section \<Rightarrow> xml_tag \<Rightarrow> health_data \<times> health_section" where
  "health_step (h, sec) t =
     (let name = tag_name t; v = tag_value ''VALUE'' t
      in if tag_closing t
         then (if name = ''GET_EMBEDDED_HEALTH_DATA'' then h\<lparr>h_valid := True\<rparr> else h,
               if section_of name \<noteq> SecNone then SecNone else sec)
         else (case sec of
                 SecNone \<Rightarrow> (h, section_of name)
               | SecFans \<Rightarrow> (h\<lparr>h_fans := if name = ''FAN'' then h_fans h @ [fan_new] else set_back (set_fan name v) (h_fans h)\<rparr>, sec)
               | SecTemps \<Rightarrow> (h\<lparr>h_temps := if name = ''TEMP'' then h_temps h @ [temp_new] else set_back (set_temp name v) (h_temps h)\<rparr>, sec)
               | SecSupplies \<Rightarrow>
                   (h\<lparr>h_supplies := if name = ''SUPPLY'' then h_supplies h @ [supply_new] else set_back (set_supply name v) (h_supplies h)\<rparr>, sec)
               | SecDrives \<Rightarrow>
                   (h\<lparr>h_drives := if name = ''DRIVE'' then h_drives h @ [drive_new\<lparr>hd_bay := health_int (tag_value ''BAY'' t)\<rparr>]
                                 else set_back (set_drive t) (h_drives h)\<rparr>, sec)
               | SecGlance \<Rightarrow> (h\<lparr>h_glance := set_glance name (tag_value ''STATUS'' t) (tag_value ''REDUNDANCY'' t) (h_glance h)\<rparr>, sec)))"

definition parse_embedded_health :: "string \<Rightarrow> health_data" where
  "parse_embedded_health xml = fst (foldl health_step (health_new, SecNone) (xml_tags xml))"

definition reading_step :: "power_readings \<Rightarrow> xml_tag \<Rightarrow> power_readings" where
  "reading_step p t =
     (if tag_closing t then (if tag_name t = ''GET_POWER_READINGS'' then p\<lparr>pr_valid := True\<rparr> else p)
      else (let v = health_int (tag_value ''VALUE'' t)
            in if tag_name t = ''PRESENT_POWER_READING'' then p\<lparr>pr_present := v\<rparr>
               else if tag_name t = ''AVERAGE_POWER_READING'' then p\<lparr>pr_average := v\<rparr>
               else if tag_name t = ''MAXIMUM_POWER_READING'' then p\<lparr>pr_maximum := v\<rparr>
               else if tag_name t = ''MINIMUM_POWER_READING'' then p\<lparr>pr_minimum := v\<rparr> else p))"

definition parse_power_readings :: "string \<Rightarrow> power_readings" where
  "parse_power_readings xml = foldl reading_step power_readings_new (xml_tags xml)"

definition hottest_step :: "health_temp option \<Rightarrow> health_temp \<Rightarrow> health_temp option" where
  "hottest_step best t =
     (if ht_reading t \<ge> 0 \<and> (case best of None \<Rightarrow> True | Some b \<Rightarrow> ht_reading t > ht_reading b) then Some t else best)"

definition hottest :: "health_data \<Rightarrow> health_temp option" where
  "hottest h = foldl hottest_step None (h_temps h)"

definition health_all_ok :: "health_glance \<Rightarrow> bool" where
  "health_all_ok g =
     list_all (\<lambda>s. s = [] \<or> s = ''Ok'') [hg_fans g, hg_temperature g, hg_vrm g, hg_supplies g, hg_drives g]"

end
