(* ===== verification/Health_Report.thy ===== *)
theory Health_Report
  imports Health
begin

text \<open>
  What the parsers of \<open>ilo/health.hpp\<close> recover: a report written the way the firmware writes it (attributes
  with spaces around the equals sign, self-closing drives, the glance section with tags that elsewhere
  open sections) is read back field by field.
\<close>

section \<open>Reading one tag\<close>

definition plain_name :: "string \<Rightarrow> bool" where
  "plain_name s \<longleftrightarrow> s \<noteq> [] \<and> list_all tag_char s \<and> hd s \<noteq> CHR ''?'' \<and> hd s \<noteq> CHR ''!''"

definition quotable :: "string \<Rightarrow> bool" where
  "quotable v \<longleftrightarrow> CHR 0x22 \<notin> set v \<and> CHR ''>'' \<notin> set v"

definition spec_attr :: "string \<times> string \<Rightarrow> string" where
  "spec_attr a = '' '' @ fst a @ '' = '' @ [CHR 0x22] @ snd a @ [CHR 0x22]"

definition spec_attrs :: "(string \<times> string) list \<Rightarrow> string" where
  "spec_attrs as = concat (map spec_attr as)"

definition spec_tag :: "string \<Rightarrow> (string \<times> string) list \<Rightarrow> bool \<Rightarrow> string" where
  "spec_tag name as closed = ''<'' @ name @ spec_attrs as @ (if closed then ''/'' else '''') @ ''>''"

definition spec_close :: "string \<Rightarrow> string" where
  "spec_close name = ''</'' @ name @ ''>''"

lemma tag_char_simps [simp]:
  "\<not> tag_char CHR '' ''" "\<not> tag_char CHR ''=''" "\<not> tag_char CHR ''/''" "\<not> tag_char CHR ''>''" "\<not> tag_char CHR 0x22"
  "tag_space CHR '' ''" "\<not> tag_space CHR ''=''" "\<not> tag_space CHR ''/''" "\<not> tag_space CHR 0x22"
  by (simp_all add: tag_char_def tag_space_def)

lemma tag_char_space: "tag_char c \<Longrightarrow> \<not> tag_space c" by (simp add: tag_char_def)

lemma plain_prefix:
  assumes "plain_name s" "r = [] \<or> \<not> tag_char (hd r)"
  shows "takeWhile tag_char (s @ r) = s" "dropWhile tag_char (s @ r) = r" "dropWhile tag_space (s @ r) = s @ r"
    "hd (s @ r) \<noteq> CHR ''/''"
proof -
  have a: "\<forall>c\<in>set s. tag_char c" and s: "s \<noteq> []" using assms(1) by (auto simp: plain_name_def list_all_iff)
  have r: "takeWhile tag_char r = []" "dropWhile tag_char r = r" using assms(2) by (cases r; auto)+
  show "takeWhile tag_char (s @ r) = s" "dropWhile tag_char (s @ r) = r" using a r by (simp_all add: takeWhile_append2 dropWhile_append2)
  have h: "tag_char (hd s)" using a s by simp
  then show "dropWhile tag_space (s @ r) = s @ r" using s tag_char_space by (cases s) auto
  show "hd (s @ r) \<noteq> CHR ''/''" using h s by auto
qed

lemma attributes_end: "tag_attributes [] = []" "tag_attributes ''/'' = []"
  by (subst tag_attributes.simps; simp)+

lemma attribute_step:
  assumes "dropWhile tag_space s = i" "i \<noteq> []" "hd i \<noteq> CHR ''/''" "takeWhile tag_char i = key"
    "dropWhile tag_space (dropWhile tag_char i) = CHR ''='' # j" "dropWhile tag_space j = CHR 0x22 # k"
    "find_str [CHR 0x22] k = Some n"
  shows "tag_attributes s = (key, take n k) # tag_attributes (drop (n + 1) k)"
  using assms by (subst tag_attributes.simps) (simp del: dropWhile_eq_Cons_conv)

lemma attribute_read:
  assumes k: "plain_name (fst a)" and v: "quotable (snd a)"
  shows "tag_attributes (spec_attr a @ r) = a # tag_attributes r"
proof -
  define k where "k = snd a @ CHR 0x22 # r"
  define t where "t = '' = '' @ CHR 0x22 # k"
  have t: "t = [] \<or> \<not> tag_char (hd t)" by (simp add: t_def)
  note p = plain_prefix [OF k t]
  have e: "spec_attr a @ r = '' '' @ fst a @ t" by (simp add: spec_attr_def t_def k_def)
  have s: "dropWhile tag_space (spec_attr a @ r) = fst a @ t" by (simp add: e p(3))
  have n: "fst a @ t \<noteq> []" by (simp add: t_def)
  have j: "dropWhile tag_space (dropWhile tag_char (fst a @ t)) = CHR ''='' # '' '' @ CHR 0x22 # k"
    by (simp add: p(2)) (simp add: t_def)
  have q: "dropWhile tag_space ('' '' @ CHR 0x22 # k) = CHR 0x22 # k" by simp
  have f: "find_str [CHR 0x22] k = Some (length (snd a))"
    unfolding k_def using v by (intro find_char) (simp add: quotable_def)
  have "tag_attributes (spec_attr a @ r) = (fst a, take (length (snd a)) k) # tag_attributes (drop (length (snd a) + 1) k)"
    by (rule attribute_step [OF s n p(4) p(1) j q f])
  then show ?thesis by (simp add: k_def)
qed

lemma attributes_read:
  "list_all (\<lambda>a. plain_name (fst a) \<and> quotable (snd a)) as \<Longrightarrow> tag_attributes (spec_attrs as @ r) = as @ tag_attributes r"
  by (induction as) (simp_all add: spec_attrs_def attribute_read)

section \<open>Reading a text of tags\<close>

lemma xml_tags_tag:
  assumes g: "CHR ''<'' \<notin> set g" and r: "CHR ''>'' \<notin> set r" and t: "read_tag r = Some t"
  shows "xml_tags (g @ ''<'' @ r @ ''>'' @ s) = t # xml_tags s"
proof -
  have f: "find_str ''<'' (g @ ''<'' @ r @ ''>'' @ s) = Some (length g)" using find_char [OF g] by simp
  have d: "drop (length g) (g @ ''<'' @ r @ ''>'' @ s) = (CHR ''<'' # r) @ CHR ''>'' # s" by simp
  have h: "find_str ''>'' ((CHR ''<'' # r) @ CHR ''>'' # s) = Some (length (CHR ''<'' # r))"
    using r by (intro find_char) simp
  have "xml_next_tag (g @ ''<'' @ r @ ''>'' @ s) = Some (t, s)"
    by (subst xml_next_tag.simps, simp only: f d h option.case) (simp add: t)
  then show ?thesis by (subst xml_tags.simps) simp
qed

lemma xml_tags_none: "CHR ''<'' \<notin> set g \<Longrightarrow> xml_tags g = []"
proof -
  assume "CHR ''<'' \<notin> set g"
  then have "find_str ''<'' g = None" by (induction g) auto
  then have "xml_next_tag g = None" by (subst xml_next_tag.simps) simp
  then show ?thesis by (subst xml_tags.simps) simp
qed

definition spec_attrs_ok :: "(string \<times> string) list \<Rightarrow> bool" where
  "spec_attrs_ok as \<longleftrightarrow> list_all (\<lambda>a. plain_name (fst a) \<and> quotable (snd a)) as"

lemma plain_free: "plain_name s \<Longrightarrow> CHR ''>'' \<notin> set s"
  by (auto simp: plain_name_def list_all_iff)

lemma attrs_free: "spec_attrs_ok as \<Longrightarrow> CHR ''>'' \<notin> set (spec_attrs as)"
  by (auto simp: spec_attrs_ok_def spec_attrs_def spec_attr_def list_all_iff quotable_def dest: plain_free)

lemma xml_tags_open:
  assumes n: "plain_name name" and a: "spec_attrs_ok as" and g: "CHR ''<'' \<notin> set g"
  shows "xml_tags (g @ spec_tag name as c @ s) = \<lparr>tag_name = name, tag_closing = False, tag_attrs = as\<rparr> # xml_tags s"
proof -
  define e where "e = spec_attrs as @ (if c then ''/'' else '''')"
  have e: "e = [] \<or> \<not> tag_char (hd e)"
    by (cases as) (simp_all add: e_def spec_attrs_def spec_attr_def)
  have ta: "tag_attributes e = as"
    using attributes_read [of as "if c then ''/'' else ''''"] a by (cases c) (simp_all add: e_def spec_attrs_ok_def attributes_end)
  note p = plain_prefix [OF n e]
  have h: "hd (name @ e) \<noteq> CHR ''?''" "hd (name @ e) \<noteq> CHR ''!''" "name \<noteq> []" using n by (auto simp: plain_name_def)
  have "read_tag (name @ e) = Some \<lparr>tag_name = name, tag_closing = False, tag_attrs = as\<rparr>"
    by (simp only: read_tag_def Let_def p h if_False if_True simp_thms ta)
  moreover have "CHR ''>'' \<notin> set (name @ e)" using plain_free [OF n] attrs_free [OF a] by (simp add: e_def)
  ultimately have "xml_tags (g @ ''<'' @ (name @ e) @ ''>'' @ s) = \<lparr>tag_name = name, tag_closing = False, tag_attrs = as\<rparr> # xml_tags s"
    by (intro xml_tags_tag [OF g])
  then show ?thesis by (simp only: spec_tag_def e_def append_assoc)
qed

lemma xml_tags_close:
  assumes n: "plain_name name" and g: "CHR ''<'' \<notin> set g"
  shows "xml_tags (g @ spec_close name @ s) = \<lparr>tag_name = name, tag_closing = True, tag_attrs = []\<rparr> # xml_tags s"
proof -
  have p: "takeWhile tag_char name = name" "dropWhile tag_char name = []"
    using plain_prefix(1,2) [OF n, of "[]"] by (simp_all only: append_Nil2 simp_thms)
  have "name \<noteq> []" using n by (simp add: plain_name_def)
  then have "read_tag (''/'' @ name) = Some \<lparr>tag_name = name, tag_closing = True, tag_attrs = []\<rparr>"
    by (simp add: read_tag_def attributes_end p Let_def del: takeWhile_eq_all_conv dropWhile_eq_Nil_conv)
  moreover have "CHR ''>'' \<notin> set (''/'' @ name)" using plain_free [OF n] by simp
  ultimately have "xml_tags (g @ ''<'' @ (''/'' @ name) @ ''>'' @ s) = \<lparr>tag_name = name, tag_closing = True, tag_attrs = []\<rparr> # xml_tags s"
    by (intro xml_tags_tag [OF g])
  then show ?thesis by (simp add: spec_close_def)
qed

text \<open>A document is a list of lines: opening or self-closing tags, closing tags.\<close>

datatype spec_line = Line string "(string \<times> string) list" bool | Close string

fun spec_line_text :: "spec_line \<Rightarrow> string" where
  "spec_line_text (Line n as c) = spec_tag n as c"
| "spec_line_text (Close n) = spec_close n"

fun spec_line_tag :: "spec_line \<Rightarrow> xml_tag" where
  "spec_line_tag (Line n as c) = \<lparr>tag_name = n, tag_closing = False, tag_attrs = as\<rparr>"
| "spec_line_tag (Close n) = \<lparr>tag_name = n, tag_closing = True, tag_attrs = []\<rparr>"

fun spec_line_ok :: "spec_line \<Rightarrow> bool" where
  "spec_line_ok (Line n as c) \<longleftrightarrow> plain_name n \<and> spec_attrs_ok as"
| "spec_line_ok (Close n) \<longleftrightarrow> plain_name n"

definition spec_text :: "spec_line list \<Rightarrow> string" where
  "spec_text ls = concat (map (\<lambda>l. [CHR 0x0D, CHR 0x0A, CHR '' ''] @ spec_line_text l) ls)"

lemma xml_tags_text: "list_all spec_line_ok ls \<Longrightarrow> xml_tags (spec_text ls) = map spec_line_tag ls"
proof (induction ls)
  case Nil
  show ?case using xml_tags_none [of "[]"] by (simp add: spec_text_def)
next
  case (Cons l ls)
  have g: "CHR ''<'' \<notin> set [CHR 0x0D, CHR 0x0A, CHR '' '']" by simp
  have e: "spec_text (l # ls) = [CHR 0x0D, CHR 0x0A, CHR '' ''] @ spec_line_text l @ spec_text ls"
    by (simp add: spec_text_def)
  show ?case
  proof (cases l)
    case (Line n as c)
    then show ?thesis unfolding e using Cons xml_tags_open [of n as, OF _ _ g] by simp
  next
    case (Close n)
    then show ?thesis unfolding e using Cons xml_tags_close [of n, OF _ g] by simp
  qed
qed

section \<open>Numbers\<close>

definition int32 :: "int \<Rightarrow> bool" where
  "int32 n \<longleftrightarrow> - (2 ^ 31) \<le> n \<and> n < 2 ^ 31"

lemma digits_start: "is_digit (hd (dec_digits n)) \<and> dec_digits n \<noteq> [] \<and> takeWhile is_digit (dec_digits n) = dec_digits n"
  using dec_digits_props(2,3) [of n] by (simp add: list_all_iff takeWhile_eq_all_conv)

lemma digit_no_space: "is_digit c \<Longrightarrow> \<not> is_c_space c \<and> c \<noteq> CHR ''-'' \<and> c \<noteq> CHR ''+'' \<and> c \<noteq> CHR ''n'' \<and> c \<noteq> CHR ''N''"
  by (auto simp: is_digit_def is_c_space_def)

lemma health_int_round:
  assumes "int32 n"
  shows "health_int (to_string n) = n"
proof -
  have fit: "signed_take_bit 31 (max (- (2 ^ 63)) (min (2 ^ 63 - 1) n)) = n"
    using assms by (simp add: int32_def signed_take_bit_int_eq_self_iff max_def min_def)
  show ?thesis
  proof (cases "n < 0")
    case True
    let ?d = "dec_digits (nat (- n))"
    have d: "takeWhile is_digit ?d = ?d" "?d \<noteq> []" using digits_start by blast+
    have v: "dec_val ?d = nat (- n)" by (rule dec_digits_props)
    have e: "to_string n = CHR ''-'' # ?d" using True by (simp add: to_string_def)
    have s: "\<not> is_c_space CHR ''-''" by (simp add: is_c_space_def)
    show ?thesis using True fit
      by (simp add: health_int_def e s d v del: takeWhile_eq_all_conv)
  next
    case False
    obtain c cs where d: "dec_digits (nat n) = c # cs" "is_digit c" "takeWhile is_digit (c # cs) = c # cs"
      using digits_start [of "nat n"] by (cases "dec_digits (nat n)") auto
    have v: "dec_val (c # cs) = nat n" using dec_digits_props(1) [of "nat n"] d(1) by simp
    have e: "to_string n = c # cs" using False d(1) by (simp add: to_string_def)
    note c = digit_no_space [OF d(2)]
    show ?thesis using False fit c
      by (simp add: health_int_def e d(3) v Let_def del: takeWhile_eq_all_conv takeWhile.simps)
  qed
qed

lemma to_string_quotable: "quotable (to_string n)"
proof -
  have "\<not> is_digit CHR 0x22" "\<not> is_digit CHR ''>''" by (simp_all add: is_digit_def)
  then have "CHR 0x22 \<notin> set (dec_digits m)" "CHR ''>'' \<notin> set (dec_digits m)" for m
    using dec_digits_props(2) [of m] by (auto simp: list_all_iff)
  then show ?thesis by (simp add: quotable_def to_string_def)
qed

section \<open>The report of the firmware\<close>

definition spec_value :: "string \<Rightarrow> string \<Rightarrow> spec_line" where
  "spec_value name v = Line name [(''VALUE'', v)] True"

definition spec_number :: "string \<Rightarrow> int \<Rightarrow> string \<Rightarrow> spec_line" where
  "spec_number name n unit = Line name [(''VALUE'', to_string n), (''UNIT'', unit)] True"

definition spec_fan :: "health_fan \<Rightarrow> spec_line list" where
  "spec_fan f = [Line ''FAN'' [] False, spec_value ''LABEL'' (hf_label f), spec_value ''ZONE'' (hf_zone f),
     spec_value ''STATUS'' (hf_status f), spec_number ''SPEED'' (hf_speed f) ''Percentage'', Close ''FAN'']"

definition spec_temp :: "health_temp \<Rightarrow> spec_line list" where
  "spec_temp x = [Line ''TEMP'' [] False, spec_value ''LABEL'' (ht_label x), spec_value ''LOCATION'' (ht_location x),
     spec_value ''STATUS'' (ht_status x), spec_number ''CURRENTREADING'' (ht_reading x) ''Celsius'',
     spec_number ''CAUTION'' (ht_caution x) ''Celsius'', spec_number ''CRITICAL'' (ht_critical x) ''Celsius'', Close ''TEMP'']"

definition spec_supply :: "health_supply \<Rightarrow> spec_line list" where
  "spec_supply x = [Line ''SUPPLY'' [] False, spec_value ''LABEL'' (hs_label x), spec_value ''STATUS'' (hs_status x), Close ''SUPPLY'']"

definition spec_drive :: "health_drive \<Rightarrow> spec_line list" where
  "spec_drive x = [Line ''DRIVE'' [(''BAY'', to_string (hd_bay x))] True, Line ''PRODUCT'' [(''ID'', hd_product x)] True,
     spec_value ''DRIVE_STATUS'' (hd_status x)]"

definition spec_glance :: "health_glance \<Rightarrow> spec_line list" where
  "spec_glance g = [Line ''FANS'' [(''STATUS'', hg_fans g)] True, Line ''FANS'' [(''REDUNDANCY'', hg_fan_redundancy g)] True,
     Line ''TEMPERATURE'' [(''STATUS'', hg_temperature g)] True, Line ''VRM'' [(''STATUS'', hg_vrm g)] True,
     Line ''POWER_SUPPLIES'' [(''STATUS'', hg_supplies g)] True,
     Line ''POWER_SUPPLIES'' [(''REDUNDANCY'', hg_supply_redundancy g)] True, Line ''DRIVE'' [(''STATUS'', hg_drives g)] True]"

definition spec_section :: "string \<Rightarrow> spec_line list \<Rightarrow> spec_line list" where
  "spec_section name ls = Line name [] False # ls @ [Close name]"

definition spec_health :: "health_data \<Rightarrow> spec_line list" where
  "spec_health h = spec_section ''GET_EMBEDDED_HEALTH_DATA''
     (spec_section ''FANS'' (concat (map spec_fan (h_fans h))) @
      spec_section ''TEMPERATURE'' (concat (map spec_temp (h_temps h))) @
      spec_section ''POWER_SUPPLIES'' (concat (map spec_supply (h_supplies h))) @
      spec_section ''DRIVES'' (spec_section ''BACKPLANE'' (concat (map spec_drive (h_drives h)))) @
      spec_section ''HEALTH_AT_A_GLANCE'' (spec_glance (h_glance h)))"

definition spec_power :: "power_readings \<Rightarrow> spec_line list" where
  "spec_power p = spec_section ''GET_POWER_READINGS''
     [spec_number ''PRESENT_POWER_READING'' (pr_present p) ''Watts'', spec_number ''AVERAGE_POWER_READING'' (pr_average p) ''Watts'',
      spec_number ''MAXIMUM_POWER_READING'' (pr_maximum p) ''Watts'', spec_number ''MINIMUM_POWER_READING'' (pr_minimum p) ''Watts'']"

definition fan_ok :: "health_fan \<Rightarrow> bool" where
  "fan_ok f \<longleftrightarrow> quotable (hf_label f) \<and> quotable (hf_zone f) \<and> quotable (hf_status f) \<and> int32 (hf_speed f)"

definition temp_ok :: "health_temp \<Rightarrow> bool" where
  "temp_ok x \<longleftrightarrow> quotable (ht_label x) \<and> quotable (ht_location x) \<and> quotable (ht_status x) \<and>
     int32 (ht_reading x) \<and> int32 (ht_caution x) \<and> int32 (ht_critical x)"

definition supply_ok :: "health_supply \<Rightarrow> bool" where
  "supply_ok x \<longleftrightarrow> quotable (hs_label x) \<and> quotable (hs_status x)"

definition drive_ok :: "health_drive \<Rightarrow> bool" where
  "drive_ok x \<longleftrightarrow> quotable (hd_product x) \<and> quotable (hd_status x) \<and> int32 (hd_bay x)"

definition glance_ok :: "health_glance \<Rightarrow> bool" where
  "glance_ok g \<longleftrightarrow> list_all quotable [hg_fans g, hg_fan_redundancy g, hg_temperature g, hg_vrm g, hg_supplies g,
     hg_supply_redundancy g, hg_drives g]"

definition health_ok :: "health_data \<Rightarrow> bool" where
  "health_ok h \<longleftrightarrow> h_valid h \<and> list_all fan_ok (h_fans h) \<and> list_all temp_ok (h_temps h) \<and>
     list_all supply_ok (h_supplies h) \<and> list_all drive_ok (h_drives h) \<and> glance_ok (h_glance h)"

lemma spec_names:
  "list_all plain_name [''FAN'', ''LABEL'', ''ZONE'', ''STATUS'', ''SPEED'', ''TEMP'', ''LOCATION'', ''CURRENTREADING'', ''CAUTION'',
     ''CRITICAL'', ''SUPPLY'', ''DRIVE'', ''PRODUCT'', ''DRIVE_STATUS'', ''FANS'', ''TEMPERATURE'', ''VRM'', ''POWER_SUPPLIES'',
     ''DRIVES'', ''BACKPLANE'', ''HEALTH_AT_A_GLANCE'', ''GET_EMBEDDED_HEALTH_DATA'', ''GET_POWER_READINGS'',
     ''PRESENT_POWER_READING'', ''AVERAGE_POWER_READING'', ''MAXIMUM_POWER_READING'', ''MINIMUM_POWER_READING'',
     ''VALUE'', ''UNIT'', ''BAY'', ''ID'', ''REDUNDANCY'']"
  by code_simp

lemma spec_units: "list_all quotable [''Percentage'', ''Celsius'', ''Watts'']"
  by code_simp

lemmas spec_words = spec_names [unfolded list.pred_inject] spec_units [unfolded list.pred_inject]

lemmas spec_lines = spec_value_def spec_number_def spec_attrs_ok_def to_string_quotable spec_words

lemma spec_parts_ok:
  "fan_ok f \<Longrightarrow> list_all spec_line_ok (spec_fan f)"
  "temp_ok x \<Longrightarrow> list_all spec_line_ok (spec_temp x)"
  "supply_ok s \<Longrightarrow> list_all spec_line_ok (spec_supply s)"
  "drive_ok d \<Longrightarrow> list_all spec_line_ok (spec_drive d)"
  "glance_ok g \<Longrightarrow> list_all spec_line_ok (spec_glance g)"
  by (simp_all add: fan_ok_def temp_ok_def supply_ok_def drive_ok_def glance_ok_def
      spec_fan_def spec_temp_def spec_supply_def spec_drive_def spec_glance_def spec_lines)

lemma spec_section_ok: "plain_name n \<Longrightarrow> list_all spec_line_ok ls \<Longrightarrow> list_all spec_line_ok (spec_section n ls)"
  by (simp add: spec_section_def spec_attrs_ok_def)

lemma list_all_concat_map: "(\<And>x. P x \<Longrightarrow> list_all Q (f x)) \<Longrightarrow> list_all P xs \<Longrightarrow> list_all Q (concat (map f xs))"
  by (induction xs) simp_all

lemma spec_health_ok: "health_ok h \<Longrightarrow> list_all spec_line_ok (spec_health h)"
  unfolding spec_health_def health_ok_def
  by (intro spec_section_ok)
    (simp_all add: spec_words spec_section_ok spec_parts_ok(5) list_all_concat_map [OF spec_parts_ok(1)]
      list_all_concat_map [OF spec_parts_ok(2)] list_all_concat_map [OF spec_parts_ok(3)] list_all_concat_map [OF spec_parts_ok(4)])

lemma spec_power_ok: "list_all spec_line_ok (spec_power p)"
  by (simp add: spec_power_def spec_section_def spec_lines)

abbreviation health_run :: "health_data \<times> health_section \<Rightarrow> spec_line list \<Rightarrow> health_data \<times> health_section" where
  "health_run s ls \<equiv> foldl health_step s (map spec_line_tag ls)"

lemmas health_tag = tag_value_def tag_attr_def section_of_def set_back_def Let_def

lemma health_fan_run:
  "int32 (hf_speed f) \<Longrightarrow> health_run (h, SecFans) (spec_fan f) = (h\<lparr>h_fans := h_fans h @ [f]\<rparr>, SecFans)"
  by (simp add: spec_fan_def spec_lines health_tag set_fan_def fan_new_def health_int_round)

lemma health_temp_run:
  "int32 (ht_reading x) \<Longrightarrow> int32 (ht_caution x) \<Longrightarrow> int32 (ht_critical x) \<Longrightarrow>
   health_run (h, SecTemps) (spec_temp x) = (h\<lparr>h_temps := h_temps h @ [x]\<rparr>, SecTemps)"
  by (simp add: spec_temp_def spec_lines health_tag set_temp_def temp_new_def health_int_round)

lemma health_supply_run: "health_run (h, SecSupplies) (spec_supply x) = (h\<lparr>h_supplies := h_supplies h @ [x]\<rparr>, SecSupplies)"
  by (simp add: spec_supply_def spec_lines health_tag set_supply_def supply_new_def)

lemma health_drive_run:
  "int32 (hd_bay x) \<Longrightarrow> health_run (h, SecDrives) (spec_drive x) = (h\<lparr>h_drives := h_drives h @ [x]\<rparr>, SecDrives)"
  by (simp add: spec_drive_def spec_lines health_tag set_drive_def drive_new_def health_int_round)

lemma health_glance_run:
  "h_glance h = glance_new \<Longrightarrow> health_run (h, SecGlance) (spec_glance g) = (h\<lparr>h_glance := g\<rparr>, SecGlance)"
  by (simp add: spec_glance_def spec_lines health_tag set_glance_def glance_new_def unless_empty_def)

lemma health_fans_run:
  "list_all fan_ok fs \<Longrightarrow> health_run (h, SecFans) (concat (map spec_fan fs)) = (h\<lparr>h_fans := h_fans h @ fs\<rparr>, SecFans)"
  by (induction fs arbitrary: h) (simp_all add: health_fan_run fan_ok_def)

lemma health_temps_run:
  "list_all temp_ok ts \<Longrightarrow> health_run (h, SecTemps) (concat (map spec_temp ts)) = (h\<lparr>h_temps := h_temps h @ ts\<rparr>, SecTemps)"
  by (induction ts arbitrary: h) (simp_all add: health_temp_run temp_ok_def)

lemma health_supplies_run:
  "health_run (h, SecSupplies) (concat (map spec_supply ss)) = (h\<lparr>h_supplies := h_supplies h @ ss\<rparr>, SecSupplies)"
  by (induction ss arbitrary: h) (simp_all add: health_supply_run)

lemma health_drives_run:
  "list_all drive_ok ds \<Longrightarrow> health_run (h, SecDrives) (concat (map spec_drive ds)) = (h\<lparr>h_drives := h_drives h @ ds\<rparr>, SecDrives)"
  by (induction ds arbitrary: h) (simp_all add: health_drive_run drive_ok_def)

lemma health_section_run:
  assumes "section_of n = sec" "sec \<noteq> SecNone" "health_run (h, sec) ls = (h', sec)"
  shows "health_run (h, SecNone) (spec_section n ls) = (h', SecNone)"
proof -
  have "n \<noteq> ''GET_EMBEDDED_HEALTH_DATA''" using assms by (auto simp: section_of_def)
  then show ?thesis using assms by (simp add: spec_section_def)
qed

lemma health_backplane_run:
  assumes "h_drives h = []" "health_run (h, SecDrives) ls = (h', SecDrives)"
  shows "health_run (h, SecDrives) (spec_section ''BACKPLANE'' ls) = (h', SecDrives)"
proof -
  have "health_step (h, SecDrives) (spec_line_tag (Line ''BACKPLANE'' [] False)) = (h, SecDrives)"
    using assms(1) by (cases h) (simp add: health_tag)
  with assms(2) show ?thesis by (simp add: spec_section_def section_of_def del: health_step.simps(1))
    (simp add: section_of_def)
qed

lemma health_report_run:
  assumes "health_run (h, SecNone) ls = (h', SecNone)"
  shows "health_run (h, SecNone) (spec_section ''GET_EMBEDDED_HEALTH_DATA'' ls) = (h'\<lparr>h_valid := True\<rparr>, SecNone)"
  using assms by (simp add: spec_section_def section_of_def)

lemma health_run_append: "health_run s (as @ bs) = health_run (health_run s as) bs"
  by simp

lemma parse_spec_health:
  assumes "health_ok h"
  shows "parse_embedded_health (spec_text (spec_health h)) = h"
proof -
  have ok: "list_all fan_ok (h_fans h)" "list_all temp_ok (h_temps h)" "list_all drive_ok (h_drives h)" "h_valid h"
    using assms by (simp_all add: health_ok_def)
  have s: "section_of ''FANS'' = SecFans" "section_of ''TEMPERATURE'' = SecTemps" "section_of ''POWER_SUPPLIES'' = SecSupplies"
    "section_of ''DRIVES'' = SecDrives" "section_of ''HEALTH_AT_A_GLANCE'' = SecGlance"
    by (simp_all add: section_of_def)
  let ?a = "health_new\<lparr>h_fans := h_fans h\<rparr>"
  let ?b = "?a\<lparr>h_temps := h_temps h\<rparr>"
  let ?c = "?b\<lparr>h_supplies := h_supplies h\<rparr>"
  let ?d = "?c\<lparr>h_drives := h_drives h\<rparr>"
  have 1: "health_run (health_new, SecNone) (spec_section ''FANS'' (concat (map spec_fan (h_fans h)))) = (?a, SecNone)"
    by (rule health_section_run [OF s(1)]) (simp_all add: health_fans_run ok health_new_def)
  have 2: "health_run (?a, SecNone) (spec_section ''TEMPERATURE'' (concat (map spec_temp (h_temps h)))) = (?b, SecNone)"
    by (rule health_section_run [OF s(2)]) (simp_all add: health_temps_run ok health_new_def)
  have 3: "health_run (?b, SecNone) (spec_section ''POWER_SUPPLIES'' (concat (map spec_supply (h_supplies h)))) = (?c, SecNone)"
    by (rule health_section_run [OF s(3)]) (simp_all add: health_supplies_run health_new_def)
  have 4: "health_run (?c, SecNone) (spec_section ''DRIVES'' (spec_section ''BACKPLANE'' (concat (map spec_drive (h_drives h)))))
      = (?d, SecNone)"
    by (rule health_section_run [OF s(4)], simp, rule health_backplane_run)
      (simp_all add: health_drives_run ok health_new_def)
  have 5: "health_run (?d, SecNone) (spec_section ''HEALTH_AT_A_GLANCE'' (spec_glance (h_glance h)))
      = (?d\<lparr>h_glance := h_glance h\<rparr>, SecNone)"
    by (rule health_section_run [OF s(5)], simp, rule health_glance_run) (simp add: health_new_def)
  have "health_run (health_new, SecNone) (spec_health h) = (?d\<lparr>h_glance := h_glance h\<rparr>\<lparr>h_valid := True\<rparr>, SecNone)"
    unfolding spec_health_def by (rule health_report_run) (simp only: health_run_append 1 2 3 4 5)
  then show ?thesis
    using ok(4) by (simp add: parse_embedded_health_def xml_tags_text [OF spec_health_ok [OF assms]] health_new_def)
qed

lemma parse_spec_power:
  "pr_valid p \<Longrightarrow> list_all int32 [pr_present p, pr_average p, pr_maximum p, pr_minimum p] \<Longrightarrow>
   parse_power_readings (spec_text (spec_power p)) = p"
  unfolding parse_power_readings_def xml_tags_text [OF spec_power_ok]
  by (simp add: spec_power_def spec_section_def spec_number_def
      reading_step_def health_tag power_readings_new_def health_int_round)


definition sample_health :: health_data where
  "sample_health = \<lparr>h_valid = True,
     h_fans = [\<lparr>hf_label = ''Fan 1'', hf_zone = ''System'', hf_status = ''Ok'', hf_speed = 13\<rparr>],
     h_temps = [\<lparr>ht_label = ''Temp 1'', ht_location = ''Ambient'', ht_status = ''Ok'', ht_reading = 21, ht_caution = 42, ht_critical = 46\<rparr>,
                \<lparr>ht_label = ''Temp 2'', ht_location = ''CPU'', ht_status = ''n/a'', ht_reading = -1, ht_caution = -1, ht_critical = -1\<rparr>],
     h_supplies = [\<lparr>hs_label = ''Power Supply 1'', hs_status = ''Ok''\<rparr>],
     h_drives = [\<lparr>hd_bay = 1, hd_product = ''DG072A'', hd_status = ''Ok''\<rparr>],
     h_glance = glance_new\<lparr>hg_fans := ''Ok'', hg_fan_redundancy := ''Fully Redundant'', hg_temperature := ''Ok''\<rparr>\<rparr>"

definition sample_power :: power_readings where
  "sample_power = \<lparr>pr_valid = True, pr_present = 141, pr_average = 139, pr_maximum = 290, pr_minimum = 132\<rparr>"


section \<open>The hottest sensor\<close>

lemma hottest_fold:
  "case foldl hottest_step b ts of
     None \<Rightarrow> b = None \<and> (\<forall>t\<in>set ts. ht_reading t < 0)
   | Some m \<Rightarrow> (b = Some m \<or> m \<in> set ts \<and> ht_reading m \<ge> 0) \<and> (\<forall>t\<in>set ts. ht_reading t \<le> ht_reading m \<or> ht_reading t < 0) \<and>
       (\<forall>x. b = Some x \<longrightarrow> ht_reading x \<le> ht_reading m)"
proof (induction ts arbitrary: b)
  case Nil
  show ?case by (cases b) simp_all
next
  case (Cons t ts)
  show ?case using Cons [of "hottest_step b t"]
    by (cases b) (auto simp: hottest_step_def split: option.splits if_splits)
qed

lemma hottest_is_maximum:
  "hottest h = Some m \<Longrightarrow> m \<in> set (h_temps h) \<and> 0 \<le> ht_reading m \<and> (\<forall>t\<in>set (h_temps h). ht_reading t \<le> ht_reading m)"
  "hottest h = None \<longleftrightarrow> (\<forall>t\<in>set (h_temps h). ht_reading t < 0)"
proof -
  note f = hottest_fold [of None "h_temps h", folded hottest_def]
  show "hottest h = Some m \<Longrightarrow> m \<in> set (h_temps h) \<and> 0 \<le> ht_reading m \<and> (\<forall>t\<in>set (h_temps h). ht_reading t \<le> ht_reading m)"
    using f by fastforce
  show "hottest h = None \<longleftrightarrow> (\<forall>t\<in>set (h_temps h). ht_reading t < 0)"
    using f by (cases "hottest h") (simp, fastforce)
qed

end
