(* ===== verification/Dvc_Bits.thy ===== *)
theory Dvc_Bits
  imports Prelude
begin

text \<open>
  The DVC bit reader of \<open>ilo/dvc_bits.hpp\<close>: the tables of \<open>init_reversal\<close>, \<open>add_bits\<close>
  and \<open>get_bits\<close>. Abstractly the accumulator is a queue of bits: \<open>add_bits\<close> appends
  the eight bits of a byte, \<open>get_bits\<close> removes bits from the front and leaves their value,
  read most significant bit first, in \<open>code\<close>.
\<close>

unbundle bit_operations_syntax

section \<open>State and tables\<close>

record dvc_bits =
  ib_acc :: u32
  ib_bcnt :: int
  zero_count :: int
  code :: int
  decoder_state :: nat
  next_state :: nat

definition HUNT :: nat where
  "HUNT = 43"

definition dvc_bits_init :: dvc_bits where
  "dvc_bits_init = \<lparr>ib_acc = 0, ib_bcnt = 0, zero_count = 0, code = 0,
     decoder_state = 0, next_state = 0\<rparr>"

text \<open>One iteration of the inner loop of \<open>init_reversal\<close>, over \<open>(n2, n3, n4, n5)\<close>.\<close>

fun reversal_step :: "nat \<Rightarrow> nat \<times> nat \<times> nat \<times> nat \<Rightarrow> nat \<times> nat \<times> nat \<times> nat" where
  "reversal_step n6 (n2, n3, n4, n5) =
     (let n5 = 2 * n5;
          (n2, n3, n5) = (if n4 mod 2 = 1
                          then (if n2 > n6 then n6 else n2, 7 - n6, n5 + 1)
                          else (n2, n3, n5))
      in (n2, n3, n4 div 2, n5))"

definition init_reversal :: "nat \<Rightarrow> nat \<times> nat \<times> nat \<times> nat" where
  "init_reversal n = fold reversal_step [0..<8] (8, 8, n, 0)"

text \<open>The three tables as they stand after the outer loop.\<close>

definition reversal :: "nat list" where
  "reversal = map (\<lambda>n. snd (snd (snd (init_reversal n)))) [0..<256]"

definition right_table :: "nat list" where
  "right_table = map (\<lambda>n. fst (init_reversal n)) [0..<256]"

definition left_table :: "nat list" where
  "left_table = map (\<lambda>n. fst (snd (init_reversal n))) [0..<256]"

definition getmask :: "u32 list" where
  "getmask = [0, 1, 3, 7, 15, 31, 63, 127, 255]"

section \<open>Operations\<close>

text \<open>
  The result pair is the return value and the new state. \<open>c << ib_bcnt\<close> is a shift of an
  unsigned 32-bit value: bits beyond bit 31 are lost.
\<close>

definition add_bits :: "byte \<Rightarrow> dvc_bits \<Rightarrow> int \<times> dvc_bits" where
  "add_bits c b =
     (let b = b\<lparr>ib_acc := ib_acc b OR push_bit (nat (ib_bcnt b)) (ucast c)\<rparr>;
          b = b\<lparr>ib_bcnt := ib_bcnt b + 8\<rparr>;
          b = b\<lparr>zero_count := zero_count b + int (right_table ! unat c)\<rparr>
      in if zero_count b > 30
         then (4, b\<lparr>next_state := HUNT, decoder_state := HUNT\<rparr>)
         else if c \<noteq> 0 then (0, b\<lparr>zero_count := int (left_table ! unat c)\<rparr>)
         else (0, b))"

definition get_bits :: "nat \<Rightarrow> dvc_bits \<Rightarrow> dvc_bits" where
  "get_bits n b =
     (if n = 1
      then b\<lparr>code := uint (ib_acc b AND 1), ib_acc := drop_bit 1 (ib_acc b),
             ib_bcnt := ib_bcnt b - 1\<rparr>
      else if n = 0 then b
      else (let v = ib_acc b AND getmask ! n;
                b = b\<lparr>ib_bcnt := ib_bcnt b - int n, ib_acc := drop_bit n (ib_acc b)\<rparr>;
                v = reversal ! unat v
            in b\<lparr>code := int (drop_bit (8 - n) v)\<rparr>))"

section \<open>The tables\<close>

lemma length_tables [simp]:
  "length reversal = 256" "length right_table = 256" "length left_table = 256"
  by (simp_all add: reversal_def right_table_def left_table_def)

text \<open>
  The inner loop after \<open>k\<close> iterations: the low \<open>k\<close> bits of the index are mirrored in \<open>n5\<close>,
  \<open>n2\<close> is the position of the lowest set bit seen and \<open>n3\<close> counts the zeros above the
  highest one.
\<close>

lemma init_reversal_loop:
  "k \<le> 8 \<Longrightarrow> fold reversal_step [0..<k] (8, 8, n, 0) =
     (let bs = map (bit n) [0..<k]
      in (if True \<in> set bs then length (takeWhile Not bs) else 8,
          8 - k + length (takeWhile Not (rev bs)), drop_bit k n, msb_val bs))"
proof (induction k)
  case 0
  then show ?case by simp
next
  case (Suc k)
  let ?bs = "map (bit n) [0..<k]"
  have odd: "drop_bit k n mod 2 = of_bool (bit n k)"
    by (simp add: bit_iff_odd_drop_bit mod2_eq_if)
  have all: "True \<notin> set ?bs \<longleftrightarrow> takeWhile Not ?bs = ?bs"
    by (auto simp: takeWhile_eq_all_conv)
  have len: "length (takeWhile Not ?bs) < k" if "True \<in> set ?bs"
    using length_takeWhile_le [of Not ?bs] that all
    by (metis le_neq_implies_less length_map length_upt minus_nat.diff_0 takeWhile_eq_take
        take_all_iff order_refl)
  have drop: "drop_bit k n div 2 = drop_bit (Suc k) n"
    by (simp add: drop_bit_eq_div div_mult2_eq power_Suc2 del: power_Suc)
  show ?case
    using Suc all len odd
    by (auto simp: Let_def drop takeWhile_append split: if_splits)
qed

lemmas init_reversal_eq = init_reversal_loop [of 8, folded init_reversal_def, simplified Let_def]

text \<open>The entries: \<open>reversal\<close> mirrors its index, \<open>right\<close> and \<open>left\<close> count the outer zeros.\<close>

lemma reversal_nth: "n < 256 \<Longrightarrow> reversal ! n = msb_val (map (bit n) [0..<8])"
  by (simp add: reversal_def init_reversal_eq)

lemma right_table_nth:
  "n < 256 \<Longrightarrow> right_table ! n = length (takeWhile Not (map (bit n) [0..<8]))"
proof -
  assume n: "n < 256"
  let ?bs = "map (bit n) [0..<8]"
  have none: "length (takeWhile Not ?bs) = 8" if "True \<notin> set ?bs"
  proof -
    have "takeWhile Not ?bs = ?bs"
      unfolding takeWhile_eq_all_conv using that by auto
    then have "length (takeWhile Not ?bs) = length ?bs" by (rule arg_cong)
    then show ?thesis by (simp only: length_map length_upt minus_nat.diff_0)
  qed
  have eq: "right_table ! n = (if True \<in> set ?bs then length (takeWhile Not ?bs) else 8)"
    using n by (simp add: right_table_def init_reversal_eq)
  show ?thesis
  proof (cases "True \<in> set ?bs")
    case True
    then show ?thesis by (simp only: eq if_True)
  next
    case False
    then show ?thesis using none [OF False] by (simp only: eq if_False)
  qed
qed

lemma left_table_nth:
  "n < 256 \<Longrightarrow> left_table ! n = length (takeWhile Not (rev (map (bit n) [0..<8])))"
  by (simp add: left_table_def init_reversal_eq)

lemma table_bounds:
  "n < 256 \<Longrightarrow> right_table ! n \<le> 8"
  "n < 256 \<Longrightarrow> left_table ! n \<le> 8"
  using length_takeWhile_le [of Not "map (bit n) [0..<8]"]
    length_takeWhile_le [of Not "rev (map (bit n) [0..<8])"]
  by (auto simp only: right_table_nth left_table_nth length_rev length_map length_upt)

lemma map_bit_split:
  fixes v :: nat
  assumes "v < 2 ^ n" and "n \<le> m"
  shows "map (bit v) [0..<m] = map (bit v) [0..<n] @ replicate (m - n) False"
proof -
  have "\<not> bit v i" if "n \<le> i" for i
  proof -
    have "(2::nat) ^ n \<le> 2 ^ i" using that by simp
    with assms(1) have "v < 2 ^ i" by linarith
    then show ?thesis by (simp add: bit_iff_odd)
  qed
  then show ?thesis
    using assms(2) by (intro nth_equalityI) (auto simp: nth_append)
qed

lemma reversal_prefix:
  "n \<le> 8 \<Longrightarrow> v < 2 ^ n \<Longrightarrow> drop_bit (8 - n) (reversal ! v) = msb_val (map (bit v) [0..<n])"
proof -
  assume n: "n \<le> 8" and v: "v < 2 ^ n"
  have "v < 2 ^ 8"
  proof -
    have "(2::nat) ^ n \<le> 2 ^ 8" using n by (simp del: power_numeral)
    with v show ?thesis by linarith
  qed
  then have "reversal ! v = msb_val (map (bit v) [0..<n] @ replicate (8 - n) False)"
    using n v by (simp add: reversal_nth map_bit_split [symmetric])
  then show ?thesis
    by (simp only: msb_val_append) (simp add: drop_bit_eq_div)
qed


section \<open>The accumulator as a queue of bits\<close>

text \<open>
  \<open>bits_inv\<close>: the count fits the accumulator and no bit is set above it. The abstract queue
  is \<open>bit_queue\<close>, oldest bit first.
\<close>

definition bits_inv :: "dvc_bits \<Rightarrow> bool" where
  "bits_inv b \<longleftrightarrow> 0 \<le> ib_bcnt b \<and> ib_bcnt b \<le> 32 \<and>
     drop_bit (nat (ib_bcnt b)) (ib_acc b) = 0"

definition bit_queue :: "dvc_bits \<Rightarrow> bool list" where
  "bit_queue b = lsb_bits (nat (ib_bcnt b)) (ib_acc b)"

definition byte_bits :: "byte \<Rightarrow> bool list" where
  "byte_bits c = lsb_bits 8 c"

lemma bits_inv_init [simp]: "bits_inv dvc_bits_init"
  by (simp add: bits_inv_def dvc_bits_init_def)

lemma length_bit_queue: "bits_inv b \<Longrightarrow> int (length (bit_queue b)) = ib_bcnt b"
  by (simp add: bit_queue_def bits_inv_def)

lemma bits_inv_high: "bits_inv b \<Longrightarrow> nat (ib_bcnt b) \<le> i \<Longrightarrow> \<not> bit (ib_acc b) i"
proof -
  assume "bits_inv b" and i: "nat (ib_bcnt b) \<le> i"
  then have "bit (drop_bit (nat (ib_bcnt b)) (ib_acc b)) (i - nat (ib_bcnt b)) = False"
    by (simp add: bits_inv_def)
  with i show ?thesis by (simp add: bit_drop_bit_eq)
qed

lemma bits_invI:
  assumes "0 \<le> ib_bcnt b" and "ib_bcnt b \<le> 32"
    and "\<And>i. nat (ib_bcnt b) \<le> i \<Longrightarrow> i < 32 \<Longrightarrow> \<not> bit (ib_acc b) i"
  shows "bits_inv b"
proof -
  have "\<not> bit (ib_acc b) i" if "nat (ib_bcnt b) \<le> i" for i
    using assms(3) [OF that] bit_imp_le_length [of "ib_acc b" i] by auto
  then have "drop_bit (nat (ib_bcnt b)) (ib_acc b) = 0"
    by (intro bit_word_eqI) (simp add: bit_drop_bit_eq)
  with assms show ?thesis by (simp add: bits_inv_def)
qed

text \<open>\<open>add_bits\<close> appends the bits of its byte, whatever it reports.\<close>

lemma add_bits_bcnt [simp]: "ib_bcnt (snd (add_bits c b)) = ib_bcnt b + 8"
  by (simp add: add_bits_def Let_def)

lemma add_bits_acc:
  "ib_acc (snd (add_bits c b)) = ib_acc b OR push_bit (nat (ib_bcnt b)) (ucast c)"
  by (simp add: add_bits_def Let_def)

lemma add_bits_inv:
  assumes "bits_inv b" and "ib_bcnt b \<le> 24"
  shows "bits_inv (snd (add_bits c b))"
proof (rule bits_invI)
  fix i :: nat
  assume "nat (ib_bcnt (snd (add_bits c b))) \<le> i" and "i < 32"
  with assms show "\<not> bit (ib_acc (snd (add_bits c b))) i"
    using bits_inv_high [OF assms(1), of i]
    by (auto simp: add_bits_acc bit_or_iff bit_push_bit_iff bit_ucast_iff bits_inv_def
        dest: bit_imp_le_length)
qed (use assms in \<open>auto simp: bits_inv_def\<close>)

lemma add_bits_queue:
  assumes "bits_inv b" and "ib_bcnt b \<le> 24"
  shows "bit_queue (snd (add_bits c b)) = bit_queue b @ byte_bits c"
proof (rule nth_equalityI)
  have pos: "0 \<le> ib_bcnt b" using assms by (simp add: bits_inv_def)
  show "length (bit_queue (snd (add_bits c b))) = length (bit_queue b @ byte_bits c)"
    using pos by (simp add: bit_queue_def byte_bits_def nat_add_distrib)
  fix i
  assume "i < length (bit_queue (snd (add_bits c b)))"
  then have i: "i < nat (ib_bcnt b) + 8"
    using pos by (simp add: bit_queue_def nat_add_distrib)
  have "bit_queue (snd (add_bits c b)) ! i =
    (bit (ib_acc b) i \<or> (nat (ib_bcnt b) \<le> i \<and> bit c (i - nat (ib_bcnt b))))"
    using i pos assms(2)
    by (auto simp: bit_queue_def add_bits_acc nat_add_distrib bit_or_iff bit_push_bit_iff
        bit_ucast_iff dest: bit_imp_le_length)
  also have "\<dots> = (bit_queue b @ byte_bits c) ! i"
    using i bits_inv_high [OF assms(1), of i]
    by (auto simp: bit_queue_def byte_bits_def nth_append)
  finally show "bit_queue (snd (add_bits c b)) ! i = (bit_queue b @ byte_bits c) ! i" .
qed

text \<open>\<open>get_bits\<close> pops from the front; the popped bits are the value of \<open>code\<close>.\<close>

lemma getmask_nth: "n \<le> 8 \<Longrightarrow> getmask ! n = mask n"
proof -
  assume "n \<le> 8"
  then have "n \<in> {0, 1, 2, 3, 4, 5, 6, 7, 8}" by auto
  then show ?thesis
    by (auto simp: getmask_def mask_eq_exp_minus_1 numeral_eq_Suc)
qed

lemma get_bits_bcnt [simp]: "ib_bcnt (get_bits n b) = ib_bcnt b - int n"
  by (simp add: get_bits_def Let_def)

lemma get_bits_acc [simp]: "ib_acc (get_bits n b) = drop_bit n (ib_acc b)"
  by (simp add: get_bits_def Let_def)

lemma get_bits_frame [simp]:
  "zero_count (get_bits n b) = zero_count b"
  "decoder_state (get_bits n b) = decoder_state b"
  "next_state (get_bits n b) = next_state b"
  by (simp_all add: get_bits_def Let_def)

lemma get_bits_inv: "bits_inv b \<Longrightarrow> int n \<le> ib_bcnt b \<Longrightarrow> bits_inv (get_bits n b)"
  by (auto simp: bits_inv_def nat_diff_distrib simp flip: nat_add_distrib)

lemma get_bits_queue:
  "bits_inv b \<Longrightarrow> int n \<le> ib_bcnt b \<Longrightarrow> bit_queue (get_bits n b) = drop n (bit_queue b)"
  by (simp add: bit_queue_def drop_lsb_bits nat_le_iff nat_diff_distrib' le_nat_iff)

lemma get_bits_code:
  assumes "bits_inv b" and "int n \<le> ib_bcnt b" and "0 < n" and "n \<le> 8"
  shows "code (get_bits n b) = int (msb_val (take n (bit_queue b)))"
proof -
  have q: "take n (bit_queue b) = lsb_bits n (ib_acc b)"
    using assms(2) by (simp add: bit_queue_def take_lsb_bits le_nat_iff)
  show ?thesis
  proof (cases "n = 1")
    case True
    have "uint (ib_acc b AND 1) = of_bool (bit (ib_acc b) 0)"
      by (simp add: and_one_eq bit_0 odd_iff_mod_2_eq_one)
    then show ?thesis
      using True q by (simp add: get_bits_def lsb_bits_def msb_val_def)
  next
    case False
    let ?v = "unat (ib_acc b AND getmask ! n)"
    have bits: "bit ?v i = (bit (ib_acc b) i \<and> i < n)" for i
      using assms(4) bit_imp_le_length [of "ib_acc b" i]
      by (auto simp: getmask_nth bit_unsigned_iff bit_and_iff bit_mask_iff)
    have v: "?v < 2 ^ n"
    proof -
      have "?v = take_bit n (unat (ib_acc b))"
        by (rule bit_eqI) (simp only: bits bit_take_bit_iff, auto simp: bit_unsigned_iff)
      then show ?thesis by simp
    qed
    have "code (get_bits n b) = int (drop_bit (8 - n) (reversal ! ?v))"
      using False assms(3) by (simp add: get_bits_def Let_def)
    also have "\<dots> = int (msb_val (map (bit ?v) [0..<n]))"
      using v assms(4) by (simp only: reversal_prefix)
    also have "map (bit ?v) [0..<n] = lsb_bits n (ib_acc b)"
      by (simp add: lsb_bits_def bits)
    finally show ?thesis using q by simp
  qed
qed

lemma get_bits_0 [simp]: "get_bits 0 b = b"
  by (simp add: get_bits_def)

lemma get_bits_code_bound:
  assumes "bits_inv b" and "int n \<le> ib_bcnt b" and "0 < n" and "n \<le> 8"
  shows "0 \<le> code (get_bits n b)" and "code (get_bits n b) < 2 ^ n"
proof -
  have "msb_val (take n (bit_queue b)) < 2 ^ length (take n (bit_queue b))"
    by (rule msb_val_bound)
  also have "\<dots> \<le> 2 ^ n" by simp
  finally have "msb_val (take n (bit_queue b)) < 2 ^ n" .
  then have "int (msb_val (take n (bit_queue b))) < int (2 ^ n)"
    by (rule of_nat_less_iff [THEN iffD2])
  then show "code (get_bits n b) < 2 ^ n"
    by (simp only: get_bits_code [OF assms]) simp
  show "0 \<le> code (get_bits n b)"
    by (simp only: get_bits_code [OF assms])
qed

section \<open>Reset detection\<close>

text \<open>
  \<open>zero_run s\<close> is the number of zero bits at the end of the stream \<open>s\<close>. Outside the reset
  case \<open>zero_count\<close> is exactly that number.
\<close>

definition zero_run :: "bool list \<Rightarrow> nat" where
  "zero_run s = length (takeWhile Not (rev s))"

lemma byte_bits_unat: "byte_bits c = map (bit (unat c)) [0..<8]"
  by (auto simp: byte_bits_def lsb_bits_def bit_unsigned_iff)

lemma byte_bits_0: "byte_bits c = replicate 8 False \<longleftrightarrow> c = 0"
proof
  assume "byte_bits c = replicate 8 False"
  then have "\<not> bit c i" if "i < 8" for i
    using that nth_lsb_bits [of i 8 c] by (simp add: byte_bits_def del: nth_lsb_bits)
  then show "c = 0"
    by (intro bit_word_eqI) auto
next
  assume "c = 0"
  then show "byte_bits c = replicate 8 False"
    by (intro nth_equalityI) (auto simp: byte_bits_def)
qed

lemma unat_byte_bound [simp]: "unat (c :: byte) < 256"
  using unsigned_less [of c] by simp

lemma right_table_byte: "right_table ! unat c = length (takeWhile Not (byte_bits c))"
  by (simp only: byte_bits_unat right_table_nth unat_byte_bound)

lemma left_table_byte: "left_table ! unat c = zero_run (byte_bits c)"
  by (simp only: byte_bits_unat left_table_nth unat_byte_bound zero_run_def)

lemma byte_bits_0_list [simp]: "byte_bits 0 = replicate 8 False"
  by (simp add: byte_bits_0)

lemma zero_run_append_byte:
  "zero_run (s @ byte_bits c) = (if c = 0 then zero_run s + 8 else zero_run (byte_bits c))"
proof (cases "c = 0")
  case True
  then show ?thesis
    by (simp add: zero_run_def takeWhile_append)
next
  case False
  have "True \<in> set (byte_bits c)"
  proof (rule ccontr)
    assume "True \<notin> set (byte_bits c)"
    then have "byte_bits c = replicate 8 False"
      by (intro replicate_eqI) (auto simp: byte_bits_def)
    with False show False by (simp add: byte_bits_0)
  qed
  with False show ?thesis
    by (auto simp: zero_run_def takeWhile_append)
qed

text \<open>
  The reset marker is reported exactly when the zero bits at the end of the stream, with those
  that open the new byte, exceed thirty; otherwise the counter follows the stream.
\<close>

lemma add_bits_zero_run:
  assumes "zero_count b = int (zero_run s)"
  shows "fst (add_bits c b) = 4 \<longleftrightarrow> 30 < zero_run s + length (takeWhile Not (byte_bits c))"
    and "fst (add_bits c b) \<noteq> 4 \<Longrightarrow>
         zero_count (snd (add_bits c b)) = int (zero_run (s @ byte_bits c))"
proof -
  show "fst (add_bits c b) = 4 \<longleftrightarrow> 30 < zero_run s + length (takeWhile Not (byte_bits c))"
    using assms by (simp add: add_bits_def Let_def right_table_byte)
  show "zero_count (snd (add_bits c b)) = int (zero_run (s @ byte_bits c))"
    if "fst (add_bits c b) \<noteq> 4"
    using that assms right_table_byte [of c] left_table_byte [of c]
    by (auto simp: add_bits_def Let_def zero_run_append_byte split: if_splits)
qed

lemma add_bits_states:
  "decoder_state (snd (add_bits c b)) = decoder_state b \<or> decoder_state (snd (add_bits c b)) = HUNT"
  "fst (add_bits c b) = 0 \<Longrightarrow> decoder_state (snd (add_bits c b)) = decoder_state b"
  "fst (add_bits c b) = 0 \<Longrightarrow> next_state (snd (add_bits c b)) = next_state b"
  by (auto simp: add_bits_def Let_def)

lemma add_bits_code [simp]: "code (snd (add_bits c b)) = code b"
  by (simp add: add_bits_def Let_def)

lemma bits_inv_updates [simp]:
  "bits_inv (b\<lparr>code := v\<rparr>) = bits_inv b"
  "bits_inv (b\<lparr>next_state := n\<rparr>) = bits_inv b"
  "bits_inv (b\<lparr>decoder_state := n\<rparr>) = bits_inv b"
  "bits_inv (b\<lparr>zero_count := z\<rparr>) = bits_inv b"
  by (simp_all add: bits_inv_def)

section \<open>Properties\<close>

text \<open>C5: the accumulator is a bit queue: \<open>add_bits\<close> appends the eight bits of its byte, oldest first, as long as they fit the 32-bit register, and \<open>get_bits n\<close> removes the \<open>n\<close> oldest bits and leaves their value, most significant first, in \<open>code\<close>.\<close>

theorem bit_queue_fifo:
  assumes "bits_inv b" and "ib_bcnt b \<le> 24" and "0 < n" and "n \<le> 8" and "int n \<le> ib_bcnt b + 8"
  shows "let b' = snd (add_bits c b); q = bit_queue b @ byte_bits c
    in bits_inv b' \<and> bit_queue b' = q \<and> bits_inv (get_bits n b') \<and> bit_queue (get_bits n b') = drop n q \<and>
       code (get_bits n b') = int (msb_val (take n q))"
proof -
  let ?b = "snd (add_bits c b)"
  have inv: "bits_inv ?b" and q: "bit_queue ?b = bit_queue b @ byte_bits c"
    using assms(1,2) by (rule add_bits_inv, rule add_bits_queue)
  have n: "int n \<le> ib_bcnt ?b" using assms(5) by simp
  have "bits_inv (get_bits n ?b)" "bit_queue (get_bits n ?b) = drop n (bit_queue ?b)"
    using get_bits_inv [OF inv n] get_bits_queue [OF inv n] by blast+
  with inv q get_bits_code [OF inv n assms(3,4)] show ?thesis by (simp add: Let_def)
qed

lemma bit_queue_fifo_witness:
  "code (get_bits 3 (snd (add_bits 0xA5 dvc_bits_init))) = 5"
proof -
  have q: "bit_queue dvc_bits_init @ byte_bits 0xA5 = [True, False, True, False, False, True, False, True]"
    by (simp add: bit_queue_def byte_bits_def lsb_bits_def dvc_bits_init_def upt_rec numeral_eq_Suc)
  have "bits_inv dvc_bits_init" "ib_bcnt dvc_bits_init \<le> 24" "int 3 \<le> ib_bcnt dvc_bits_init + 8"
    by (simp_all add: dvc_bits_init_def bits_inv_def)
  from bit_queue_fifo [of dvc_bits_init 3 "0xA5", OF this(1,2) _ _ this(3)]
  show ?thesis by (simp add: q Let_def) (simp add: msb_val_def numeral_eq_Suc)
qed

text \<open>\<open>add_bits\<close> reports the reset marker, and sends the decoder to the hunt state, exactly when the zero bits at the end of the stream together with those that open the new byte exceed thirty; otherwise \<open>zero_count\<close> is the length of the run of zeros the stream now ends in.\<close>

theorem reset_detection:
  assumes "zero_count b = int (zero_run s)"
  shows "(fst (add_bits c b) = 4) = (30 < zero_run s + length (takeWhile Not (byte_bits c))) \<and>
    (if fst (add_bits c b) = 4 then decoder_state (snd (add_bits c b)) = HUNT
     else zero_count (snd (add_bits c b)) = int (zero_run (s @ byte_bits c)) \<and>
       decoder_state (snd (add_bits c b)) = decoder_state b)"
proof (cases "fst (add_bits c b) = 4")
  case True
  then have "decoder_state (snd (add_bits c b)) = HUNT"
    by (auto simp: add_bits_def Let_def split: if_splits)
  with True add_bits_zero_run(1) [OF assms, of c] show ?thesis by simp
next
  case False
  then have "fst (add_bits c b) = 0"
    by (auto simp: add_bits_def Let_def split: if_splits)
  with False add_bits_zero_run [OF assms, of c] add_bits_states(2) [of c b] show ?thesis by simp
qed

lemma reset_detection_witness: "zero_count (snd (add_bits 0 dvc_bits_init)) = 8"
proof -
  have "zero_count dvc_bits_init = int (zero_run [])" by (simp add: dvc_bits_init_def zero_run_def)
  from reset_detection [OF this, of 0] show ?thesis by (simp add: zero_run_def split: if_splits)
qed

end
