(* ===== verification/Dvc_Cache.thy ===== *)
theory Dvc_Cache
  imports Prelude "HOL-Library.Multiset"
begin

text \<open>
  The colour pipeline of \<open>ilo/dvc_cache.hpp\<close>: the RGB444 remap and the 17-entry palette with
  its usage ranks and per-block flags (\<open>cache_reset\<close>, \<open>cache_lru\<close>, \<open>cache_find\<close>,
  \<open>cache_prune\<close>). Abstractly the palette is a list of distinct colours, most recently used
  first, with the number of leading colours that the current block has touched;
  \<open>cache_rel\<close> relates the two and every operation simulates its list counterpart.
\<close>

unbundle bit_operations_syntax

section \<open>State and operations\<close>

definition dvc_color_remap :: "int \<Rightarrow> int" where
  "dvc_color_remap i = (i AND 0xF00) * 4352 + (i AND 0xF0) * 272 + (i AND 0xF) * 17"

record dvc_cache =
  cc_active :: nat
  cc_color :: "int list"
  cc_usage :: "nat list"
  cc_block :: "nat list"
  pixcode :: nat
  next_1_31 :: nat

definition dvc_cache_init :: dvc_cache where
  "dvc_cache_init = \<lparr>cc_active = 0, cc_color = replicate 17 0, cc_usage = replicate 17 0,
     cc_block = replicate 17 0, pixcode = 38, next_1_31 = 35\<rparr>"

definition cache_reset :: "dvc_cache \<Rightarrow> dvc_cache" where
  "cache_reset c = c\<lparr>cc_active := 0\<rparr>"

definition update_pixcode :: "dvc_cache \<Rightarrow> dvc_cache" where
  "update_pixcode c =
     (let a = cc_active c;
          p = (if a < 2 then 38 else if a = 2 then 4 else if a = 3 then 5
               else if a < 6 then 6 else if a < 10 then 7 else 32)
      in c\<lparr>pixcode := p, next_1_31 := p\<rparr>)"

text \<open>The search loop of \<open>cache_lru\<close> over \<open>k\<close>: the slot reached and whether it holds the colour.\<close>

fun lru_scan :: "dvc_cache \<Rightarrow> int \<Rightarrow> nat \<Rightarrow> nat list \<Rightarrow> nat \<times> bool" where
  "lru_scan c color slot [] = (slot, False)"
| "lru_scan c color slot (k # ks) =
     (if color = cc_color c ! k then (k, True)
      else lru_scan c color (if cc_usage c ! k = cc_active c - 1 then k else slot) ks)"

definition cache_lru :: "int \<Rightarrow> dvc_cache \<Rightarrow> bool \<times> dvc_cache" where
  "cache_lru color c =
     (let active = cc_active c;
          (slot, found) = lru_scan c color 0 [0..<active];
          aged_below = cc_usage c ! slot;
          (slot, aged_below, active, c) =
            (if found then (slot, aged_below, active, c)
             else (let (slot, aged_below, active, c) =
                     (if active < 17
                      then (active, active, active + 1,
                            update_pixcode (c\<lparr>cc_active := active + 1\<rparr>))
                      else (slot, aged_below, active, c))
                   in (slot, aged_below, active, c\<lparr>cc_color := (cc_color c)[slot := color]\<rparr>)));
          c = c\<lparr>cc_block := (cc_block c)[slot := 1]\<rparr>;
          c = c\<lparr>cc_usage := bump_below active aged_below (cc_usage c)\<rparr>;
          c = c\<lparr>cc_usage := (cc_usage c)[slot := 0]\<rparr>
      in (found, c))"

fun find_scan :: "dvc_cache \<Rightarrow> int \<Rightarrow> nat list \<Rightarrow> nat option" where
  "find_scan c rank [] = None"
| "find_scan c rank (k # ks) = (if rank = int (cc_usage c ! k) then Some k else find_scan c rank ks)"

definition cache_find :: "int \<Rightarrow> dvc_cache \<Rightarrow> int \<times> dvc_cache" where
  "cache_find rank c =
     (case find_scan c rank [0..<cc_active c] of
        None \<Rightarrow> (-1, c)
      | Some slot \<Rightarrow>
          (let color = cc_color c ! slot;
               c = c\<lparr>cc_usage := bump_below (cc_active c) (nat rank) (cc_usage c)\<rparr>;
               c = c\<lparr>cc_usage := (cc_usage c)[slot := 0]\<rparr>;
               c = c\<lparr>cc_block := (cc_block c)[slot := 1]\<rparr>
           in (color, c)))"

text \<open>The loop of \<open>cache_prune\<close>, over \<open>(k, n)\<close>: either \<open>n\<close> falls or \<open>k\<close> rises.\<close>

function prune_loop :: "nat \<Rightarrow> nat \<Rightarrow> dvc_cache \<Rightarrow> nat \<times> dvc_cache" where
  "prune_loop k n c =
     (if k < n then
        (if cc_block c ! k = 0
         then (let n = n - 1;
                   c = c\<lparr>cc_block := (cc_block c)[k := cc_block c ! n]\<rparr>;
                   c = c\<lparr>cc_color := (cc_color c)[k := cc_color c ! n]\<rparr>;
                   c = c\<lparr>cc_usage := (cc_usage c)[k := cc_usage c ! n]\<rparr>
               in prune_loop k n c)
         else prune_loop (k + 1) n (c\<lparr>cc_block := (cc_block c)[k := cc_block c ! k - 1]\<rparr>))
      else (n, c))"
  by pat_completeness auto
termination
  by (relation "measure (\<lambda>(k, n, c). n - k)") auto

declare prune_loop.simps [simp del]

definition cache_prune :: "dvc_cache \<Rightarrow> dvc_cache" where
  "cache_prune c =
     (let (n, c) = prune_loop 0 (cc_active c) c in update_pixcode (c\<lparr>cc_active := n\<rparr>))"

section \<open>The abstract palette\<close>

text \<open>Colours by recency, and how many of the first ones the current block has touched.\<close>

record palette =
  colors :: "int list"
  touched :: nat

definition palette_reset :: "palette \<Rightarrow> palette" where
  "palette_reset p = \<lparr>colors = [], touched = 0\<rparr>"

text \<open>Move the colour of rank \<open>r\<close> to the front; an untouched one becomes touched.\<close>

definition promote :: "nat \<Rightarrow> palette \<Rightarrow> palette" where
  "promote r p =
     \<lparr>colors = colors p ! r # take r (colors p) @ drop (Suc r) (colors p),
      touched = (if r < touched p then touched p else touched p + 1)\<rparr>"

fun rank_of :: "int \<Rightarrow> int list \<Rightarrow> nat" where
  "rank_of x [] = 0"
| "rank_of x (y # ys) = (if x = y then 0 else Suc (rank_of x ys))"

definition palette_lru :: "int \<Rightarrow> palette \<Rightarrow> bool \<times> palette" where
  "palette_lru color p =
     (if color \<in> set (colors p) then (True, promote (rank_of color (colors p)) p)
      else if length (colors p) < 17
      then (False, \<lparr>colors = color # colors p, touched = touched p + 1\<rparr>)
      else (False, \<lparr>colors = color # butlast (colors p), touched = min 17 (touched p + 1)\<rparr>))"

definition palette_find :: "int \<Rightarrow> palette \<Rightarrow> int \<times> palette" where
  "palette_find rank p =
     (if 0 \<le> rank \<and> rank < int (length (colors p))
      then (colors p ! nat rank, promote (nat rank) p) else (-1, p))"

definition palette_prune :: "palette \<Rightarrow> palette" where
  "palette_prune p = \<lparr>colors = take (touched p) (colors p), touched = 0\<rparr>"

definition palette_ok :: "palette \<Rightarrow> bool" where
  "palette_ok p \<longleftrightarrow> distinct (colors p) \<and> length (colors p) \<le> 17 \<and> touched p \<le> length (colors p)"

text \<open>
  \<open>cache_rel c p\<close>: the ranks of the live slots are a permutation of \<open>0, \<dots>, active - 1\<close>, each
  slot holds the colour of its rank, and its flag is 1 exactly when its rank is among the
  touched ones.
\<close>

definition cache_rel :: "dvc_cache \<Rightarrow> palette \<Rightarrow> bool" where
  "cache_rel c p \<longleftrightarrow> palette_ok p \<and> cc_active c = length (colors p) \<and>
     length (cc_color c) = 17 \<and> length (cc_usage c) = 17 \<and> length (cc_block c) = 17 \<and>
     inj_on (nth (cc_usage c)) {..<cc_active c} \<and>
     (\<forall>k < cc_active c. cc_usage c ! k < cc_active c \<and>
        cc_color c ! k = colors p ! (cc_usage c ! k) \<and>
        cc_block c ! k = of_bool (cc_usage c ! k < touched p))"

section \<open>The scans\<close>

lemma lru_scan_found:
  "lru_scan c color s ks = (k, True) \<Longrightarrow> k \<in> set ks \<and> cc_color c ! k = color"
  by (induction ks arbitrary: s) (auto split: if_splits)

lemma lru_scan_not_found:
  "snd (lru_scan c color s ks) \<longleftrightarrow> color \<in> (nth (cc_color c)) ` set ks"
  by (induction ks arbitrary: s) auto

lemma lru_scan_slot:
  "lru_scan c color s ks = (k, False) \<Longrightarrow>
     k = s \<and> (\<forall>j \<in> set ks. cc_usage c ! j \<noteq> cc_active c - 1)
     \<or> k \<in> set ks \<and> cc_usage c ! k = cc_active c - 1"
  by (induction ks arbitrary: s) (auto split: if_splits)

lemma find_scan_Some:
  "find_scan c rank ks = Some k \<Longrightarrow> k \<in> set ks \<and> int (cc_usage c ! k) = rank"
  by (induction ks) (auto split: if_splits)

lemma find_scan_None:
  "find_scan c rank ks = None \<longleftrightarrow> rank \<notin> (\<lambda>k. int (cc_usage c ! k)) ` set ks"
  by (induction ks) auto

lemma nth_rank_of: "x \<in> set ys \<Longrightarrow> rank_of x ys < length ys \<and> ys ! rank_of x ys = x"
  by (induction ys) auto

section \<open>Facts of the relation\<close>

lemma inj_on_surj:
  assumes "inj_on f {..<n}" and "\<forall>k<n. f k < n" and "r < (n::nat)"
  shows "\<exists>k<n. f k = r"
proof -
  have "f ` {..<n} \<subseteq> {..<n}" using assms(2) by auto
  then have "f ` {..<n} = {..<n}"
    using assms(1) by (simp add: endo_inj_surj)
  with assms(3) show ?thesis by (metis imageE lessThan_iff)
qed

lemma cache_rel_rank:
  assumes "cache_rel c p" and "r < cc_active c"
  obtains k where "k < cc_active c" and "cc_usage c ! k = r"
  using assms inj_on_surj [of "nth (cc_usage c)" "cc_active c" r]
  unfolding cache_rel_def by blast

lemma cache_rel_colors:
  assumes "cache_rel c p"
  shows "nth (cc_color c) ` {..<cc_active c} = set (colors p)"
proof -
  have len: "length (colors p) = cc_active c" using assms by (simp add: cache_rel_def)
  have "\<exists>k<cc_active c. cc_color c ! k = colors p ! r" if "r < cc_active c" for r
    using that assms by (metis cache_rel_def cache_rel_rank)
  moreover have "cc_color c ! k \<in> set (colors p)" if "k < cc_active c" for k
    using that assms len by (auto simp: cache_rel_def)
  ultimately show ?thesis
    by (auto simp: in_set_conv_nth len) (metis imageI lessThan_iff)
qed

lemma cache_rel_active: "cache_rel c p \<Longrightarrow> cc_active c \<le> 17"
  by (simp add: cache_rel_def palette_ok_def)

section \<open>Promotion of a slot\<close>

text \<open>
  The common tail of a hit in \<open>cache_lru\<close> and of \<open>cache_find\<close>: ranks below the slot's rank
  rise by one, the slot gets rank 0 and its flag.
\<close>

definition promote_slot :: "nat \<Rightarrow> nat \<Rightarrow> dvc_cache \<Rightarrow> dvc_cache" where
  "promote_slot slot r c =
     c\<lparr>cc_usage := (bump_below (cc_active c) r (cc_usage c))[slot := 0],
       cc_block := (cc_block c)[slot := 1]\<rparr>"

lemma nth_promote:
  "r < length xs \<Longrightarrow> i < length xs \<Longrightarrow>
   (xs ! r # take r xs @ drop (Suc r) xs) ! i =
     (if i = 0 then xs ! r else if i \<le> r then xs ! (i - 1) else xs ! i)"
  by (cases i) (auto simp: nth_append min_def)

lemma distinct_promote:
  assumes "distinct xs" and "r < length xs"
  shows "distinct (xs ! r # take r xs @ drop (Suc r) xs)"
    and "set (xs ! r # take r xs @ drop (Suc r) xs) = set xs"
proof -
  have "mset (xs ! r # take r xs @ drop (Suc r) xs) = mset (take r xs @ xs ! r # drop (Suc r) xs)"
    by simp
  also have "\<dots> = mset xs"
    using assms(2) by (simp only: id_take_nth_drop [symmetric])
  finally have m: "mset (xs ! r # take r xs @ drop (Suc r) xs) = mset xs" .
  show "distinct (xs ! r # take r xs @ drop (Suc r) xs)"
    using assms(1) m by (metis mset_eq_imp_distinct_iff)
  show "set (xs ! r # take r xs @ drop (Suc r) xs) = set xs"
    using m by (rule mset_eq_setD)
qed

lemma inj_on_bump:
  assumes "inj_on f {..<n}" and "slot < n" and "f slot = (r::nat)"
  shows "inj_on (\<lambda>k. if k = slot then 0 else if f k < r then f k + 1 else f k) {..<n}"
proof (rule inj_onI)
  fix x y
  assume x: "x \<in> {..<n}" and y: "y \<in> {..<n}"
    and eq: "(if x = slot then 0 else if f x < r then f x + 1 else f x) =
             (if y = slot then 0 else if f y < r then f y + 1 else f y)"
  have ne: "f z \<noteq> r" if "z \<noteq> slot" "z < n" for z
    using assms that by (metis inj_onD lessThan_iff)
  have nz: "(if f z < r then f z + 1 else f z) \<noteq> 0" if "z \<noteq> slot" "z < n" for z
    using ne [OF that] by auto
  show "x = y"
  proof (cases "x = slot \<or> y = slot")
    case True
    then show ?thesis using eq nz x y by (metis lessThan_iff)
  next
    case False
    then have "f x = f y"
      using eq ne [of x] ne [of y] x y by (auto split: if_splits)
    then show ?thesis using assms(1) x y by (metis inj_onD)
  qed
qed

lemma promote_slot_rel:
  assumes rel: "cache_rel c p" and slot: "slot < cc_active c" and r: "cc_usage c ! slot = r"
  shows "cache_rel (promote_slot slot r c) (promote r p)"
proof -
  let ?n = "cc_active c" and ?xs = "colors p"
  let ?u = "\<lambda>k. if k = slot then 0 else if cc_usage c ! k < r then cc_usage c ! k + 1 else cc_usage c ! k"
  have len: "length ?xs = ?n" "length (cc_usage c) = 17" "length (cc_block c) = 17"
    "length (cc_color c) = 17" "?n \<le> 17" "distinct ?xs" "touched p \<le> ?n"
    and inj: "inj_on (nth (cc_usage c)) {..<?n}"
    and per: "\<And>k. k < ?n \<Longrightarrow> cc_usage c ! k < ?n \<and> cc_color c ! k = ?xs ! (cc_usage c ! k) \<and>
        cc_block c ! k = of_bool (cc_usage c ! k < touched p)"
    using rel by (auto simp: cache_rel_def palette_ok_def)
  have rn: "r < ?n" using per slot r by blast
  have ne: "cc_usage c ! k \<noteq> r" if "k < ?n" "k \<noteq> slot" for k
    using inj slot r that by (metis inj_onD lessThan_iff)
  have u: "cc_usage (promote_slot slot r c) ! k = ?u k" if "k < ?n" for k
    using that len slot by (simp add: promote_slot_def nth_list_update nth_bump_below)
  have ok: "palette_ok (promote r p)"
    using distinct_promote [of ?xs r] len rn
    by (auto simp: palette_ok_def promote_def)
  have col: "cc_color c ! k = colors (promote r p) ! ?u k" if "k < ?n" for k
    using that per [OF that] per [OF slot] r ne [OF that] len(1) rn nth_promote [of r ?xs "?u k"]
    by (auto simp: promote_def)
  have blk: "cc_block (promote_slot slot r c) ! k = of_bool (?u k < touched (promote r p))"
    if "k < ?n" for k
    using that per [OF that] ne [OF that] len slot
    by (auto simp: promote_slot_def promote_def nth_list_update)
  have "inj_on (nth (cc_usage (promote_slot slot r c))) {..<?n}"
    using inj_on_bump [OF inj slot r] u by (subst inj_on_cong [where g = ?u]) auto
  moreover have "?u k < ?n" if "k < ?n" for k
    using per [OF that] rn by auto
  ultimately show ?thesis
    using ok u col blk len rn
    by (simp add: cache_rel_def promote_slot_def promote_def)
qed

section \<open>Each operation simulates its list counterpart\<close>

lemma cache_init_rel: "cache_rel dvc_cache_init \<lparr>colors = [], touched = 0\<rparr>"
  by (simp add: cache_rel_def dvc_cache_init_def palette_ok_def)

lemma cache_reset_rel: "cache_rel c p \<Longrightarrow> cache_rel (cache_reset c) (palette_reset p)"
  by (simp add: cache_rel_def cache_reset_def palette_reset_def palette_ok_def)

lemma update_pixcode_rel [simp]: "cache_rel (update_pixcode c) p = cache_rel c p"
  by (simp add: cache_rel_def update_pixcode_def Let_def)

lemma update_pixcode_fields [simp]:
  "cc_active (update_pixcode c) = cc_active c" "cc_color (update_pixcode c) = cc_color c"
  "cc_usage (update_pixcode c) = cc_usage c" "cc_block (update_pixcode c) = cc_block c"
  by (simp_all add: update_pixcode_def Let_def)

lemma cache_find_rel:
  assumes rel: "cache_rel c p"
  shows "fst (cache_find rank c) = fst (palette_find rank p)"
    and "cache_rel (snd (cache_find rank c)) (snd (palette_find rank p))"
proof -
  have len: "length (colors p) = cc_active c" using rel by (simp add: cache_rel_def)
  have "fst (cache_find rank c) = fst (palette_find rank p) \<and>
        cache_rel (snd (cache_find rank c)) (snd (palette_find rank p))"
  proof (cases "find_scan c rank [0..<cc_active c]")
    case None
    have "\<not> (0 \<le> rank \<and> rank < int (cc_active c))"
    proof
      assume "0 \<le> rank \<and> rank < int (cc_active c)"
      then obtain k where "k < cc_active c" "cc_usage c ! k = nat rank"
        using cache_rel_rank [OF rel, of "nat rank"] by force
      moreover from this \<open>0 \<le> rank \<and> _\<close> have "rank = int (cc_usage c ! k)" by simp
      ultimately show False using None by (auto simp: find_scan_None)
    qed
    with None rel len show ?thesis
      by (auto simp: cache_find_def palette_find_def)
  next
    case (Some slot)
    then have slot: "slot < cc_active c" and r: "int (cc_usage c ! slot) = rank"
      using find_scan_Some by fastforce+
    then have r': "cc_usage c ! slot = nat rank" by simp
    have "snd (cache_find rank c) = promote_slot slot (nat rank) c"
      using Some by (simp add: cache_find_def promote_slot_def Let_def)
    moreover have "cc_usage c ! slot < cc_active c" "cc_color c ! slot = colors p ! nat rank"
      using rel slot r' by (auto simp: cache_rel_def)
    ultimately show ?thesis
      using Some promote_slot_rel [OF rel slot r'] r len
      by (auto simp: cache_find_def palette_find_def Let_def)
  qed
  then show "fst (cache_find rank c) = fst (palette_find rank p)"
    and "cache_rel (snd (cache_find rank c)) (snd (palette_find rank p))"
    by simp_all
qed

text \<open>
  Insertion: both ways of taking a new slot give ranks that are one higher for the colours
  kept, and 0 for the new one.
\<close>

lemma insert_slot_rel:
  assumes rel: "cache_rel c p"
    and m: "m = Suc (length ys)" "m \<le> 17" "slot < m"
    and old: "\<And>k. k < m \<Longrightarrow> k \<noteq> slot \<Longrightarrow> k < cc_active c \<and> cc_usage c ! k < length ys"
    and ys: "ys = take (length ys) (colors p)"
    and fresh: "color \<notin> set ys"
    and t: "t = Suc (min (length ys) (touched p))"
    and c': "cc_active c' = m" "cc_color c' = (cc_color c)[slot := color]"
      "cc_block c' = (cc_block c)[slot := 1]"
      "cc_usage c' = (bump_below m (length ys) (cc_usage c))[slot := 0]"
  shows "cache_rel c' \<lparr>colors = color # ys, touched = t\<rparr>"
proof -
  have len: "length (colors p) = cc_active c" "length (cc_usage c) = 17" "length (cc_block c) = 17"
    "length (cc_color c) = 17" "distinct (colors p)" "touched p \<le> length (colors p)"
    and inj: "inj_on (nth (cc_usage c)) {..<cc_active c}"
    and per: "\<And>k. k < cc_active c \<Longrightarrow> cc_color c ! k = colors p ! (cc_usage c ! k) \<and>
        cc_block c ! k = of_bool (cc_usage c ! k < touched p)"
    using rel by (auto simp: cache_rel_def palette_ok_def)
  have u: "cc_usage c' ! k = (if k = slot then 0 else cc_usage c ! k + 1)" if "k < m" for k
    using that m old [OF that] len by (simp add: c' nth_list_update nth_bump_below)
  have "inj_on (nth (cc_usage c')) {..<m}"
  proof (rule inj_onI)
    fix x y
    assume "x \<in> {..<m}" "y \<in> {..<m}" "cc_usage c' ! x = cc_usage c' ! y"
    then show "x = y"
      using u [of x] u [of y] old [of x] old [of y] inj
      by (auto split: if_splits dest: inj_onD)
  qed
  moreover have "cc_usage c' ! k < m \<and> cc_color c' ! k = (color # ys) ! (cc_usage c' ! k) \<and>
      cc_block c' ! k = of_bool (cc_usage c' ! k < t)" if "k < m" for k
  proof (cases "k = slot")
    case True
    with that u m len t show ?thesis by (simp add: c')
  next
    case False
    from old [OF that False] have k: "k < cc_active c" "cc_usage c ! k < length ys" by auto
    have "ys ! (cc_usage c ! k) = colors p ! (cc_usage c ! k)"
      using k(2) by (metis ys nth_take)
    with k False u [OF that] per [OF k(1)] m t show ?thesis
      by (auto simp: c')
  qed
  moreover have "distinct (color # ys)"
    using fresh len(5) by (metis distinct.simps(2) distinct_take ys)
  ultimately show ?thesis
    using m t len by (simp add: cache_rel_def palette_ok_def c')
qed

lemma rank_of_unique:
  "distinct xs \<Longrightarrow> r < length xs \<Longrightarrow> xs ! r = x \<Longrightarrow> rank_of x xs = r"
  by (metis nth_eq_iff_index_eq nth_mem nth_rank_of)

lemma cache_lru_rel:
  assumes rel: "cache_rel c p"
  shows "fst (cache_lru color c) = fst (palette_lru color p) \<and>
         cache_rel (snd (cache_lru color c)) (snd (palette_lru color p))"
proof -
  let ?n = "cc_active c" and ?xs = "colors p"
  have len: "length ?xs = ?n" "?n \<le> 17" "distinct ?xs" "touched p \<le> ?n"
    and per: "\<And>k. k < ?n \<Longrightarrow> cc_usage c ! k < ?n \<and> cc_color c ! k = ?xs ! (cc_usage c ! k)"
    and inj: "inj_on (nth (cc_usage c)) {..<?n}"
    using rel by (auto simp: cache_rel_def palette_ok_def)
  obtain slot found where scan: "lru_scan c color 0 [0..<?n] = (slot, found)" by fastforce
  have found: "found \<longleftrightarrow> color \<in> set ?xs"
    using lru_scan_not_found [of c color 0 "[0..<?n]"] cache_rel_colors [OF rel] scan
    by (auto simp: lessThan_atLeast0)
  show ?thesis
  proof (cases found)
    case True
    then have slot: "slot < ?n" and col: "cc_color c ! slot = color"
      using lru_scan_found [of c color 0 "[0..<?n]" slot] scan by auto
    have "rank_of color ?xs = cc_usage c ! slot"
      using per [OF slot] col len by (intro rank_of_unique) auto
    moreover have "cache_lru color c = (True, promote_slot slot (cc_usage c ! slot) c)"
      using True scan by (simp add: cache_lru_def promote_slot_def Let_def)
    ultimately show ?thesis
      using promote_slot_rel [OF rel slot refl] True found by (simp add: palette_lru_def)
  next
    case False
    then have fresh: "color \<notin> set ?xs" using found by simp
    show ?thesis
    proof (cases "?n < 17")
      case True
      have "cache_rel (snd (cache_lru color c)) \<lparr>colors = color # ?xs, touched = touched p + 1\<rparr>"
        by (rule insert_slot_rel [OF rel, where m = "Suc ?n" and slot = ?n])
          (use True False scan fresh len per in \<open>auto simp: cache_lru_def Let_def\<close>)
      then show ?thesis
        using True False scan fresh len by (simp add: palette_lru_def cache_lru_def Let_def)
    next
      case full: False
      then have n: "?n = 17" using len by simp
      obtain k where k: "k < ?n" "cc_usage c ! k = 16"
        using cache_rel_rank [OF rel, of 16] n by auto
      then have slot: "slot < ?n" "cc_usage c ! slot = 16"
        using lru_scan_slot [of c color 0 "[0..<?n]" slot] scan False n by auto
      have others: "cc_usage c ! j < 16" if "j < 17" "j \<noteq> slot" for j
      proof -
        have "cc_usage c ! j \<noteq> 16"
          using inj slot that n by (metis inj_onD lessThan_iff)
        then show ?thesis using per [of j] that n by simp
      qed
      have "cache_rel (snd (cache_lru color c))
          \<lparr>colors = color # butlast ?xs, touched = min 17 (touched p + 1)\<rparr>"
        by (rule insert_slot_rel [OF rel, where m = 17 and slot = slot])
          (use n False scan fresh len slot others in
            \<open>auto simp: cache_lru_def Let_def butlast_conv_take dest: in_set_takeD\<close>)
      then show ?thesis
        using n False scan fresh len by (simp add: palette_lru_def cache_lru_def Let_def)
    qed
  qed
qed

section \<open>Pruning\<close>

text \<open>
  The slots between two indices as a list of (colour, rank, flag): the loop keeps, up to
  order, the entries whose flag is set, with the flag lowered by one.
\<close>

definition seg :: "dvc_cache \<Rightarrow> nat \<Rightarrow> nat \<Rightarrow> (int \<times> nat \<times> nat) list" where
  "seg c k n = map (\<lambda>j. (cc_color c ! j, cc_usage c ! j, cc_block c ! j)) [k..<n]"

definition live :: "int \<times> nat \<times> nat \<Rightarrow> bool" where
  "live e \<longleftrightarrow> snd (snd e) \<noteq> 0"

definition lower :: "int \<times> nat \<times> nat \<Rightarrow> int \<times> nat \<times> nat" where
  "lower e = (fst e, fst (snd e), snd (snd e) - 1)"

definition cache_lens :: "dvc_cache \<Rightarrow> bool" where
  "cache_lens c \<longleftrightarrow> length (cc_color c) = 17 \<and> length (cc_usage c) = 17 \<and> length (cc_block c) = 17"

lemma seg_cong:
  "(\<And>j. k \<le> j \<Longrightarrow> j < n \<Longrightarrow> cc_color c ! j = cc_color d ! j \<and>
      cc_usage c ! j = cc_usage d ! j \<and> cc_block c ! j = cc_block d ! j) \<Longrightarrow>
   seg c k n = seg d k n"
  by (simp add: seg_def)

lemma seg_Cons: "k < n \<Longrightarrow>
   seg c k n = (cc_color c ! k, cc_usage c ! k, cc_block c ! k) # seg c (Suc k) n"
  by (simp add: seg_def upt_conv_Cons)

lemma seg_snoc: "k \<le> n \<Longrightarrow>
   seg c k (Suc n) = seg c k n @ [(cc_color c ! n, cc_usage c ! n, cc_block c ! n)]"
  by (simp add: seg_def)

lemma seg_fill_hole:
  assumes "k < n" and "n \<le> 17" and "cache_lens c" and "cc_block c ! k = 0"
    and "d = c\<lparr>cc_block := (cc_block c)[k := cc_block c ! (n - 1)],
               cc_color := (cc_color c)[k := cc_color c ! (n - 1)],
               cc_usage := (cc_usage c)[k := cc_usage c ! (n - 1)]\<rparr>"
  shows "mset (filter live (seg d k (n - 1))) = mset (filter live (seg c k n))"
proof (cases "k = n - 1")
  case True
  then show ?thesis using assms by (cases n) (auto simp: seg_def live_def)
next
  case False
  then have k: "k < n - 1" "Suc (n - 1) = n" using assms(1) by auto
  have "seg d (Suc k) (n - 1) = seg c (Suc k) (n - 1)"
    by (rule seg_cong) (simp add: assms(5))
  moreover have "seg c k n = (cc_color c ! k, cc_usage c ! k, cc_block c ! k) # seg c (Suc k) (n - 1) @
      [(cc_color c ! (n - 1), cc_usage c ! (n - 1), cc_block c ! (n - 1))]"
    using k seg_snoc [of "Suc k" "n - 1" c] seg_Cons [OF assms(1), of c] by simp
  ultimately show ?thesis
    using assms k by (simp add: seg_Cons live_def cache_lens_def)
qed

lemma prune_loop_seg:
  assumes "k \<le> n" and "n \<le> 17" and "cache_lens c" and "prune_loop k n c = (n', c')"
  shows "k \<le> n' \<and> n' \<le> n \<and> cache_lens c' \<and>
     mset (seg c' k n') = mset (map lower (filter live (seg c k n))) \<and> seg c' 0 k = seg c 0 k"
  using assms
proof (induction k n c arbitrary: n' c' rule: prune_loop.induct)
  case (1 k n c)
  show ?case
  proof (cases "k < n")
    case False
    then have "prune_loop k n c = (n, c)" by (subst prune_loop.simps) simp
    with False "1.prems" show ?thesis by (auto simp: seg_def)
  next
    case k: True
    show ?thesis
    proof (cases "cc_block c ! k = 0")
      case True
      let ?d = "c\<lparr>cc_block := (cc_block c)[k := cc_block c ! (n - 1)],
               cc_color := (cc_color c)[k := cc_color c ! (n - 1)],
               cc_usage := (cc_usage c)[k := cc_usage c ! (n - 1)]\<rparr>"
      have "prune_loop k (n - 1) ?d = prune_loop k n c"
        using k True by (simp add: prune_loop.simps [of k n c] Let_def)
      then have loop: "prune_loop k (n - 1) ?d = (n', c')"
        using "1.prems"(4) by (rule trans)
      have lens: "cache_lens ?d" using "1.prems"(3) by (simp add: cache_lens_def)
      have bnd: "k \<le> n - 1" "n - 1 \<le> 17" using k "1.prems"(2) by auto
      have "k \<le> n' \<and> n' \<le> n - 1 \<and> cache_lens c' \<and>
          mset (seg c' k n') = mset (map lower (filter live (seg ?d k (n - 1)))) \<and>
          seg c' 0 k = seg ?d 0 k"
        using "1.IH"(1) [OF k True refl refl refl refl, of n' c'] loop lens bnd by simp
      moreover have "mset (filter live (seg ?d k (n - 1))) = mset (filter live (seg c k n))"
        using k True "1.prems"(2,3) by (intro seg_fill_hole) auto
      moreover have "seg ?d 0 k = seg c 0 k"
        by (rule seg_cong) simp
      ultimately show ?thesis using k by auto
    next
      case False
      let ?d = "c\<lparr>cc_block := (cc_block c)[k := cc_block c ! k - 1]\<rparr>"
      have "prune_loop (k + 1) n ?d = prune_loop k n c"
        using k False by (simp add: prune_loop.simps [of k n c])
      then have loop: "prune_loop (Suc k) n ?d = (n', c')"
        using "1.prems"(4) by simp
      have lens: "cache_lens ?d" using "1.prems"(3) by (simp add: cache_lens_def)
      have ih: "Suc k \<le> n' \<and> n' \<le> n \<and> cache_lens c' \<and>
          mset (seg c' (Suc k) n') = mset (map lower (filter live (seg ?d (Suc k) n))) \<and>
          seg c' 0 (Suc k) = seg ?d 0 (Suc k)"
        using "1.IH"(2) [OF k False, of n' c'] k loop lens "1.prems"(2) by simp
      have "seg ?d (Suc k) n = seg c (Suc k) n"
        by (rule seg_cong) simp
      moreover have "seg ?d 0 k = seg c 0 k"
        by (rule seg_cong) simp
      moreover have "cc_color c' ! k = cc_color c ! k" "cc_usage c' ! k = cc_usage c ! k"
        "cc_block c' ! k = cc_block c ! k - 1" "seg c' 0 k = seg ?d 0 k"
        using ih lens k "1.prems"(2) by (auto simp: seg_snoc cache_lens_def)
      moreover have "mset (map lower (filter live (seg c k n))) =
          add_mset (cc_color c ! k, cc_usage c ! k, cc_block c ! k - 1)
            (mset (map lower (filter live (seg c (Suc k) n))))"
        using seg_Cons [OF k, of c] False by (simp add: live_def lower_def [of "(_, _)"])
      moreover have "mset (seg c' k n') =
          add_mset (cc_color c' ! k, cc_usage c' ! k, cc_block c' ! k) (mset (seg c' (Suc k) n'))"
        using ih seg_Cons [of k n' c'] by simp
      ultimately show ?thesis
        using ih by simp
    qed
  qed
qed

text \<open>The same relation, stated on the entries of the live slots.\<close>

lemma cache_rel_seg:
  "cache_rel c p \<longleftrightarrow> palette_ok p \<and> cc_active c = length (colors p) \<and> cache_lens c \<and>
     distinct (map (fst \<circ> snd) (seg c 0 (cc_active c))) \<and>
     (\<forall>(x, u, b) \<in> set (seg c 0 (cc_active c)). u < cc_active c \<and> x = colors p ! u \<and>
        b = of_bool (u < touched p))"
  by (auto simp: cache_rel_def cache_lens_def seg_def distinct_map comp_def atLeast0LessThan
      distinct_conv_nth inj_on_def)

lemma card_ranks_below:
  assumes "distinct us" and "set us = {..<n}" and "t \<le> (n::nat)"
  shows "length (filter (\<lambda>u. u < t) us) = t"
proof -
  have "length (filter (\<lambda>u. u < t) us) = card (set (filter (\<lambda>u. u < t) us))"
    by (rule distinct_card [symmetric]) (simp add: assms(1))
  also have "set (filter (\<lambda>u. u < t) us) = {..<t}"
    unfolding set_filter assms(2) using assms(3) by auto
  finally show ?thesis by (simp only: card_lessThan)
qed

lemma cache_prune_rel:
  assumes rel: "cache_rel c p"
  shows "cache_rel (cache_prune c) (palette_prune p)"
proof -
  let ?n = "cc_active c" and ?t = "touched p"
  obtain n' c' where loop: "prune_loop 0 ?n c = (n', c')" by fastforce
  note unfolded = rel [unfolded cache_rel_seg]
  have ok: "palette_ok p" "?n = length (colors p)" "cache_lens c" "?n \<le> 17" "?t \<le> ?n"
    using unfolded by (simp_all add: palette_ok_def)
  have dist: "distinct (map (fst \<circ> snd) (seg c 0 ?n))"
    and all: "\<forall>(x, u, b) \<in> set (seg c 0 ?n). u < ?n \<and> x = colors p ! u \<and> b = of_bool (u < ?t)"
    using unfolded by blast+
  have ent: "u < ?n \<and> x = colors p ! u \<and> b = of_bool (u < ?t)"
    if "(x, u, b) \<in> set (seg c 0 ?n)" for x u b
    using bspec [OF all that] by (simp only: case_prod_conv)
  let ?es = "map lower (filter live (seg c 0 ?n))"
  have seg': "mset (seg c' 0 n') = mset ?es" and lens': "cache_lens c'"
    using prune_loop_seg [OF _ ok(4,3) loop] by auto
  have ranks: "set (map (fst \<circ> snd) (seg c 0 ?n)) = {..<?n}"
  proof -
    have "nth (cc_usage c) ` {..<?n} = {..<?n}"
    proof
      show "nth (cc_usage c) ` {..<?n} \<subseteq> {..<?n}" using rel by (auto simp: cache_rel_def)
      show "{..<?n} \<subseteq> nth (cc_usage c) ` {..<?n}" by (auto elim: cache_rel_rank [OF rel])
    qed
    then show ?thesis by (simp add: seg_def comp_def atLeast0LessThan image_image)
  qed
  have live_iff: "filter live (seg c 0 ?n) = filter (\<lambda>e. fst (snd e) < ?t) (seg c 0 ?n)"
    by (rule filter_cong) (auto simp: live_def dest!: ent)
  have "map (fst \<circ> snd) ?es = filter (\<lambda>u. u < ?t) (map (fst \<circ> snd) (seg c 0 ?n))"
    by (simp only: live_iff filter_map comp_def lower_def map_map fst_conv snd_conv)
  note us = this
  have n': "n' = ?t"
  proof -
    have "n' = length (map (fst \<circ> snd) ?es)"
    proof -
      have "size (mset (seg c' 0 n')) = size (mset ?es)" using seg' by (rule arg_cong)
      then have "length (seg c' 0 n') = length ?es" by (simp only: size_mset)
      moreover have "length (seg c' 0 n') = n'" by (simp add: seg_def)
      ultimately show ?thesis by (simp only: length_map)
    qed
    then show ?thesis
      unfolding us by (simp only: card_ranks_below [OF dist ranks ok(5)])
  qed
  have "distinct (map (fst \<circ> snd) (seg c' 0 n'))"
  proof -
    have "mset (map (fst \<circ> snd) (seg c' 0 n')) = mset (map (fst \<circ> snd) ?es)"
      using seg' by (metis mset_map)
    moreover have "distinct (map (fst \<circ> snd) ?es)"
      unfolding us using dist by (rule distinct_filter)
    ultimately show ?thesis by (metis mset_eq_imp_distinct_iff)
  qed
  moreover have "u < ?t \<and> x = colors p ! u \<and> b = 0" if "(x, u, b) \<in> set (seg c' 0 n')" for x u b
  proof -
    have "(x, u, b) \<in> set ?es" using that seg' by (metis mset_eq_setD)
    then obtain b' where "(x, u, b') \<in> set (seg c 0 ?n)" "u < ?t" "b = b' - 1"
      unfolding live_iff by (auto simp: lower_def)
    with ent show ?thesis by fastforce
  qed
  moreover have "seg (c'\<lparr>cc_active := n'\<rparr>) 0 n' = seg c' 0 n'" and "cache_lens (c'\<lparr>cc_active := n'\<rparr>)"
    using lens' by (simp_all add: seg_def cache_lens_def)
  moreover have "palette_ok (palette_prune p)" and "length (colors (palette_prune p)) = ?t"
    using ok by (auto simp: palette_ok_def palette_prune_def)
  moreover have "colors (palette_prune p) ! u = colors p ! u" if "u < ?t" for u
    using that by (simp add: palette_prune_def)
  moreover have "touched (palette_prune p) = 0" by (simp add: palette_prune_def)
  ultimately have "cache_rel (c'\<lparr>cc_active := n'\<rparr>) (palette_prune p)"
    unfolding cache_rel_seg n' by auto
  then show ?thesis
    using loop by (simp add: cache_prune_def)
qed

section \<open>The palette as an interface\<close>

text \<open>
  What the decoder needs of a palette: four operations that simulate the list operations. The
  locale's lemmas bound the colours a lookup can return and fix what a lookup returns after an
  insertion.
\<close>

locale color_cache =
  fixes lru :: "int \<Rightarrow> 'c \<Rightarrow> bool \<times> 'c"
    and find_rank :: "int \<Rightarrow> 'c \<Rightarrow> int \<times> 'c"
    and prune :: "'c \<Rightarrow> 'c"
    and reset :: "'c \<Rightarrow> 'c"
    and rel :: "'c \<Rightarrow> palette \<Rightarrow> bool"
  assumes rel_ok: "rel c p \<Longrightarrow> palette_ok p"
    and lru_sim: "rel c p \<Longrightarrow> fst (lru x c) = fst (palette_lru x p) \<and>
          rel (snd (lru x c)) (snd (palette_lru x p))"
    and find_sim: "rel c p \<Longrightarrow> fst (find_rank r c) = fst (palette_find r p) \<and>
          rel (snd (find_rank r c)) (snd (palette_find r p))"
    and prune_sim: "rel c p \<Longrightarrow> rel (prune c) (palette_prune p)"
    and reset_sim: "rel c p \<Longrightarrow> rel (reset c) (palette_reset p)"
begin

definition within :: "int set \<Rightarrow> 'c \<Rightarrow> bool" where
  "within A c \<longleftrightarrow> (\<exists>p. rel c p \<and> set (colors p) \<subseteq> A)"

lemma promote_set: "r < length (colors p) \<Longrightarrow> set (colors (promote r p)) \<subseteq> set (colors p)"
  by (auto simp: promote_def dest: in_set_takeD in_set_dropD)

lemma lru_within: "within A c \<Longrightarrow> x \<in> A \<Longrightarrow> within A (snd (lru x c))"
proof -
  assume "within A c" and x: "x \<in> A"
  then obtain p where p: "rel c p" "set (colors p) \<subseteq> A" by (auto simp: within_def)
  have "set (colors (snd (palette_lru x p))) \<subseteq> A"
    using p(2) x promote_set [of "rank_of x (colors p)" p] nth_rank_of [of x "colors p"]
    by (auto simp: palette_lru_def dest: in_set_butlastD)
  with lru_sim [OF p(1)] show ?thesis by (auto simp: within_def)
qed

lemma find_within: "within A c \<Longrightarrow> within A (snd (find_rank r c))"
proof -
  assume "within A c"
  then obtain p where p: "rel c p" "set (colors p) \<subseteq> A" by (auto simp: within_def)
  have "set (colors (snd (palette_find r p))) \<subseteq> A"
    using p(2) promote_set [of "nat r" p] by (auto simp: palette_find_def nat_less_iff) blast
  with find_sim [OF p(1)] show ?thesis by (auto simp: within_def)
qed

lemma find_result: "within A c \<Longrightarrow> fst (find_rank r c) = -1 \<or> fst (find_rank r c) \<in> A"
proof -
  assume "within A c"
  then obtain p where p: "rel c p" "set (colors p) \<subseteq> A" by (auto simp: within_def)
  have "colors p ! nat r \<in> A" if "0 \<le> r" "r < int (length (colors p))"
    using p(2) that by (auto intro: subsetD [OF _ nth_mem])
  with find_sim [OF p(1), of r] show ?thesis by (auto simp: palette_find_def)
qed

lemma prune_within: "within A c \<Longrightarrow> within A (prune c)"
  using prune_sim by (fastforce simp: within_def palette_prune_def dest: in_set_takeD)

lemma reset_within: "within A c \<Longrightarrow> within A (reset c)"
  using reset_sim by (fastforce simp: within_def palette_reset_def)

text \<open>The colour just inserted has rank 0, and inserting it again is a hit.\<close>

lemma lru_front: "rel c p \<Longrightarrow> \<exists>ys t. rel (snd (lru x c)) \<lparr>colors = x # ys, touched = t\<rparr>"
  using lru_sim [of c p x] nth_rank_of [of x "colors p"]
  by (cases "x \<in> set (colors p)") (auto simp: palette_lru_def promote_def split: if_splits)

lemma find_after_lru: "rel c p \<Longrightarrow> fst (find_rank 0 (snd (lru x c))) = x"
  using lru_front [of c p x] by (auto simp: find_sim palette_find_def)

lemma lru_after_lru: "rel c p \<Longrightarrow> fst (lru x (snd (lru x c)))"
  using lru_front [of c p x] by (auto simp: lru_sim palette_lru_def)

end

interpretation dvc_palette: color_cache cache_lru cache_find cache_prune cache_reset cache_rel
proof unfold_locales
  show "palette_ok p" if "cache_rel c p" for c p
    using that by (simp add: cache_rel_def)
qed (auto simp: cache_lru_rel cache_find_rel cache_prune_rel cache_reset_rel)

section \<open>The pixel state chosen by the palette\<close>

definition pixel_states :: "nat set" where
  "pixel_states = {4, 5, 6, 7, 32, 38}"

definition pix_ok :: "dvc_cache \<Rightarrow> bool" where
  "pix_ok c \<longleftrightarrow> pixcode c \<in> pixel_states \<and> next_1_31 c \<in> insert 35 pixel_states"

lemma pix_ok_init [simp]: "pix_ok dvc_cache_init"
  by (simp add: pix_ok_def dvc_cache_init_def pixel_states_def)

lemma pix_ok_update [simp]: "pix_ok (update_pixcode c)"
  by (simp add: pix_ok_def update_pixcode_def pixel_states_def Let_def)

lemma pix_ok_cong: "pixcode d = pixcode c \<Longrightarrow> next_1_31 d = next_1_31 c \<Longrightarrow> pix_ok d = pix_ok c"
  by (simp add: pix_ok_def)

lemma pix_ok_reset [simp]: "pix_ok (cache_reset c) = pix_ok c"
  by (simp add: pix_ok_def cache_reset_def)

lemma pix_ok_prune [simp]: "pix_ok (cache_prune c)"
  by (simp add: cache_prune_def split: prod.split)

lemma pix_ok_find [simp]: "pix_ok (snd (cache_find r c)) = pix_ok c"
  by (simp add: cache_find_def Let_def pix_ok_def split: option.split)

lemma pix_ok_lru: "pix_ok c \<Longrightarrow> pix_ok (snd (cache_lru x c))"
  by (auto simp: cache_lru_def Let_def pix_ok_def update_pixcode_def pixel_states_def
      split: prod.split)

section \<open>The remap\<close>

text \<open>Each four-bit channel becomes the byte with that nibble twice.\<close>

lemma and_push_bit: "x AND push_bit n y = push_bit n (drop_bit n x AND y)" for x y :: int
  by (rule bit_eqI) (auto simp: bit_and_iff bit_push_bit_iff bit_drop_bit_eq)

lemma dvc_color_remap_rgb:
  assumes "0 \<le> r" "r < 16" "0 \<le> g" "g < 16" "0 \<le> b" "b < (16::int)"
  shows "dvc_color_remap (r * 256 + g * 16 + b) = (r * 17) * 65536 + (g * 17) * 256 + b * 17"
proof -
  let ?i = "r * 256 + g * 16 + b"
  have m: "x AND 0xF = x mod 16" for x :: int
    using take_bit_eq_mask [of 4 x] by (simp add: take_bit_eq_mod mask_eq_exp_minus_1)
  have i16: "?i = b + 16 * (r * 16 + g)" and i256: "?i = (g * 16 + b) + 256 * r"
    and g16: "r * 16 + g = g + 16 * r" by simp_all
  have "?i AND 0xF = b"
    unfolding m i16 using assms by (simp only: mod_mult_self2) simp
  moreover have "?i AND 0xF0 = g * 16"
  proof -
    have "(0xF0 :: int) = push_bit 4 0xF" by (simp add: push_bit_eq_mult)
    then have "?i AND 0xF0 = push_bit 4 (drop_bit 4 ?i AND 0xF)"
      by (simp only: and_push_bit)
    also have "\<dots> = g * 16"
    proof -
      have "?i div 16 = r * 16 + g" unfolding i16 using assms by simp
      moreover have "(r * 16 + g) mod 16 = g"
        unfolding g16 using assms by (simp only: mod_mult_self2) simp
      ultimately show ?thesis
        by (simp only: drop_bit_eq_div push_bit_eq_mult m) simp
    qed
    finally show ?thesis .
  qed
  moreover have "?i AND 0xF00 = r * 256"
  proof -
    have "(0xF00 :: int) = push_bit 8 0xF" by (simp add: push_bit_eq_mult)
    then have "?i AND 0xF00 = push_bit 8 (drop_bit 8 ?i AND 0xF)"
      by (simp only: and_push_bit)
    also have "\<dots> = r * 256"
    proof -
      have "?i div 256 = r" unfolding i256 using assms by simp
      then show ?thesis
        using assms by (simp only: drop_bit_eq_div push_bit_eq_mult m) simp
    qed
    finally show ?thesis .
  qed
  ultimately show ?thesis by (simp add: dvc_color_remap_def)
qed

section \<open>Properties\<close>

text \<open>C4: the array palette of \<open>dvc_cache.hpp\<close>, with its usage ranks and block flags, simulates a move-to-front list: an insertion hits or evicts the least recently used colour, a lookup by rank promotes, a prune keeps the colours touched since the last one, and every answer is the list's answer.\<close>

theorem palette_simulation:
  assumes "cache_rel c p"
  shows "fst (cache_lru x c) = fst (palette_lru x p) \<and> cache_rel (snd (cache_lru x c)) (snd (palette_lru x p)) \<and>
    fst (cache_find r c) = fst (palette_find r p) \<and> cache_rel (snd (cache_find r c)) (snd (palette_find r p)) \<and>
    cache_rel (cache_prune c) (palette_prune p) \<and> cache_rel (cache_reset c) (palette_reset p)"
  using dvc_palette.lru_sim [OF assms, of x] dvc_palette.find_sim [OF assms, of r]
    dvc_palette.prune_sim [OF assms] dvc_palette.reset_sim [OF assms] by simp

lemma palette_simulation_witness:
  "fst (cache_find 0 (snd (cache_lru 7 dvc_cache_init))) = 7 \<and> \<not> fst (cache_lru 7 dvc_cache_init)"
proof -
  let ?p = "\<lparr>colors = [], touched = 0\<rparr>"
  have first: "fst (cache_lru 7 dvc_cache_init) = fst (palette_lru 7 ?p)"
    and rel: "cache_rel (snd (cache_lru 7 dvc_cache_init)) (snd (palette_lru 7 ?p))"
    using palette_simulation [OF cache_init_rel, of 7 0] by simp_all
  from palette_simulation [OF rel, of 7 0] first show ?thesis
    by (simp add: palette_lru_def palette_find_def)
qed

end
