(* ===== verification/Dvc_Decoder.thy ===== *)
theory Dvc_Decoder
  imports Dvc_Bits Dvc_Cache Std_String
begin

text \<open>
  The DVC decoder of \<open>ilo/dvc_decoder.hpp\<close>: the 48-state machine of \<open>process_bits\<close> with its
  three transition tables, \<open>next_block\<close>, \<open>emit_run\<close> and \<open>process_dvc\<close>. The virtual hooks
  (\<open>on_paste\<close>, \<open>on_show_text\<close>, \<dots>) are recorded as events, oldest first, in the field
  \<open>events\<close>; the store to \<open>cmd_p_buff\<close>, the one array access the code does not guard, has a
  fault of its own.
\<close>

unbundle bit_operations_syntax

section \<open>State\<close>

datatype dvc_event =
    Paste "int list" int int int
  | SetDimensions int int
  | ShowText string
  | SetStatus int string
  | PrintText string
  | Repaint
  | RefreshScreen
  | ChangeKey
  | ServerScreen int int
  | Firmware int

record dvc_decoder =
  bits :: dvc_bits
  cache :: dvc_cache
  block :: "int list"
  pixel_count :: nat
  last_color :: int
  color :: int
  lastx :: int
  lasty :: int
  newx :: int
  newy :: int
  size_x :: int
  size_y :: int
  y_clipped :: int
  red :: int
  green :: int
  blue :: int
  scale_x :: int
  scale_y :: int
  screen_x :: int
  screen_y :: int
  video_detected :: bool
  cmd_p_buff :: "int list"
  cmd_p_count :: nat
  cmd_last :: int
  printchan :: int
  printstring :: string
  framerate :: int
  fatal_count :: int
  count_bytes :: int
  timeout_count :: int
  inhibit :: bool
  seized :: bool
  next_1 :: "nat list"
  events :: "dvc_event list"

definition color_remap_table :: "int list" where
  "color_remap_table = map (\<lambda>i. dvc_color_remap (int i)) [0..<4096]"

definition bits_to_read :: "nat list" where
  "bits_to_read =
    [0,1,1,1,1,1,2,3,4,4,1,1,3,3,8,1,1,7,1,1,3,7,1,1,8,1,7,0,1,3,7,1,4,0,0,0,1,0,1,7,7,4,4,1,8,8,1,4]"

definition next_0 :: "nat list" where
  "next_0 =
    [1,2,31,2,2,10,10,10,10,41,2,33,2,2,2,16,19,39,22,20,1,1,34,25,46,26,40,1,29,1,1,36,10,2,1,35,8,37,38,1,47,42,10,43,45,45,1,1]"

definition NEXT_1_INIT :: "nat list" where
  "NEXT_1_INIT =
    [1,15,3,11,11,10,10,10,10,41,11,12,2,2,2,17,18,39,23,21,1,1,28,24,46,27,40,1,30,1,1,35,10,2,1,35,9,37,38,1,47,42,10,0,45,45,24,1]"

definition dvc_decoder_init :: dvc_decoder where
  "dvc_decoder_init = \<lparr>bits = dvc_bits_init, cache = dvc_cache_init, block = replicate 256 0,
     pixel_count = 0, last_color = 0, color = 0, lastx = 0, lasty = 0, newx = 0, newy = 0,
     size_x = 0, size_y = 0, y_clipped = 0, red = 0, green = 0, blue = 0, scale_x = 1,
     scale_y = 1, screen_x = 1, screen_y = 1, video_detected = True,
     cmd_p_buff = replicate 256 0, cmd_p_count = 0, cmd_last = 0, printchan = 0,
     printstring = [], framerate = 30, fatal_count = 0, count_bytes = 0, timeout_count = 0,
     inhibit = False, seized = False, next_1 = NEXT_1_INIT, events = []\<rparr>"

section \<open>Helpers\<close>

definition emit :: "dvc_event \<Rightarrow> dvc_decoder \<Rightarrow> dvc_decoder" where
  "emit e d = d\<lparr>events := events d @ [e]\<rparr>"

definition set_next :: "nat \<Rightarrow> dvc_decoder \<Rightarrow> dvc_decoder" where
  "set_next n d = d\<lparr>bits := (bits d)\<lparr>next_state := n\<rparr>\<rparr>"

definition set_code :: "int \<Rightarrow> dvc_decoder \<Rightarrow> dvc_decoder" where
  "set_code v d = d\<lparr>bits := (bits d)\<lparr>code := v\<rparr>\<rparr>"

definition set_state :: "nat \<Rightarrow> dvc_decoder \<Rightarrow> dvc_decoder" where
  "set_state n d = d\<lparr>bits := (bits d)\<lparr>decoder_state := n\<rparr>\<rparr>"

definition read_bits :: "nat \<Rightarrow> dvc_decoder \<Rightarrow> dvc_decoder" where
  "read_bits n d = d\<lparr>bits := get_bits n (bits d)\<rparr>"

definition sync_next1 :: "dvc_decoder \<Rightarrow> dvc_decoder" where
  "sync_next1 d = d\<lparr>next_1 := (next_1 d)[31 := next_1_31 (cache d)]\<rparr>"

text \<open>\<open>block[pixel_count++] = last_color\<close>; the callers have checked the bound.\<close>

definition push_pixel :: "dvc_decoder \<Rightarrow> dvc_decoder" where
  "push_pixel d = d\<lparr>block := (block d)[pixel_count d := last_color d],
                    pixel_count := pixel_count d + 1\<rparr>"

text \<open>\<open>if (pixel_count >= 256) { next = 38; break; } block[pixel_count++] = last_color;\<close>\<close>

definition push_or_latch :: "dvc_decoder \<Rightarrow> dvc_decoder" where
  "push_or_latch d = (if pixel_count d \<ge> 256 then set_next 38 d else push_pixel d)"

fun emit_run :: "nat \<Rightarrow> dvc_decoder \<Rightarrow> dvc_decoder" where
  "emit_run 0 d = d"
| "emit_run (Suc n) d =
     (if pixel_count d \<ge> 256 then set_next 38 d else emit_run n (push_pixel d))"

definition clip_block :: "dvc_decoder \<Rightarrow> dvc_decoder" where
  "clip_block d =
     d\<lparr>block := fold (\<lambda>i blk. blk[i := color_remap_table ! 0]) [nat (y_clipped d)..<256] (block d)\<rparr>"

text \<open>The loop of \<open>next_block\<close>: paint, advance, stop at the end of the row or of the count.\<close>

fun blit_tiles :: "bool \<Rightarrow> nat \<Rightarrow> int \<Rightarrow> int \<Rightarrow> dvc_decoder \<Rightarrow> dvc_decoder" where
  "blit_tiles paint 0 x y d = d"
| "blit_tiles paint (Suc n) x y d =
     (let d = (if paint then emit (Paste (block d) x y 16) d else d);
          x = x + 16;
          d = d\<lparr>lastx := lastx d + 1\<rparr>
      in if lastx d \<ge> size_x d then d else blit_tiles paint n x y d)"

definition next_block :: "int \<Rightarrow> dvc_decoder \<Rightarrow> dvc_decoder" where
  "next_block n d =
     (let paint = video_detected d;
          d = (if pixel_count d \<noteq> 0 \<and> y_clipped d > 0 \<and> lasty d = size_y d
               then clip_block d else d);
          d = d\<lparr>pixel_count := 0\<rparr>;
          d = set_next 1 d
      in blit_tiles paint (nat n) (lastx d * 16) (lasty d * 16) d)"

section \<open>The state handlers\<close>

text \<open>States 3, 4, 5, 6, 7 and 32: a pixel whose colour is looked up by rank.\<close>

definition st_cached_pixel :: "nat \<Rightarrow> dvc_decoder \<Rightarrow> dvc_decoder" where
  "st_cached_pixel state d =
     (let c = code (bits d);
          c = (if cc_active (cache d) = 1 then int (cc_usage (cache d) ! 0)
               else if state = 4 then 0
               else if state = 3 then 1
               else if c \<noteq> 0 then c + 1 else c);
          d = set_code c d;
          (col, k) = cache_find c (cache d);
          d = sync_next1 (d\<lparr>cache := k\<rparr>)
      in if col = -1 then set_next 38 d
         else push_or_latch (d\<lparr>last_color := color_remap_table ! nat col\<rparr>))"

text \<open>States 12, 13 and 14: a run of the last colour; 13 adds 8 and falls through to 14.\<close>

definition st_run :: "nat \<Rightarrow> dvc_decoder \<Rightarrow> dvc_decoder" where
  "st_run state d =
     (let c = code (bits d)
      in if state = 12 then
           (if c = 7 then set_next 14 d
            else if c = 6 then set_next 13 d
            else (let d = set_code (c + 2) d in emit_run (nat (code (bits d))) d))
         else if state = 13 then (let d = set_code (c + 8) d in emit_run (nat (code (bits d))) d)
         else emit_run (nat c) d)"

text \<open>States 42 and 8: a new colour is complete; state 8 sets all three channels.\<close>

definition st_new_color :: "nat \<Rightarrow> dvc_decoder \<Rightarrow> dvc_decoder" where
  "st_new_color state d =
     (let c = code (bits d);
          d = (if state = 8 then d\<lparr>red := push_bit 8 c, green := push_bit 4 c\<rparr> else d);
          d = d\<lparr>blue := c\<rparr>;
          d = d\<lparr>color := (red d OR green d) OR blue d\<rparr>;
          (hit, k) = cache_lru (color d) (cache d);
          d = sync_next1 (d\<lparr>cache := k\<rparr>)
      in if hit then set_next 38 d
         else push_or_latch (d\<lparr>last_color := color_remap_table ! nat (color d)\<rparr>))"

text \<open>States 17 and 26: a new column; 39: a new row; 20 and 21: a horizontal move.\<close>

definition st_newx :: "nat \<Rightarrow> dvc_decoder \<Rightarrow> dvc_decoder" where
  "st_newx state d =
     (let d = d\<lparr>newx := code (bits d)\<rparr>
      in if state = 17 \<and> newx d > size_x d then d\<lparr>newx := 0\<rparr> else d)"

definition st_newy :: "dvc_decoder \<Rightarrow> dvc_decoder" where
  "st_newy d =
     (let d = d\<lparr>newy := code (bits d) AND 0x7F\<rparr>;
          d = d\<lparr>lastx := newx d, lasty := newy d\<rparr>;
          d = (if lasty d > size_y d then d\<lparr>lasty := 0\<rparr> else d)
      in emit Repaint d)"

definition st_movex :: "nat \<Rightarrow> dvc_decoder \<Rightarrow> dvc_decoder" where
  "st_movex state d =
     (let d = (if state = 20 then set_code (lastx d + code (bits d) + 1) d else d);
          d = d\<lparr>lastx := code (bits d) AND 0x7F\<rparr>
      in if lastx d > size_x d then d\<lparr>lastx := 0\<rparr> else d)"

text \<open>\<open>if ((ib_bcnt & 7) != 0) get_bits(ib_bcnt & 7)\<close>: drop to a byte boundary.\<close>

definition byte_align :: "dvc_decoder \<Rightarrow> dvc_decoder" where
  "byte_align d =
     (let r = ib_bcnt (bits d) AND 7 in if r \<noteq> 0 then read_bits (nat r) d else d)"

definition st_timeout :: "dvc_decoder \<Rightarrow> dvc_decoder" where
  "st_timeout d =
     (let d = (if timeout_count d = count_bytes d - 1 then set_next 38 d else d);
          d = byte_align d;
          d = d\<lparr>timeout_count := count_bytes d\<rparr>
      in emit Repaint d)"

text \<open>
  State 24: the previous parameter goes to \<open>cmd_p_buff[cmd_p_count - 1]\<close>, an array of 256
  entries, with no check of \<open>cmd_p_count\<close>. \<open>None\<close> is the store past its end.
\<close>

definition st_param :: "dvc_decoder \<Rightarrow> dvc_decoder option" where
  "st_param d =
     (let store = (if cmd_p_count d \<noteq> 0
                   then (if cmd_p_count d - 1 < length (cmd_p_buff d)
                         then Some (d\<lparr>cmd_p_buff := (cmd_p_buff d)[cmd_p_count d - 1 := cmd_last d]\<rparr>)
                         else None)
                   else Some d)
      in map_option (\<lambda>d. d\<lparr>cmd_p_count := cmd_p_count d + 1, cmd_last := code (bits d)\<rparr>) store)"

definition on_seize :: "dvc_decoder \<Rightarrow> dvc_decoder" where
  "on_seize d = (emit (ShowText ''Session Acquired by another user.'') d)\<lparr>seized := True\<rparr>"

definition set_framerate :: "int \<Rightarrow> dvc_decoder \<Rightarrow> dvc_decoder" where
  "set_framerate n d = d\<lparr>framerate := n\<rparr>"

definition st_command :: "dvc_decoder \<Rightarrow> dvc_decoder" where
  "st_command d =
     (if code (bits d) \<noteq> 0 then d
      else (let d = (if cmd_last d = 1 then set_next 37 d
                     else if cmd_last d = 2 then set_next 44 d
                     else if cmd_last d = 3
                     then set_framerate (if cmd_p_count d \<noteq> 0 then cmd_p_buff d ! 0 else 0) d
                     else if cmd_last d = 6
                     then (emit (SetStatus 2 ''Video_suspended'')
                            (emit (ShowText ''Video suspended'') d))\<lparr>screen_x := 640, screen_y := 100\<rparr>
                     else if cmd_last d = 7 then emit (Firmware 7) d
                     else if cmd_last d = 8 then emit (Firmware 8) d
                     else if cmd_last d = 9 then emit ChangeKey (byte_align d)
                     else if cmd_last d = 10 then on_seize d
                     else d)
            in d\<lparr>cmd_p_count := 0\<rparr>))"

definition st_printchar :: "dvc_decoder \<Rightarrow> dvc_decoder" where
  "st_printchar d =
     (let c = code (bits d)
      in if c \<noteq> 0 then d\<lparr>printstring := printstring d @ [char_of c]\<rparr>
         else set_next 1
           (if printchan d = 1 \<or> printchan d = 2
            then emit (SetStatus (2 + printchan d) (printstring d)) d
            else if printchan d = 3 then emit (PrintText (printstring d)) d
            else if printchan d = 4 then emit (ShowText (printstring d)) d
            else d))"

definition st_reset :: "dvc_decoder \<Rightarrow> dvc_decoder" where
  "st_reset d = d\<lparr>cache := cache_reset (cache d), pixel_count := 0, lastx := 0, lasty := 0,
     red := 0, green := 0, blue := 0, fatal_count := 0, timeout_count := -1, cmd_p_count := 0\<rparr>"

definition st_fatal :: "dvc_decoder \<Rightarrow> dvc_decoder" where
  "st_fatal d =
     (let d = (if fatal_count d = 11680 then emit RefreshScreen d else d);
          d = d\<lparr>fatal_count := fatal_count d + 1\<rparr>;
          d = (if fatal_count d = 120000 then emit RefreshScreen d else d)
      in if fatal_count d \<noteq> 12000000 then d
         else (emit RefreshScreen d)\<lparr>fatal_count := 41\<rparr>)"

definition st_mode2 :: "dvc_decoder \<Rightarrow> dvc_decoder" where
  "st_mode2 d =
     (let c = code (bits d);
          d = d\<lparr>lastx := 0, lasty := 0, pixel_count := 0, cache := cache_reset (cache d)\<rparr>;
          d = d\<lparr>scale_x := 1, scale_y := 1\<rparr>;
          d = d\<lparr>screen_x := size_x d * 16, screen_y := size_y d * 16 + c\<rparr>;
          d = d\<lparr>video_detected := (screen_x d \<noteq> 0 \<and> screen_y d \<noteq> 0)\<rparr>;
          d = d\<lparr>y_clipped := (if c > 0 then 256 - 16 * c else 0)\<rparr>
      in if \<not> video_detected d
         then (emit (SetStatus 2 ''No Video'') (emit (ShowText ''No Video'') d))
                \<lparr>screen_x := 640, screen_y := 100\<rparr>
         else emit (SetStatus 2 ('' Video:'' @ to_string (screen_x d) @ ''x'' @ to_string (screen_y d)))
                (emit (ServerScreen (screen_x d) (screen_y d))
                  (emit (SetDimensions (screen_x d) (screen_y d)) d)))"

definition st_hunt :: "nat \<Rightarrow> dvc_decoder \<Rightarrow> dvc_decoder" where
  "st_hunt state d =
     (if next_state (bits d) = state then d
      else d\<lparr>bits := (bits d)\<lparr>ib_bcnt := 0, ib_acc := 0, zero_count := 0\<rparr>, count_bytes := 0\<rparr>)"

section \<open>The state machine\<close>

text \<open>
  What one turn of the loop can do: go on, leave the loop with a return value, or store past
  the end of \<open>cmd_p_buff\<close>.
\<close>

datatype outcome = Running dvc_decoder | Leave int dvc_decoder | Overflow

text \<open>The switch of \<open>process_bits\<close>; a state without a case does nothing.\<close>

definition dispatch :: "nat \<Rightarrow> dvc_decoder \<Rightarrow> outcome" where
  "dispatch state d =
     (if state \<in> {3, 4, 5, 6, 7, 32} then Running (st_cached_pixel state d)
      else if state \<in> {12, 13, 14} then Running (st_run state d)
      else if state = 33 then Running (push_or_latch d)
      else if state = 35 then Running (set_next (pixcode (cache d)) d)
      else if state = 9 then Running (d\<lparr>red := push_bit 8 (code (bits d))\<rparr>)
      else if state = 41 then Running (d\<lparr>green := push_bit 4 (code (bits d))\<rparr>)
      else if state \<in> {8, 42} then Running (st_new_color state d)
      else if state \<in> {17, 26} then Running (st_newx state d)
      else if state = 39 then Running (st_newy d)
      else if state \<in> {20, 21} then Running (st_movex state d)
      else if state = 27 then Running (st_timeout d)
      else if state = 24 then (case st_param d of None \<Rightarrow> Overflow | Some d \<Rightarrow> Running d)
      else if state = 46 then Running (st_command d)
      else if state = 44 then Running (d\<lparr>printchan := code (bits d), printstring := []\<rparr>)
      else if state = 45 then Running (st_printchar d)
      else if state = 0 then Running (st_reset d)
      else if state = 38 then Running (st_fatal d)
      else if state = 34 then Running (next_block 1 d)
      else if state = 29 then (let d = set_code (code (bits d) + 2) d
                               in Running (next_block (code (bits d)) d))
      else if state = 30 then Running (next_block (code (bits d)) d)
      else if state = 40 then Running (d\<lparr>size_x := newx d, size_y := code (bits d)\<rparr>)
      else if state = 47 then Running (st_mode2 d)
      else if state = 43 then Running (st_hunt state d)
      else if state = 37 then Leave 1 d
      else Running d)"

text \<open>After the switch: a full tile is emitted, then a state that does not move is an error.\<close>

definition finish_turn :: "nat \<Rightarrow> dvc_decoder \<Rightarrow> outcome" where
  "finish_turn state d =
     (let d = (if next_state (bits d) = 2 \<and> pixel_count d = 256
               then (let d = next_block 1 d
                     in sync_next1 (d\<lparr>cache := cache_prune (cache d)\<rparr>))
               else d);
          nxt = next_state (bits d)
      in if state = nxt \<and> state \<noteq> 45 \<and> state \<noteq> 38 \<and> state \<noteq> 43 then Leave 6 d
         else Running (set_state nxt d))"

definition dvc_turn :: "dvc_decoder \<Rightarrow> outcome" where
  "dvc_turn d =
     (let state = decoder_state (bits d);
          need = bits_to_read ! state
      in if int need > ib_bcnt (bits d) then Leave 0 d
         else (let d = read_bits need d;
                   d = set_next (if code (bits d) = 0 then next_0 ! state else next_1 d ! state) d
               in case dispatch state d of
                    Running d \<Rightarrow> finish_turn state d
                  | other \<Rightarrow> other))"

datatype dvc_fault = Cmd_buffer_overflow | Fuel_exhausted

text \<open>The loop of \<open>process_bits\<close>, with fuel; \<open>turn_fuel\<close> turns always suffice (shown below).\<close>

fun dvc_loop :: "nat \<Rightarrow> dvc_decoder \<Rightarrow> dvc_fault + int \<times> dvc_decoder" where
  "dvc_loop 0 d = Inl Fuel_exhausted"
| "dvc_loop (Suc fuel) d =
     (case dvc_turn d of
        Running d \<Rightarrow> dvc_loop fuel d
      | Leave n d \<Rightarrow> Inr (n, d)
      | Overflow \<Rightarrow> Inl Cmd_buffer_overflow)"

definition turn_fuel :: nat where
  "turn_fuel = 64"

definition process_bits :: "byte \<Rightarrow> dvc_decoder \<Rightarrow> dvc_fault + int \<times> dvc_decoder" where
  "process_bits c d =
     (let d = d\<lparr>bits := snd (add_bits c (bits d))\<rparr>;
          d = d\<lparr>count_bytes := count_bytes d + 1\<rparr>
      in dvc_loop turn_fuel d)"

text \<open>\<open>process_dvc\<close>; its result is always \<open>true\<close>, so only the state is returned.\<close>

definition process_dvc :: "byte \<Rightarrow> dvc_decoder \<Rightarrow> dvc_fault + dvc_decoder" where
  "process_dvc c d =
     (case (if inhibit d then Inr (0, d) else process_bits c d) of
        Inl f \<Rightarrow> Inl f
      | Inr (n, d) \<Rightarrow>
          (if n \<noteq> 0
           then Inr (emit RefreshScreen
                  ((set_next 38 (set_state 38 d))\<lparr>fatal_count := 0\<rparr>))
           else Inr d))"

fun process_stream :: "bytes \<Rightarrow> dvc_decoder \<Rightarrow> dvc_fault + dvc_decoder" where
  "process_stream [] d = Inr d"
| "process_stream (c # cs) d =
     (case process_dvc c d of Inl f \<Rightarrow> Inl f | Inr d \<Rightarrow> process_stream cs d)"

lemma process_stream_append:
  "process_stream (cs @ ds) d =
     (case process_stream cs d of Inl f \<Rightarrow> Inl f | Inr d \<Rightarrow> process_stream ds d)"
  by (induction cs arbitrary: d) (auto split: sum.splits)

section \<open>The decoder invariant\<close>

text \<open>
  Every array index the decoder forms is in range, every state it names exists, and the
  geometry stays within seven bits; \<open>lastx\<close> alone has no upper bound.
\<close>

definition tables_ok :: "nat list \<Rightarrow> bool" where
  "tables_ok t \<longleftrightarrow> (\<exists>p \<in> insert 35 pixel_states. t = NEXT_1_INIT[31 := p])"

definition geometry_ok :: "dvc_decoder \<Rightarrow> bool" where
  "geometry_ok d \<longleftrightarrow> 0 \<le> lastx d \<and> 0 \<le> lasty d \<and> lasty d < 128 \<and> 0 \<le> newx d \<and> newx d < 128 \<and>
     0 \<le> size_x d \<and> size_x d < 128 \<and> 0 \<le> size_y d \<and> size_y d < 128 \<and>
     0 \<le> y_clipped d \<and> y_clipped d \<le> 256"

definition channels_ok :: "dvc_decoder \<Rightarrow> bool" where
  "channels_ok d \<longleftrightarrow> red d \<in> {0..<4096} \<and> green d \<in> {0..<4096} \<and> blue d \<in> {0..<4096}"

definition cache_ok :: "dvc_cache \<Rightarrow> bool" where
  "cache_ok c \<longleftrightarrow> dvc_palette.within {0..<4096} c \<and> pix_ok c"

definition dec_inv :: "dvc_decoder \<Rightarrow> bool" where
  "dec_inv d \<longleftrightarrow> bits_inv (bits d) \<and> decoder_state (bits d) < 48 \<and> next_state (bits d) < 48 \<and>
     length (block d) = 256 \<and> pixel_count d \<le> 256 \<and> length (cmd_p_buff d) = 256 \<and>
     tables_ok (next_1 d) \<and> cache_ok (cache d) \<and> channels_ok d \<and> geometry_ok d"

lemma dec_inv_init: "dec_inv dvc_decoder_init"
proof -
  have "dvc_palette.within {0..<4096} dvc_cache_init"
    unfolding dvc_palette.within_def using cache_init_rel by force
  moreover have "NEXT_1_INIT = NEXT_1_INIT[31 := 35]"
    by (simp add: NEXT_1_INIT_def)
  ultimately show ?thesis
    by (auto simp: dec_inv_def dvc_decoder_init_def dvc_bits_init_def bits_inv_def tables_ok_def
        cache_ok_def channels_ok_def geometry_ok_def)
qed

subsection \<open>Basic updates\<close>

lemma dec_inv_emit [simp]: "dec_inv (emit e d) = dec_inv d"
  by (simp add: dec_inv_def emit_def channels_ok_def geometry_ok_def)

lemma dec_inv_set_next [simp]: "dec_inv d \<Longrightarrow> n < 48 \<Longrightarrow> dec_inv (set_next n d)"
  by (simp add: dec_inv_def set_next_def channels_ok_def geometry_ok_def)

lemma dec_inv_set_state [simp]: "dec_inv d \<Longrightarrow> n < 48 \<Longrightarrow> dec_inv (set_state n d)"
  by (simp add: dec_inv_def set_state_def channels_ok_def geometry_ok_def)

lemma dec_inv_set_code [simp]: "dec_inv (set_code v d) = dec_inv d"
  by (simp add: dec_inv_def set_code_def channels_ok_def geometry_ok_def)

lemma dec_inv_read [simp]: "dec_inv d \<Longrightarrow> int n \<le> ib_bcnt (bits d) \<Longrightarrow> dec_inv (read_bits n d)"
  by (simp add: dec_inv_def read_bits_def channels_ok_def geometry_ok_def get_bits_inv)

lemma dec_inv_frame:
  "dec_inv (d\<lparr>last_color := v\<rparr>) = dec_inv d"
  "dec_inv (d\<lparr>color := v\<rparr>) = dec_inv d"
  "dec_inv (d\<lparr>screen_x := v\<rparr>) = dec_inv d"
  "dec_inv (d\<lparr>screen_y := v\<rparr>) = dec_inv d"
  "dec_inv (d\<lparr>video_detected := vb\<rparr>) = dec_inv d"
  "dec_inv (d\<lparr>scale_x := v\<rparr>) = dec_inv d"
  "dec_inv (d\<lparr>scale_y := v\<rparr>) = dec_inv d"
  "dec_inv (d\<lparr>cmd_p_count := k\<rparr>) = dec_inv d"
  "dec_inv (d\<lparr>cmd_last := v\<rparr>) = dec_inv d"
  "dec_inv (d\<lparr>printchan := v\<rparr>) = dec_inv d"
  "dec_inv (d\<lparr>printstring := str\<rparr>) = dec_inv d"
  "dec_inv (d\<lparr>framerate := v\<rparr>) = dec_inv d"
  "dec_inv (d\<lparr>fatal_count := v\<rparr>) = dec_inv d"
  "dec_inv (d\<lparr>count_bytes := v\<rparr>) = dec_inv d"
  "dec_inv (d\<lparr>timeout_count := v\<rparr>) = dec_inv d"
  "dec_inv (d\<lparr>seized := vb\<rparr>) = dec_inv d"
  by (simp_all add: dec_inv_def channels_ok_def geometry_ok_def)

declare dec_inv_frame [simp]

lemma tables_ok_sync: "tables_ok t \<Longrightarrow> cache_ok k \<Longrightarrow> tables_ok (t[31 := next_1_31 k])"
proof -
  assume "tables_ok t" and k: "cache_ok k"
  then obtain p where "t = NEXT_1_INIT[31 := p]" unfolding tables_ok_def by blast
  then have "t[31 := next_1_31 k] = NEXT_1_INIT[31 := next_1_31 k]"
    by (simp only: list_update_overwrite)
  moreover have "next_1_31 k \<in> insert 35 pixel_states"
    using k unfolding cache_ok_def pix_ok_def by blast
  ultimately show ?thesis unfolding tables_ok_def by blast
qed

lemma dec_inv_cache:
  "dec_inv d \<Longrightarrow> cache_ok k \<Longrightarrow> dec_inv (sync_next1 (d\<lparr>cache := k\<rparr>))"
  by (simp add: dec_inv_def sync_next1_def channels_ok_def geometry_ok_def tables_ok_sync)

lemma dec_inv_push: "dec_inv d \<Longrightarrow> pixel_count d < 256 \<Longrightarrow> dec_inv (push_pixel d)"
  by (simp add: dec_inv_def push_pixel_def channels_ok_def geometry_ok_def)

lemma dec_inv_push_or_latch: "dec_inv d \<Longrightarrow> dec_inv (push_or_latch d)"
  by (simp add: push_or_latch_def dec_inv_push)

lemma dec_inv_emit_run: "dec_inv d \<Longrightarrow> dec_inv (emit_run n d)"
  by (induction n arbitrary: d) (simp_all add: dec_inv_push)

lemma dec_inv_clip: "dec_inv d \<Longrightarrow> dec_inv (clip_block d)"
proof -
  have "length (fold (\<lambda>i blk. blk[i := v]) ks blk) = length blk" for ks v and blk :: "int list"
    by (induction ks arbitrary: blk) auto
  then show "dec_inv d \<Longrightarrow> dec_inv (clip_block d)"
    by (simp add: dec_inv_def clip_block_def channels_ok_def geometry_ok_def)
qed

lemma dec_inv_lastx: "dec_inv d \<Longrightarrow> 0 \<le> v \<Longrightarrow> dec_inv (d\<lparr>lastx := v\<rparr>)"
  by (simp add: dec_inv_def channels_ok_def geometry_ok_def)

lemma dec_inv_lastx_nonneg: "dec_inv d \<Longrightarrow> 0 \<le> lastx d"
  by (simp add: dec_inv_def geometry_ok_def)

lemma dec_inv_blit: "dec_inv d \<Longrightarrow> dec_inv (blit_tiles paint n x y d)"
  by (induction paint n x y d rule: blit_tiles.induct)
    (auto simp: Let_def dec_inv_lastx dec_inv_lastx_nonneg add_increasing)

lemma dec_inv_pixel_count_0: "dec_inv d \<Longrightarrow> dec_inv (d\<lparr>pixel_count := 0\<rparr>)"
  by (simp add: dec_inv_def channels_ok_def geometry_ok_def)

lemma dec_inv_next_block: "dec_inv d \<Longrightarrow> dec_inv (next_block n d)"
  unfolding next_block_def Let_def
  by (intro dec_inv_blit dec_inv_set_next dec_inv_pixel_count_0) (simp_all add: dec_inv_clip)

subsection \<open>The handlers keep the invariant\<close>

lemma int_or_bound:
  assumes "0 \<le> a" "a < 2 ^ n" "0 \<le> b" "b < (2::int) ^ n"
  shows "0 \<le> a OR b" and "a OR b < 2 ^ n"
proof -
  show "0 \<le> a OR b" using assms by simp
  have "take_bit n (a OR b) = a OR b"
    using assms by (simp add: take_bit_or take_bit_int_eq_self)
  then show "a OR b < 2 ^ n" by (metis take_bit_int_less_exp)
qed

lemma dec_inv_cached_pixel: "dec_inv d \<Longrightarrow> dec_inv (st_cached_pixel s d)"
proof -
  assume inv: "dec_inv d"
  have step: "dec_inv (case cache_find c (cache d) of (col, k) \<Rightarrow>
      (let e = sync_next1 (set_code c d\<lparr>cache := k\<rparr>)
       in if col = -1 then set_next 38 e
          else push_or_latch (e\<lparr>last_color := color_remap_table ! nat col\<rparr>)))" for c
  proof -
    obtain col k where find: "cache_find c (cache d) = (col, k)" by fastforce
    have "cache_ok k"
      using inv find dvc_palette.find_within [of "{0..<4096}" "cache d" c] pix_ok_find [of c "cache d"]
      by (simp add: dec_inv_def cache_ok_def)
    then have "dec_inv (sync_next1 (set_code c d\<lparr>cache := k\<rparr>))"
      using inv by (intro dec_inv_cache) simp_all
    then show ?thesis
      by (simp add: find Let_def dec_inv_push_or_latch)
  qed
  have "cache (set_code c d) = cache d" for c by (simp add: set_code_def)
  then show ?thesis
    using step by (simp add: st_cached_pixel_def Let_def)
qed

lemma dec_inv_run: "dec_inv d \<Longrightarrow> dec_inv (st_run s d)"
  by (simp add: st_run_def Let_def dec_inv_emit_run)

lemma dec_inv_new_color:
  assumes inv: "dec_inv d" and c: "0 \<le> code (bits d)" "code (bits d) < 16"
  shows "dec_inv (st_new_color s d)"
proof -
  define d1 where "d1 = (if s = 8 then d\<lparr>red := push_bit 8 (code (bits d)),
      green := push_bit 4 (code (bits d))\<rparr> else d)\<lparr>blue := code (bits d)\<rparr>"
  have ch: "channels_ok d1" and "dec_inv d1"
    using inv c by (auto simp: d1_def dec_inv_def channels_ok_def geometry_ok_def push_bit_eq_mult)
  define d2 where "d2 = d1\<lparr>color := (red d1 OR green d1) OR blue d1\<rparr>"
  have inv2: "dec_inv d2" using \<open>dec_inv d1\<close> by (simp add: d2_def)
  have col: "color d2 \<in> {0..<4096}"
    using ch int_or_bound [of "red d1" 12 "green d1"]
      int_or_bound [of "red d1 OR green d1" 12 "blue d1"]
    by (simp add: d2_def channels_ok_def)
  obtain hit k where lru: "cache_lru (color d2) (cache d2) = (hit, k)" by fastforce
  have "cache_ok k"
    using inv2 col lru dvc_palette.lru_within [of "{0..<4096}" "cache d2" "color d2"]
      pix_ok_lru [of "cache d2" "color d2"]
    by (simp add: dec_inv_def cache_ok_def)
  with inv2 have "dec_inv (sync_next1 (d2\<lparr>cache := k\<rparr>))" by (rule dec_inv_cache)
  moreover have "st_new_color s d = (let e = sync_next1 (d2\<lparr>cache := k\<rparr>)
      in if hit then set_next 38 e
         else push_or_latch (e\<lparr>last_color := color_remap_table ! nat (color e)\<rparr>))"
    using lru by (simp add: st_new_color_def d1_def d2_def Let_def)
  ultimately show ?thesis
    by (simp add: Let_def dec_inv_push_or_latch)
qed

lemma int_and_127: "0 \<le> v AND 0x7F" "v AND 0x7F < (128::int)"
  using take_bit_eq_mask [of 7 v] take_bit_int_less_exp [of 7 v]
  by (simp_all add: mask_eq_exp_minus_1)

lemma dec_inv_newx: "dec_inv d \<Longrightarrow> 0 \<le> code (bits d) \<Longrightarrow> code (bits d) < 128 \<Longrightarrow> dec_inv (st_newx s d)"
  by (simp add: st_newx_def Let_def dec_inv_def channels_ok_def geometry_ok_def)

lemma dec_inv_newy: "dec_inv d \<Longrightarrow> dec_inv (st_newy d)"
  using int_and_127 [of "code (bits d)"]
  by (simp add: st_newy_def Let_def) (simp add: dec_inv_def channels_ok_def geometry_ok_def)

lemma dec_inv_movex: "dec_inv d \<Longrightarrow> dec_inv (st_movex s d)"
  by (simp add: st_movex_def Let_def dec_inv_lastx int_and_127)

lemma dec_inv_align: "dec_inv d \<Longrightarrow> dec_inv (byte_align d)"
proof -
  assume inv: "dec_inv d"
  then have "0 \<le> ib_bcnt (bits d)" by (simp add: dec_inv_def bits_inv_def)
  then have "ib_bcnt (bits d) AND 7 \<le> ib_bcnt (bits d)" by (simp add: AND_upper1)
  with inv show ?thesis by (simp add: byte_align_def Let_def)
qed

lemma dec_inv_timeout: "dec_inv d \<Longrightarrow> dec_inv (st_timeout d)"
  by (simp add: st_timeout_def Let_def dec_inv_align)

lemma dec_inv_param: "dec_inv d \<Longrightarrow> st_param d = Some e \<Longrightarrow> dec_inv e"
  by (auto simp: st_param_def Let_def dec_inv_def channels_ok_def geometry_ok_def split: if_splits)

lemma dec_inv_command: "dec_inv d \<Longrightarrow> dec_inv (st_command d)"
  by (simp add: st_command_def Let_def set_framerate_def on_seize_def dec_inv_align)

lemma dec_inv_printchar: "dec_inv d \<Longrightarrow> dec_inv (st_printchar d)"
  by (simp add: st_printchar_def Let_def)

lemma cache_ok_reset: "cache_ok c \<Longrightarrow> cache_ok (cache_reset c)"
  by (simp add: cache_ok_def dvc_palette.reset_within)

lemma dec_inv_reset: "dec_inv d \<Longrightarrow> dec_inv (st_reset d)"
  by (simp add: st_reset_def dec_inv_def channels_ok_def geometry_ok_def cache_ok_reset)

lemma dec_inv_fatal: "dec_inv d \<Longrightarrow> dec_inv (st_fatal d)"
  by (simp add: st_fatal_def Let_def)

lemma dec_inv_mode2:
  assumes "dec_inv d" and "0 \<le> code (bits d)" and "code (bits d) < 16"
  shows "dec_inv (st_mode2 d)"
  using assms
  by (simp add: st_mode2_def Let_def)
    (simp add: dec_inv_def channels_ok_def geometry_ok_def cache_ok_reset)

lemma dec_inv_hunt: "dec_inv d \<Longrightarrow> dec_inv (st_hunt s d)"
  by (simp add: st_hunt_def dec_inv_def bits_inv_def channels_ok_def geometry_ok_def)

subsection \<open>What a turn does to the bit count and the state\<close>

text \<open>
  No handler touches \<open>decoder_state\<close>; the bit count changes only by byte alignment (states 27
  and 46) and by the reset of state 43.
\<close>

lemma bits_helpers [simp]:
  "bits (emit e d) = bits d"
  "bits (sync_next1 d) = bits d"
  "bits (push_pixel d) = bits d"
  "bits (clip_block d) = bits d"
  "bits (set_framerate v d) = bits d"
  "bits (on_seize d) = bits d"
  "bits (set_next n d) = (bits d)\<lparr>next_state := n\<rparr>"
  "bits (set_code v d) = (bits d)\<lparr>code := v\<rparr>"
  "bits (set_state n d) = (bits d)\<lparr>decoder_state := n\<rparr>"
  "bits (read_bits n d) = get_bits n (bits d)"
  by (simp_all add: emit_def sync_next1_def push_pixel_def clip_block_def set_framerate_def
      on_seize_def set_next_def set_code_def set_state_def read_bits_def)

lemma bits_push_or_latch [simp]:
  "ib_bcnt (bits (push_or_latch d)) = ib_bcnt (bits d)"
  "decoder_state (bits (push_or_latch d)) = decoder_state (bits d)"
  by (simp_all add: push_or_latch_def)

lemma bits_emit_run [simp]:
  "ib_bcnt (bits (emit_run n d)) = ib_bcnt (bits d)"
  "decoder_state (bits (emit_run n d)) = decoder_state (bits d)"
  by (induction n d rule: emit_run.induct) simp_all

lemma bits_blit [simp]: "bits (blit_tiles paint n x y d) = bits d"
  by (induction paint n x y d rule: blit_tiles.induct) (auto simp: Let_def)

lemma bits_next_block [simp]: "bits (next_block n d) = (bits d)\<lparr>next_state := 1\<rparr>"
  by (simp add: next_block_def Let_def)

lemma bits_align:
  "0 \<le> ib_bcnt (bits d) \<Longrightarrow> 0 \<le> ib_bcnt (bits (byte_align d)) \<and>
     ib_bcnt (bits (byte_align d)) \<le> ib_bcnt (bits d)"
  "decoder_state (bits (byte_align d)) = decoder_state (bits d)"
  "next_state (bits (byte_align d)) = next_state (bits d)"
  by (auto simp: byte_align_def Let_def AND_upper1)

definition keeps_bits :: "dvc_decoder \<Rightarrow> dvc_decoder \<Rightarrow> bool" where
  "keeps_bits d e \<longleftrightarrow> decoder_state (bits e) = decoder_state (bits d) \<and>
     ib_bcnt (bits e) \<le> ib_bcnt (bits d)"

lemma keeps_bits_handlers:
  assumes "0 \<le> ib_bcnt (bits d)"
  shows "keeps_bits d (st_cached_pixel s d)" "keeps_bits d (st_run s d)"
    "keeps_bits d (push_or_latch d)" "keeps_bits d (st_new_color s d)" "keeps_bits d (st_newx s d)"
    "keeps_bits d (st_newy d)" "keeps_bits d (st_movex s d)" "keeps_bits d (st_timeout d)"
    "keeps_bits d (st_command d)" "keeps_bits d (st_printchar d)" "keeps_bits d (st_reset d)"
    "keeps_bits d (st_fatal d)" "keeps_bits d (st_mode2 d)" "keeps_bits d (st_hunt s d)"
    "st_param d = Some e \<Longrightarrow> keeps_bits d e"
  using assms bits_align [of d]
  by (simp_all add: keeps_bits_def st_cached_pixel_def st_run_def st_new_color_def st_newx_def
      st_newy_def st_movex_def st_command_def st_printchar_def st_reset_def
      st_fatal_def st_mode2_def st_hunt_def Let_def split: prod.split)
    (auto simp: st_param_def st_timeout_def byte_align_def Let_def AND_upper1 split: if_splits)

lemma dispatch_keeps_bits:
  "dispatch s d = Running e \<Longrightarrow> 0 \<le> ib_bcnt (bits d) \<Longrightarrow> keeps_bits d e"
  by (auto simp: dispatch_def Let_def keeps_bits_handlers split: if_splits option.splits)
    (auto simp: keeps_bits_def)

text \<open>\<open>code_fits s d\<close>: the code was read with the width of state \<open>s\<close>.\<close>

definition code_fits :: "nat \<Rightarrow> dvc_decoder \<Rightarrow> bool" where
  "code_fits s d \<longleftrightarrow> bits_to_read ! s > 0 \<longrightarrow>
     0 \<le> code (bits d) \<and> code (bits d) < 2 ^ (bits_to_read ! s)"

lemma dec_inv_simple:
  "dec_inv d \<Longrightarrow> v \<in> {0..<4096} \<Longrightarrow> dec_inv (d\<lparr>red := v\<rparr>)"
  "dec_inv d \<Longrightarrow> v \<in> {0..<4096} \<Longrightarrow> dec_inv (d\<lparr>green := v\<rparr>)"
  "dec_inv d \<Longrightarrow> 0 \<le> w \<Longrightarrow> w < 128 \<Longrightarrow> dec_inv (d\<lparr>size_x := newx d, size_y := w\<rparr>)"
  by (auto simp: dec_inv_def channels_ok_def geometry_ok_def)

lemma dec_inv_pixcode: "dec_inv d \<Longrightarrow> pixcode (cache d) < 48"
  by (auto simp: dec_inv_def cache_ok_def pix_ok_def pixel_states_def)

lemma dispatch_inv:
  assumes inv: "dec_inv d" and fits: "code_fits s d"
  shows "dispatch s d = Running e \<Longrightarrow> dec_inv e" and "dispatch s d = Leave n e \<Longrightarrow> dec_inv e"
proof -
  have w: "bits_to_read ! 9 = 4" "bits_to_read ! 41 = 4" "bits_to_read ! 8 = 4"
    "bits_to_read ! 42 = 4" "bits_to_read ! 17 = 7" "bits_to_read ! 26 = 7" "bits_to_read ! 40 = 7"
    "bits_to_read ! 47 = 4"
    by (simp_all add: bits_to_read_def)
  show "dec_inv e" if "dispatch s d = Running e"
    using that inv fits w
    by (auto simp: dispatch_def Let_def code_fits_def push_bit_eq_mult
        intro!: dec_inv_cached_pixel dec_inv_run dec_inv_push_or_latch dec_inv_new_color dec_inv_newx
        dec_inv_newy dec_inv_movex dec_inv_timeout dec_inv_command dec_inv_printchar dec_inv_reset
        dec_inv_fatal dec_inv_next_block dec_inv_simple dec_inv_mode2 dec_inv_hunt dec_inv_pixcode
        dec_inv_set_next
        dest: dec_inv_param split: if_splits option.splits)
  show "dec_inv e" if "dispatch s d = Leave n e"
    using that inv by (auto simp: dispatch_def Let_def split: if_splits option.splits)
qed

section \<open>One turn of the loop\<close>

lemma tables_bound:
  "s < 48 \<Longrightarrow> bits_to_read ! s \<le> 8" "s < 48 \<Longrightarrow> next_0 ! s < 48"
  "s < 48 \<Longrightarrow> tables_ok t \<Longrightarrow> t ! s < 48"
proof -
  have "list_all (\<lambda>x. x \<le> 8) bits_to_read" "length bits_to_read = 48"
    "list_all (\<lambda>x. x < 48) next_0" "length next_0 = 48"
    "list_all (\<lambda>x. x < 48) NEXT_1_INIT" "length NEXT_1_INIT = 48"
    by (simp_all add: bits_to_read_def next_0_def NEXT_1_INIT_def)
  note facts = this
  show "s < 48 \<Longrightarrow> bits_to_read ! s \<le> 8" and "s < 48 \<Longrightarrow> next_0 ! s < 48"
    using facts by (simp_all add: list_all_length)
  show "s < 48 \<Longrightarrow> tables_ok t \<Longrightarrow> t ! s < 48"
    using facts
    by (auto simp: tables_ok_def list_all_length nth_list_update pixel_states_def)
qed

lemma tables_nth: "tables_ok t \<Longrightarrow> s \<noteq> 31 \<Longrightarrow> t ! s = NEXT_1_INIT ! s"
  by (auto simp: tables_ok_def)

text \<open>The decoder as the switch sees it: the bits read, the next state looked up.\<close>

definition fetched :: "dvc_decoder \<Rightarrow> dvc_decoder" where
  "fetched d =
     (let state = decoder_state (bits d); d = read_bits (bits_to_read ! state) d
      in set_next (if code (bits d) = 0 then next_0 ! state else next_1 d ! state) d)"

lemma dvc_turn_fetched:
  "dvc_turn d =
     (let state = decoder_state (bits d)
      in if int (bits_to_read ! state) > ib_bcnt (bits d) then Leave 0 d
         else (case dispatch state (fetched d) of
                 Running d \<Rightarrow> finish_turn state d | other \<Rightarrow> other))"
  by (simp add: dvc_turn_def fetched_def Let_def)

lemma fetched_fields [simp]:
  "decoder_state (bits (fetched d)) = decoder_state (bits d)"
  "ib_bcnt (bits (fetched d)) = ib_bcnt (bits d) - int (bits_to_read ! decoder_state (bits d))"
  "cache (fetched d) = cache d"
  by (simp_all add: fetched_def Let_def set_next_def read_bits_def)

lemma fetched_next:
  "tables_ok (next_1 d) \<Longrightarrow> decoder_state (bits d) \<noteq> 31 \<Longrightarrow>
   next_state (bits (fetched d)) \<in>
     {next_0 ! decoder_state (bits d), NEXT_1_INIT ! decoder_state (bits d)}"
  by (simp add: fetched_def Let_def set_next_def read_bits_def tables_nth)

lemma fetched_inv:
  assumes inv: "dec_inv d" and need: "int (bits_to_read ! decoder_state (bits d)) \<le> ib_bcnt (bits d)"
  shows "dec_inv (fetched d)" and "code_fits (decoder_state (bits d)) (fetched d)"
proof -
  let ?s = "decoder_state (bits d)"
  have s: "?s < 48" and b: "bits_inv (bits d)" and t: "tables_ok (next_1 d)"
    using inv by (simp_all add: dec_inv_def)
  have "next_1 (read_bits k d) = next_1 d" for k by (simp add: read_bits_def)
  then show "dec_inv (fetched d)"
    using inv need s t tables_bound by (simp add: fetched_def Let_def)
  show "code_fits ?s (fetched d)"
    using get_bits_code_bound [OF b need] tables_bound(1) [OF s]
    by (simp add: code_fits_def fetched_def Let_def)
qed

lemma finish_turn_bits:
  "finish_turn s d = Running e \<Longrightarrow> decoder_state (bits d) = s \<Longrightarrow>
     ib_bcnt (bits e) = ib_bcnt (bits d) \<and>
     decoder_state (bits e) = (if next_state (bits d) = 2 \<and> pixel_count d = 256 then 1
                               else next_state (bits d))"
  "finish_turn s d = Leave n e \<Longrightarrow>
     ib_bcnt (bits e) = ib_bcnt (bits d) \<and> n = 6 \<and> s \<noteq> 38 \<and> s \<noteq> 43"
  "finish_turn s d \<noteq> Overflow"
  by (auto simp: finish_turn_def Let_def sync_next1_def split: if_splits)

lemma finish_turn_inv:
  assumes "dec_inv d"
  shows "finish_turn s d = Running e \<Longrightarrow> dec_inv e" and "finish_turn s d = Leave n e \<Longrightarrow> dec_inv e"
proof -
  let ?d = "if next_state (bits d) = 2 \<and> pixel_count d = 256
     then (let d = next_block 1 d in sync_next1 (d\<lparr>cache := cache_prune (cache d)\<rparr>)) else d"
  have "cache_ok (cache_prune (cache e))" if "dec_inv e" for e
    using that by (simp add: dec_inv_def cache_ok_def dvc_palette.prune_within)
  then have inv: "dec_inv ?d"
    using assms dec_inv_next_block [OF assms, of 1]
    by (auto simp: Let_def intro: dec_inv_cache)
  then have "next_state (bits ?d) < 48" by (simp add: dec_inv_def)
  with inv show "finish_turn s d = Running e \<Longrightarrow> dec_inv e"
    and "finish_turn s d = Leave n e \<Longrightarrow> dec_inv e"
    unfolding finish_turn_def Let_def by (auto split: if_splits)
qed

text \<open>
  \<open>count_ok\<close> bounds the accumulator: fifteen bits in general, up to twenty-three while states
  38 and 43 discard what an abandoned byte left behind.
\<close>

definition count_ok :: "dvc_decoder \<Rightarrow> bool" where
  "count_ok d \<longleftrightarrow> ib_bcnt (bits d) \<le> 15 \<or>
     decoder_state (bits d) \<in> {38, 43} \<and> ib_bcnt (bits d) \<le> 23"

definition turn_measure :: "dvc_decoder \<Rightarrow> nat" where
  "turn_measure d = 2 * nat (ib_bcnt (bits d)) +
     (if bits_to_read ! decoder_state (bits d) = 0 then 1 else 0)"

lemma zero_width_states:
  "s < 48 \<Longrightarrow> bits_to_read ! s = 0 \<Longrightarrow> s \<in> {0, 27, 33, 34, 35, 37}"
proof -
  have "list_all (\<lambda>s. bits_to_read ! s = 0 \<longrightarrow> s \<in> {0, 27, 33, 34, 35, 37}) [0..<48]"
    by (simp add: bits_to_read_def upt_rec)
  then show "s < 48 \<Longrightarrow> bits_to_read ! s = 0 \<Longrightarrow> s \<in> {0, 27, 33, 34, 35, 37}"
    by (simp add: list_all_iff)
qed

lemma table_values:
  "next_0 ! 0 = 1" "NEXT_1_INIT ! 0 = 1" "next_0 ! 27 = 1" "NEXT_1_INIT ! 27 = 1"
  "next_0 ! 33 = 2" "NEXT_1_INIT ! 33 = 2" "next_0 ! 38 = 38" "NEXT_1_INIT ! 38 = 38"
  "next_0 ! 43 = 43" "NEXT_1_INIT ! 43 = 0" "bits_to_read ! 1 = 1" "bits_to_read ! 38 = 1"
  "bits_to_read ! 2 = 1" "bits_to_read ! 4 = 1" "bits_to_read ! 5 = 1" "bits_to_read ! 6 = 2"
  "bits_to_read ! Suc 0 = 1" "bits_to_read ! 7 = 3" "bits_to_read ! 32 = 4" "bits_to_read ! 43 = 1"
  by (simp_all add: next_0_def NEXT_1_INIT_def bits_to_read_def)

text \<open>A state that reads no bits hands over to one that does.\<close>

lemma push_or_latch_next: "next_state (bits (push_or_latch d)) \<in> {next_state (bits d), 38}"
  by (simp add: push_or_latch_def)

lemma timeout_next: "next_state (bits (st_timeout d)) \<in> {next_state (bits d), 38}"
  by (simp add: st_timeout_def Let_def bits_align)

lemma zero_width_next:
  assumes inv: "dec_inv d" and zero: "bits_to_read ! decoder_state (bits d) = 0"
    and disp: "dispatch (decoder_state (bits d)) (fetched d) = Running e"
  shows "bits_to_read ! next_state (bits e) > 0"
proof -
  let ?s = "decoder_state (bits d)"
  have s: "?s < 48" and t: "tables_ok (next_1 d)" and pix: "pixcode (cache d) \<in> pixel_states"
    using inv by (simp_all add: dec_inv_def cache_ok_def pix_ok_def)
  note nxt = fetched_next [OF t]
  from zero_width_states [OF s zero] consider "?s = 0" | "?s = 27" | "?s = 33" | "?s = 34" | "?s = 35"
    | "?s = 37" by auto
  then show ?thesis
  proof cases
    case 1
    then show ?thesis using disp nxt by (auto simp: dispatch_def st_reset_def table_values)
  next
    case 2
    then show ?thesis using disp nxt timeout_next [of "fetched d"]
      by (auto simp: dispatch_def table_values)
  next
    case 3
    then show ?thesis using disp nxt push_or_latch_next [of "fetched d"]
      by (auto simp: dispatch_def table_values)
  next
    case 4
    then show ?thesis using disp by (auto simp: dispatch_def table_values)
  next
    case 5
    then show ?thesis using disp pix by (auto simp: dispatch_def pixel_states_def table_values)
  next
    case 6
    then show ?thesis using disp by (simp add: dispatch_def)
  qed
qed

lemma dispatch_38: "dispatch 38 d = Running (st_fatal d)"
  by (simp add: dispatch_def)

lemma dispatch_43: "dispatch 43 d = Running (st_hunt 43 d)"
  by (simp add: dispatch_def)

text \<open>Leaving the switch early happens in state 37 only, overflowing in state 24 only.\<close>

lemma dispatch_exits:
  "dispatch s d = Leave n e \<Longrightarrow> s = 37 \<and> n = 1 \<and> e = d"
  "dispatch s d = Overflow \<Longrightarrow> s = 24 \<and> cmd_p_count d > length (cmd_p_buff d)"
  by (auto simp: dispatch_def Let_def st_param_def split: if_splits option.splits)

theorem dvc_turn_Running:
  assumes inv: "dec_inv d" and cnt: "count_ok d" and turn: "dvc_turn d = Running e"
  shows "dec_inv e" and "count_ok e" and "turn_measure e < turn_measure d"
proof -
  let ?s = "decoder_state (bits d)" and ?f = "fetched d"
  from turn obtain g where need: "int (bits_to_read ! ?s) \<le> ib_bcnt (bits d)"
    and disp: "dispatch ?s ?f = Running g" and fin: "finish_turn ?s g = Running e"
    by (auto simp: dvc_turn_fetched Let_def split: if_splits outcome.splits)
  have s: "?s < 48" and t: "tables_ok (next_1 d)" using inv by (simp_all add: dec_inv_def)
  have nonneg: "0 \<le> ib_bcnt (bits ?f)" using need by simp
  note keep = dispatch_keeps_bits [OF disp nonneg, unfolded keeps_bits_def fetched_fields]
  have "dec_inv g" using dispatch_inv(1) [OF fetched_inv [OF inv need] disp] .
  then show einv: "dec_inv e" using finish_turn_inv(1) fin by blast
  have ebits: "ib_bcnt (bits e) \<le> ib_bcnt (bits d) - int (bits_to_read ! ?s)"
    and estate: "decoder_state (bits e) = (if next_state (bits g) = 2 \<and> pixel_count g = 256 then 1
                               else next_state (bits g))"
    using finish_turn_bits(1) [OF fin] keep by auto
  have "0 \<le> ib_bcnt (bits e)" using einv by (simp add: dec_inv_def bits_inv_def)
  show "count_ok e"
  proof (cases "ib_bcnt (bits d) \<le> 15")
    case True
    then show ?thesis using ebits by (simp add: count_ok_def)
  next
    case False
    then have d: "?s \<in> {38, 43}" "ib_bcnt (bits d) \<le> 23" using cnt by (auto simp: count_ok_def)
    have next38: "next_state (bits g) = 38" if "?s = 38"
      using that disp fetched_next [OF t] by (auto simp: dispatch_38 table_values st_fatal_def Let_def)
    have next43: "next_state (bits g) = 43 \<or> ib_bcnt (bits g) = 0" if "?s = 43"
      using that disp by (auto simp: dispatch_43 st_hunt_def split: if_splits)
    show ?thesis
      using d estate next38 next43 ebits finish_turn_bits(1) [OF fin] keep
      by (auto simp: count_ok_def)
  qed
  show "turn_measure e < turn_measure d"
  proof (cases "bits_to_read ! ?s = 0")
    case True
    have "bits_to_read ! decoder_state (bits e) > 0"
      using zero_width_next [OF inv True disp] estate by (auto simp: table_values split: if_splits)
    with True ebits show ?thesis by (simp add: turn_measure_def nat_mono)
  next
    case False
    with ebits \<open>0 \<le> ib_bcnt (bits e)\<close> show ?thesis by (auto simp: turn_measure_def)
  qed
qed

theorem dvc_turn_Leave:
  assumes inv: "dec_inv d" and cnt: "count_ok d" and turn: "dvc_turn d = Leave n e"
  shows "dec_inv e" and "n = 0 \<Longrightarrow> ib_bcnt (bits e) \<le> 7" and "ib_bcnt (bits e) \<le> 15"
    and "n \<in> {0, 1, 6}"
proof -
  let ?s = "decoder_state (bits d)" and ?f = "fetched d"
  have s: "?s < 48" using inv by (simp add: dec_inv_def)
  have "dec_inv e \<and> (n = 0 \<longrightarrow> ib_bcnt (bits e) \<le> 7) \<and> ib_bcnt (bits e) \<le> 15 \<and> n \<in> {0, 1, 6}"
  proof (cases "int (bits_to_read ! ?s) > ib_bcnt (bits d)")
    case True
    then have "n = 0" "e = d" using turn by (simp_all add: dvc_turn_fetched Let_def)
    with True inv tables_bound(1) [OF s] show ?thesis by simp
  next
    case False
    then have need: "int (bits_to_read ! ?s) \<le> ib_bcnt (bits d)" by simp
    have nonneg: "0 \<le> ib_bcnt (bits ?f)" using need by simp
    note finv = fetched_inv [OF inv need]
    from turn False consider (exit) "dispatch ?s ?f = Leave n e"
      | (run) g where "dispatch ?s ?f = Running g" "finish_turn ?s g = Leave n e"
      by (auto simp: dvc_turn_fetched Let_def split: outcome.splits)
    then show ?thesis
    proof cases
      case exit
      then have "dec_inv e" by (rule dispatch_inv(2) [OF finv])
      with dispatch_exits(1) [OF exit] cnt show ?thesis by (auto simp: count_ok_def)
    next
      case run
      note keep = dispatch_keeps_bits [OF run(1) nonneg, unfolded keeps_bits_def fetched_fields]
      note fin = finish_turn_bits(2) [OF run(2)]
      have "dec_inv e"
        using finish_turn_inv(2) [OF dispatch_inv(1) [OF finv run(1)] run(2)] .
      with fin keep cnt show ?thesis by (auto simp: count_ok_def)
    qed
  qed
  then show "dec_inv e" and "n = 0 \<Longrightarrow> ib_bcnt (bits e) \<le> 7" and "ib_bcnt (bits e) \<le> 15"
    and "n \<in> {0, 1, 6}" by auto
qed

end
