(* ===== verification/Framebuffer.thy ===== *)
theory Framebuffer
  imports Dvc_Decoder "HOL-Library.Signed_Division"
begin

text \<open>
  What the front end makes of the decoder's events: \<open>FramebufferDecoder\<close> of \<open>ilo/cim_png.hpp\<close> and
  \<open>TrackingFramebuffer\<close> of \<open>ui/console_core.hpp\<close>. Both override \<open>on_set_dimensions\<close> and \<open>on_paste\<close>,
  the second also \<open>on_show_text\<close>; the other hooks keep their empty bodies. The locale \<open>renderer\<close> is
  the contract of the hooks: both classes draw the same picture.
\<close>

section \<open>The plain framebuffer\<close>

record framebuffer =
  fb_w :: int
  fb_h :: int
  pixels :: "u32 list"

definition fb_new :: framebuffer where
  "fb_new = \<lparr>fb_w = 0, fb_h = 0, pixels = []\<rparr>"

definition fb_set_dimensions :: "int \<Rightarrow> int \<Rightarrow> framebuffer \<Rightarrow> framebuffer" where
  "fb_set_dimensions w h f =
     (if w = fb_w f \<and> h = fb_h f then f
      else f\<lparr>fb_w := w, fb_h := h, pixels := replicate (nat w * nat h) 0\<rparr>)"

text \<open>The rows of a block that lie above the bottom edge.\<close>

definition paste_rows :: "int \<Rightarrow> int \<Rightarrow> nat" where
  "paste_rows y h = nat (if y + 16 > h then h - y else 16)"

definition paste_pixel :: "int \<Rightarrow> int list \<Rightarrow> int \<Rightarrow> int \<Rightarrow> nat \<Rightarrow> nat \<Rightarrow> u32 list \<Rightarrow> u32 list" where
  "paste_pixel w blk x yy r c ps =
     (let xx = x + int c
      in if xx < 0 \<or> xx \<ge> w then ps
         else ps[nat (yy * w + xx) := word_of_int (blk ! (r * 16 + c))])"

definition paste_row :: "int \<Rightarrow> int \<Rightarrow> int list \<Rightarrow> int \<Rightarrow> int \<Rightarrow> nat \<Rightarrow> nat \<Rightarrow> u32 list \<Rightarrow> u32 list" where
  "paste_row w h blk x y len r ps =
     (let yy = y + int r
      in if yy < 0 \<or> yy \<ge> h then ps else fold (paste_pixel w blk x yy r) [0..<len] ps)"

definition fb_paste :: "int list \<Rightarrow> int \<Rightarrow> int \<Rightarrow> int \<Rightarrow> framebuffer \<Rightarrow> framebuffer" where
  "fb_paste blk x y len f =
     (if pixels f = [] then f
      else f\<lparr>pixels := fold (paste_row (fb_w f) (fb_h f) blk x y (nat len)) [0..<paste_rows y (fb_h f)] (pixels f)\<rparr>)"

fun fb_event :: "dvc_event \<Rightarrow> framebuffer \<Rightarrow> framebuffer" where
  "fb_event (Paste blk x y len) f = fb_paste blk x y len f"
| "fb_event (SetDimensions w h) f = fb_set_dimensions w h f"
| "fb_event _ f = f"

section \<open>The tracking framebuffer\<close>

definition TILE :: int where "TILE = 16"

record tracking = framebuffer +
  tiles_x :: int
  tiles_y :: int
  tile_dirty :: "bool list"
  pastes :: u64
  changed_pastes :: u64
  last_status :: string

definition tracking_new :: tracking where
  "tracking_new = \<lparr>fb_w = 0, fb_h = 0, pixels = [], tiles_x = 0, tiles_y = 0, tile_dirty = [], pastes = 0,
     changed_pastes = 0, last_status = ''''\<rparr>"

definition any_dirty :: "tracking \<Rightarrow> bool" where
  "any_dirty f \<longleftrightarrow> list_ex id (tile_dirty f)"

definition clear_dirty :: "tracking \<Rightarrow> tracking" where
  "clear_dirty f = f\<lparr>tile_dirty := replicate (length (tile_dirty f)) False\<rparr>"

definition mark_all_dirty :: "tracking \<Rightarrow> tracking" where
  "mark_all_dirty f = f\<lparr>tile_dirty := replicate (length (tile_dirty f)) True\<rparr>"

definition tracking_set_dimensions :: "int \<Rightarrow> int \<Rightarrow> tracking \<Rightarrow> tracking" where
  "tracking_set_dimensions w h f =
     (if w = fb_w f \<and> h = fb_h f then f
      else (let f = f\<lparr>fb_w := w, fb_h := h, pixels := replicate (nat w * nat h) 0\<rparr>;
                f = f\<lparr>tiles_x := (w + TILE - 1) sdiv TILE, tiles_y := (h + TILE - 1) sdiv TILE\<rparr>
            in f\<lparr>tile_dirty := replicate (nat (tiles_x f) * nat (tiles_y f)) True\<rparr>))"

text \<open>Only a pixel that differs is written, and then \<open>changed\<close> is set.\<close>

definition diff_pixel :: "int \<Rightarrow> int list \<Rightarrow> int \<Rightarrow> int \<Rightarrow> nat \<Rightarrow> nat \<Rightarrow> bool \<times> u32 list \<Rightarrow> bool \<times> u32 list" where
  "diff_pixel w blk x yy r c s =
     (let (changed, ps) = s; xx = x + int c
      in if xx < 0 \<or> xx \<ge> w then (changed, ps)
         else (let v = word_of_int (blk ! (r * 16 + c)); dst = nat (yy * w + xx)
               in if ps ! dst \<noteq> v then (True, ps[dst := v]) else (changed, ps)))"

definition diff_row :: "int \<Rightarrow> int \<Rightarrow> int list \<Rightarrow> int \<Rightarrow> int \<Rightarrow> nat \<Rightarrow> nat \<Rightarrow> bool \<times> u32 list \<Rightarrow> bool \<times> u32 list" where
  "diff_row w h blk x y len r s =
     (let yy = y + int r
      in if yy < 0 \<or> yy \<ge> h then s else fold (diff_pixel w blk x yy r) [0..<len] s)"

definition mark_tile :: "int \<Rightarrow> int \<Rightarrow> tracking \<Rightarrow> tracking" where
  "mark_tile tx ty f =
     (if 0 \<le> tx \<and> tx < tiles_x f \<and> 0 \<le> ty \<and> ty < tiles_y f
      then f\<lparr>tile_dirty := (tile_dirty f)[nat (ty * tiles_x f + tx) := True]\<rparr> else f)"

definition tracking_paste :: "int list \<Rightarrow> int \<Rightarrow> int \<Rightarrow> int \<Rightarrow> tracking \<Rightarrow> tracking" where
  "tracking_paste blk x y len f =
     (let f = f\<lparr>pastes := pastes f + 1\<rparr>
      in if pixels f = [] then f
         else (let (changed, ps) = fold (diff_row (fb_w f) (fb_h f) blk x y (nat len))
                     [0..<paste_rows y (fb_h f)] (False, pixels f);
                   f = f\<lparr>pixels := ps\<rparr>
               in if \<not> changed then f
                  else mark_tile (x sdiv TILE) (y sdiv TILE) (f\<lparr>changed_pastes := changed_pastes f + 1\<rparr>)))"

fun tracking_event :: "dvc_event \<Rightarrow> tracking \<Rightarrow> tracking" where
  "tracking_event (Paste blk x y len) f = tracking_paste blk x y len f"
| "tracking_event (SetDimensions w h) f = tracking_set_dimensions w h f"
| "tracking_event (ShowText s) f = f\<lparr>last_status := s\<rparr>"
| "tracking_event _ f = f"

section \<open>The contract of the hooks\<close>

text \<open>A renderer keeps, whatever else it keeps, the picture the plain framebuffer would have.\<close>

locale renderer =
  fixes handle :: "dvc_event \<Rightarrow> 's \<Rightarrow> 's"
    and image :: "'s \<Rightarrow> framebuffer"
  assumes handle_image: "image (handle e s) = fb_event e (image s)"
begin

lemma image_after: "image (fold handle es s) = fold fb_event es (image s)"
  by (induction es arbitrary: s) (simp_all add: handle_image)

lemma image_split:
  "image (fold handle (es @ fs) s) = fold fb_event fs (image (fold handle es s))"
  by (simp add: image_after)

end

interpretation plain: renderer fb_event "\<lambda>f. f"
  by unfold_locales simp

text \<open>The comparison changes nothing but the work done.\<close>

lemma diff_pixel_paste: "snd (diff_pixel w blk x yy r c s) = paste_pixel w blk x yy r c (snd s)"
  by (auto simp: diff_pixel_def paste_pixel_def Let_def list_update_same_conv split: prod.splits)
    (metis list_update_beyond list_update_id not_le)

lemma fold_snd:
  "(\<And>c s. snd (f c s) = g c (snd s)) \<Longrightarrow> snd (fold f cs s) = fold g cs (snd s)"
  by (induction cs arbitrary: s) simp_all

lemma diff_row_paste: "snd (diff_row w h blk x y len r s) = paste_row w h blk x y len r (snd s)"
  by (simp add: diff_row_def paste_row_def Let_def fold_snd [of _ "paste_pixel w blk x (y + int r) r"] diff_pixel_paste)

lemma diff_rows_paste: "snd (fold (diff_row w h blk x y len) rs s) = fold (paste_row w h blk x y len) rs (snd s)"
  by (rule fold_snd) (rule diff_row_paste)

definition tracking_image :: "tracking \<Rightarrow> framebuffer" where
  "tracking_image f = \<lparr>fb_w = fb_w f, fb_h = fb_h f, pixels = pixels f\<rparr>"

lemma mark_tile_fields [simp]:
  "fb_w (mark_tile tx ty f) = fb_w f" "fb_h (mark_tile tx ty f) = fb_h f" "pixels (mark_tile tx ty f) = pixels f"
  "tiles_x (mark_tile tx ty f) = tiles_x f" "tiles_y (mark_tile tx ty f) = tiles_y f"
  "length (tile_dirty (mark_tile tx ty f)) = length (tile_dirty f)"
  by (simp_all add: mark_tile_def)

lemma tracking_paste_image: "tracking_image (tracking_paste blk x y len f) = fb_paste blk x y len (tracking_image f)"
  using diff_rows_paste [of "fb_w f" "fb_h f" blk x y "nat len" "[0..<paste_rows y (fb_h f)]" "(False, pixels f)"]
  by (auto simp: tracking_paste_def fb_paste_def tracking_image_def Let_def split: prod.splits)

interpretation tracking: renderer tracking_event tracking_image
proof
  fix e f
  show "tracking_image (tracking_event e f) = fb_event e (tracking_image f)"
    by (cases e) (simp_all add: tracking_paste_image, simp_all add: tracking_image_def tracking_set_dimensions_def
        fb_set_dimensions_def Let_def)
qed

end
