(* ===== verification/Dvc_Stream.thy ===== *)
theory Dvc_Stream
  imports Dvc_Decoder
begin

text \<open>
  Byte streams through the decoder of \<open>ilo/dvc_decoder.hpp\<close>: every byte is processed within the
  fuel, the invariant holds between bytes, the events are well formed, and the one way to fail
  is the unguarded store to \<open>cmd_p_buff\<close>, which a stream of ones reaches.
\<close>

section \<open>Bytes and streams\<close>

text \<open>
  Between two bytes fewer than eight bits wait, or the decoder is in its error state with what
  an abandoned byte left.
\<close>

definition ready :: "dvc_decoder \<Rightarrow> bool" where
  "ready d \<longleftrightarrow> dec_inv d \<and>
     (ib_bcnt (bits d) \<le> 7 \<or> decoder_state (bits d) = 38 \<and> ib_bcnt (bits d) \<le> 15)"

definition add_byte :: "byte \<Rightarrow> dvc_decoder \<Rightarrow> dvc_decoder" where
  "add_byte c d = d\<lparr>bits := snd (add_bits c (bits d)), count_bytes := count_bytes d + 1\<rparr>"

lemma process_bits_add: "process_bits c d = dvc_loop turn_fuel (add_byte c d)"
  by (simp add: process_bits_def add_byte_def Let_def)

lemma add_byte_inv:
  assumes "ready d"
  shows "dec_inv (add_byte c d)" and "count_ok (add_byte c d)" and "turn_measure (add_byte c d) < turn_fuel"
proof -
  have inv: "dec_inv d" and cnt: "ib_bcnt (bits d) \<le> 15" using assms by (auto simp: ready_def)
  let ?b = "snd (add_bits c (bits d))"
  have b: "bits_inv ?b" using inv cnt by (intro add_bits_inv) (auto simp: dec_inv_def)
  have st: "decoder_state ?b = decoder_state (bits d) \<or> decoder_state ?b = 43"
    using add_bits_states(1) [of c "bits d"] by (simp add: HUNT_def)
  have nx: "next_state ?b = next_state (bits d) \<or> next_state ?b = 43"
    by (auto simp: add_bits_def Let_def HUNT_def)
  show "dec_inv (add_byte c d)"
    using inv b st nx by (auto simp: add_byte_def dec_inv_def channels_ok_def geometry_ok_def)
  show cok: "count_ok (add_byte c d)"
    using assms st by (auto simp: count_ok_def add_byte_def ready_def)
  have "0 \<le> ib_bcnt ?b" "ib_bcnt ?b \<le> 23" using b cnt by (simp_all add: bits_inv_def)
  then have "nat (ib_bcnt ?b) \<le> 23" by linarith
  moreover have "turn_measure (add_byte c d) \<le> 2 * nat (ib_bcnt ?b) + 1"
    by (simp add: turn_measure_def add_byte_def)
  ultimately show "turn_measure (add_byte c d) < turn_fuel"
    unfolding turn_fuel_def by linarith
qed

lemma dvc_loop_result:
  assumes "dec_inv d" and "count_ok d" and "turn_measure d < fuel"
  shows "case dvc_loop fuel d of
           Inl f \<Rightarrow> f = Cmd_buffer_overflow
         | Inr (n, e) \<Rightarrow> dec_inv e \<and> ib_bcnt (bits e) \<le> 15 \<and> (n = 0 \<longrightarrow> ib_bcnt (bits e) \<le> 7)"
  using assms
proof (induction fuel arbitrary: d)
  case 0
  then show ?case by simp
next
  case (Suc fuel)
  show ?case
  proof (cases "dvc_turn d")
    case (Running e)
    note next_turn = dvc_turn_Running [OF Suc.prems(1,2) Running]
    then have "turn_measure e < fuel" using Suc.prems(3) by simp
    from Suc.IH [OF next_turn(1,2) this] show ?thesis by (simp add: Running)
  next
    case (Leave n e)
    from dvc_turn_Leave [OF Suc.prems(1,2) Leave] show ?thesis by (simp add: Leave)
  qed simp
qed

lemma process_dvc_result:
  assumes "ready d"
  shows "case process_dvc c d of Inl f \<Rightarrow> f = Cmd_buffer_overflow | Inr e \<Rightarrow> ready e"
proof (cases "inhibit d")
  case True
  then show ?thesis using assms by (simp add: process_dvc_def)
next
  case False
  note r = dvc_loop_result [OF add_byte_inv [OF assms, of c]]
  show ?thesis
  proof (cases "process_bits c d")
    case (Inl f)
    with r False show ?thesis by (simp add: process_dvc_def process_bits_add)
  next
    case (Inr ne)
    then obtain n e where "process_bits c d = Inr (n, e)" by (cases ne) auto
    with r False show ?thesis
      by (auto simp: process_dvc_def process_bits_add ready_def)
  qed
qed

lemma process_stream_result:
  "ready d \<Longrightarrow> case process_stream cs d of Inl f \<Rightarrow> f = Cmd_buffer_overflow | Inr e \<Rightarrow> ready e"
proof (induction cs arbitrary: d)
  case Nil
  then show ?case by simp
next
  case (Cons c cs)
  show ?case
  proof (cases "process_dvc c d")
    case (Inl f)
    with process_dvc_result [OF Cons.prems, of c] show ?thesis by simp
  next
    case (Inr e)
    with process_dvc_result [OF Cons.prems, of c] have "ready e" by simp
    from Cons.IH [OF this] show ?thesis by (simp add: Inr)
  qed
qed

lemma ready_init: "ready dvc_decoder_init"
  using dec_inv_init by (simp add: ready_def dvc_decoder_init_def dvc_bits_init_def)

section \<open>The events the decoder emits\<close>

text \<open>
  What the framebuffer relies on: a pasted block has 256 entries and lies on the tile grid, and
  announced dimensions are positive and below 2048.
\<close>

fun event_ok :: "dvc_event \<Rightarrow> bool" where
  "event_ok (Paste blk x y len) \<longleftrightarrow> length blk = 256 \<and> len = 16 \<and> 0 \<le> x \<and> x mod 16 = 0 \<and>
     0 \<le> y \<and> y < 2048 \<and> y mod 16 = 0"
| "event_ok (SetDimensions w h) \<longleftrightarrow> 0 < w \<and> w < 2048 \<and> 0 < h \<and> h < 2048"
| "event_ok _ \<longleftrightarrow> True"

definition events_ok :: "dvc_decoder \<Rightarrow> bool" where
  "events_ok d \<longleftrightarrow> list_all event_ok (events d)"

lemma events_ok_emit [simp]: "events_ok (emit e d) \<longleftrightarrow> events_ok d \<and> event_ok e"
  by (simp add: events_ok_def emit_def)

lemma events_ok_cong: "events d = events e \<Longrightarrow> events_ok d = events_ok e"
  by (simp add: events_ok_def)

lemma events_helpers [simp]:
  "events (set_next n d) = events d"
  "events (set_code v d) = events d"
  "events (set_state n d) = events d"
  "events (read_bits n d) = events d"
  "events (sync_next1 d) = events d"
  "events (push_pixel d) = events d"
  "events (push_or_latch d) = events d"
  "events (clip_block d) = events d"
  "events (byte_align d) = events d"
  by (simp_all add: set_next_def set_code_def set_state_def read_bits_def sync_next1_def
      push_pixel_def push_or_latch_def clip_block_def byte_align_def Let_def)

lemma events_emit_run [simp]: "events (emit_run n d) = events d"
  by (induction n d rule: emit_run.induct) simp_all

lemma events_ok_blit:
  "events_ok d \<Longrightarrow> length (block d) = 256 \<Longrightarrow> 0 \<le> x \<Longrightarrow> x mod 16 = 0 \<Longrightarrow> 0 \<le> y \<Longrightarrow> y < 2048 \<Longrightarrow>
   y mod 16 = 0 \<Longrightarrow> events_ok (blit_tiles paint n x y d)"
proof (induction paint n x y d rule: blit_tiles.induct)
  case (2 paint n x y d)
  have "events_ok ((if paint then emit (Paste (block d) x y 16) d else d)\<lparr>lastx := v\<rparr>)" for v
    using "2.prems" by (auto simp: events_ok_def emit_def)
  moreover have "length (block ((if paint then emit (Paste (block d) x y 16) d else d)\<lparr>lastx := v\<rparr>)) = 256" for v
    using "2.prems" by (simp add: emit_def)
  ultimately show ?case
    using "2.IH" "2.prems" by (simp add: Let_def mod_add_self2)
qed simp

lemma events_ok_next_block: "dec_inv d \<Longrightarrow> events_ok d \<Longrightarrow> events_ok (next_block n d)"
proof -
  assume inv: "dec_inv d" and ok: "events_ok d"
  let ?c = "if pixel_count d \<noteq> 0 \<and> y_clipped d > 0 \<and> lasty d = size_y d then clip_block d else d"
  let ?e = "set_next 1 (?c\<lparr>pixel_count := 0\<rparr>)"
  have "dec_inv ?e"
    using inv by (intro dec_inv_set_next dec_inv_pixel_count_0) (simp_all add: dec_inv_clip)
  then have geo: "length (block ?e) = 256" "0 \<le> lastx ?e" "0 \<le> lasty ?e" "lasty ?e < 128"
    by (simp_all add: dec_inv_def geometry_ok_def)
  have "events ?e = events d" by simp
  then have "events_ok ?e" using ok by (simp add: events_ok_def)
  then have "events_ok (blit_tiles (video_detected d) (nat n) (lastx ?e * 16) (lasty ?e * 16) ?e)"
    using geo by (intro events_ok_blit) auto
  then show ?thesis
    by (simp add: next_block_def Let_def)
qed

lemma events_ok_handlers:
  assumes "events_ok d"
  shows "events_ok (st_cached_pixel s d)" "events_ok (st_run s d)" "events_ok (push_or_latch d)"
    "events_ok (st_new_color s d)" "events_ok (st_newx s d)" "events_ok (st_newy d)"
    "events_ok (st_movex s d)" "events_ok (st_timeout d)" "events_ok (st_command d)"
    "events_ok (st_printchar d)" "events_ok (st_reset d)" "events_ok (st_fatal d)"
    "events_ok (st_hunt s d)" "st_param d = Some e \<Longrightarrow> events_ok e"
  using assms
  by (simp_all add: st_cached_pixel_def st_run_def st_new_color_def st_newx_def
      st_newy_def st_movex_def st_timeout_def st_command_def st_printchar_def st_reset_def
      st_fatal_def st_hunt_def on_seize_def set_framerate_def Let_def events_ok_def emit_def
      split: prod.split)
    (auto simp: st_param_def Let_def split: if_splits)

lemma events_ok_mode2:
  assumes "dec_inv d" and "events_ok d" and "0 \<le> code (bits d)" and "code (bits d) < 16"
  shows "events_ok (st_mode2 d)"
  using assms by (simp add: st_mode2_def Let_def events_ok_def emit_def dec_inv_def geometry_ok_def)

lemma dispatch_events:
  assumes inv: "dec_inv d" and fits: "code_fits s d" and ok: "events_ok d"
  shows "dispatch s d = Running e \<Longrightarrow> events_ok e" and "dispatch s d = Leave n e \<Longrightarrow> events_ok e"
proof -
  have w: "bits_to_read ! 47 = 4" by (simp add: bits_to_read_def)
  have cong: "events_ok (d\<lparr>red := v\<rparr>)" "events_ok (d\<lparr>green := v\<rparr>)" "events_ok (set_next n d)"
    "events_ok (d\<lparr>printchan := v, printstring := str\<rparr>)" "events_ok (d\<lparr>size_x := v, size_y := u\<rparr>)"
    for v n str u
    using ok by (simp_all add: events_ok_def)
  have "events_ok (set_code u d)" for u using ok by (simp add: events_ok_def)
  then have nb: "events_ok (next_block v (set_code u d))" "events_ok (next_block v d)" for v u
    using inv ok by (simp_all add: events_ok_next_block)
  show "events_ok e" if "dispatch s d = Running e"
    using that ok inv fits w
    by (auto simp: dispatch_def Let_def code_fits_def cong nb events_ok_handlers events_ok_mode2
        split: if_splits option.splits)
  show "events_ok e" if "dispatch s d = Leave n e"
    using that ok by (auto dest: dispatch_exits)
qed

lemma finish_turn_events:
  assumes "dec_inv d" and "events_ok d"
  shows "finish_turn s d = Running e \<Longrightarrow> events_ok e" and "finish_turn s d = Leave n e \<Longrightarrow> events_ok e"
  using assms events_ok_next_block [of d 1]
  by (auto simp: finish_turn_def Let_def events_ok_def split: if_splits)

lemma dvc_turn_events:
  assumes inv: "dec_inv d" and ok: "events_ok d"
  shows "dvc_turn d = Running e \<Longrightarrow> events_ok e" and "dvc_turn d = Leave n e \<Longrightarrow> events_ok e"
proof -
  let ?s = "decoder_state (bits d)"
  have f: "events_ok (fetched d)" using ok by (simp add: events_ok_def fetched_def Let_def)
  have wait: "e = d" if "int (bits_to_read ! ?s) > ib_bcnt (bits d)" "dvc_turn d = Leave n e"
    using that by (simp add: dvc_turn_fetched Let_def)
  have stop: "dvc_turn d \<noteq> Running e" if "int (bits_to_read ! ?s) > ib_bcnt (bits d)"
    using that by (simp add: dvc_turn_fetched Let_def)
  have go: "dvc_turn d = (case dispatch ?s (fetched d) of
      Running d \<Rightarrow> finish_turn ?s d | other \<Rightarrow> other)"
    and finv: "dec_inv (fetched d)" "code_fits ?s (fetched d)"
    if "\<not> int (bits_to_read ! ?s) > ib_bcnt (bits d)"
    using that inv by (simp_all add: dvc_turn_fetched Let_def fetched_inv)
  show "events_ok e" if turn: "dvc_turn d = Running e"
  proof -
    have n: "\<not> int (bits_to_read ! ?s) > ib_bcnt (bits d)" using turn stop by blast
    then obtain g where g: "dispatch ?s (fetched d) = Running g" "finish_turn ?s g = Running e"
      using turn go [OF n] by (auto split: outcome.splits)
    then show ?thesis
      using finish_turn_events(1) dispatch_inv(1) dispatch_events(1) finv [OF n] f by blast
  qed
  show "events_ok e" if turn: "dvc_turn d = Leave n e"
  proof (cases "int (bits_to_read ! ?s) > ib_bcnt (bits d)")
    case True
    then show ?thesis using wait turn ok by blast
  next
    case False
    from turn go [OF False] consider "dispatch ?s (fetched d) = Leave n e"
      | g where "dispatch ?s (fetched d) = Running g" "finish_turn ?s g = Leave n e"
      by (auto split: outcome.splits)
    then show ?thesis
      using finish_turn_events(2) dispatch_inv(1) dispatch_events finv [OF False] f by cases blast+
  qed
qed

lemma dvc_loop_events:
  "dec_inv d \<Longrightarrow> count_ok d \<Longrightarrow> events_ok d \<Longrightarrow> dvc_loop fuel d = Inr (n, e) \<Longrightarrow> events_ok e"
proof (induction fuel arbitrary: d)
  case 0
  then show ?case by simp
next
  case (Suc fuel)
  then show ?case
    using dvc_turn_Running [OF Suc.prems(1,2)] dvc_turn_events [OF Suc.prems(1,3)]
    by (auto split: outcome.splits)
qed

lemma process_stream_events:
  "ready d \<Longrightarrow> events_ok d \<Longrightarrow> process_stream cs d = Inr e \<Longrightarrow> events_ok e"
proof (induction cs arbitrary: d)
  case Nil
  then show ?case by simp
next
  case (Cons c cs)
  then obtain f where f: "process_dvc c d = Inr f" "process_stream cs f = Inr e"
    by (auto split: sum.splits)
  have "ready f" using process_dvc_result [OF Cons.prems(1), of c] f(1) by simp
  moreover have "events_ok f"
  proof (cases "inhibit d")
    case True
    then show ?thesis using f(1) Cons.prems(2) by (simp add: process_dvc_def)
  next
    case False
    then obtain n g where g: "process_bits c d = Inr (n, g)"
      using f(1) by (auto simp: process_dvc_def split: sum.splits)
    have "events_ok (add_byte c d)"
      using Cons.prems(2) by (simp add: events_ok_def add_byte_def)
    then have "events_ok g"
      using g add_byte_inv [OF Cons.prems(1), of c] dvc_loop_events
      by (simp add: process_bits_add)
    then show ?thesis
      using f(1) g False by (auto simp: process_dvc_def events_ok_def emit_def split: if_splits)
  qed
  ultimately show ?case using Cons.IH f(2) by blast
qed

section \<open>A stream of ones overruns the parameter buffer\<close>

definition full_ones :: "nat \<Rightarrow> nat \<Rightarrow> nat \<Rightarrow> dvc_decoder \<Rightarrow> bool" where
  "full_ones s k c d \<longleftrightarrow> dec_inv d \<and> decoder_state (bits d) = s \<and>
     bit_queue (bits d) = replicate k True \<and> cmd_p_count d = c \<and> zero_count (bits d) = 0 \<and>
     \<not> inhibit d"

lemma full_ones_count: "full_ones s k c d \<Longrightarrow> ib_bcnt (bits d) = int k"
proof -
  assume f: "full_ones s k c d"
  then have "length (bit_queue (bits d)) = k" "0 \<le> ib_bcnt (bits d)"
    by (simp_all add: full_ones_def dec_inv_def bits_inv_def)
  then show ?thesis by (simp add: bit_queue_def)
qed

lemma get_bits_zero_count [simp]: "zero_count (get_bits n b) = zero_count b"
  by (simp add: get_bits_def Let_def)

lemma param_tables: "bits_to_read ! 24 = 8" "NEXT_1_INIT ! 24 = 46" "bits_to_read ! 46 = 1"
  "NEXT_1_INIT ! 46 = 24"
  by (simp_all add: bits_to_read_def NEXT_1_INIT_def)

lemma fetched_ones:
  assumes f: "full_ones s k c d" and n: "bits_to_read ! s = n" "0 < n" "n \<le> 8" "n \<le> k" and s: "s \<noteq> 31"
  shows "code (bits (fetched d)) = 2 ^ n - 1" "next_state (bits (fetched d)) = NEXT_1_INIT ! s"
    "bit_queue (bits (fetched d)) = replicate (k - n) True" "cmd_p_count (fetched d) = c"
    "zero_count (bits (fetched d)) = 0" "cmd_p_buff (fetched d) = cmd_p_buff d" "inhibit (fetched d) = inhibit d"
proof -
  have inv: "bits_inv (bits d)" and cnt: "int n \<le> ib_bcnt (bits d)" and t: "tables_ok (next_1 d)"
    using f n full_ones_count [OF f] by (simp_all add: full_ones_def dec_inv_def)
  have m: "msb_val (replicate j True) = 2 ^ j - 1" for j
  proof (induction j)
    case (Suc j)
    have "msb_val (replicate j True @ [True]) = 2 * (2 ^ j - 1) + 1"
      using Suc by (simp del: replicate_append_same)
    moreover obtain i where "(2::nat) ^ j = Suc i" using gr0_implies_Suc [of "2 ^ j"] by auto
    ultimately show ?case by (simp add: replicate_append_same)
  qed simp
  have "code (get_bits n (bits d)) = 2 ^ n - 1"
    using get_bits_code [OF inv cnt n(2,3)] f n by (simp add: full_ones_def m of_nat_diff)
  moreover have "(1::int) < 2 ^ n" using n by simp
  ultimately have c: "code (get_bits n (bits d)) = 2 ^ n - 1" "code (get_bits n (bits d)) \<noteq> 0"
    by linarith+
  have ds: "decoder_state (bits d) = s" using f by (simp add: full_ones_def)
  have fe: "fetched d = set_next (NEXT_1_INIT ! s) (read_bits n d)"
    using c n ds tables_nth [OF t s] by (simp add: fetched_def Let_def read_bits_def)
  have q: "bit_queue (b\<lparr>next_state := v\<rparr>) = bit_queue b" for b v by (simp add: bit_queue_def)
  show "code (bits (fetched d)) = 2 ^ n - 1" "next_state (bits (fetched d)) = NEXT_1_INIT ! s"
    "bit_queue (bits (fetched d)) = replicate (k - n) True" "cmd_p_count (fetched d) = c"
    "zero_count (bits (fetched d)) = 0" "cmd_p_buff (fetched d) = cmd_p_buff d" "inhibit (fetched d) = inhibit d"
    using f c get_bits_queue [OF inv cnt]
    by (simp_all add: fe set_next_def read_bits_def full_ones_def q)
qed

lemma bit_queue_state [simp]: "bit_queue (b\<lparr>decoder_state := v\<rparr>) = bit_queue b"
  by (simp add: bit_queue_def)

lemma ones_turn_param:
  assumes f: "full_ones 24 k c d" and k: "8 \<le> k" "k \<le> 15"
  shows "if c \<le> 256 then \<exists>e. dvc_turn d = Running e \<and> full_ones 46 (k - 8) (Suc c) e
         else dvc_turn d = Overflow"
proof -
  note fe = fetched_ones [OF f param_tables(1) _ _ k(1)] 
  have inv: "dec_inv d" and st: "decoder_state (bits d) = 24" and cnt: "ib_bcnt (bits d) = int k"
    using f full_ones_count [OF f] by (simp_all add: full_ones_def)
  have len: "length (cmd_p_buff d) = 256" using inv by (simp add: dec_inv_def)
  have turn: "dvc_turn d = (case dispatch 24 (fetched d) of Running d \<Rightarrow> finish_turn 24 d | other \<Rightarrow> other)"
    using st cnt k by (simp add: dvc_turn_fetched param_tables)
  have disp: "dispatch 24 (fetched d) = (case st_param (fetched d) of None \<Rightarrow> Overflow | Some d \<Rightarrow> Running d)"
    by (simp add: dispatch_def)
  show ?thesis
  proof (cases "c \<le> 256")
    case True
    then have "st_param (fetched d) \<noteq> None"
      using fe len by (auto simp: st_param_def)
    then obtain g where g: "st_param (fetched d) = Some g" by blast
    have gf: "bits g = bits (fetched d)" "cmd_p_count g = Suc c" "inhibit g = inhibit d"
      using g fe by (auto simp: st_param_def Let_def split: if_splits)
    have fin: "finish_turn 24 g = Running (set_state 46 g)"
      using fe gf by (simp add: finish_turn_def Let_def param_tables)
    have run: "dvc_turn d = Running (set_state 46 g)"
      by (simp add: turn disp g fin)
    have "count_ok d" using cnt k by (simp add: count_ok_def)
    from dvc_turn_Running(1) [OF inv this run]
    have "full_ones 46 (k - 8) (Suc c) (set_state 46 g)"
      using f fe gf by (simp add: full_ones_def set_state_def)
    with run True show ?thesis by simp
  next
    case False
    then have "st_param (fetched d) = None" using fe len by (simp add: st_param_def)
    with False show ?thesis by (simp add: turn disp)
  qed
qed

lemma ones_turn_command:
  assumes f: "full_ones 46 k c d" and k: "0 < k" "k \<le> 15"
  shows "\<exists>e. dvc_turn d = Running e \<and> full_ones 24 (k - 1) c e"
proof -
  have k1: "1 \<le> k" using k by simp
  note fe = fetched_ones [OF f param_tables(3) _ _ k1]
  have inv: "dec_inv d" and st: "decoder_state (bits d) = 46" and cnt: "ib_bcnt (bits d) = int k"
    using f full_ones_count [OF f] by (simp_all add: full_ones_def)
  have turn: "dvc_turn d = (case dispatch 46 (fetched d) of Running d \<Rightarrow> finish_turn 46 d | other \<Rightarrow> other)"
    using st cnt k by (simp add: dvc_turn_fetched param_tables)
  have disp: "dispatch 46 (fetched d) = Running (fetched d)"
    using fe by (simp add: dispatch_def st_command_def)
  have fin: "finish_turn 46 (fetched d) = Running (set_state 24 (fetched d))"
    using fe by (simp add: finish_turn_def Let_def param_tables)
  have run: "dvc_turn d = Running (set_state 24 (fetched d))"
    by (simp add: turn disp fin)
  have "count_ok d" using cnt k by (simp add: count_ok_def)
  from dvc_turn_Running(1) [OF inv this run]
  have "full_ones 24 (k - 1) c (set_state 24 (fetched d))"
    using f fe by (simp add: full_ones_def set_state_def)
  with run show ?thesis by blast
qed

lemma ones_wait: "full_ones 24 k c d \<Longrightarrow> k < 8 \<Longrightarrow> dvc_turn d = Leave 0 d"
  "full_ones 46 0 c d \<Longrightarrow> dvc_turn d = Leave 0 d"
  using full_ones_count [of _ _ c d] by (simp_all add: dvc_turn_fetched full_ones_def param_tables)

lemma ones_add_byte:
  assumes f: "full_ones s k c d" and k: "k \<le> 7"
  shows "full_ones s (8 + k) c (add_byte 0xFF d)"
proof -
  have inv: "dec_inv d" and b: "bits_inv (bits d)" using f by (simp_all add: full_ones_def dec_inv_def)
  have cnt: "ib_bcnt (bits d) = int k" by (rule full_ones_count [OF f])
  have ff: "byte_bits 0xFF = replicate 8 True"
    by (simp add: byte_bits_def lsb_bits_def numeral_eq_Suc)
  have "map (bit (255::nat)) [0..<8] = replicate 8 True"
    by code_simp
  then have zeros: "right_table ! 255 = 0" "left_table ! 255 = 0"
    using right_table_nth [of 255] left_table_nth [of 255] by (simp_all del: map_eq_conv)
  have "ready d" using inv cnt k by (simp add: ready_def)
  then have "dec_inv (add_byte 0xFF d)" by (rule add_byte_inv)
  moreover have "bit_queue (snd (add_bits 0xFF (bits d))) = replicate (8 + k) True"
    using add_bits_queue [OF b] cnt k f ff
    by (simp add: full_ones_def replicate_add [symmetric] add.commute)
  moreover have "snd (add_bits 0xFF (bits d)) = (bits d)\<lparr>ib_acc := ib_acc (bits d) OR push_bit (nat (ib_bcnt (bits d))) (ucast (0xFF::byte)),
     ib_bcnt := ib_bcnt (bits d) + 8, zero_count := 0\<rparr>"
    using f zeros by (simp add: add_bits_def Let_def full_ones_def)
  ultimately show ?thesis using f by (simp add: full_ones_def add_byte_def)
qed

lemma ones_loop_leave: "dvc_turn d = Leave 0 d \<Longrightarrow> dvc_loop (Suc n) d = Inr (0, d)"
  by simp

lemma ones_byte:
  assumes f: "full_ones s k c d" and s: "s = 24 \<and> k \<le> 7 \<or> s = 46 \<and> k = 0"
  shows "if s = 24 \<and> c > 256 then process_dvc 0xFF d = Inl Cmd_buffer_overflow
         else \<exists>e. process_dvc 0xFF d = Inr e \<and>
           (if s = 24 then (if k = 0 then full_ones 46 0 (Suc c) e else full_ones 24 (k - 1) (Suc c) e)
            else full_ones 24 7 c e)"
proof -
  obtain m where fuel: "turn_fuel = Suc (Suc (Suc m))"
    by (rule that [of 61]) (simp add: turn_fuel_def)
  have pd: "process_dvc 0xFF d = (case dvc_loop (Suc (Suc (Suc m))) (add_byte 0xFF d) of Inl f \<Rightarrow> Inl f
      | Inr (n, d) \<Rightarrow> (if n \<noteq> 0
           then Inr (emit RefreshScreen ((set_next 38 (set_state 38 d))\<lparr>fatal_count := 0\<rparr>))
           else Inr d))"
    using f fuel by (simp add: process_dvc_def process_bits_add full_ones_def)
  have k: "k \<le> 7" using s by auto
  note a = ones_add_byte [OF f k]
  show ?thesis
  proof (cases "s = 24")
    case True
    note p = ones_turn_param [OF a [unfolded True]]
    show ?thesis
    proof (cases "c \<le> 256")
      case False
      then show ?thesis using p k True by (simp add: pd)
    next
      case le: True
      then obtain e where e: "dvc_turn (add_byte 0xFF d) = Running e" "full_ones 46 k (Suc c) e"
        using p k by auto
      show ?thesis
      proof (cases "k = 0")
        case True
        with e ones_wait(2) [of "Suc c" e] le \<open>s = 24\<close> show ?thesis
          by (simp add: pd)
      next
        case False
        with ones_turn_command [OF e(2)] k obtain g
          where g: "dvc_turn e = Running g" "full_ones 24 (k - 1) (Suc c) g" by auto
        have "dvc_turn g = Leave 0 g" using ones_wait(1) [OF g(2)] k by simp
        with e g False le \<open>s = 24\<close> show ?thesis by (simp add: pd)
      qed
    qed
  next
    case False
    then have a: "full_ones 46 8 c (add_byte 0xFF d)" using a s by auto
    then obtain e where e: "dvc_turn (add_byte 0xFF d) = Running e" "full_ones 24 7 c e"
      using ones_turn_command [OF a] by auto
    have "dvc_turn e = Leave 0 e" using ones_wait(1) [OF e(2)] by simp
    with e False show ?thesis by (simp add: pd)
  qed
qed

lemma ones_stream:
  "full_ones s k c d \<Longrightarrow> s = 24 \<and> k \<le> 7 \<or> s = 46 \<and> k = 0 \<Longrightarrow>
   2 * (258 - c) + (if s = 46 then 1 else 0) \<le> n \<Longrightarrow> c \<le> 257 \<Longrightarrow>
   process_stream (replicate n 0xFF) d = Inl Cmd_buffer_overflow"
proof (induction n arbitrary: s k c d)
  case 0
  then show ?case by simp
next
  case (Suc n)
  note b = ones_byte [OF Suc.prems(1,2)]
  show ?case
  proof (cases "s = 24 \<and> c > 256")
    case True
    with b show ?thesis by simp
  next
    case False
    then obtain e where e: "process_dvc 0xFF d = Inr e"
        "if s = 24 then (if k = 0 then full_ones 46 0 (Suc c) e else full_ones 24 (k - 1) (Suc c) e)
            else full_ones 24 7 c e" using b by auto
    have "process_stream (replicate n 0xFF) e = Inl Cmd_buffer_overflow"
    proof (cases "s = 24")
      case True
      show ?thesis
      proof (cases "k = 0")
        case True
        show ?thesis
          by (rule Suc.IH [of 46 0 "Suc c"]) (use e True \<open>s = 24\<close> Suc.prems(3,4) False in auto)
      next
        case k: False
        show ?thesis
          by (rule Suc.IH [of 24 "k - 1" "Suc c"])
            (use e k \<open>s = 24\<close> Suc.prems(2,3,4) False in auto)
      qed
    next
      case ns: False
      show ?thesis
        by (rule Suc.IH [of 24 7 c]) (use e ns Suc.prems(2,3,4) in auto)
    qed
    with e(1) show ?thesis by simp
  qed
qed

lemma dvc_loop_numeral:
  "dvc_loop (numeral n) d =
     (case dvc_turn d of
        Running d \<Rightarrow> dvc_loop (pred_numeral n) d
      | Leave n d \<Rightarrow> Inr (n, d)
      | Overflow \<Rightarrow> Inl Cmd_buffer_overflow)"
  by (simp add: numeral_eq_Suc)

lemma fd_bits: "right_table ! 253 = 0" "left_table ! 253 = 0"
  by (simp add: right_table_nth, code_simp) (simp add: left_table_nth, code_simp)

lemma init_ones: "case process_dvc 0xFD dvc_decoder_init of Inl f \<Rightarrow> False | Inr d \<Rightarrow> decoder_state (bits d) = 24 \<and>
   bit_queue (bits d) = replicate 3 True \<and> cmd_p_count d = 0 \<and> zero_count (bits d) = 0 \<and> \<not> inhibit d"
  apply (simp add: process_dvc_def process_bits_def dvc_decoder_init_def dvc_bits_init_def add_bits_def fd_bits turn_fuel_def)
  apply (simp add: dvc_turn_def bits_to_read_def next_0_def NEXT_1_INIT_def read_bits_def get_bits_def set_next_def dispatch_def finish_turn_def set_state_def st_reset_def cache_reset_def
   Let_def dvc_loop_numeral)
  apply (simp add: bit_queue_def lsb_bits_def numeral_eq_Suc)
  done

text \<open>C2: the first byte 0xFD starts a command packet; the parameters that follow, bytes of ones, drive \<open>cmd_p_count\<close> past the 256 entries of \<open>cmd_p_buff\<close>, and state 24 stores beyond the array.\<close>

theorem param_overflow_reachable:
  "process_stream (0xFD # replicate 600 0xFF) dvc_decoder_init = Inl Cmd_buffer_overflow"
proof -
  obtain d where d: "process_dvc 0xFD dvc_decoder_init = Inr d" and st: "decoder_state (bits d) = 24"
   "bit_queue (bits d) = replicate 3 True" "cmd_p_count d = 0" "zero_count (bits d) = 0" "\<not> inhibit d"
    using init_ones by (auto split: sum.splits)
  have "ready d" using process_dvc_result [OF ready_init, of "0xFD"] d by simp
  then have "full_ones 24 3 0 d" using st by (simp add: full_ones_def ready_def)
  from ones_stream [OF this] have "process_stream (replicate 600 0xFF) d = Inl Cmd_buffer_overflow" by simp
  then show ?thesis using d by simp
qed



end
