(* ===== verification/Console_View.thy ===== *)
theory Console_View
  imports Framebuffer Dvc_Stream
begin

text \<open>
  The front end's side of \<open>ui/console_core.hpp\<close>: \<open>pull\<close> and \<open>emit_run\<close>, which copy the dirty tiles
  into the caller's buffer and report the rectangles that changed. Shown: a caller that pulls at
  any moments of a decoded stream holds the decoder's picture after every pull, and every pixel
  that changed in its buffer lies in a reported rectangle, all of which lie on the screen.
\<close>

section \<open>Pulling\<close>

record rect =
  rect_x :: int
  rect_y :: int
  rect_w :: int
  rect_h :: int

text \<open>The arguments of \<open>pull\<close> that the caller keeps between calls.\<close>

record view =
  v_dest :: "u32 list"
  v_w :: int
  v_h :: int
  v_dirty :: "rect list"

definition splice :: "nat \<Rightarrow> 'a list \<Rightarrow> 'a list \<Rightarrow> 'a list" where
  "splice at src dst = take at dst @ src @ drop (at + length src) dst"

definition copy_row :: "'a framebuffer_scheme \<Rightarrow> int \<Rightarrow> int \<Rightarrow> int \<Rightarrow> nat \<Rightarrow> u32 list \<Rightarrow> u32 list" where
  "copy_row f x y rw r dest =
     (let off = nat ((y + int r) * fb_w f + x) in splice off (take (nat rw) (drop off (pixels f))) dest)"

definition emit_rect :: "tracking \<Rightarrow> int \<Rightarrow> int \<Rightarrow> int \<Rightarrow> u32 list \<times> rect list \<Rightarrow> u32 list \<times> rect list" where
  "emit_rect f tx0 tx_end ty s =
     (let (dest, dirty) = s;
          x = tx0 * TILE; y = ty * TILE; rw = (tx_end - tx0) * TILE; rh = TILE;
          rw = (if x + rw > fb_w f then fb_w f - x else rw);
          rh = (if y + rh > fb_h f then fb_h f - y else rh)
      in if rw \<le> 0 \<or> rh \<le> 0 then (dest, dirty)
         else (fold (copy_row f x y rw) [0..<nat rh] dest,
               dirty @ [\<lparr>rect_x = x, rect_y = y, rect_w = rw, rect_h = rh\<rparr>]))"

text \<open>One turn of the loop over the tiles of a row; \<open>run_start\<close> is -1 outside a run.\<close>

definition scan_tile :: "tracking \<Rightarrow> int \<Rightarrow> nat \<Rightarrow> int \<times> u32 list \<times> rect list \<Rightarrow> int \<times> u32 list \<times> rect list" where
  "scan_tile f ty tx s =
     (let (run_start, out) = s;
          d = (int tx < tiles_x f \<and> tile_dirty f ! nat (ty * tiles_x f + int tx));
          run_start = (if d \<and> run_start < 0 then int tx else run_start)
      in if \<not> d \<and> run_start \<ge> 0 then (-1, emit_rect f run_start (int tx) ty out) else (run_start, out))"

definition scan_row :: "tracking \<Rightarrow> nat \<Rightarrow> u32 list \<times> rect list \<Rightarrow> u32 list \<times> rect list" where
  "scan_row f ty out = snd (fold (scan_tile f (int ty)) [0..<nat (tiles_x f + 1)] (-1, out))"

definition pull :: "view \<Rightarrow> tracking \<Rightarrow> bool \<times> view \<times> tracking" where
  "pull v f =
     (if pixels f = [] then (False, v, f)
      else if length (v_dest v) \<noteq> length (pixels f)
      then (True, \<lparr>v_dest = pixels f, v_w = fb_w f, v_h = fb_h f, v_dirty = [\<lparr>rect_x = 0, rect_y = 0, rect_w = fb_w f, rect_h = fb_h f\<rparr>]\<rparr>,
            clear_dirty f)
      else (let (dest, dirty) = fold (scan_row f) [0..<nat (tiles_y f)] (v_dest v, [])
            in (dirty \<noteq> [], \<lparr>v_dest = dest, v_w = fb_w f, v_h = fb_h f, v_dirty = dirty\<rparr>, clear_dirty f)))"

section \<open>A framebuffer whose tiles cover the screen\<close>

definition tiled :: "tracking \<Rightarrow> bool" where
  "tiled f \<longleftrightarrow> pixels f = [] \<and> fb_w f = 0 \<and> fb_h f = 0 \<or>
     (\<exists>w h :: nat. 0 < w \<and> 0 < h \<and> fb_w f = int w \<and> fb_h f = int h \<and> length (pixels f) = w * h \<and>
        tiles_x f = int ((w + 15) div 16) \<and> tiles_y f = int ((h + 15) div 16) \<and>
        length (tile_dirty f) = ((w + 15) div 16) * ((h + 15) div 16))"

lemma tiledE:
  assumes "tiled f" and "pixels f \<noteq> []"
  obtains w h where "0 < w" "0 < h" "fb_w f = int w" "fb_h f = int h" "length (pixels f) = w * h"
    "tiles_x f = int ((w + 15) div 16)" "tiles_y f = int ((h + 15) div 16)"
    "length (tile_dirty f) = ((w + 15) div 16) * ((h + 15) div 16)"
  using assms unfolding tiled_def by blast

text \<open>The tile of a pixel, and whether the caller's copy of a pixel may be out of date.\<close>

definition tile_of :: "nat \<Rightarrow> nat \<Rightarrow> nat" where
  "tile_of w i = (i div w) div 16 * ((w + 15) div 16) + (i mod w) div 16"

definition abreast :: "u32 list \<Rightarrow> tracking \<Rightarrow> bool" where
  "abreast dest f \<longleftrightarrow> length dest = length (pixels f) \<longrightarrow>
     (\<forall>i<length dest. dest ! i \<noteq> pixels f ! i \<longrightarrow> tile_dirty f ! tile_of (nat (fb_w f)) i)"

lemma nat_cell: "nat (int a * int b + int c) = a * b + c"
  by (metis nat_int of_nat_add of_nat_mult)

lemma div16_less: "(a::nat) < w \<Longrightarrow> a div 16 < (w + 15) div 16"
  using div_le_mono [of "a + 16" "w + 15" 16] by simp

lemma row_col: "i < w * h \<Longrightarrow> 0 < w \<Longrightarrow> i div w < h \<and> i mod w < (w::nat)"
  by (simp add: less_mult_imp_div_less mult.commute)

lemma tile_of_less:
  assumes "i < w * h" and "0 < w"
  shows "tile_of w i < ((w + 15) div 16) * ((h + 15) div 16)"
proof -
  have a: "i div w div 16 < (h + 15) div 16" "i mod w div 16 < (w + 15) div 16"
    using row_col [OF assms] div16_less by blast+
  then have "i div w div 16 * ((w + 15) div 16) + i mod w div 16 < Suc (i div w div 16) * ((w + 15) div 16)" by simp
  also have "\<dots> \<le> (h + 15) div 16 * ((w + 15) div 16)" using a(1) by (intro mult_le_mono1) simp
  finally show ?thesis by (simp add: tile_of_def mult.commute)
qed

section \<open>Pastes keep the caller abreast\<close>

text \<open>What a change of the picture by one block can reach.\<close>

lemma paste_pixel_other:
  "i \<noteq> nat (yy * w + (x + int c)) \<Longrightarrow> paste_pixel w blk x yy r c ps ! i = ps ! i"
  by (simp add: paste_pixel_def Let_def)

lemma length_paste_pixel [simp]: "length (paste_pixel w blk x yy r c ps) = length ps"
  by (simp add: paste_pixel_def Let_def)

lemma length_fold_paste_pixel [simp]: "length (fold (paste_pixel w blk x yy r) cs ps) = length ps"
  by (induction cs arbitrary: ps) simp_all

lemma length_paste_row [simp]: "length (paste_row w h blk x y len r ps) = length ps"
  by (simp add: paste_row_def Let_def)

lemma length_paste_rows [simp]: "length (fold (paste_row w h blk x y len) rs ps) = length ps"
  by (induction rs arbitrary: ps) simp_all

lemma cell_coords:
  fixes x y c r w :: nat
  assumes "x + c < w"
  shows "nat ((int y + int r) * int w + (int x + int c)) = (y + r) * w + (x + c)"
    and "((y + r) * w + (x + c)) div w = y + r" and "((y + r) * w + (x + c)) mod w = x + c"
proof -
  have "(int y + int r) * int w + (int x + int c) = int ((y + r) * w + (x + c))" by simp
  then show "nat ((int y + int r) * int w + (int x + int c)) = (y + r) * w + (x + c)" by (metis nat_int)
  show "((y + r) * w + (x + c)) div w = y + r" "((y + r) * w + (x + c)) mod w = x + c" using assms by simp_all
qed

lemma paste_pixels_reach:
  assumes "\<And>c. c \<in> set cs \<Longrightarrow> c < 16"
    and "fold (paste_pixel (int w) blk (int x) (int y + int r) r) cs ps ! i \<noteq> ps ! i"
  shows "i div w = y + r \<and> x \<le> i mod w \<and> i mod w < x + 16"
  using assms
proof (induction cs arbitrary: ps)
  case (Cons c cs)
  let ?ps = "paste_pixel (int w) blk (int x) (int y + int r) r c ps"
  show ?case
  proof (cases "?ps ! i = ps ! i")
    case True
    then have "fold (paste_pixel (int w) blk (int x) (int y + int r) r) cs ?ps ! i \<noteq> ?ps ! i" using Cons.prems(2) by simp
    from Cons.IH [OF _ this] Cons.prems(1) show ?thesis by simp
  next
    case False
    then have w: "x + c < w" by (auto simp: paste_pixel_def Let_def split: if_splits)
    have "i = nat ((int y + int r) * int w + (int x + int c))" using False paste_pixel_other by blast
    with cell_coords [OF w, of y r] Cons.prems(1) [of c] show ?thesis by simp
  qed
qed simp

lemma paste_rows_reach:
  assumes "\<And>r. r \<in> set rs \<Longrightarrow> r < 16"
    and "fold (paste_row (int w) h blk (int x) (int y) 16) rs ps ! i \<noteq> ps ! i"
  shows "y \<le> i div w \<and> i div w < y + 16 \<and> x \<le> i mod w \<and> i mod w < x + 16"
  using assms
proof (induction rs arbitrary: ps)
  case (Cons r rs)
  let ?ps = "paste_row (int w) h blk (int x) (int y) 16 r ps"
  show ?case
  proof (cases "?ps ! i = ps ! i")
    case True
    then have "fold (paste_row (int w) h blk (int x) (int y) 16) rs ?ps ! i \<noteq> ?ps ! i" using Cons.prems(2) by simp
    from Cons.IH [OF _ this] Cons.prems(1) show ?thesis by simp
  next
    case False
    then have "fold (paste_pixel (int w) blk (int x) (int y + int r) r) [0..<16] ps ! i \<noteq> ps ! i"
      by (auto simp: paste_row_def Let_def split: if_splits)
    from paste_pixels_reach [OF _ this] Cons.prems(1) [of r] show ?thesis by auto
  qed
qed simp

text \<open>If nothing was written, \<open>changed\<close> is still false, and conversely.\<close>

lemma unchanged_pixels: "\<not> fst (diff_pixel w blk x yy r c s) \<Longrightarrow> diff_pixel w blk x yy r c s = s"
  by (auto simp: diff_pixel_def Let_def split: prod.splits if_splits)

lemma fold_unchanged:
  assumes "\<And>c s. \<not> fst (f c s) \<Longrightarrow> f c s = s" and "\<not> fst (fold f cs s)"
  shows "fold f cs s = s"
  using assms(2)
proof (induction cs arbitrary: s)
  case (Cons c cs)
  then have "fold f cs (f c s) = f c s" by simp
  with Cons.prems assms(1) [of c s] show ?case by simp
qed simp

lemma unchanged_row: "\<not> fst (diff_row w h blk x y len r s) \<Longrightarrow> diff_row w h blk x y len r s = s"
  by (auto simp: diff_row_def Let_def intro: fold_unchanged [OF unchanged_pixels])

lemma unchanged_rows: "\<not> fst (fold (diff_row w h blk x y len) rs s) \<Longrightarrow> fold (diff_row w h blk x y len) rs s = s"
  by (rule fold_unchanged) (rule unchanged_row)

lemma tracking_paste_pixels:
  "pixels f \<noteq> [] \<Longrightarrow> pixels (tracking_paste blk x y len f) =
     fold (paste_row (fb_w f) (fb_h f) blk x y (nat len)) [0..<paste_rows y (fb_h f)] (pixels f)"
  using arg_cong [OF tracking_paste_image [of blk x y len f], of pixels]
  by (simp add: tracking_image_def fb_paste_def)

lemma tracking_paste_tiles:
  assumes "pixels f \<noteq> []"
  shows "tile_dirty (tracking_paste blk x y len f) = tile_dirty f \<and> pixels (tracking_paste blk x y len f) = pixels f \<or>
    tile_dirty (tracking_paste blk x y len f) = tile_dirty (mark_tile (x sdiv TILE) (y sdiv TILE) f)"
  using assms unchanged_rows [of "fb_w f" "fb_h f" blk x y "nat len" "[0..<paste_rows y (fb_h f)]" "(False, pixels f)"]
  by (auto simp: tracking_paste_def mark_tile_def Let_def split: prod.splits)

lemma sdiv_16: "(int n) sdiv TILE = int (n div 16)"
  by (cases "n = 0") (simp_all add: TILE_def signed_divide_int_def zdiv_int)

lemma tracking_event_dims:
  "fb_w (tracking_paste blk x y len f) = fb_w f" "fb_h (tracking_paste blk x y len f) = fb_h f"
  "tiles_x (tracking_paste blk x y len f) = tiles_x f" "tiles_y (tracking_paste blk x y len f) = tiles_y f"
  "length (tile_dirty (tracking_paste blk x y len f)) = length (tile_dirty f)"
  "length (pixels (tracking_paste blk x y len f)) = length (pixels f)"
proof -
  show "length (pixels (tracking_paste blk x y len f)) = length (pixels f)"
  proof (cases "pixels f = []")
    case True
    then show ?thesis by (simp add: tracking_paste_def Let_def)
  next
    case False
    then show ?thesis by (simp add: tracking_paste_pixels)
  qed
qed (simp_all add: tracking_paste_def Let_def split: prod.split)

lemma set_True_nth: "xs ! j \<Longrightarrow> j < length xs \<Longrightarrow> xs[k := True] ! j"
  by (cases "k = j") simp_all

lemma tiled_paste: "tiled f \<Longrightarrow> tiled (tracking_paste blk x y len f)"
proof (cases "pixels f = []")
  case True
  then show "tiled f \<Longrightarrow> tiled (tracking_paste blk x y len f)"
    by (simp add: tracking_paste_def tiled_def Let_def)
next
  case False
  assume "tiled f"
  then show "tiled (tracking_paste blk x y len f)"
    using False tracking_event_dims [of blk x y len f] unfolding tiled_def by auto
qed

lemma abreast_paste:
  assumes f: "tiled f" and a: "abreast dest f"
  shows "abreast dest (tracking_paste blk (int (16 * tx)) (int (16 * ty)) 16 f)"
proof (cases "pixels f = []")
  case True
  then show ?thesis using a by (simp add: tracking_paste_def abreast_def Let_def)
next
  case False
  obtain w h where w: "0 < w" "0 < h" "fb_w f = int w" "fb_h f = int h" "length (pixels f) = w * h"
    "tiles_x f = int ((w + 15) div 16)" "tiles_y f = int ((h + 15) div 16)"
    "length (tile_dirty f) = ((w + 15) div 16) * ((h + 15) div 16)"
    by (rule tiledE [OF f False])
  let ?g = "tracking_paste blk (int (16 * tx)) (int (16 * ty)) 16 f"
  have px: "pixels ?g = fold (paste_row (int w) (int h) blk (int (16 * tx)) (int (16 * ty)) 16) [0..<paste_rows (int (16 * ty)) (int h)] (pixels f)"
    using tracking_paste_pixels [OF False] w(3,4) by simp
  have few: "r < 16" if "r \<in> set [0..<paste_rows (int (16 * ty)) (int h)]" for r
    using that by (auto simp: paste_rows_def split: if_splits)
  have t: "(int (16 * tx)) sdiv TILE = int tx" "(int (16 * ty)) sdiv TILE = int ty" by (simp_all only: sdiv_16)
  have dirty: "tile_dirty ?g ! tile_of w i" if i: "i < w * h" and d: "dest ! i \<noteq> pixels ?g ! i" and l: "length dest = w * h" for i
  proof (cases "pixels ?g ! i = pixels f ! i")
    case True
    then have "tile_dirty f ! tile_of w i" using a i d l w(3,5) by (simp add: abreast_def)
    then show ?thesis using tracking_paste_tiles [OF False, of blk "int (16 * tx)" "int (16 * ty)" 16] tile_of_less [OF i w(1)] w(8)
      by (auto simp: mark_tile_def set_True_nth)
  next
    case neq: False
    have "16 * ty \<le> i div w \<and> i div w < 16 * ty + 16 \<and> 16 * tx \<le> i mod w \<and> i mod w < 16 * tx + 16"
      using neq unfolding px by (rule paste_rows_reach [rotated]) (rule few)
    then have at: "i div w div 16 = ty" "i mod w div 16 = tx" by linarith+
    have b: "ty < (h + 15) div 16" "tx < (w + 15) div 16"
      using row_col [OF i w(1)] div16_less [of "i div w" h] div16_less [of "i mod w" w] at by auto
    have "tile_dirty ?g = tile_dirty (mark_tile (int tx) (int ty) f)"
      using tracking_paste_tiles [OF False, of blk "int (16 * tx)" "int (16 * ty)" 16] neq t by auto
    moreover have "tile_of w i = nat (int ty * tiles_x f + int tx)"
      by (simp only: tile_of_def at w(6) nat_cell)
    ultimately show ?thesis using b tile_of_less [OF i w(1)] w(6-8) by (simp add: mark_tile_def)
  qed
  show ?thesis
    unfolding abreast_def using dirty tracking_event_dims(1,6) [of blk "int (16 * tx)" "int (16 * ty)" 16 f] w(3,5) by simp
qed

lemma dimensions_tiled:
  assumes f: "tiled f" and w: "0 < w" "0 < h"
  shows "tiled (tracking_set_dimensions w h f) \<and> (abreast dest f \<longrightarrow> abreast dest (tracking_set_dimensions w h f))"
proof (cases "w = fb_w f \<and> h = fb_h f")
  case True
  then show ?thesis using f by (simp add: tracking_set_dimensions_def)
next
  case False
  obtain m n where m: "w = int m" "h = int n" "0 < m" "0 < n" using w by (metis nonneg_int_cases order_less_imp_le of_nat_0_less_iff)
  have s: "(int m + TILE - 1) sdiv TILE = int ((m + 15) div 16)" for m
    using sdiv_16 [of "m + 15"] by (simp add: TILE_def algebra_simps)
  have "abreast dest (tracking_set_dimensions w h f)"
    using False m tile_of_less [of _ m n] by (auto simp: abreast_def tracking_set_dimensions_def Let_def s)
  moreover have "tiled (tracking_set_dimensions w h f)"
    using False m unfolding tiled_def
    by (intro disjI2 exI [of _ m] exI [of _ n]) (auto simp: tracking_set_dimensions_def Let_def s)
  ultimately show ?thesis by blast
qed

section \<open>Events keep the caller abreast\<close>

lemma event_tiled:
  assumes f: "tiled f" and e: "event_ok e"
  shows "tiled (tracking_event e f) \<and> (abreast dest f \<longrightarrow> abreast dest (tracking_event e f))"
proof (cases e)
  case (Paste blk x y len)
  with e have p: "0 \<le> x" "x mod 16 = 0" "0 \<le> y" "y mod 16 = 0" and len: "len = 16" by simp_all
  then have "x = int (16 * nat (x div 16))" "y = int (16 * nat (y div 16))" by auto
  then obtain tx ty where "x = int (16 * tx)" "y = int (16 * ty)" by blast
  with Paste len show ?thesis using tiled_paste [OF f] abreast_paste [OF f] by simp
next
  case (SetDimensions w h)
  with dimensions_tiled [OF f] e show ?thesis by simp
qed (use f in \<open>simp_all add: tiled_def abreast_def\<close>)

lemma events_tiled:
  "tiled f \<Longrightarrow> list_all event_ok es \<Longrightarrow> abreast dest f \<Longrightarrow>
   tiled (fold tracking_event es f) \<and> abreast dest (fold tracking_event es f)"
proof (induction es arbitrary: f)
  case (Cons e es)
  with event_tiled [of f e] show ?case by simp
qed simp

section \<open>Copying a run of tiles\<close>

lemma nth_splice:
  "at + length src \<le> length dst \<Longrightarrow> i < length dst \<Longrightarrow>
   splice at src dst ! i = (if at \<le> i \<and> i < at + length src then src ! (i - at) else dst ! i)"
  by (auto simp: splice_def nth_append min_def)

lemma length_splice [simp]: "at + length src \<le> length dst \<Longrightarrow> length (splice at src dst) = length dst"
  by (simp add: splice_def)

text \<open>An index of the picture lies in row \<open>q\<close> between two columns exactly when it lies between their addresses.\<close>

lemma row_segment:
  fixes w q x n i :: nat
  assumes "x + n \<le> w" and "0 < w"
  shows "q * w + x \<le> i \<and> i < q * w + x + n \<longleftrightarrow> i div w = q \<and> x \<le> i mod w \<and> i mod w < x + n"
proof -
  have i: "i = i div w * w + i mod w" "i mod w < w" using assms(2) by simp_all
  have "i div w = q" if "q * w + x \<le> i" "i < q * w + x + n"
  proof -
    have "q * w \<le> i" "i < Suc q * w" using that assms by auto
    then show ?thesis using assms(2) by (metis div_nat_eqI mult.commute)
  qed
  with i show ?thesis by (metis add_le_cancel_left add_less_cancel_left add.assoc)
qed

lemma copy_row_nth:
  assumes w: "fb_w f = int w" "0 < w" "length (pixels f) = w * h" "length dest = w * h"
    and x: "x + n \<le> w" and y: "y + r < h" and i: "i < w * h"
  shows "copy_row f (int x) (int y) (int n) r dest ! i =
      (if i div w = y + r \<and> x \<le> i mod w \<and> i mod w < x + n then pixels f ! i else dest ! i)"
    and "length (copy_row f (int x) (int y) (int n) r dest) = length dest"
proof -
  have off: "nat ((int y + int r) * int w + int x) = (y + r) * w + x"
    by (metis nat_int of_nat_add of_nat_mult)
  have "(y + r) * w + w \<le> h * w" using y by (metis Suc_leI mult_Suc add.commute mult_le_mono1)
  then have end_: "(y + r) * w + x + n \<le> w * h" using x by (simp add: mult.commute)
  let ?src = "take n (drop ((y + r) * w + x) (pixels f))"
  have l: "length ?src = n" using end_ by (simp add: w(3))
  have c: "copy_row f (int x) (int y) (int n) r dest = splice ((y + r) * w + x) ?src dest"
    by (simp only: copy_row_def Let_def w(1) off nat_int)
  have e2: "(y + r) * w + x + length ?src \<le> length dest" using end_ by (simp only: l w(4))
  show "length (copy_row f (int x) (int y) (int n) r dest) = length dest"
    unfolding c by (rule length_splice [OF e2])
  have seg: "(y + r) * w + x \<le> i \<and> i < (y + r) * w + x + length ?src \<longleftrightarrow>
      i div w = y + r \<and> x \<le> i mod w \<and> i mod w < x + n"
    unfolding l by (rule row_segment [OF x w(2)])
  have "?src ! (i - ((y + r) * w + x)) = pixels f ! i" if "(y + r) * w + x \<le> i" "i < (y + r) * w + x + length ?src"
    using that end_ by (simp add: l w(3))
  then show "copy_row f (int x) (int y) (int n) r dest ! i =
      (if i div w = y + r \<and> x \<le> i mod w \<and> i mod w < x + n then pixels f ! i else dest ! i)"
    unfolding c using nth_splice [OF e2, of i] i w(4) seg by metis
qed

lemma copy_rows_nth:
  assumes w: "fb_w f = int w" "0 < w" "length (pixels f) = w * h" "length dest = w * h"
    and x: "x + n \<le> w" and y: "y + m \<le> h" and i: "i < w * h"
  shows "fold (copy_row f (int x) (int y) (int n)) [0..<m] dest ! i =
      (if y \<le> i div w \<and> i div w < y + m \<and> x \<le> i mod w \<and> i mod w < x + n then pixels f ! i else dest ! i) \<and>
    length (fold (copy_row f (int x) (int y) (int n)) [0..<m] dest) = length dest"
  using y
proof (induction m)
  case (Suc m)
  let ?d = "fold (copy_row f (int x) (int y) (int n)) [0..<m] dest"
  have ih: "?d ! i = (if y \<le> i div w \<and> i div w < y + m \<and> x \<le> i mod w \<and> i mod w < x + n then pixels f ! i else dest ! i)"
    "length ?d = w * h"
    using Suc w(4) by auto
  have y: "y + m < h" using Suc.prems by simp
  show ?case
    using copy_row_nth [OF w(1-3) ih(2) x y i] ih w(4) by auto
qed auto

section \<open>The scan reports what it copies\<close>

definition in_rect :: "nat \<Rightarrow> rect \<Rightarrow> nat \<Rightarrow> bool" where
  "in_rect w rc i \<longleftrightarrow> rect_x rc \<le> int (i mod w) \<and> int (i mod w) < rect_x rc + rect_w rc \<and>
     rect_y rc \<le> int (i div w) \<and> int (i div w) < rect_y rc + rect_h rc"

definition on_screen :: "nat \<Rightarrow> nat \<Rightarrow> rect \<Rightarrow> bool" where
  "on_screen w h rc \<longleftrightarrow> 0 \<le> rect_x rc \<and> 0 \<le> rect_y rc \<and> 0 < rect_w rc \<and> 0 < rect_h rc \<and>
     rect_x rc + rect_w rc \<le> int w \<and> rect_y rc + rect_h rc \<le> int h"

text \<open>\<open>out\<close> is the caller's old buffer \<open>old\<close> with the reported rectangles taken from the picture.\<close>

definition traced :: "nat \<Rightarrow> nat \<Rightarrow> u32 list \<Rightarrow> u32 list \<Rightarrow> u32 list \<times> rect list \<Rightarrow> bool" where
  "traced w h ps old out \<longleftrightarrow> (case out of (dest, dirty) \<Rightarrow>
     length dest = w * h \<and> list_all (on_screen w h) dirty \<and>
     (\<forall>i<w * h. dest ! i = (if \<exists>rc\<in>set dirty. in_rect w rc i then ps ! i else old ! i)))"

lemma min_run: "0 < h \<Longrightarrow> b < (h + 15) div 16 \<Longrightarrow> 16 * b < (h::nat)"
  using less_eq_div_iff_mult_less_eq [of 16 "Suc b" "h + 15"] by simp

lemma emit_rect_traced:
  assumes w: "fb_w f = int w" "fb_h f = int h" "0 < w" "0 < h" "length (pixels f) = w * h"
    and run: "a < b" "b \<le> (w + 15) div 16" "ty < (h + 15) div 16"
    and out: "traced w h (pixels f) old (dest, dirty)"
  shows "\<exists>dest' rc. emit_rect f (int a) (int b) (int ty) (dest, dirty) = (dest', dirty @ [rc]) \<and>
    traced w h (pixels f) old (dest', dirty @ [rc]) \<and>
    (\<forall>i<w * h. in_rect w rc i \<longleftrightarrow> i div w div 16 = ty \<and> a \<le> i mod w div 16 \<and> i mod w div 16 < b)"
proof -
  define n where "n = min (16 * b) w - 16 * a"
  define m where "m = min (16 * ty + 16) h - 16 * ty"
  have s: "16 * a < w" "16 * ty < h"
    using min_run [OF w(3), of a] min_run [OF w(4) run(3)] run by simp_all
  have n: "0 < n" "16 * a + n = min (16 * b) w" using s run(1) by (auto simp: n_def)
  have m: "0 < m" "16 * ty + m = min (16 * ty + 16) h" using s by (auto simp: m_def)
  define rc where "rc = \<lparr>rect_x = int (16 * a), rect_y = int (16 * ty), rect_w = int n, rect_h = int m\<rparr>"
  let ?d = "fold (copy_row f (int (16 * a)) (int (16 * ty)) (int n)) [0..<m] dest"
  have rw: "(if int a * TILE + (int b - int a) * TILE > fb_w f then fb_w f - int a * TILE else (int b - int a) * TILE) = int n"
    using s run(1) by (auto simp: TILE_def w(1) n_def min_def algebra_simps of_nat_diff)
  have rh: "(if int ty * TILE + TILE > fb_h f then fb_h f - int ty * TILE else TILE) = int m"
    using s by (auto simp: TILE_def w(2) m_def min_def algebra_simps of_nat_diff)
  have e: "emit_rect f (int a) (int b) (int ty) (dest, dirty) = (?d, dirty @ [rc])"
    using n(1) m(1) unfolding emit_rect_def Let_def prod.case rw rh
    by (simp add: rc_def TILE_def mult.commute)
  have l: "length dest = w * h" using out by (simp add: traced_def)
  have b: "16 * a + n \<le> w" "16 * ty + m \<le> h" by (simp_all add: n(2) m(2))
  have d: "?d ! i = (if in_rect w rc i then pixels f ! i else dest ! i)" "length ?d = length dest" if "i < w * h" for i
    using copy_rows_nth [OF w(1,3,5) l b that] by (auto simp: in_rect_def rc_def)
  have len: "length ?d = w * h" using d(2) [of 0] w(3,4) l by simp
  have in_run: "in_rect w rc i \<longleftrightarrow> i div w div 16 = ty \<and> a \<le> i mod w div 16 \<and> i mod w div 16 < b" if i: "i < w * h" for i
  proof -
    have r: "i div w < h" "i mod w < w" using row_col [OF i w(3)] by simp_all
    have "in_rect w rc i \<longleftrightarrow> 16 * a \<le> i mod w \<and> i mod w < 16 * a + n \<and> 16 * ty \<le> i div w \<and> i div w < 16 * ty + m"
      by (simp only: in_rect_def rc_def rect.simps of_nat_add [symmetric] of_nat_less_iff of_nat_le_iff)
    also have "\<dots> \<longleftrightarrow> i div w div 16 = ty \<and> a \<le> i mod w div 16 \<and> i mod w div 16 < b"
      unfolding n(2) m(2) using r by auto
    finally show ?thesis .
  qed
  have "on_screen w h rc" using n(1) m(1) b by (simp add: on_screen_def rc_def)
  then have "traced w h (pixels f) old (?d, dirty @ [rc])"
    using out len d(1) by (auto simp: traced_def)
  with e in_run show ?thesis by blast
qed

text \<open>Every dirty tile of a row left of the scan, outside the run that is open, has been reported.\<close>

definition reported :: "tracking \<Rightarrow> nat \<Rightarrow> nat \<Rightarrow> nat \<Rightarrow> nat \<Rightarrow> rect list \<Rightarrow> bool" where
  "reported f w h ty k dirty \<longleftrightarrow> (\<forall>i<w * h. i div w div 16 = ty \<and> i mod w div 16 < k \<and> tile_dirty f ! tile_of w i \<longrightarrow>
     (\<exists>rc\<in>set dirty. in_rect w rc i))"

definition scanning :: "tracking \<Rightarrow> nat \<Rightarrow> nat \<Rightarrow> u32 list \<Rightarrow> nat \<Rightarrow> nat \<Rightarrow> int \<times> u32 list \<times> rect list \<Rightarrow> bool" where
  "scanning f w h old ty tx s \<longleftrightarrow> (case s of (run, dest, dirty) \<Rightarrow>
     traced w h (pixels f) old (dest, dirty) \<and>
     (run = -1 \<and> reported f w h ty tx dirty \<or>
      (\<exists>a. run = int a \<and> a < tx \<and> tx \<le> (w + 15) div 16 \<and> reported f w h ty a dirty)))"

lemma scan_step:
  assumes w: "fb_w f = int w" "fb_h f = int h" "0 < w" "0 < h" "length (pixels f) = w * h"
    "tiles_x f = int ((w + 15) div 16)" and ty: "ty < (h + 15) div 16" and tx: "tx \<le> (w + 15) div 16"
    and s: "scanning f w h old ty tx s"
  shows "scanning f w h old ty (Suc tx) (scan_tile f (int ty) tx s)"
proof -
  obtain run dest dirty where sd: "s = (run, dest, dirty)" by (cases s)
  let ?d = "tx < (w + 15) div 16 \<and> tile_dirty f ! (ty * ((w + 15) div 16) + tx)"
  have d: "(int tx < tiles_x f \<and> tile_dirty f ! nat (int ty * tiles_x f + int tx)) = ?d"
    by (simp only: w(6) nat_cell of_nat_less_iff)
  have here: "\<not> ?d \<Longrightarrow> i < w * h \<Longrightarrow> i div w div 16 = ty \<Longrightarrow> i mod w div 16 = tx \<Longrightarrow> \<not> tile_dirty f ! tile_of w i" for i
    using row_col [of i w h] div16_less [of "i mod w" w] w(3) by (auto simp: tile_of_def)
  have out: "traced w h (pixels f) old (dest, dirty)" using s by (simp add: scanning_def sd)
  have split: "i mod w div 16 < Suc k \<longleftrightarrow> i mod w div 16 < k \<or> i mod w div 16 = k" for i k by auto
  consider "?d" "run = -1" | "?d" "run \<noteq> -1" | "\<not> ?d" "run = -1" | "\<not> ?d" "run \<noteq> -1" by blast
  then show ?thesis
  proof cases
    case 1
    then have "scan_tile f (int ty) tx s = (int tx, dest, dirty)" unfolding scan_tile_def Let_def sd prod.case d by simp
    moreover have "Suc tx \<le> (w + 15) div 16" using 1 by simp
    ultimately show ?thesis using s 1(2) by (auto simp: scanning_def sd intro!: exI [of _ tx])
  next
    case 2
    then obtain a where a: "run = int a" "a < tx" "reported f w h ty a dirty" using s by (auto simp: scanning_def sd)
    then have "scan_tile f (int ty) tx s = (run, dest, dirty)" using 2 unfolding scan_tile_def Let_def sd prod.case d by simp
    with a 2(1) out show ?thesis by (auto simp: scanning_def intro!: exI [of _ a])
  next
    case 3
    from 3(1) have f: "?d \<longleftrightarrow> False" by blast
    have "scan_tile f (int ty) tx s = (-1, dest, dirty)" unfolding scan_tile_def Let_def sd prod.case d f by (simp add: 3(2))
    moreover have "reported f w h ty tx dirty" using s 3 by (auto simp: scanning_def sd)
    then have "reported f w h ty (Suc tx) dirty" using here [OF 3(1)] unfolding reported_def split by blast
    ultimately show ?thesis using out by (simp add: scanning_def)
  next
    case 4
    then obtain a where a: "run = int a" "a < tx" "reported f w h ty a dirty" using s by (auto simp: scanning_def sd)
    obtain dest' rc where e: "emit_rect f (int a) (int tx) (int ty) (dest, dirty) = (dest', dirty @ [rc])"
      "traced w h (pixels f) old (dest', dirty @ [rc])"
      "\<forall>i<w * h. in_rect w rc i \<longleftrightarrow> i div w div 16 = ty \<and> a \<le> i mod w div 16 \<and> i mod w div 16 < tx"
      using emit_rect_traced [OF w(1-5) a(2) tx ty out] by blast
    have "scan_tile f (int ty) tx s = (-1, dest', dirty @ [rc])"
      using 4 e(1) a(1) unfolding scan_tile_def Let_def sd prod.case d by simp
    moreover have "reported f w h ty (Suc tx) (dirty @ [rc])"
      unfolding reported_def split
    proof (intro allI impI)
      fix i assume i: "i < w * h" "i div w div 16 = ty \<and> (i mod w div 16 < tx \<or> i mod w div 16 = tx) \<and> tile_dirty f ! tile_of w i"
      then have "i mod w div 16 < tx" using here [OF 4(1) i(1)] by blast
      then show "\<exists>rc\<in>set (dirty @ [rc]). in_rect w rc i"
        using a(3) e(3) i unfolding reported_def by (cases "i mod w div 16 < a") auto
    qed
    ultimately show ?thesis using e(2) by (simp add: scanning_def)
  qed
qed

lemma scan_row_traced:
  assumes w: "fb_w f = int w" "fb_h f = int h" "0 < w" "0 < h" "length (pixels f) = w * h"
    "tiles_x f = int ((w + 15) div 16)" and ty: "ty < (h + 15) div 16"
    and out: "traced w h (pixels f) old (dest, dirty)"
  shows "\<exists>dest' dirty'. scan_row f ty (dest, dirty) = (dest', dirty') \<and> traced w h (pixels f) old (dest', dirty') \<and>
    reported f w h ty ((w + 15) div 16) dirty' \<and> set dirty \<subseteq> set dirty'"
proof -
  let ?s = "\<lambda>tx. fold (scan_tile f (int ty)) [0..<tx] (-1, dest, dirty)"
  have more: "set dirty \<subseteq> set (snd (snd (?s tx)))" for tx
  proof (induction tx)
    case (Suc tx)
    have "set (snd (snd s)) \<subseteq> set (snd (snd (scan_tile f (int ty) tx s)))" for s
      by (auto simp: scan_tile_def emit_rect_def Let_def split: prod.splits)
    with Suc show ?case by fastforce
  qed simp
  have "scanning f w h old ty tx (?s tx)" if "tx \<le> Suc ((w + 15) div 16)" for tx
    using that
  proof (induction tx)
    case 0
    show ?case using out by (simp add: scanning_def reported_def)
  next
    case (Suc tx)
    then show ?case using scan_step [OF w ty, of tx old "?s tx"] by simp
  qed
  from this [of "Suc ((w + 15) div 16)"]
  obtain dest' dirty' where s: "?s (Suc ((w + 15) div 16)) = (-1, dest', dirty')" "traced w h (pixels f) old (dest', dirty')"
    "reported f w h ty (Suc ((w + 15) div 16)) dirty'"
    by (auto simp: scanning_def)
  have n: "nat (tiles_x f + 1) = Suc ((w + 15) div 16)" by (simp add: w(6))
  from s(3) have "reported f w h ty ((w + 15) div 16) dirty'" by (auto simp: reported_def)
  moreover have "set dirty \<subseteq> set dirty'" using more [of "Suc ((w + 15) div 16)"] s(1) by simp
  ultimately show ?thesis using s by (simp add: scan_row_def n)
qed

lemma scan_rows_traced:
  assumes w: "fb_w f = int w" "fb_h f = int h" "0 < w" "0 < h" "length (pixels f) = w * h"
    "tiles_x f = int ((w + 15) div 16)" and old: "length old = w * h" and n: "n \<le> (h + 15) div 16"
  shows "\<exists>dest dirty. fold (scan_row f) [0..<n] (old, []) = (dest, dirty) \<and> traced w h (pixels f) old (dest, dirty) \<and>
    (\<forall>ty<n. reported f w h ty ((w + 15) div 16) dirty)"
  using n
proof (induction n)
  case 0
  show ?case using old by (simp add: traced_def)
next
  case (Suc n)
  then obtain dest dirty where ih: "fold (scan_row f) [0..<n] (old, []) = (dest, dirty)" "traced w h (pixels f) old (dest, dirty)"
    "\<forall>ty<n. reported f w h ty ((w + 15) div 16) dirty" by auto
  obtain dest' dirty' where s: "scan_row f n (dest, dirty) = (dest', dirty')" "traced w h (pixels f) old (dest', dirty')"
    "reported f w h n ((w + 15) div 16) dirty'" "set dirty \<subseteq> set dirty'"
    using scan_row_traced [OF w _ ih(2), of n] Suc.prems by auto
  have "reported f w h ty ((w + 15) div 16) dirty'" if "ty < Suc n" for ty
    using that ih(3) s(3,4) unfolding reported_def less_Suc_eq by blast
  with ih(1) s(1,2) show ?case by simp
qed

section \<open>What a pull delivers\<close>

definition delivered :: "view \<Rightarrow> bool \<Rightarrow> view \<Rightarrow> tracking \<Rightarrow> bool" where
  "delivered v got v' f \<longleftrightarrow> (let w = nat (fb_w f); h = nat (fb_h f) in
     v_dest v' = pixels f \<and>
     (got \<longrightarrow> v_w v' = fb_w f \<and> v_h v' = fb_h f \<and> list_all (on_screen w h) (v_dirty v') \<and> v_dirty v' \<noteq> []) \<and>
     (\<forall>i<length (pixels f). length (v_dest v) \<noteq> length (pixels f) \<or> v_dest v ! i \<noteq> v_dest v' ! i \<longrightarrow>
        (\<exists>rc\<in>set (v_dirty v'). in_rect w rc i)))"

lemma clear_dirty_fields [simp]:
  "fb_w (clear_dirty f) = fb_w f" "fb_h (clear_dirty f) = fb_h f" "pixels (clear_dirty f) = pixels f"
  by (simp_all add: clear_dirty_def)

lemma tiled_clear: "tiled f \<Longrightarrow> tiled (clear_dirty f)"
  by (simp add: tiled_def clear_dirty_def)

lemma abreast_self: "abreast (pixels f) f"
  by (simp add: abreast_def)

lemma pull_delivers:
  assumes f: "tiled f" and a: "abreast (v_dest v) f" and some: "pixels f \<noteq> []" and p: "pull v f = (got, v', f')"
  shows "delivered v got v' f \<and> f' = clear_dirty f"
proof -
  obtain w h where w: "0 < w" "0 < h" "fb_w f = int w" "fb_h f = int h" "length (pixels f) = w * h"
    "tiles_x f = int ((w + 15) div 16)" "tiles_y f = int ((h + 15) div 16)"
    "length (tile_dirty f) = ((w + 15) div 16) * ((h + 15) div 16)"
    by (rule tiledE [OF f some])
  note geo = w(3,4,1,2,5,6)
  show ?thesis
  proof (cases "length (v_dest v) = length (pixels f)")
    case False
    have "in_rect w \<lparr>rect_x = 0, rect_y = 0, rect_w = int w, rect_h = int h\<rparr> i" if "i < w * h" for i
      using row_col [OF that w(1)] by (simp add: in_rect_def)
    then show ?thesis using p False some w by (auto simp: pull_def delivered_def on_screen_def)
  next
    case True
    let ?old = "v_dest v"
    have old: "length ?old = w * h" using True w(5) by simp
    obtain dest dirty where s: "fold (scan_row f) [0..<(h + 15) div 16] (?old, []) = (dest, dirty)"
      "traced w h (pixels f) ?old (dest, dirty)" "\<forall>ty<(h + 15) div 16. reported f w h ty ((w + 15) div 16) dirty"
      using scan_rows_traced [OF geo old order_refl] by blast
    have v': "got = (dirty \<noteq> [])" "v' = \<lparr>v_dest = dest, v_w = fb_w f, v_h = fb_h f, v_dirty = dirty\<rparr>" "f' = clear_dirty f"
      using p True some s(1) w(7) by (auto simp: pull_def)
    have same: "dest ! i = pixels f ! i \<and> (?old ! i \<noteq> dest ! i \<longrightarrow> (\<exists>rc\<in>set dirty. in_rect w rc i))" if i: "i < w * h" for i
    proof (cases "\<exists>rc\<in>set dirty. in_rect w rc i")
      case no: False
      have rc: "i div w div 16 < (h + 15) div 16" "i mod w div 16 < (w + 15) div 16"
        using row_col [OF i w(1)] div16_less by blast+
      then have "\<not> tile_dirty f ! tile_of w i" using s(3) i no unfolding reported_def by blast
      then have "?old ! i = pixels f ! i" using a i True w(3,5) by (auto simp: abreast_def)
      then show ?thesis using s(2) i no by (simp add: traced_def)
    qed (use s(2) i in \<open>auto simp: traced_def\<close>)
    then have "dest = pixels f" using s(2) w(5) by (intro nth_equalityI) (auto simp: traced_def)
    with same v' s(2) w(3-5) old show ?thesis by (auto simp: delivered_def traced_def Let_def)
  qed
qed

section \<open>Pulls between the events of a stream\<close>

text \<open>\<open>ks\<close> says after how many events each pull comes; the events left over are the last result.\<close>

fun pulls :: "nat list \<Rightarrow> dvc_event list \<Rightarrow> view \<Rightarrow> tracking \<Rightarrow> view \<times> tracking \<times> dvc_event list" where
  "pulls [] es v f = (v, f, es)"
| "pulls (k # ks) es v f =
     (let (got, v, f) = pull v (fold tracking_event (take k es) f) in pulls ks (drop k es) v f)"

lemma pull_tiled:
  assumes f: "tiled f" and a: "abreast (v_dest v) f" and p: "pull v f = (got, v', f')"
  shows "tiled f' \<and> abreast (v_dest v') f' \<and> tracking_image f' = tracking_image f"
proof (cases "pixels f = []")
  case True
  with p f a show ?thesis by (simp add: pull_def)
next
  case False
  from pull_delivers [OF f a False p] have "v_dest v' = pixels f" "f' = clear_dirty f" by (simp_all add: delivered_def Let_def)
  with tiled_clear [OF f] abreast_self [of f'] show ?thesis by (simp add: tracking_image_def)
qed

lemma pulls_tiled:
  "tiled f \<Longrightarrow> abreast (v_dest v) f \<Longrightarrow> list_all event_ok es \<Longrightarrow> pulls ks es v f = (v', f', es') \<Longrightarrow>
   tiled f' \<and> abreast (v_dest v') f' \<and> list_all event_ok es' \<and>
   fold fb_event es' (tracking_image f') = fold fb_event es (tracking_image f)"
proof (induction ks arbitrary: es v f)
  case (Cons k ks)
  let ?g = "fold tracking_event (take k es) f"
  obtain got v1 f1 where p: "pull v ?g = (got, v1, f1)" by (cases "pull v ?g")
  have ok: "list_all event_ok (take k es)" "list_all event_ok (drop k es)"
    using Cons.prems(3) by (auto simp: list_all_iff dest: in_set_takeD in_set_dropD)
  have g: "tiled ?g" "abreast (v_dest v) ?g" using events_tiled [OF Cons.prems(1) ok(1) Cons.prems(2)] by simp_all
  note t = pull_tiled [OF g p]
  have "pulls ks (drop k es) v1 f1 = (v', f', es')" using Cons.prems(4) p by simp
  with Cons.IH [of f1 v1 "drop k es"] t ok(2)
  have "tiled f' \<and> abreast (v_dest v') f' \<and> list_all event_ok es' \<and>
      fold fb_event es' (tracking_image f') = fold fb_event (drop k es) (tracking_image ?g)" by simp
  moreover have "fold fb_event (drop k es) (tracking_image ?g) = fold fb_event es (tracking_image f)"
    using plain.image_split [of "take k es" "drop k es"] by (simp add: tracking.image_after)
  ultimately show ?case by simp
qed simp

lemma tiled_new: "tiled tracking_new" "abreast dest tracking_new" "tracking_image tracking_new = fb_new"
  by (simp_all add: tiled_def abreast_def tracking_new_def tracking_image_def fb_new_def)

section \<open>Properties\<close>

text \<open>C11: the display: whatever bytes arrive, however the front end's pulls fall between the decoder's events, and whatever its buffer held at first, after a pull the buffer is exactly the picture that the plain framebuffer decoder makes of the whole stream; every pixel the pull changed lies in a reported rectangle, and all rectangles are non-empty and on the screen. The change detection loses nothing.\<close>

theorem pull_mirrors:
  "case process_stream cs dvc_decoder_init of
     Inl e \<Rightarrow> e = Cmd_buffer_overflow
   | Inr d \<Rightarrow>
       (let (v, f, es) = pulls ks (events d) v0 tracking_new;
            g = fold tracking_event es f;
            (got, v', f') = pull v g
        in tracking_image g = fold fb_event (events d) fb_new \<and>
           (if pixels g = [] then v' = v \<and> \<not> got else delivered v got v' g))"
proof (cases "process_stream cs dvc_decoder_init")
  case (Inl e)
  with process_stream_result [OF ready_init, of cs] show ?thesis by simp
next
  case (Inr d)
  have "events_ok dvc_decoder_init" by (simp add: events_ok_def dvc_decoder_init_def)
  from process_stream_events [OF ready_init this Inr] have ok: "list_all event_ok (events d)"
    by (simp add: events_ok_def)
  obtain v f es where p: "pulls ks (events d) v0 tracking_new = (v, f, es)" by (cases "pulls ks (events d) v0 tracking_new")
  note t = pulls_tiled [OF tiled_new(1,2) ok p]
  let ?g = "fold tracking_event es f"
  have g: "tiled ?g" "abreast (v_dest v) ?g" using events_tiled [of f es "v_dest v"] t by simp_all
  obtain got v' f' where q: "pull v ?g = (got, v', f')" by (cases "pull v ?g")
  have "if pixels ?g = [] then v' = v \<and> \<not> got else delivered v got v' ?g"
    using pull_delivers [OF g _ q] q by (auto simp: pull_def)
  moreover have "tracking_image ?g = fold fb_event (events d) fb_new"
    using t by (simp add: tracking.image_after tiled_new(3))
  ultimately show ?thesis by (simp add: Inr p q)
qed

end
