(* ===== verification/Telnet.thy ===== *)
theory Telnet
  imports Rc4 "HOL-Library.Sublist"
begin

text \<open>
  \<open>ilo/telnet.hpp\<close>: the state of class \<open>Telnet\<close>, the byte automaton \<open>feed\<close> that finds the start of
  DVC mode and deciphers what follows, \<open>connect\<close>, \<open>disconnect\<close>, \<open>transmit\<close> and the receive loop. The
  socket calls are the parameter \<open>net\<close>; the virtual functions \<open>process_dvc\<close> and \<open>on_idle\<close> are parameters
  too, and the calls of \<open>set_status\<close> are recorded, oldest first. Threads are not modelled: \<open>run\<close> is the
  receive thread's own view.
\<close>

unbundle bit_operations_syntax

section \<open>The socket\<close>

text \<open>
  \<open>net_connect host port s\<close> stands for \<open>getaddrinfo\<close>, \<open>socket\<close> and \<open>connect\<close>; \<open>net_send\<close> returns how many
  bytes were taken (0 for a failure), \<open>net_recv\<close> at most 1024 bytes, none at the end of the stream.
\<close>

datatype net_read = Net_data bytes | Net_timeout | Net_error

record 's net =
  net_connect :: "string \<Rightarrow> int \<Rightarrow> 's \<Rightarrow> bool \<times> 's"
  net_send :: "bytes \<Rightarrow> 's \<Rightarrow> nat \<times> 's"
  net_recv :: "'s \<Rightarrow> net_read \<times> 's"
  net_close :: "'s \<Rightarrow> 's"

section \<open>State\<close>

text \<open>\<open>t_open\<close> is \<open>sock_ != INVALID_SOCK\<close>; \<open>sink\<close> is the state of the derived class that takes the DVC bytes.\<close>

record ('s, 'd) telnet =
  t_net :: 's
  t_open :: bool
  t_connected :: bool
  t_host :: string
  t_login :: bytes
  t_port :: int
  dvc_mode :: bool
  dvc_encryption :: bool
  esc_state :: nat
  rc4_decrypter :: "rc4 option"
  decrypt_key :: bytes
  decryption_active :: bool
  encryption_enabled :: bool
  t_running :: bool
  sink :: 'd
  statuses :: "(int \<times> string) list"

definition set_status :: "int \<Rightarrow> string \<Rightarrow> ('s, 'd, 'z) telnet_scheme \<Rightarrow> ('s, 'd, 'z) telnet_scheme" where
  "set_status field text t = t\<lparr>statuses := statuses t @ [(field, text)]\<rparr>"

definition setup_decryption :: "bytes \<Rightarrow> ('s, 'd, 'z) telnet_scheme \<Rightarrow> ('s, 'd, 'z) telnet_scheme" where
  "setup_decryption key t =
     t\<lparr>decrypt_key := take 16 key, rc4_decrypter := Some (rc4_seeded key), encryption_enabled := True\<rparr>"

definition telnet_change_key :: "('s, 'd, 'z) telnet_scheme \<Rightarrow> ('s, 'd, 'z) telnet_scheme" where
  "telnet_change_key t = t\<lparr>rc4_decrypter := map_option rc4_update_key (rc4_decrypter t)\<rparr>"

section \<open>Sending\<close>

function net_send_all :: "'s net \<Rightarrow> bytes \<Rightarrow> 's \<Rightarrow> 's" where
  "net_send_all N data s =
     (if data = [] then s
      else (case net_send N data s of
              (0, s) \<Rightarrow> s
            | (Suc w, s) \<Rightarrow> net_send_all N (drop (Suc w) data) s))"
  by pat_completeness auto
termination
  by (relation "measure (\<lambda>(N, data, s). length data)") auto

declare net_send_all.simps [simp del]

definition telnet_transmit :: "'s net \<Rightarrow> bytes \<Rightarrow> ('s, 'd, 'z) telnet_scheme \<Rightarrow> ('s, 'd, 'z) telnet_scheme" where
  "telnet_transmit N data t =
     (if \<not> t_open t \<or> data = [] then t else t\<lparr>t_net := net_send_all N data (t_net t)\<rparr>)"

text \<open>\<open>connect\<close>, with the virtual \<open>transmit\<close> it sends the login token with.\<close>

definition telnet_connect ::
  "'s net \<Rightarrow> (bytes \<Rightarrow> ('s, 'd, 'z) telnet_scheme \<Rightarrow> ('s, 'd, 'z) telnet_scheme option) \<Rightarrow> string \<Rightarrow> bytes \<Rightarrow> int \<Rightarrow>
   ('s, 'd, 'z) telnet_scheme \<Rightarrow> (bool \<times> ('s, 'd, 'z) telnet_scheme) option" where
  "telnet_connect N transmit host login port t =
     (if t_connected t then Some (True, t)
      else (let t = t\<lparr>t_host := host, t_login := login, t_port := port\<rparr>;
                (ok, s) = net_connect N host port (t_net t);
                t = t\<lparr>t_net := s\<rparr>
            in if \<not> ok then Some (False, t)
               else map_option (Pair True)
                      (transmit (t_login t) (set_status 1 ''Online'' (t\<lparr>t_open := True, t_connected := True\<rparr>)))))"

definition telnet_disconnect :: "'s net \<Rightarrow> ('s, 'd, 'z) telnet_scheme \<Rightarrow> ('s, 'd, 'z) telnet_scheme" where
  "telnet_disconnect N t =
     (if \<not> t_connected t then t
      else (let t = t\<lparr>t_connected := False, t_running := False\<rparr>;
                t = (if t_open t then t\<lparr>t_net := net_close N (t_net t), t_open := False\<rparr> else t);
                t = set_status 1 ''Offline'' t
            in t\<lparr>decryption_active := False\<rparr>))"

section \<open>Receiving\<close>

text \<open>\<open>dvc\<close> is the virtual \<open>process_dvc\<close>.\<close>

definition feed_byte ::
  "(byte \<Rightarrow> 'd \<Rightarrow> bool \<times> 'd) \<Rightarrow> byte \<Rightarrow> ('s, 'd, 'z) telnet_scheme \<Rightarrow> ('s, 'd, 'z) telnet_scheme" where
  "feed_byte dvc c t =
     (if dvc_mode t
      then (let (c, t) = (case (dvc_encryption t, rc4_decrypter t) of
                            (True, Some r) \<Rightarrow> (let (k, r) = randomValue r in (c XOR k, t\<lparr>rc4_decrypter := Some r\<rparr>))
                          | _ \<Rightarrow> (c, t));
                (mode, d) = dvc c (sink t);
                t = t\<lparr>dvc_mode := mode, sink := d\<rparr>
            in if \<not> mode then set_status 1 ''DVC Mode off at run'' t else t)
      else if c = 0x1B then t\<lparr>esc_state := 1\<rparr>
      else if esc_state t = 1 \<and> c = 0x5B then t\<lparr>esc_state := 2\<rparr>
      else if esc_state t = 2 \<and> c = 0x52
      then set_status 1 ''DVC Mode (RC4-128 bit)'' (t\<lparr>dvc_mode := True, dvc_encryption := True\<rparr>)
      else if esc_state t = 2 \<and> c = 0x72
      then set_status 1 ''DVC Mode (no encryption)'' (t\<lparr>dvc_mode := True, dvc_encryption := False\<rparr>)
      else t\<lparr>esc_state := 0\<rparr>)"

definition feed :: "(byte \<Rightarrow> 'd \<Rightarrow> bool \<times> 'd) \<Rightarrow> bytes \<Rightarrow> ('s, 'd, 'z) telnet_scheme \<Rightarrow> ('s, 'd, 'z) telnet_scheme" where
  "feed dvc data t = fold (feed_byte dvc) data t"

text \<open>
  The receive loop, with the virtual \<open>on_idle\<close>, which may fault; it ends when the peer does, hence
  fuel.
\<close>

datatype 'a run_result = Ended 'a | Spent | Faulted

fun run_loop ::
  "'s net \<Rightarrow> (byte \<Rightarrow> 'd \<Rightarrow> bool \<times> 'd) \<Rightarrow> (('s, 'd, 'z) telnet_scheme \<Rightarrow> ('s, 'd, 'z) telnet_scheme option) \<Rightarrow> nat \<Rightarrow>
   ('s, 'd, 'z) telnet_scheme \<Rightarrow> ('s, 'd, 'z) telnet_scheme run_result" where
  "run_loop N dvc on_idle 0 t = Spent"
| "run_loop N dvc on_idle (Suc fuel) t =
     (if \<not> (t_running t \<and> t_connected t) then Ended t
      else (case on_idle t of
              None \<Rightarrow> Faulted
            | Some t \<Rightarrow>
                (let (n, s) = net_recv N (t_net t); t = t\<lparr>t_net := s\<rparr>
                 in case n of
                      Net_timeout \<Rightarrow> run_loop N dvc on_idle fuel t
                    | Net_error \<Rightarrow> Ended t
                    | Net_data [] \<Rightarrow> Ended t
                    | Net_data (b # bs) \<Rightarrow> run_loop N dvc on_idle fuel (feed dvc (b # bs) t))))"

definition telnet_run ::
  "'s net \<Rightarrow> (byte \<Rightarrow> 'd \<Rightarrow> bool \<times> 'd) \<Rightarrow> (('s, 'd, 'z) telnet_scheme \<Rightarrow> ('s, 'd, 'z) telnet_scheme option) \<Rightarrow> nat \<Rightarrow>
   ('s, 'd, 'z) telnet_scheme \<Rightarrow> ('s, 'd, 'z) telnet_scheme run_result" where
  "telnet_run N dvc on_idle fuel t =
     (case run_loop N dvc on_idle fuel (t\<lparr>t_running := True\<rparr>) of
        Ended t \<Rightarrow> Ended (if t_connected t then telnet_disconnect N t else t)
      | Spent \<Rightarrow> Spent
      | Faulted \<Rightarrow> Faulted)"

section \<open>Sending takes everything a working socket accepts\<close>

text \<open>What the code relies on: a send takes at least one byte of what it is given, and no more than that.\<close>

definition net_accepts :: "'s net \<Rightarrow> ('s \<Rightarrow> bytes) \<Rightarrow> bool" where
  "net_accepts N wire \<longleftrightarrow> (\<forall>data s. data \<noteq> [] \<longrightarrow>
     (case net_send N data s of (w, s') \<Rightarrow> 0 < w \<and> w \<le> length data \<and> wire s' = wire s @ take w data))"

lemma net_acceptsD:
  assumes "net_accepts N wire" and "data \<noteq> []" and "net_send N data s = (w, s')"
  shows "0 < w \<and> w \<le> length data \<and> wire s' = wire s @ take w data"
  using spec [OF spec [OF assms(1) [unfolded net_accepts_def], of data], of s] assms(2,3) by simp

lemma send_all_wire:
  assumes "net_accepts N wire"
  shows "wire (net_send_all N data s) = wire s @ data"
  using assms
proof (induction N data s rule: net_send_all.induct)
  case (1 N data s)
  show ?case
  proof (cases "data = []")
    case True
    then show ?thesis by (simp add: net_send_all.simps)
  next
    case False
    obtain w s' where w: "net_send N data s = (w, s')" by (cases "net_send N data s")
    have n: "0 < w" "w \<le> length data" "wire s' = wire s @ take w data"
      using net_acceptsD [OF 1(2) False w] by simp_all
    then obtain v where v: "w = Suc v" by (cases w) auto
    have "wire (net_send_all N data s) = wire (net_send_all N (drop w data) s')"
      using False w by (simp add: net_send_all.simps [of N data s] v)
    also have "\<dots> = wire s' @ drop w data" using 1(1) [OF False w [symmetric, unfolded v] refl 1(2)] v by simp
    finally show ?thesis by (simp add: n(3))
  qed
qed

section \<open>Feeding in pieces\<close>

lemma feed_append: "feed dvc (as @ bs) t = feed dvc bs (feed dvc as t)"
  by (simp add: feed_def)

text \<open>A consumer that never leaves DVC mode, as the decoder's \<open>process_dvc\<close>.\<close>

definition stays :: "(byte \<Rightarrow> 'd \<Rightarrow> bool \<times> 'd) \<Rightarrow> bool" where
  "stays dvc \<longleftrightarrow> (\<forall>c d. fst (dvc c d))"

lemma feed_dvc_encrypted:
  assumes dvc: "stays dvc" and t: "dvc_mode t" "dvc_encryption t" "rc4_decrypter t = Some r"
  shows "feed dvc data t = t\<lparr>rc4_decrypter := Some (snd (crypt data r)),
    sink := fold (\<lambda>c d. snd (dvc c d)) (fst (crypt data r)) (sink t)\<rparr>"
  using t
proof (induction data arbitrary: r t)
  case Nil
  then show ?case by (simp add: feed_def)
next
  case (Cons c cs)
  obtain k r1 where k: "randomValue r = (k, r1)" by (cases "randomValue r")
  obtain d where d: "dvc (c XOR k) (sink t) = (True, d)"
    using dvc by (cases "dvc (c XOR k) (sink t)") (auto simp: stays_def dest!: spec [of _ "c XOR k"] spec [of _ "sink t"])
  let ?t = "t\<lparr>rc4_decrypter := Some r1, dvc_mode := True, sink := d\<rparr>"
  have "feed_byte dvc c t = ?t" using Cons.prems k d by (simp add: feed_byte_def Let_def)
  moreover have "feed dvc cs ?t = ?t\<lparr>rc4_decrypter := Some (snd (crypt cs r1)),
      sink := fold (\<lambda>c d. snd (dvc c d)) (fst (crypt cs r1)) (sink ?t)\<rparr>"
    using Cons.prems by (intro Cons.IH) simp_all
  ultimately show ?case using Cons.prems k d by (simp add: feed_def split_beta)
qed

lemma feed_dvc_clear:
  assumes dvc: "stays dvc" and t: "dvc_mode t" "\<not> dvc_encryption t"
  shows "feed dvc data t = t\<lparr>sink := fold (\<lambda>c d. snd (dvc c d)) data (sink t)\<rparr>"
  using t
proof (induction data arbitrary: t)
  case Nil
  then show ?case by (simp add: feed_def)
next
  case (Cons c cs)
  obtain d where d: "dvc c (sink t) = (True, d)"
    using dvc by (cases "dvc c (sink t)") (auto simp: stays_def dest!: spec [of _ c] spec [of _ "sink t"])
  have "feed_byte dvc c t = t\<lparr>sink := d\<rparr>" using Cons.prems d by (simp add: feed_byte_def Let_def)
  with Cons.IH [of "t\<lparr>sink := d\<rparr>"] Cons.prems d show ?case by (simp add: feed_def)
qed

text \<open>The trigger, from any state outside DVC mode.\<close>

lemma feed_trigger:
  assumes "\<not> dvc_mode t"
  shows "feed dvc [0x1B, 0x5B, 0x52] t = set_status 1 ''DVC Mode (RC4-128 bit)'' (t\<lparr>esc_state := 2, dvc_mode := True, dvc_encryption := True\<rparr>)"
    and "feed dvc [0x1B, 0x5B, 0x72] t = set_status 1 ''DVC Mode (no encryption)'' (t\<lparr>esc_state := 2, dvc_mode := True, dvc_encryption := False\<rparr>)"
  using assms by (simp_all add: feed_def feed_byte_def set_status_def)

text \<open>Before the trigger: \<open>esc_state\<close> counts how much of \<open>ESC [\<close> the bytes end with.\<close>

definition esc_of :: "bytes \<Rightarrow> nat" where
  "esc_of front = (if suffix [0x1B, 0x5B] front then 2 else if suffix [0x1B] front then 1 else 0)"

definition triggers :: "bytes \<Rightarrow> bool" where
  "triggers data \<longleftrightarrow> sublist [0x1B, 0x5B, 0x52] data \<or> sublist [0x1B, 0x5B, 0x72] data"

lemma esc_of_snoc:
  "esc_of (front @ [c]) = (if c = 0x1B then 1 else if c = 0x5B \<and> esc_of front = 1 then 2 else 0)"
  by (auto simp: esc_of_def suffix_def append_eq_Cons_conv)

lemma triggers_snoc:
  "triggers (front @ [c]) \<longleftrightarrow> triggers front \<or> esc_of front = 2 \<and> (c = 0x52 \<or> c = 0x72)"
proof -
  have "sublist [0x1B, 0x5B, x] (front @ [c]) \<longleftrightarrow> sublist [0x1B, 0x5B, x] front \<or> suffix [0x1B, 0x5B] front \<and> c = x" for x :: byte
    using snoc_sublist_snoc [of "[0x1B, 0x5B]" x front c] unfolding append.simps by blast
  then show ?thesis unfolding triggers_def esc_of_def by (simp split: if_split) blast
qed

lemma feed_before_trigger:
  assumes t: "\<not> dvc_mode t" "esc_state t = 0" and front: "\<not> triggers front"
  shows "feed dvc front t = t\<lparr>esc_state := esc_of front\<rparr>"
  using front
proof (induction front rule: rev_induct)
  case Nil
  then show ?case using t by (simp add: feed_def esc_of_def)
next
  case (snoc c front)
  then have p: "\<not> triggers front" "\<not> (esc_of front = 2 \<and> (c = 0x52 \<or> c = 0x72))" by (simp_all add: triggers_snoc)
  with snoc.IH have "feed dvc (front @ [c]) t = feed_byte dvc c (t\<lparr>esc_state := esc_of front\<rparr>)" by (simp add: feed_def)
  then show ?case using t p(2) by (auto simp: feed_byte_def esc_of_snoc)
qed

section \<open>Properties\<close>

text \<open>C12: what comes before the first \<open>ESC [ R\<close> or \<open>ESC [ r\<close>, whatever it is and however the reads cut it, only moves the escape automaton; from \<open>ESC [ R\<close> on, the consumer receives exactly the plaintext that a server enciphers with an RC4 state equal to the decrypter's, byte for byte and in order, and the decrypter ends in the server's state.\<close>

theorem dvc_stream_deciphered:
  assumes "stays dvc" and "\<not> dvc_mode t" and "esc_state t = 0" and "rc4_decrypter t = Some r"
    and "\<not> triggers front" and "concat reads = front @ [0x1B, 0x5B, 0x52] @ fst (crypt plain r)"
  shows "fold (feed dvc) reads t = t\<lparr>esc_state := 2, dvc_mode := True, dvc_encryption := True,
    rc4_decrypter := Some (snd (crypt plain r)), sink := fold (\<lambda>c d. snd (dvc c d)) plain (sink t),
    statuses := statuses t @ [(1, ''DVC Mode (RC4-128 bit)'')]\<rparr>"
proof -
  have "fold (feed dvc) reads u = feed dvc (concat reads) u" for u
    by (induction reads arbitrary: u) (simp_all add: feed_append, simp add: feed_def)
  then have "fold (feed dvc) reads t = feed dvc (fst (crypt plain r)) (feed dvc [0x1B, 0x5B, 0x52] (feed dvc front t))"
    by (simp only: assms(6) feed_append)
  also have "feed dvc [0x1B, 0x5B, 0x52] (feed dvc front t) =
      t\<lparr>esc_state := 2, dvc_mode := True, dvc_encryption := True, statuses := statuses t @ [(1, ''DVC Mode (RC4-128 bit)'')]\<rparr>"
    using assms(2) by (simp add: feed_before_trigger [OF assms(2,3,5)] feed_trigger(1) set_status_def)
  finally show ?thesis
    by (simp add: feed_dvc_encrypted [OF assms(1)] assms(4) crypt_involution)
qed

text \<open>A consumer that collects the bytes, and a server's cipher.\<close>

lemma dvc_stream_deciphered_witness:
  "\<exists>(t :: (unit, bytes) telnet) r. fold (feed (\<lambda>c d. (True, d @ [c]))) [[65, 0x1B], [0x5B, 0x52] @ take 1 (fst (crypt [7, 8, 9] r)), drop 1 (fst (crypt [7, 8, 9] r))] t =
     t\<lparr>esc_state := 2, dvc_mode := True, dvc_encryption := True, rc4_decrypter := Some (snd (crypt [7, 8, 9] r)),
       sink := [7, 8, 9], statuses := [(1, ''DVC Mode (RC4-128 bit)'')]\<rparr>"
proof -
  let ?r = "rc4_seeded (replicate 16 3)"
  define t :: "(unit, bytes) telnet" where "t = \<lparr>t_net = (), t_open = True, t_connected = True, t_host = [], t_login = [],
    t_port = 23, dvc_mode = False, dvc_encryption = False, esc_state = 0, rc4_decrypter = Some ?r, decrypt_key = [],
    decryption_active = False, encryption_enabled = True, t_running = True, sink = [], statuses = []\<rparr>"
  have t: "\<not> dvc_mode t" "esc_state t = 0" "rc4_decrypter t = Some ?r" "sink t = []" "statuses t = []" by (simp_all add: t_def)
  let ?reads = "[[65, 0x1B], [0x5B, 0x52] @ take 1 (fst (crypt [7, 8, 9] ?r)), drop 1 (fst (crypt [7, 8, 9] ?r))]"
  have "stays (\<lambda>c d. (True, d @ [c]))" by (simp add: stays_def)
  moreover have "\<not> triggers [65]" by (auto simp: triggers_def dest: sublist_length_le)
  moreover have "concat ?reads = [65] @ [0x1B, 0x5B, 0x52] @ fst (crypt [7, 8, 9] ?r)" by simp
  ultimately have "fold (feed (\<lambda>c d. (True, d @ [c]))) ?reads t = t\<lparr>esc_state := 2, dvc_mode := True, dvc_encryption := True,
      rc4_decrypter := Some (snd (crypt [7, 8, 9] ?r)), sink := fold (\<lambda>c d. snd (True, d @ [c])) [7, 8, 9] (sink t),
      statuses := statuses t @ [(1, ''DVC Mode (RC4-128 bit)'')]\<rparr>"
    by (rule dvc_stream_deciphered [OF _ t(1-3)])
  moreover have "fold (\<lambda>c d. snd (True, d @ [c])) [7, 8, 9] (sink t) = [7, 8, 9]" by (simp add: t(4))
  ultimately have "fold (feed (\<lambda>c d. (True, d @ [c]))) ?reads t = t\<lparr>esc_state := 2, dvc_mode := True, dvc_encryption := True,
      rc4_decrypter := Some (snd (crypt [7, 8, 9] ?r)), sink := [7, 8, 9], statuses := [(1, ''DVC Mode (RC4-128 bit)'')]\<rparr>"
    by (simp only: t(5) append_Nil)
  then show ?thesis by (intro exI [of _ t] exI [of _ ?r])
qed

end
