(* ===== verification/Cim_Session.thy ===== *)
theory Cim_Session
  imports Telnet "HOL-Library.Signed_Division"
begin

text \<open>
  The outbound half: class \<open>CimSession\<close> of \<open>ilo/ilo2_session.hpp\<close> and the encoders of class \<open>Input\<close> of
  \<open>ilo/ilo2_input.hpp\<close>. \<open>transmit\<close> writes the first six bytes of its copy without looking at its length
  while \<open>sending_encrypt_command_\<close> is set; a shorter string makes the model's result \<open>None\<close>.
\<close>

unbundle bit_operations_syntax

section \<open>The session\<close>

record ('s, 'd) cim = "('s, 'd) telnet" +
  rc4_encrypter :: "rc4 option"
  encrypt_key :: bytes
  key_index :: u32
  encryption_active :: bool
  sending_encrypt_command :: bool

definition cim_new :: "'s \<Rightarrow> 'd \<Rightarrow> ('s, 'd) cim" where
  "cim_new s d = \<lparr>t_net = s, t_open = False, t_connected = False, t_host = '''', t_login = [], t_port = 23,
     dvc_mode = False, dvc_encryption = False, esc_state = 0, rc4_decrypter = None, decrypt_key = replicate 16 0,
     decryption_active = False, encryption_enabled = False, t_running = False, sink = d, statuses = [],
     rc4_encrypter = None, encrypt_key = replicate 16 0, key_index = 0, encryption_active = False,
     sending_encrypt_command = False\<rparr>"

definition setup_encryption :: "bytes \<Rightarrow> u32 \<Rightarrow> ('s, 'd, 'z) cim_scheme \<Rightarrow> ('s, 'd, 'z) cim_scheme" where
  "setup_encryption key index t =
     t\<lparr>encrypt_key := take 16 key, rc4_encrypter := Some (rc4_seeded key), key_index := index\<rparr>"

definition put32 :: "u32 \<Rightarrow> bytes" where
  "put32 v = [ucast (drop_bit 24 v), ucast (drop_bit 16 v), ucast (drop_bit 8 v), ucast v]"

definition cim_transmit :: "'s net \<Rightarrow> bytes \<Rightarrow> ('s, 'd, 'z) cim_scheme \<Rightarrow> ('s, 'd, 'z) cim_scheme option" where
  "cim_transmit N data t =
     (if data = [] then Some t
      else (case (encryption_active t, rc4_encrypter t) of
              (True, Some r) \<Rightarrow>
                if sending_encrypt_command t \<and> length data < 6 then None
                else (let (head, t) = (if sending_encrypt_command t
                                       then (take 2 data @ put32 (key_index t), t\<lparr>sending_encrypt_command := False\<rparr>)
                                       else ([], t));
                          (body, r) = crypt (drop (length head) data) r
                      in Some (telnet_transmit N (head @ body) (t\<lparr>rc4_encrypter := Some r\<rparr>)))
            | _ \<Rightarrow> Some (telnet_transmit N data t)))"

definition cim_connect ::
  "'s net \<Rightarrow> string \<Rightarrow> bytes \<Rightarrow> int \<Rightarrow> ('s, 'd, 'z) cim_scheme \<Rightarrow> (bool \<times> ('s, 'd, 'z) cim_scheme) option" where
  "cim_connect N host login port t =
     (let (tok, t) = (if encryption_enabled t
                      then ([0xFF, 0xC0] @ replicate 4 0x20 @ login,
                            t\<lparr>encryption_active := True, sending_encrypt_command := True\<rparr>)
                      else (login, t))
      in telnet_connect N (cim_transmit N) host tok port t)"

definition cim_change_key :: "('s, 'd, 'z) cim_scheme \<Rightarrow> ('s, 'd, 'z) cim_scheme" where
  "cim_change_key t = telnet_change_key (t\<lparr>rc4_encrypter := map_option rc4_update_key (rc4_encrypter t)\<rparr>)"

definition refresh_screen :: "'s net \<Rightarrow> ('s, 'd, 'z) cim_scheme \<Rightarrow> ('s, 'd, 'z) cim_scheme option" where
  "refresh_screen N = cim_transmit N [0x1B, 0x5B, 0x7E]"

definition send_keep_alive_msg :: "'s net \<Rightarrow> ('s, 'd, 'z) cim_scheme \<Rightarrow> ('s, 'd, 'z) cim_scheme option" where
  "send_keep_alive_msg N = cim_transmit N [0x1B, 0x5B, 0x28]"

section \<open>Mouse and keyboard\<close>

record input =
  screen_w :: int
  screen_h :: int
  absolute :: bool

definition BTN_LEFT :: int where "BTN_LEFT = 4"
definition BTN_CENTER :: int where "BTN_CENTER = 2"
definition BTN_RIGHT :: int where "BTN_RIGHT = 1"

definition select_mouse :: "bool \<Rightarrow> bytes" where
  "select_mouse a = [0xFF, 0xD5, if a then 0x01 else 0x02]"

text \<open>The \<open>int\<close> products \<open>3000 * x\<close> are exact for coordinates below 715828.\<close>

definition input_move :: "int \<Rightarrow> int \<Rightarrow> input \<Rightarrow> bytes" where
  "input_move x y i =
     (let (sx, sy) = (if screen_w i > 0 \<and> screen_h i > 0
                      then ((3000 * x) sdiv screen_w i, (3000 * y) sdiv screen_h i)
                      else (3000 * x, 3000 * y))
      in [0xFF, 0xD0, 0, 0] @
         (if absolute i
          then [word_of_int (sx sdiv 256), word_of_int (sx smod 256), word_of_int (sy sdiv 256), word_of_int (sy smod 256)]
          else []))"

definition input_press :: "int \<Rightarrow> bytes" where
  "input_press button = [0xFF, 0xD1, word_of_int button]"

definition input_release :: "int \<Rightarrow> bytes" where
  "input_release button = [0xFF, 0xD2, word_of_int button]"

definition input_click :: "int \<Rightarrow> int \<Rightarrow> int \<Rightarrow> input \<Rightarrow> bytes" where
  "input_click x y button i = input_move x y i @ input_press button @ input_release button"

definition input_type_char :: "byte \<Rightarrow> bytes" where
  "input_type_char c = (if c = 0x0A \<or> c = 0x0D then [0x0D] else [c])"

definition input_type_text :: "bytes \<Rightarrow> bytes" where
  "input_type_text cs = concat (map input_type_char cs)"

definition ctrl_alt_del :: bytes where
  "ctrl_alt_del = [0x1B, 0x5B, 0x32, 0x1B, 0x5B, 0x7F]"

definition arrow_up :: bytes where "arrow_up = [0x1B, 0x5B, 0x41]"
definition arrow_down :: bytes where "arrow_down = [0x1B, 0x5B, 0x42]"
definition arrow_left :: bytes where "arrow_left = [0x1B, 0x5B, 0x44]"
definition arrow_right :: bytes where "arrow_right = [0x1B, 0x5B, 0x43]"

section \<open>What goes over the wire\<close>

text \<open>Messages and rekeys after \<open>connect\<close>, and the bytes they become.\<close>

datatype outbound = Message bytes | Rekey

fun speak :: "'s net \<Rightarrow> outbound list \<Rightarrow> ('s, 'd) cim \<Rightarrow> ('s, 'd) cim option" where
  "speak N [] t = Some t"
| "speak N (Message m # os) t = (case cim_transmit N m t of None \<Rightarrow> None | Some t \<Rightarrow> speak N os t)"
| "speak N (Rekey # os) t = speak N os (cim_change_key t)"

fun ciphertext :: "outbound list \<Rightarrow> rc4 \<Rightarrow> bytes" where
  "ciphertext [] r = []"
| "ciphertext (Message m # os) r = fst (crypt m r) @ ciphertext os (snd (crypt m r))"
| "ciphertext (Rekey # os) r = ciphertext os (rc4_update_key r)"

text \<open>The same key material and the lengths of the pieces give the text back.\<close>

fun decipher :: "outbound list \<Rightarrow> bytes \<Rightarrow> rc4 \<Rightarrow> bytes" where
  "decipher [] w r = []"
| "decipher (Message m # os) w r =
     (let (p, r) = crypt (take (length m) w) r in p @ decipher os (drop (length m) w) r)"
| "decipher (Rekey # os) w r = decipher os w (rc4_update_key r)"

definition said :: "outbound list \<Rightarrow> bytes" where
  "said os = concat (map (\<lambda>a. case a of Message m \<Rightarrow> m | Rekey \<Rightarrow> []) os)"

lemma decipher_ciphertext: "decipher os (ciphertext os r) r = said os"
proof (induction os arbitrary: r)
  case (Cons a os)
  then show ?case by (cases a) (simp_all add: said_def split_beta crypt_involution)
qed (simp add: said_def)

lemma transmit_wire:
  "net_accepts N wire \<Longrightarrow> t_open t \<Longrightarrow> wire (t_net (telnet_transmit N data t)) = wire (t_net t) @ data"
  by (simp add: telnet_transmit_def send_all_wire)

text \<open>The session once it is connected and has sent its preamble.\<close>

definition speaking :: "rc4 \<Rightarrow> ('s, 'd) cim \<Rightarrow> bool" where
  "speaking r t \<longleftrightarrow> t_open t \<and> encryption_active t \<and> rc4_encrypter t = Some r \<and> \<not> sending_encrypt_command t"

lemma telnet_transmit_fields [simp]:
  "t_open (telnet_transmit N data t) = t_open t" "t_connected (telnet_transmit N data t) = t_connected t"
  "cim.more (telnet_transmit N data t) = cim.more t" "rc4_encrypter (telnet_transmit N data t) = rc4_encrypter t"
  "encryption_active (telnet_transmit N data t) = encryption_active t"
  "sending_encrypt_command (telnet_transmit N data t) = sending_encrypt_command t"
  by (simp_all add: telnet_transmit_def)

lemma speaking_transmit:
  assumes s: "speaking r t" and N: "net_accepts N wire"
  shows "\<exists>t'. cim_transmit N m t = Some t' \<and> speaking (snd (crypt m r)) t' \<and> wire (t_net t') = wire (t_net t) @ fst (crypt m r)"
proof (cases "m = []")
  case True
  then show ?thesis using s by (simp add: cim_transmit_def)
next
  case False
  obtain body r' where c: "crypt m r = (body, r')" by (cases "crypt m r")
  let ?t = "telnet_transmit N body (t\<lparr>rc4_encrypter := Some r'\<rparr>)"
  have "cim_transmit N m t = Some ?t" using s c False by (simp add: cim_transmit_def speaking_def)
  moreover have "speaking r' ?t" using s by (simp add: speaking_def)
  moreover have "wire (t_net ?t) = wire (t_net t) @ body"
    using transmit_wire [OF N, of "t\<lparr>rc4_encrypter := Some r'\<rparr>" body] s by (simp add: speaking_def)
  ultimately show ?thesis using c by simp
qed

lemma speaking_change_key: "speaking r t \<Longrightarrow> speaking (rc4_update_key r) (cim_change_key t) \<and> t_net (cim_change_key t) = t_net t"
  by (simp add: speaking_def cim_change_key_def telnet_change_key_def)

lemma speak_wire:
  assumes "speaking r t" and N: "net_accepts N wire"
  shows "\<exists>t'. speak N os t = Some t' \<and> wire (t_net t') = wire (t_net t) @ ciphertext os r"
  using assms(1)
proof (induction os arbitrary: r t)
  case (Cons a os)
  show ?case
  proof (cases a)
    case (Message m)
    obtain t1 where "cim_transmit N m t = Some t1" "speaking (snd (crypt m r)) t1" "wire (t_net t1) = wire (t_net t) @ fst (crypt m r)"
      using speaking_transmit [OF Cons.prems N] by blast
    with Cons.IH [of "snd (crypt m r)" t1] Message show ?thesis by auto
  next
    case Rekey
    with Cons.IH [of "rc4_update_key r" "cim_change_key t"] speaking_change_key [OF Cons.prems] show ?thesis by simp
  qed
qed simp

text \<open>The start of an encrypted session, as the front ends do it.\<close>

definition open_session :: "'s net \<Rightarrow> bytes \<Rightarrow> bytes \<Rightarrow> u32 \<Rightarrow> string \<Rightarrow> bytes \<Rightarrow> int \<Rightarrow> ('s, 'd) cim \<Rightarrow> (bool \<times> ('s, 'd) cim) option" where
  "open_session N kb kc index host login port t =
     cim_connect N host login port (setup_encryption kc index (setup_decryption kb t))"

lemma open_session_speaks:
  assumes N: "net_accepts N wire" and up: "net_connect N host port s = (True, s')"
  shows "\<exists>t. open_session N kb kc index host login port (cim_new s d) = Some (True, t) \<and>
    speaking (snd (crypt login (rc4_seeded kc))) t \<and>
    wire (t_net t) = wire s' @ [0xFF, 0xC0] @ put32 index @ fst (crypt login (rc4_seeded kc))"
proof -
  let ?t0 = "setup_encryption kc index (setup_decryption kb (cim_new s d))"
  let ?tok = "[0xFF, 0xC0] @ replicate 4 0x20 @ login"
  let ?t1 = "set_status 1 ''Online'' (?t0\<lparr>encryption_active := True, sending_encrypt_command := True, t_host := host,
      t_login := ?tok, t_port := port, t_net := s', t_open := True, t_connected := True\<rparr>)"
  obtain body r where c: "crypt login (rc4_seeded kc) = (body, r)" by (cases "crypt login (rc4_seeded kc)")
  let ?t2 = "?t1\<lparr>sending_encrypt_command := False, rc4_encrypter := Some r\<rparr>"
  let ?out = "([0xFF, 0xC0] @ put32 index) @ body"
  have "cim_transmit N ?tok ?t1 = Some (telnet_transmit N ?out ?t2)"
    using c by (simp add: cim_transmit_def set_status_def setup_encryption_def setup_decryption_def put32_def numeral_2_eq_2)
  moreover have "open_session N kb kc index host login port (cim_new s d) = map_option (Pair True) (cim_transmit N ?tok ?t1)"
    using up by (simp add: open_session_def cim_connect_def telnet_connect_def setup_encryption_def setup_decryption_def
        cim_new_def Let_def)
  moreover have "speaking r (telnet_transmit N ?out ?t2)"
    by (simp add: speaking_def set_status_def)
  moreover have "wire (t_net (telnet_transmit N ?out ?t2)) = wire s' @ ?out"
    using transmit_wire [OF N, of ?t2 ?out] by (simp add: set_status_def)
  ultimately show ?thesis using c by (intro exI [of _ "telnet_transmit N ?out ?t2"]) simp
qed

section \<open>Coordinates\<close>

lemma sdiv_nonneg: "0 \<le> a \<Longrightarrow> 0 < b \<Longrightarrow> a sdiv b = a div (b :: int)"
  by (cases "a = 0") (simp_all add: signed_divide_int_def)

lemma smod_nonneg: "0 \<le> a \<Longrightarrow> 0 < b \<Longrightarrow> a smod b = a mod (b :: int)"
  by (cases "a = 0") (simp_all add: signed_modulo_int_def)

lemma coordinate_bytes:
  assumes "0 \<le> v" and "v < 65536"
  shows "256 * uint (word_of_int (v sdiv 256) :: byte) + uint (word_of_int (v smod 256) :: byte) = v"
proof -
  have "v div 256 < 256" using zdiv_mono1 [of v 65535 256] assms by simp
  then show ?thesis using assms
    by (simp add: sdiv_nonneg smod_nonneg uint_word_of_int take_bit_eq_mod)
qed

section \<open>Properties\<close>

text \<open>C14: the outbound half of a session: on a socket that takes bytes in pieces of any size, connecting sends the two command bytes and the key index in the clear and then the login under the session key, and everything said afterwards, with any rekeys in between, follows under the same running cipher; an iLO with the key, deciphering piece by piece and rekeying at the same points, reads exactly the login and the messages in order.\<close>

theorem session_read_by_peer:
  assumes "net_accepts N wire" and "net_connect N host port s = (True, s')"
  shows "\<exists>t t'. open_session N kb kc index host login port (cim_new s d) = Some (True, t) \<and> speak N os t = Some t' \<and>
    (let cipher = ciphertext (Message login # os) (rc4_seeded kc)
     in wire (t_net t') = wire s' @ [0xFF, 0xC0] @ put32 index @ cipher \<and>
        decipher (Message login # os) cipher (rc4_seeded kc) = login @ said os)"
proof -
  obtain t where t: "open_session N kb kc index host login port (cim_new s d) = Some (True, t)"
    "speaking (snd (crypt login (rc4_seeded kc))) t"
    "wire (t_net t) = wire s' @ [0xFF, 0xC0] @ put32 index @ fst (crypt login (rc4_seeded kc))"
    using open_session_speaks [OF assms, of kb kc index login d] by blast
  from speak_wire [OF t(2) assms(1)] obtain t' where t': "speak N os t = Some t'"
    "wire (t_net t') = wire (t_net t) @ ciphertext os (snd (crypt login (rc4_seeded kc)))" by blast
  have "decipher (Message login # os) (ciphertext (Message login # os) (rc4_seeded kc)) (rc4_seeded kc) = login @ said os"
    by (simp only: decipher_ciphertext) (simp add: said_def)
  with t(1,3) t' show ?thesis by (auto simp: Let_def)
qed

text \<open>A socket that takes three bytes at a time.\<close>

definition slow_net :: "bytes net" where
  "slow_net = \<lparr>net_connect = (\<lambda>host port s. (True, s)), net_send = (\<lambda>data s. (min 3 (length data), s @ take 3 data)),
     net_recv = (\<lambda>s. (Net_data [], s)), net_close = (\<lambda>s. s)\<rparr>"

lemma slow_net_accepts: "net_accepts slow_net (\<lambda>s. s)"
  by (auto simp: net_accepts_def slow_net_def min_def)

lemma session_read_by_peer_witness:
  "\<exists>t t'. open_session slow_net (replicate 16 1) (replicate 16 2) 7 ''ilo'' [65, 66] 23 (cim_new [] ()) = Some (True, t) \<and>
     speak slow_net [Message [13], Rekey, Message [27, 91, 126]] t = Some t' \<and> take 6 (t_net t') = [0xFF, 0xC0, 0, 0, 0, 7]"
proof -
  have "net_connect slow_net ''ilo'' 23 [] = (True, [])" by (simp add: slow_net_def)
  from session_read_by_peer [OF slow_net_accepts this, of "replicate 16 1" "replicate 16 2" 7 "[65, 66]" "()"
      "[Message [13], Rekey, Message [27, 91, 126]]"]
  show ?thesis by (auto simp: Let_def put32_def)
qed

text \<open>C33: connecting twice breaks the session: on a session that is already connected and encrypted, a second \<open>connect\<close> reports success without sending anything but arms the key preamble again, so the next message of one to five bytes, such as any key press, makes \<open>transmit\<close> write behind its string, and a longer one has bytes 2 to 5 overwritten by the key index and its first six bytes sent in the clear.\<close>

theorem reconnect_corrupts:
  assumes "t_connected t" and "encryption_enabled t" and "rc4_encrypter t = Some r" and "m \<noteq> []"
  shows "\<exists>t'. cim_connect N host login port t = Some (True, t') \<and> t_net t' = t_net t \<and>
    cim_transmit N m t' =
      (if length m < 6 then None
       else (let (body, r') = crypt (drop 6 m) r
             in Some (telnet_transmit N (take 2 m @ put32 (key_index t) @ body)
                  (t'\<lparr>sending_encrypt_command := False, rc4_encrypter := Some r'\<rparr>))))"
proof -
  let ?t = "t\<lparr>encryption_active := True, sending_encrypt_command := True\<rparr>"
  have "cim_connect N host login port t = Some (True, ?t)"
    using assms(1,2) by (simp add: cim_connect_def telnet_connect_def)
  then show ?thesis
    using assms(3,4) by (intro exI [of _ ?t]) (auto simp: cim_transmit_def put32_def Let_def split: prod.splits)
qed

lemma reconnect_corrupts_witness:
  "\<exists>t. cim_connect slow_net ''ilo'' [] 23
      ((setup_encryption (replicate 16 2) 7 (setup_decryption (replicate 16 1) (cim_new [] ())))\<lparr>t_connected := True\<rparr>) = Some (True, t) \<and>
    cim_transmit slow_net [13] t = None"
proof -
  let ?t = "(setup_encryption (replicate 16 2) 7 (setup_decryption (replicate 16 1) (cim_new [] ())))\<lparr>t_connected := True\<rparr>
    :: (bytes, unit) cim"
  have "t_connected ?t" "encryption_enabled ?t" "rc4_encrypter ?t = Some (rc4_seeded (replicate 16 2))" "[13 :: byte] \<noteq> []"
    by (simp_all add: setup_encryption_def setup_decryption_def)
  from reconnect_corrupts [OF this, of slow_net "''ilo''" "[]" 23] show ?thesis by auto
qed

text \<open>In absolute mode a click inside a screen of any size is the eight-byte position, a press and a release, and the position the iLO reads is the pixel scaled to 0..2999 in both coordinates.\<close>

theorem click_position:
  assumes "absolute i" and "0 < screen_w i" and "0 < screen_h i"
    and "0 \<le> x" and "x < screen_w i" and "0 \<le> y" and "y < screen_h i"
  shows "\<exists>xh xl yh yl. input_click x y button i =
      [0xFF, 0xD0, 0, 0, xh, xl, yh, yl, 0xFF, 0xD1, word_of_int button, 0xFF, 0xD2, word_of_int button] \<and>
    256 * uint xh + uint xl = 3000 * x div screen_w i \<and> 256 * uint yh + uint yl = 3000 * y div screen_h i \<and>
    3000 * x div screen_w i < 3000 \<and> 3000 * y div screen_h i < 3000"
proof -
  have b: "0 \<le> 3000 * z div n \<and> 3000 * z div n < 3000 \<and> (3000 * z) sdiv n = 3000 * z div n" if "0 \<le> z" "z < n" for z n :: int
  proof -
    have "3000 * z < 3000 * n" using that by simp
    then have "3000 * z div n \<le> (3000 * n - 1) div n" using that by (intro zdiv_mono1) simp_all
    also have "(3000 * n - 1) div n = 2999"
      using that by (intro int_div_pos_eq [of _ _ _ "n - 1"]) simp_all
    finally have "3000 * z div n < 3000" by simp
    with that show ?thesis by (simp add: sdiv_nonneg pos_imp_zdiv_nonneg_iff)
  qed
  note bx = b [OF assms(4,5)] and by' = b [OF assms(6,7)]
  let ?x = "3000 * x div screen_w i" and ?y = "3000 * y div screen_h i"
  have "input_click x y button i = [0xFF, 0xD0, 0, 0, word_of_int (?x sdiv 256), word_of_int (?x smod 256),
      word_of_int (?y sdiv 256), word_of_int (?y smod 256), 0xFF, 0xD1, word_of_int button, 0xFF, 0xD2, word_of_int button]"
    using assms(1-3) bx by' by (simp add: input_click_def input_move_def input_press_def input_release_def)
  moreover have "256 * uint (word_of_int (?x sdiv 256) :: byte) + uint (word_of_int (?x smod 256) :: byte) = ?x"
    "256 * uint (word_of_int (?y sdiv 256) :: byte) + uint (word_of_int (?y smod 256) :: byte) = ?y"
    by (rule coordinate_bytes; use bx by' in linarith)+
  ultimately show ?thesis using bx by' by blast
qed

lemma click_position_witness:
  "\<exists>xh xl yh yl. input_click 512 767 BTN_LEFT \<lparr>screen_w = 1024, screen_h = 768, absolute = True\<rparr> =
     [0xFF, 0xD0, 0, 0, xh, xl, yh, yl, 0xFF, 0xD1, 4, 0xFF, 0xD2, 4] \<and> 256 * uint xh + uint xl = 1500"
  using click_position [of "\<lparr>screen_w = 1024, screen_h = 768, absolute = True\<rparr>" 512 767 BTN_LEFT]
  by (auto simp: BTN_LEFT_def)

end
