(* ===== verification/Ilo_Session.thy ===== *)
theory Ilo_Session
  imports Http
begin

text \<open>
  \<open>ilo/ilo_session.hpp\<close>: base64, the scrapers of the login and console pages, the password lookup,
  and the acquisition of a console session over HTTPS. The loop of \<open>find_quoted\<close> carries fuel, because
  it does not end for an empty name; one unit per position of the page is enough for any other.
\<close>

unbundle bit_operations_syntax

section \<open>Console parameters\<close>

record console_params =
  cp_info :: "string \<Rightarrow> string option"
  cp_index :: string
  cp_cookie :: string

definition get_param :: "console_params \<Rightarrow> string \<Rightarrow> string \<Rightarrow> string" where
  "get_param p key dflt = (case cp_info p key of None \<Rightarrow> dflt | Some v \<Rightarrow> v)"

definition has_param :: "console_params \<Rightarrow> string \<Rightarrow> bool" where
  "has_param p key \<longleftrightarrow> cp_info p key \<noteq> None"

section \<open>Base64\<close>

definition base64_table :: string where
  "base64_table = ''ABCDEFGHIJKLMNOPQRSTUVWXYZabcdefghijklmnopqrstuvwxyz0123456789+/''"

definition b64 :: "nat \<Rightarrow> nat \<Rightarrow> char" where
  "b64 n k = base64_table ! (drop_bit k n AND 63)"

fun base64_encode :: "string \<Rightarrow> string" where
  "base64_encode (a # b # c # rest) =
     (let n = push_bit 16 (of_char a) OR push_bit 8 (of_char b) OR of_char c
      in [b64 n 18, b64 n 12, b64 n 6, b64 n 0] @ base64_encode rest)"
| "base64_encode [a] = (let n = push_bit 16 (of_char a) in [b64 n 18, b64 n 12] @ ''=='')"
| "base64_encode [a, b] =
     (let n = push_bit 16 (of_char a) OR push_bit 8 (of_char b) in [b64 n 18, b64 n 12, b64 n 6] @ ''='')"
| "base64_encode [] = []"

section \<open>Scraping\<close>

definition is_lower :: "char \<Rightarrow> bool" where
  "is_lower c \<longleftrightarrow> 97 \<le> (of_char c :: nat) \<and> (of_char c :: nat) \<le> 122"

definition is_upper :: "char \<Rightarrow> bool" where
  "is_upper c \<longleftrightarrow> 65 \<le> (of_char c :: nat) \<and> (of_char c :: nat) \<le> 90"

text \<open>\<open>isalnum(prev) || prev == '_'\<close> in the C locale.\<close>

definition in_identifier :: "char \<Rightarrow> bool" where
  "in_identifier c \<longleftrightarrow> is_lower c \<or> is_upper c \<or> is_digit c \<or> c = CHR ''_''"

definition quote_char :: char where
  "quote_char = CHR 0x22"

definition skip_blanks :: "string \<Rightarrow> nat \<Rightarrow> nat" where
  "skip_blanks page p = p + length (takeWhile is_blank (drop p page))"

fun find_quoted_loop :: "nat \<Rightarrow> string \<Rightarrow> string \<Rightarrow> nat \<Rightarrow> string option option" where
  "find_quoted_loop 0 page name pos = None"
| "find_quoted_loop (Suc fuel) page name pos =
     (case find_from page name pos of
        None \<Rightarrow> Some None
      | Some pos \<Rightarrow>
          if pos > 0 \<and> in_identifier (page ! (pos - 1)) then find_quoted_loop fuel page name (pos + length name)
          else (let p = skip_blanks page (pos + length name)
                in if p \<ge> length page \<or> page ! p \<noteq> CHR ''='' then find_quoted_loop fuel page name (pos + length name)
                   else (let p = skip_blanks page (p + 1)
                         in if p \<ge> length page \<or> page ! p \<noteq> quote_char
                            then find_quoted_loop fuel page name (pos + length name)
                            else (case find_from page [quote_char] (p + 1) of
                                    None \<Rightarrow> Some None
                                  | Some ve \<Rightarrow> Some (Some (take (ve - (p + 1)) (drop (p + 1) page)))))))"

declare find_quoted_loop.simps(2) [simp del]

definition find_quoted :: "string \<Rightarrow> string \<Rightarrow> string option option" where
  "find_quoted page name = find_quoted_loop (Suc (length page)) page name 0"

text \<open>\<open>out.emplace(name, value)\<close>.\<close>

definition emplace :: "string \<Rightarrow> string \<Rightarrow> (string \<Rightarrow> string option) \<Rightarrow> string \<Rightarrow> string option" where
  "emplace k v m = (if m k = None then m(k \<mapsto> v) else m)"

text \<open>The text after an assignment sign: the position to go on from and the value.\<close>

definition scrape_value :: "string \<Rightarrow> nat \<Rightarrow> nat \<Rightarrow> nat \<times> string option" where
  "scrape_value page ne p =
     (if p < length page \<and> page ! p = quote_char
      then (case find_from page [quote_char] (p + 1) of
              None \<Rightarrow> (ne, None)
            | Some ve \<Rightarrow> (ve + 1, Some (take (ve - (p + 1)) (drop (p + 1) page))))
      else (let digits = (if p < length page \<and> page ! p = CHR ''-'' then p + 1 else p);
                q = digits + length (takeWhile is_digit (drop digits page))
            in if q > digits then (q, Some (take (q - p) (drop p page))) else (ne, None)))"

lemma skip_blanks_ge: "p \<le> skip_blanks page p"
  by (simp add: skip_blanks_def)

lemma scrape_value_ge: "ne \<le> p \<Longrightarrow> scrape_value page ne p = (q, v) \<Longrightarrow> ne \<le> q"
  by (auto simp: scrape_value_def Let_def dest: find_from_Some split: if_splits option.splits)

function scrape_loop :: "string \<Rightarrow> nat \<Rightarrow> (string \<Rightarrow> string option) \<Rightarrow> string \<Rightarrow> string option" where
  "scrape_loop page pos out =
     (case find_from page ''info'' pos of
        None \<Rightarrow> out
      | Some pos \<Rightarrow>
          if pos > 0 \<and> in_identifier (page ! (pos - 1)) then scrape_loop page (pos + 4) out
          else (let ne = pos + 4 + length (takeWhile (\<lambda>c. is_lower c \<or> is_digit c) (drop (pos + 4) page));
                    name = take (ne - pos) (drop pos page);
                    p = skip_blanks page ne
                in if p \<ge> length page \<or> page ! p \<noteq> CHR ''='' then scrape_loop page ne out
                   else (case scrape_value page ne (skip_blanks page (p + 1)) of
                           (q, None) \<Rightarrow> scrape_loop page q out
                         | (q, Some v) \<Rightarrow> scrape_loop page q (emplace name v out))))"
  by pat_completeness auto
termination
proof (relation "measure (\<lambda>(page, pos, out). length page - pos)", goal_cases)
  case 1
  then show ?case by simp
next
  case (2 page pos out k)
  then show ?case by (auto dest!: find_from_Some find_from_Some [OF sym])
next
  case (3 page pos out k ne name p)
  then show ?case by (auto dest!: find_from_Some find_from_Some [OF sym])
next
  case (4 page pos out k ne name p q v)
  then show ?case
    using skip_blanks_ge [of ne page] skip_blanks_ge [of "p + 1" page]
    by (auto dest!: find_from_Some find_from_Some [OF sym] scrape_value_ge [OF _ sym, rotated])
next
  case (5 page pos out k ne name p q v w)
  then show ?case
    using skip_blanks_ge [of ne page] skip_blanks_ge [of "p + 1" page]
    by (auto dest!: find_from_Some find_from_Some [OF sym] scrape_value_ge [OF _ sym, rotated])
qed

declare scrape_loop.simps [simp del]

definition scrape_info_params :: "string \<Rightarrow> (string \<Rightarrow> string option) \<Rightarrow> string \<Rightarrow> string option" where
  "scrape_info_params page out = scrape_loop page 0 out"

section \<open>The password\<close>

definition trim_end :: "string \<Rightarrow> string" where
  "trim_end v = rev (dropWhile (\<lambda>c. c = CHR 0x0A \<or> c = CHR 0x0D \<or> c = CHR '' '' \<or> c = CHR 0x09) (rev v))"

text \<open>\<open>env\<close> is the value of ILO_PASS, \<open>file\<close> the content of the file, if there is one; 511 bytes are read, as a C string.\<close>

definition read_ilo_password :: "string option \<Rightarrow> string option \<Rightarrow> string \<Rightarrow> string" where
  "read_ilo_password env file explicit =
     (if explicit \<noteq> [] then trim_end explicit
      else (let p = (case env of None \<Rightarrow> [] | Some e \<Rightarrow> trim_end e)
            in if p \<noteq> [] then p
               else (case file of
                       None \<Rightarrow> []
                     | Some f \<Rightarrow> trim_end (takeWhile (\<lambda>c. c \<noteq> CHR 0x00) (take 511 f)))))"

section \<open>Acquiring a session\<close>

text \<open>Each request makes a client of its own; the network and the generator go on from one to the next.\<close>

type_synonym ('a, 't, 'r) effect = "'t \<times> 'r \<Rightarrow> 'a reply \<times> ('t \<times> 'r)"

definition then_do :: "('a, 't, 'r) effect \<Rightarrow> ('a \<Rightarrow> ('b, 't, 'r) effect) \<Rightarrow> ('b, 't, 'r) effect" where
  "then_do m f w =
     (case m w of
        (Got x, w) \<Rightarrow> f x w
      | (Error e, w) \<Rightarrow> (Error e, w)
      | (Stuck, w) \<Rightarrow> (Stuck, w)
      | (Crash, w) \<Rightarrow> (Crash, w))"

definition page_request :: "'t transport \<Rightarrow> 'r rng \<Rightarrow> nat \<Rightarrow> string \<Rightarrow> u16 \<Rightarrow> string \<Rightarrow> string \<Rightarrow> (http_response, 't, 'r) effect" where
  "page_request TP rng fuel host port path ck w =
     (let (s, r) = w; (rep, c) = https_get TP rng fuel host port path ck (client_new VERSION_TLS_1_0 15000 0 s r)
      in (rep, (sock c, rand c)))"

text \<open>What \<open>ilo_login\<close> makes of the login page: the cookie and the session index.\<close>

definition login_page :: "string \<Rightarrow> string \<Rightarrow> http_response \<Rightarrow> (string \<times> string) reply" where
  "login_page user pass resp =
     (if r_status resp \<noteq> 200 then Error (''login.htm returned HTTP '' @ to_string (r_status resp))
      else (case find_quoted (r_body resp) ''sessionkey'' of
              None \<Rightarrow> Stuck
            | Some None \<Rightarrow> Error ''no sessionkey in login.htm (is this an iLO 2?)''
            | Some (Some key) \<Rightarrow>
                if key = ''NONEAVAILABLE'' then Error ''the iLO has no session slots free -- wait a few minutes and retry''
                else (case find_quoted (r_body resp) ''sessionindex'' of
                        None \<Rightarrow> Stuck
                      | Some None \<Rightarrow> Error ''no sessionindex in login.htm''
                      | Some (Some index) \<Rightarrow>
                          Got (''hp-iLO-Login='' @ index @ '':'' @ base64_encode user @ '':'' @ base64_encode pass @ '':'' @ key,
                               index))))"

definition ilo_login :: "'t transport \<Rightarrow> 'r rng \<Rightarrow> nat \<Rightarrow> string \<Rightarrow> u16 \<Rightarrow> string \<Rightarrow> string \<Rightarrow> (string \<times> string, 't, 'r) effect" where
  "ilo_login TP rng fuel host port user pass =
     then_do (page_request TP rng fuel host port ''/login.htm'' []) (\<lambda>resp w. (login_page user pass resp, w))"

definition console_page :: "string \<Rightarrow> console_params \<Rightarrow> http_response \<Rightarrow> console_params reply" where
  "console_page ck out resp =
     (if r_status resp \<noteq> 200 then Error (''drc2fram.htm returned HTTP '' @ to_string (r_status resp))
      else (let out = out\<lparr>cp_cookie := ck, cp_info := scrape_info_params (r_body resp) (cp_info out)\<rparr>
            in if \<not> has_param out ''info0'' \<or> get_param out ''info0'' [] = []
               then Error (''no info0 in drc2fram.htm -- the login was probably rejected, or '' @
                           ''the remote console is disabled or already in use'')
               else Got out))"

definition fetch_console_params ::
  "'t transport \<Rightarrow> 'r rng \<Rightarrow> nat \<Rightarrow> string \<Rightarrow> u16 \<Rightarrow> string \<Rightarrow> console_params \<Rightarrow> (console_params, 't, 'r) effect" where
  "fetch_console_params TP rng fuel host port ck out =
     then_do (page_request TP rng fuel host port ''/drc2fram.htm'' ck) (\<lambda>resp w. (console_page ck out resp, w))"

definition acquire_console_session ::
  "'t transport \<Rightarrow> 'r rng \<Rightarrow> nat \<Rightarrow> string \<Rightarrow> u16 \<Rightarrow> string \<Rightarrow> string \<Rightarrow> console_params \<Rightarrow> (console_params, 't, 'r) effect" where
  "acquire_console_session TP rng fuel host port user pass out =
     then_do (ilo_login TP rng fuel host port user pass) (\<lambda>(ck, index).
     then_do (fetch_console_params TP rng fuel host port ck out) (\<lambda>out w. (Got (out\<lparr>cp_index := index\<rparr>), w)))"

section \<open>Finding a quoted value\<close>

text \<open>The shape of a hit: the name at the start of an identifier, then \<open>= "value"\<close> with blanks.\<close>

definition quoted_at :: "string \<Rightarrow> string \<Rightarrow> string \<Rightarrow> bool" where
  "quoted_at page name v \<longleftrightarrow> (\<exists>front b1 b2 rest.
     page = front @ name @ b1 @ ''='' @ b2 @ [quote_char] @ v @ [quote_char] @ rest \<and>
     list_all is_blank b1 \<and> list_all is_blank b2 \<and> quote_char \<notin> set v \<and>
     (front = [] \<or> \<not> in_identifier (last front)))"

lemma find_from_take: 
  assumes "find_from s pat from = Some k"
  shows "from \<le> k" "k + length pat \<le> length s" "take (length pat) (drop k s) = pat"
    and "\<And>j. from \<le> j \<Longrightarrow> j < k \<Longrightarrow> \<not> prefix pat (drop j s)"
proof -
  obtain i where i: "find_str pat (drop from s) = Some i" "k = from + i" "from \<le> length s"
    using assms by (auto simp: find_from_def split: if_splits)
  note p = find_str_Some [OF i(1)]
  show "from \<le> k" "k + length pat \<le> length s" using p i by auto
  show "take (length pat) (drop k s) = pat" using p i by (auto simp: prefix_def add.commute)
  show "\<not> prefix pat (drop j s)" if "from \<le> j" "j < k" for j
    using p i that by (metis drop_drop le_add_diff_inverse2 nat_add_left_cancel_less add.commute)
qed

lemma skip_blanks_split:
  assumes "p \<le> length page" and "q = skip_blanks page p"
  shows "\<exists>b. list_all is_blank b \<and> q \<le> length page \<and> drop p page = b @ drop q page"
proof -
  let ?b = "takeWhile is_blank (drop p page)"
  have "length ?b \<le> length page - p" using length_takeWhile_le [of is_blank "drop p page"] by simp
  moreover have "drop p page = ?b @ drop (length ?b) (drop p page)"
    by (metis takeWhile_dropWhile_id dropWhile_eq_drop)
  moreover have "list_all is_blank ?b" by (simp add: list_all_iff) (meson set_takeWhileD)
  ultimately show ?thesis using assms by (intro exI [of _ ?b]) (simp add: skip_blanks_def add.commute)
qed

lemma drop_at: "p < length xs \<Longrightarrow> drop p xs = xs ! p # drop (p + 1) xs"
  by (simp add: Cons_nth_drop_Suc)

lemma quoted_found:
  assumes k: "find_from page name pos = Some k" and start: "\<not> (k > 0 \<and> in_identifier (page ! (k - 1)))"
    and p: "p = skip_blanks page (k + length name)" "p < length page" "page ! p = CHR ''=''"
    and q: "q = skip_blanks page (p + 1)" "q < length page" "page ! q = quote_char"
    and ve: "find_from page [quote_char] (q + 1) = Some ve"
  shows "quoted_at page name (take (ve - (q + 1)) (drop (q + 1) page))"
proof -
  note f = find_from_take [OF k]
  obtain b1 where b1: "list_all is_blank b1" "drop (k + length name) page = b1 @ drop p page"
    using skip_blanks_split [OF f(2) p(1)] by blast
  obtain b2 where b2: "list_all is_blank b2" "drop (p + 1) page = b2 @ drop q page"
    using skip_blanks_split [of "p + 1" page q] p(2) q(1) by auto
  let ?v = "take (ve - (q + 1)) (drop (q + 1) page)"
  note g = find_from_take [OF ve]
  have v: "ve < length page" "page ! ve = quote_char" using g(2,3) by (auto simp: drop_at)
  have "page = take k page @ take (length name) (drop k page) @ drop (k + length name) page"
    by (metis append_take_drop_id drop_drop add.commute)
  then have "page = take k page @ name @ b1 @ drop p page" using f(3) b1(2) by simp
  also have "drop p page = ''='' @ b2 @ drop q page" using drop_at [OF p(2)] p(3) b2(2) by simp
  also have "drop q page = [quote_char] @ drop (q + 1) page" using drop_at [OF q(2)] q(3) by simp
  also have "drop (q + 1) page = ?v @ drop ve page" using g(1) by (metis append_take_drop_id drop_drop le_add_diff_inverse2)
  also have "drop ve page = [quote_char] @ drop (ve + 1) page" using drop_at [OF v(1)] v(2) by simp
  finally have "page = take k page @ name @ b1 @ ''='' @ b2 @ [quote_char] @ ?v @ [quote_char] @ drop (ve + 1) page" by simp
  moreover have "quote_char \<notin> set ?v"
  proof
    assume "quote_char \<in> set ?v"
    then obtain i where i: "i < ve - (q + 1)" "page ! (q + 1 + i) = quote_char"
      using g(2) by (auto simp: in_set_conv_nth)
    then have "prefix [quote_char] (drop (q + 1 + i) page)" using v(1) by (simp add: drop_at)
    with g(4) [of "q + 1 + i"] i(1) show False by simp
  qed
  moreover have "take k page = [] \<or> \<not> in_identifier (last (take k page))"
    using start f(2) by (cases k) (auto simp: take_Suc_conv_app_nth)
  ultimately show ?thesis using b1(1) b2(1) unfolding quoted_at_def by blast
qed

lemma find_quoted_loop_sound: "find_quoted_loop fuel page name pos = Some (Some v) \<Longrightarrow> quoted_at page name v"
proof (induction fuel arbitrary: pos)
  case (Suc fuel)
  show ?case
  proof (cases "find_from page name pos")
    case None
    with Suc.prems show ?thesis by (simp add: find_quoted_loop.simps(2))
  next
    case (Some k)
    let ?next = "find_quoted_loop fuel page name (k + length name)"
    define p where "p = skip_blanks page (k + length name)"
    define q where "q = skip_blanks page (p + 1)"
    note r = Suc.prems [unfolded find_quoted_loop.simps(2) Some option.case Let_def, folded p_def, folded q_def]
    show ?thesis
    proof (cases "(k > 0 \<and> in_identifier (page ! (k - 1))) \<or> p \<ge> length page \<or> page ! p \<noteq> CHR ''='' \<or> q \<ge> length page \<or> page ! q \<noteq> quote_char")
      case True
      then have "?next = Some (Some v)" using r by (auto split: if_splits)
      then show ?thesis by (rule Suc.IH)
    next
      case False
      then have c: "\<not> (k > 0 \<and> in_identifier (page ! (k - 1)))" "p < length page" "page ! p = CHR ''=''" "q < length page" "page ! q = quote_char"
        by auto
      with r obtain ve where "find_from page [quote_char] (q + 1) = Some ve" "v = take (ve - (q + 1)) (drop (q + 1) page)"
        by (auto split: option.splits)
      with quoted_found [OF Some c(1) p_def c(2,3) q_def c(4,5)] show ?thesis by simp
    qed
  qed
qed simp

lemma find_quoted_loop_ends:
  "name \<noteq> [] \<Longrightarrow> 0 < fuel \<Longrightarrow> length page < pos + fuel \<Longrightarrow> find_quoted_loop fuel page name pos \<noteq> None"
proof (induction fuel arbitrary: pos)
  case (Suc fuel)
  show ?case
  proof (cases "find_from page name pos")
    case None
    then show ?thesis by (simp add: find_quoted_loop.simps(2))
  next
    case (Some k)
    note f = find_from_take [OF Some]
    have "0 < length name" using Suc.prems(1) by simp
    then have "0 < fuel" "length page < k + length name + fuel" using f(1,2) Suc.prems(3) by linarith+
    then have "find_quoted_loop fuel page name (k + length name) \<noteq> None" using Suc.IH Suc.prems(1) by blast
    then show ?thesis using Some by (auto simp: find_quoted_loop.simps(2) Let_def split: option.split)
  qed
qed simp

section \<open>Scraping keeps what it found\<close>

lemma emplace_extends: "m \<subseteq>\<^sub>m emplace k v m"
  by (auto simp: emplace_def map_le_def)

lemma scrape_extends: "out \<subseteq>\<^sub>m scrape_loop page pos out"
proof (induction "length page - pos" arbitrary: pos out rule: less_induct)
  case less
  show ?case
  proof (cases "find_from page ''info'' pos")
    case None
    then show ?thesis by (simp add: scrape_loop.simps)
  next
    case (Some k)
    define ne where "ne = k + 4 + length (takeWhile (\<lambda>c. is_lower c \<or> is_digit c) (drop (k + 4) page))"
    define p where "p = skip_blanks page ne"
    obtain q w where w: "scrape_value page ne (skip_blanks page (p + 1)) = (q, w)" by (cases "scrape_value page ne (skip_blanks page (p + 1))")
    have k: "pos \<le> k" "k + 4 \<le> length page" using find_from_Some [OF Some] by simp_all
    have ne: "k + 4 \<le> ne" "ne \<le> q"
      using skip_blanks_ge [of ne page] skip_blanks_ge [of "p + 1" page] scrape_value_ge [OF _ w]
      by (simp_all add: ne_def p_def)
    have ih: "out' \<subseteq>\<^sub>m scrape_loop page j out'" if "k + 4 \<le> j" for j out'
      using less [of j out'] that k by simp
    have s: "scrape_loop page pos out =
      (if k > 0 \<and> in_identifier (page ! (k - 1)) then scrape_loop page (k + 4) out
       else if p \<ge> length page \<or> page ! p \<noteq> CHR ''='' then scrape_loop page ne out
       else scrape_loop page q (case w of None \<Rightarrow> out | Some v \<Rightarrow> emplace (take (ne - k) (drop k page)) v out))"
      unfolding scrape_loop.simps [of page pos out] Some option.case Let_def ne_def [symmetric] p_def [symmetric] w prod.case
      by (cases w) auto
    show ?thesis
      unfolding s using ih ne map_le_trans [OF emplace_extends ih [of q]] by (simp split: option.split)
  qed
qed

section \<open>Properties\<close>

text \<open>The login page: \<open>ilo_login\<close>'s reading of any page comes to an end; when it yields a cookie, the page had status 200 and carries both \<open>sessionkey="..."\<close> and \<open>sessionindex="..."\<close>, each at the start of an identifier with nothing but blanks around the equals sign and no quote inside the value, the key is not the marker for no free slots, and the cookie is made of exactly these values and the encoded credentials.\<close>

theorem login_page_sound:
  "case login_page user pass resp of
     Got (ck, index) \<Rightarrow> r_status resp = 200 \<and>
       (\<exists>key. quoted_at (r_body resp) ''sessionkey'' key \<and> quoted_at (r_body resp) ''sessionindex'' index \<and>
          key \<noteq> ''NONEAVAILABLE'' \<and>
          ck = ''hp-iLO-Login='' @ index @ '':'' @ base64_encode user @ '':'' @ base64_encode pass @ '':'' @ key)
   | Error e \<Rightarrow> e \<noteq> []
   | Stuck \<Rightarrow> False
   | Crash \<Rightarrow> False"
proof -
  have e: "find_quoted (r_body resp) ''sessionkey'' \<noteq> None" "find_quoted (r_body resp) ''sessionindex'' \<noteq> None"
    unfolding find_quoted_def by (intro find_quoted_loop_ends; simp)+
  show ?thesis
    unfolding login_page_def find_quoted_def
    using e [unfolded find_quoted_def] by (auto split: option.split dest!: find_quoted_loop_sound)
qed

end
