(* ===== verification/Console_Core.thy ===== *)
theory Console_Core
  imports Console_View Cim_Session Ilo_Session
begin

text \<open>
  Class \<open>ConsoleCore\<close> of \<open>ui/console_core.hpp\<close>: the state shared by the worker and the front end, the
  input queue and \<open>pump\<close>, the decoder plumbing of \<open>CoreSession\<close>, the two worker threads as sequential
  programs, and the parsing of the console parameters. The locks make each method one step; the
  interleaving of the threads is not modelled. The clock is a sequence of readings in nanoseconds.
\<close>

unbundle bit_operations_syntax

section \<open>Shared state\<close>

datatype console_state = Idle | Connecting | Connected | Stopped | Failed

fun console_state_name :: "console_state \<Rightarrow> string" where
  "console_state_name Idle = ''idle''"
| "console_state_name Connecting = ''connecting''"
| "console_state_name Connected = ''connected''"
| "console_state_name Stopped = ''stopped''"
| "console_state_name Failed = ''failed''"

text \<open>\<open>c_worker\<close> is \<open>worker_.joinable()\<close>; \<open>overrun\<close> is set by the decoder's fault, after which the program's behaviour is undefined.\<close>

record core =
  c_state :: console_state
  c_running :: bool
  c_worker :: bool
  decoder :: dvc_decoder
  fb :: tracking
  c_input :: input
  outbox :: "bytes list"
  want_refresh :: bool
  c_status :: string
  c_error :: string
  last_refresh :: int
  clock :: "nat \<Rightarrow> int"
  clock_reads :: nat
  overrun :: bool

definition core_new :: "(nat \<Rightarrow> int) \<Rightarrow> core" where
  "core_new clk = \<lparr>c_state = Idle, c_running = False, c_worker = False, decoder = dvc_decoder_init, fb = tracking_new,
     c_input = \<lparr>screen_w = 0, screen_h = 0, absolute = True\<rparr>, outbox = [], want_refresh = False, c_status = '''', c_error = '''',
     last_refresh = 0, clock = clk, clock_reads = 0, overrun = False\<rparr>"

definition read_clock :: "core \<Rightarrow> int \<times> core" where
  "read_clock s = (clock s (clock_reads s), s\<lparr>clock_reads := clock_reads s + 1\<rparr>)"

text \<open>\<open>fb_.process_dvc(c)\<close>: one decoder step, whose events go to the framebuffer.\<close>

definition core_process :: "byte \<Rightarrow> core \<Rightarrow> core" where
  "core_process c s =
     (case process_dvc c (decoder s) of
        Inl f \<Rightarrow> s\<lparr>overrun := True\<rparr>
      | Inr d \<Rightarrow> s\<lparr>decoder := d, fb := fold tracking_event (drop (length (events (decoder s))) (events d)) (fb s)\<rparr>)"

definition core_dvc :: "byte \<Rightarrow> core \<Rightarrow> bool \<times> core" where
  "core_dvc c s = (True, core_process c s)"

section \<open>The front end's input\<close>

definition queue_locked :: "bytes \<Rightarrow> core \<Rightarrow> core" where
  "queue_locked bs s =
     (if bs = [] then s else if length (outbox s) > 4096 then s else s\<lparr>outbox := outbox s @ [bs]\<rparr>)"

definition mouse_move :: "int \<Rightarrow> int \<Rightarrow> core \<Rightarrow> core" where
  "mouse_move x y s =
     (let i = (c_input s)\<lparr>screen_w := fb_w (fb s), screen_h := fb_h (fb s)\<rparr>
      in queue_locked (input_move x y i) (s\<lparr>c_input := i\<rparr>))"

definition mouse_button :: "int \<Rightarrow> bool \<Rightarrow> core \<Rightarrow> core" where
  "mouse_button button down s = queue_locked (if down then input_press button else input_release button) s"

definition core_type_char :: "byte \<Rightarrow> core \<Rightarrow> core" where
  "core_type_char c s = queue_locked (input_type_char c) s"

definition core_type_text :: "bytes \<Rightarrow> core \<Rightarrow> core" where
  "core_type_text cs s = fold (\<lambda>c. queue_locked (input_type_char c)) cs s"

definition send_raw :: "bytes \<Rightarrow> core \<Rightarrow> core" where
  "send_raw bs s = queue_locked bs s"

definition send_ctrl_alt_del :: "core \<Rightarrow> core" where
  "send_ctrl_alt_del s = queue_locked ctrl_alt_del s"

definition request_refresh :: "core \<Rightarrow> core" where
  "request_refresh s = s\<lparr>want_refresh := True\<rparr>"

section \<open>Pumping\<close>

fun transmit_all :: "'s net \<Rightarrow> bytes list \<Rightarrow> ('s, 'd) cim \<Rightarrow> ('s, 'd) cim option" where
  "transmit_all N [] t = Some t"
| "transmit_all N (m # ms) t = (case cim_transmit N m t of None \<Rightarrow> None | Some t \<Rightarrow> transmit_all N ms t)"

definition pump :: "'s net \<Rightarrow> int \<Rightarrow> ('s, core) cim \<Rightarrow> ('s, core) cim option" where
  "pump N every t =
     (let pending = outbox (sink t); refresh = want_refresh (sink t);
          t = t\<lparr>sink := (sink t)\<lparr>outbox := [], want_refresh := False\<rparr>\<rparr>
      in case transmit_all N pending t of
           None \<Rightarrow> None
         | Some t \<Rightarrow>
             (let (refresh, t) =
                (if every > 0
                 then (let (now, s) = read_clock (sink t)
                       in if (now - last_refresh s) sdiv 1000000000 \<ge> every
                          then (True, t\<lparr>sink := s\<lparr>last_refresh := now\<rparr>\<rparr>) else (refresh, t\<lparr>sink := s\<rparr>))
                 else (refresh, t))
              in if refresh then refresh_screen N t else Some t))"

section \<open>Console parameters\<close>

definition nybble :: "char \<Rightarrow> int" where
  "nybble c =
     (let n = of_char c :: int
      in if 48 \<le> n \<and> n \<le> 57 then n - 48 else if 97 \<le> n \<and> n \<le> 102 then n - 97 + 10
         else if 65 \<le> n \<and> n \<le> 70 then n - 65 + 10 else -1)"

definition core_hex16 :: "string \<Rightarrow> bytes option" where
  "core_hex16 s =
     (if length s < 32 then None
      else if list_ex (\<lambda>i. nybble (s ! (2 * i)) < 0 \<or> nybble (s ! (2 * i + 1)) < 0) [0..<16] then None
      else Some (map (\<lambda>i. word_of_int (push_bit 4 (nybble (s ! (2 * i))) OR nybble (s ! (2 * i + 1)))) [0..<16]))"

definition b64_val :: "char \<Rightarrow> int" where
  "b64_val c =
     (let n = of_char c :: int
      in if 65 \<le> n \<and> n \<le> 90 then n - 65 else if 97 \<le> n \<and> n \<le> 122 then n - 97 + 26
         else if 48 \<le> n \<and> n \<le> 57 then n - 48 + 52 else if c = CHR ''+'' then 62 else if c = CHR ''/'' then 63 else 0)"

definition fix_colon :: "int \<Rightarrow> byte" where
  "fix_colon v = (if (word_of_int v :: byte) = 0x3A then 0x0D else word_of_int v)"

text \<open>The loop over groups of four; a group with a padding character is the last.\<close>

fun hp_groups :: "string \<Rightarrow> bytes" where
  "hp_groups (a # b # c # d # rest) =
     (let c1 = b64_val a; c2 = b64_val b; c3 = b64_val c; c4 = b64_val d;
          out = [fix_colon (push_bit 2 c1 + drop_bit 4 c2)] @
            (if c = CHR ''='' then [] else [fix_colon (push_bit 4 c2 + drop_bit 2 c3)]) @
            (if d = CHR ''='' then [] else [fix_colon (push_bit 6 c3 + c4)])
      in if c = CHR ''='' \<or> d = CHR ''='' then out else out @ hp_groups rest)"
| "hp_groups _ = []"

definition hp_base64_decode :: "string \<Rightarrow> bytes" where
  "hp_base64_decode s = (let out = hp_groups s in if out \<noteq> [] then out @ [0x0D] else out)"

text \<open>What \<open>live_thread\<close> computes from the parameters: the login, the keys and the port, or the error.\<close>

record session_plan =
  p_login :: bytes
  p_keys :: "(bytes \<times> bytes \<times> u32) option"
  p_port :: int

definition plan_login :: "console_params \<Rightarrow> string \<Rightarrow> bytes" where
  "plan_login cp info0 =
     (let login = hp_base64_decode info0
      in if login = [] then login
         else [0x1B, 0x5B, 0x37, 0x1B, 0x5B, 0x39] @ (if has_param cp ''info1'' then [0x1B, 0x5B, 0x34] else []) @ login)"

definition plan_session :: "int \<Rightarrow> console_params \<Rightarrow> string + session_plan" where
  "plan_session console_port cp =
     (let info0 = get_param cp ''info0'' '''';
          port = (if console_port \<noteq> 0 then console_port else atoi (get_param cp ''info6'' ''23''))
      in if info0 = '''' then Inl ''no info0 in the console parameters''
         else if get_param cp ''infoa'' ''1'' = ''1''
         then (case (core_hex16 (get_param cp ''infob'' ''''), core_hex16 (get_param cp ''infoc'' '''')) of
                 (Some kb, Some kc) \<Rightarrow>
                   Inr \<lparr>p_login = plan_login cp info0, p_keys = Some (kb, kc, word_of_int (atoi (get_param cp ''infod'' ''0''))),
                        p_port = port\<rparr>
               | _ \<Rightarrow> Inl ''malformed session keys (infob/infoc)'')
         else Inr \<lparr>p_login = plan_login cp info0, p_keys = None, p_port = port\<rparr>)"

section \<open>The worker threads\<close>

definition core_fail :: "string \<Rightarrow> core \<Rightarrow> core" where
  "core_fail msg s = s\<lparr>c_error := msg, c_state := Failed, c_running := False\<rparr>"

record config =
  cfg_host :: string
  cfg_user :: string
  cfg_pass :: string
  cfg_https_port :: u16
  cfg_console_port :: int
  cfg_refresh_every :: int

text \<open>\<open>start\<close>, and \<open>stop\<close> from the \<open>join\<close> on.\<close>

definition core_start :: "config \<Rightarrow> core \<Rightarrow> string + core" where
  "core_start cfg s =
     (if c_worker s then Inl ''already running''
      else if cfg_host cfg = [] then Inl ''no host''
      else Inr (s\<lparr>c_state := Connecting, c_running := True, c_worker := True\<rparr>))"

definition core_stop :: "core \<Rightarrow> core" where
  "core_stop s =
     (let s = s\<lparr>c_running := False, c_worker := False\<rparr>
      in if c_state s \<noteq> Failed then s\<lparr>c_state := Stopped\<rparr> else s)"

text \<open>A recorded stream: the size \<open>ftell\<close> reports and the bytes \<open>fread\<close> returns, or no file.\<close>

definition core_start_replay :: "string \<Rightarrow> (nat \<times> bytes) option \<Rightarrow> core \<Rightarrow> string + core \<times> bytes" where
  "core_start_replay path file s =
     (if c_worker s then Inl ''already running''
      else (case file of
              None \<Rightarrow> Inl (''cannot open '' @ path)
            | Some (n, data) \<Rightarrow>
                if n \<noteq> 0 \<and> length data \<noteq> n then Inl (''short read on '' @ path)
                else Inr (s\<lparr>c_state := Connecting, c_running := True, c_worker := True\<rparr>, take n data)))"

definition worker_done :: "core \<Rightarrow> core" where
  "worker_done s =
     (let s = s\<lparr>c_running := False\<rparr> in if c_state s \<noteq> Failed then s\<lparr>c_state := Stopped\<rparr> else s)"

text \<open>The override of \<open>set_status\<close> keeps the last text in \<open>status_\<close>.\<close>

definition with_status :: "('s, core) cim \<Rightarrow> core" where
  "with_status t = (if statuses t = [] then sink t else (sink t)\<lparr>c_status := snd (last (statuses t))\<rparr>)"

definition stop_session :: "'s net \<Rightarrow> ('s, core) cim \<Rightarrow> 's \<times> core" where
  "stop_session N t =
     (let t = telnet_disconnect N (t\<lparr>sink := (sink t)\<lparr>c_running := False\<rparr>\<rparr>)
      in (t_net t, core_stop (with_status t)))"

text \<open>From the console parameters on: connect, select the mouse mode, run, wind up.\<close>

definition console_session :: "'s net \<Rightarrow> nat \<Rightarrow> config \<Rightarrow> session_plan \<Rightarrow> 's \<Rightarrow> core \<Rightarrow> ('s \<times> core) run_result" where
  "console_session N fuel cfg p net s =
     (let t = cim_new net s;
          t = (case p_keys p of None \<Rightarrow> t | Some (kb, kc, index) \<Rightarrow> setup_encryption kc index (setup_decryption kb t))
      in case cim_connect N (cfg_host cfg) (p_login p) (p_port p) t of
           None \<Rightarrow> Faulted
         | Some (False, t) \<Rightarrow>
             Ended (t_net t, core_fail (''cannot connect to the console port '' @ to_string (p_port p)) (with_status t))
         | Some (True, t) \<Rightarrow>
             (case cim_transmit N (select_mouse True) t of
                None \<Rightarrow> Faulted
              | Some t \<Rightarrow>
                  (let s = (sink t)\<lparr>c_state := Connected\<rparr>; (now, s) = read_clock s;
                       t = t\<lparr>sink := s\<lparr>last_refresh := now\<rparr>\<rparr>
                   in case telnet_run N core_dvc (pump N (cfg_refresh_every cfg)) fuel t of
                        Ended t \<Rightarrow> Ended (t_net t, worker_done (with_status t))
                      | Spent \<Rightarrow> Spent
                      | Faulted \<Rightarrow> Faulted)))"

definition live_thread ::
  "'t transport \<Rightarrow> 'r rng \<Rightarrow> 's net \<Rightarrow> nat \<Rightarrow> config \<Rightarrow> 't \<times> 'r \<Rightarrow> 's \<Rightarrow> core \<Rightarrow> ('s \<times> core) run_result" where
  "live_thread TP rng N fuel cfg w net s =
     (case fst (acquire_console_session TP rng fuel (cfg_host cfg) (cfg_https_port cfg) (cfg_user cfg) (cfg_pass cfg)
             \<lparr>cp_info = Map.empty, cp_index = '''', cp_cookie = ''''\<rparr> w) of
        Stuck \<Rightarrow> Spent
      | Crash \<Rightarrow> Faulted
      | Error e \<Rightarrow> Ended (net, core_fail e s)
      | Got cp \<Rightarrow>
          (case plan_session (cfg_console_port cfg) cp of
             Inl e \<Rightarrow> Ended (net, core_fail e s)
           | Inr p \<Rightarrow> console_session N fuel cfg p net s))"

text \<open>The replay of a captured stream, without its pauses; \<open>running_\<close> stays set.\<close>

function replay_loop :: "nat \<Rightarrow> bytes \<Rightarrow> core \<Rightarrow> core" where
  "replay_loop chunk data s =
     (if data = [] then s
      else replay_loop chunk (drop (Suc chunk) data) (fold core_process (take (Suc chunk) data) s))"
  by pat_completeness auto
termination
  by (relation "measure (\<lambda>(chunk, data, s). length data)") auto

declare replay_loop.simps [simp del]

definition replay_thread :: "nat \<Rightarrow> bytes \<Rightarrow> core \<Rightarrow> core" where
  "replay_thread rate data s =
     (let s = s\<lparr>c_state := Connected\<rparr>;
          chunk = (if rate > 0 then rate div 20 + 1 else length data);
          s = replay_loop (chunk - 1) data s
      in s\<lparr>c_status := ''replay finished'', c_running := False, c_state := Stopped\<rparr>)"

section \<open>Base64 there and back\<close>

lemma nat_and_63: "(n AND 63 :: nat) = n mod 64"
  using take_bit_eq_mask [of 6 n] by (simp add: take_bit_eq_mod mask_eq_exp_minus_1)

lemma b64_val_table:
  assumes "k < 64"
  shows "b64_val (base64_table ! k) = int k" and "base64_table ! k \<noteq> CHR ''=''"
proof -
  have "k \<in> set [0..<64]" using assms by simp
  then show "b64_val (base64_table ! k) = int k" "base64_table ! k \<noteq> CHR ''=''"
    by (auto simp: upt_rec base64_table_def b64_val_def)
qed

lemma sextets:
  fixes a b c :: nat
  assumes "a < 256" and "b < 256" and "c < 256"
  defines "n \<equiv> 65536 * a + 256 * b + c"
  shows "n div 262144 mod 64 = a div 4" "n div 4096 mod 64 = 16 * (a mod 4) + b div 16"
    "n div 64 mod 64 = 4 * (b mod 16) + c div 64" "n mod 64 = c mod 64"
proof -
  define a1 a0 b1 b0 c1 c0 where d: "a1 = a div 4" "a0 = a mod 4" "b1 = b div 16" "b0 = b mod 16" "c1 = c div 64" "c0 = c mod 64"
  have e: "a = 4 * a1 + a0" "b = 16 * b1 + b0" "c = 64 * c1 + c0" by (simp_all add: d)
  have l: "a1 < 64" "a0 < 4" "b1 < 16" "b0 < 16" "c1 < 4" "c0 < 64" using assms(1-3) by (simp_all add: d)
  define x2 where "x2 = 64 * a1 + (16 * a0 + b1)"
  define x1 where "x1 = 64 * x2 + (4 * b0 + c1)"
  have n: "n = 64 * x1 + c0" unfolding n_def e x1_def x2_def by simp
  have q: "n div 64 = x1" "n mod 64 = c0" using l by (simp_all add: n)
  have q2: "x1 div 64 = x2" "x1 mod 64 = 4 * b0 + c1" using l by (simp_all add: x1_def)
  have q3: "x2 div 64 = a1" "x2 mod 64 = 16 * a0 + b1" using l by (simp_all add: x2_def)
  have dd: "n div 4096 = n div 64 div 64" "n div 262144 = n div 64 div 64 div 64" by (simp_all add: div_mult2_eq [symmetric])
  show "n div 262144 mod 64 = a div 4" "n div 4096 mod 64 = 16 * (a mod 4) + b div 16"
    "n div 64 mod 64 = 4 * (b mod 16) + c div 64" "n mod 64 = c mod 64"
    unfolding dd using q q2 q3 l by (simp_all add: d)
qed

lemma of_char_256 [simp]: "(of_char c :: nat) < 256"
  by (fact nat_of_char_less_256)

lemma joined: "a < 256 \<Longrightarrow> b < 256 \<Longrightarrow> c < 256 \<Longrightarrow> push_bit 16 a OR push_bit 8 b OR c = 65536 * a + 256 * b + (c :: nat)"
  using or_disjoint_add [of 8 "push_bit 8 b" c] or_disjoint_add [of 16 "push_bit 16 a" "push_bit 8 b OR c"]
  by (simp add: push_bit_eq_mult)

lemma b64_sextet: "b64_val (b64 n k) = int (n div 2 ^ k mod 64)" "b64 n k \<noteq> CHR ''=''"
  using b64_val_table [of "n div 2 ^ k mod 64"] by (simp_all add: b64_def nat_and_63 drop_bit_eq_div)

lemma fix_colon_nat: "fix_colon (int m) = (if m mod 256 = 58 then 0x0D else word_of_nat m)"
proof -
  have "(word_of_nat m :: byte) = word_of_nat 58 \<longleftrightarrow> m mod 256 = 58"
    by (simp only: word_of_nat_eq_iff) (simp add: take_bit_eq_mod)
  then show ?thesis by (simp add: fix_colon_def)
qed

lemma byte_of_sum: "(word_of_nat (256 * k + b) :: byte) = word_of_nat b"
  by (simp only: word_of_nat_eq_iff) (simp add: take_bit_eq_mod)

text \<open>What HP's decoder makes of a character.\<close>

definition hp_char :: "char \<Rightarrow> byte" where
  "hp_char c = (if c = CHR '':'' then 0x0D else word_of_nat (of_char c))"

lemma colon_code: "(of_char c :: nat) = 58 \<longleftrightarrow> c = CHR '':''"
  using of_char_eq_iff [of c "CHR '':''", where 'a = nat] by simp

lemma fix_colon_char: "m = 256 * k + of_char c \<Longrightarrow> fix_colon (int m) = hp_char c"
  using byte_of_sum [of k "of_char c"] by (simp only: fix_colon_nat hp_char_def) (auto simp: colon_code)

lemma shifted: "push_bit k (int x) + drop_bit j (int y) = int (2 ^ k * x + y div 2 ^ j)"
  by (simp add: push_bit_eq_mult drop_bit_eq_div zdiv_int mult.commute)

text \<open>The three bytes of a group, from the sextets of the encoder.\<close>

lemma group_bytes:
  fixes a b c :: char
  defines "n \<equiv> 65536 * of_char a + 256 * of_char b + of_char c :: nat"
  shows "fix_colon (push_bit 2 (b64_val (b64 n 18)) + drop_bit 4 (b64_val (b64 n 12))) = hp_char a"
    and "fix_colon (push_bit 4 (b64_val (b64 n 12)) + drop_bit 2 (b64_val (b64 n 6))) = hp_char b"
    and "fix_colon (push_bit 6 (b64_val (b64 n 6)) + b64_val (b64 n 0)) = hp_char c"
proof -
  let ?a = "of_char a :: nat" and ?b = "of_char b :: nat" and ?c = "of_char c :: nat"
  note s = sextets [of ?a ?b ?c, folded n_def, simplified]
  have m: "(of_char x :: nat) div 16 div 16 = 0" "(of_char x :: nat) div 64 div 4 = 0" for x
    by (simp_all only: div_mult2_eq [symmetric]) simp_all
  show "fix_colon (push_bit 2 (b64_val (b64 n 18)) + drop_bit 4 (b64_val (b64 n 12))) = hp_char a"
    by (simp only: b64_sextet shifted, rule fix_colon_char [of _ 0]) (simp add: s m)
  have "2 ^ 4 * (16 * (?a mod 4) + ?b div 16) + ?b mod 16 = 256 * (?a mod 4) + ?b" by simp
  then show "fix_colon (push_bit 4 (b64_val (b64 n 12)) + drop_bit 2 (b64_val (b64 n 6))) = hp_char b"
    by (simp only: b64_sextet shifted, intro fix_colon_char [of _ "?a mod 4"]) (simp add: s m)
  have "push_bit 6 (int x) + int y = int (2 ^ 6 * x + y)" for x y by (simp add: push_bit_eq_mult)
  moreover have "2 ^ 6 * (4 * (?b mod 16) + ?c div 64) + ?c mod 64 = 256 * (?b mod 16) + ?c" by simp
  ultimately show "fix_colon (push_bit 6 (b64_val (b64 n 6)) + b64_val (b64 n 0)) = hp_char c"
    by (simp only: b64_sextet, intro fix_colon_char [of _ "?b mod 16"]) (simp add: s)
qed

lemma hp_groups_encode: "hp_groups (base64_encode s) = map hp_char s"
proof (induction s rule: base64_encode.induct)
  case (1 a b c rest)
  have n: "push_bit 16 (of_char a) OR push_bit 8 (of_char b) OR of_char c = (65536 * of_char a + 256 * of_char b + of_char c :: nat)"
    by (rule joined) simp_all
  show ?case unfolding base64_encode.simps Let_def n append_Cons append_Nil
    by (simp add: group_bytes b64_sextet(2) 1 Let_def)
next
  case (2 a)
  have n: "push_bit 16 (of_char a) = (65536 * of_char a + 256 * of_char (CHR 0x00) + of_char (CHR 0x00) :: nat)"
    by (simp add: push_bit_eq_mult)
  show ?case unfolding base64_encode.simps Let_def n append_Cons append_Nil
    using group_bytes(1) [of a "CHR 0x00" "CHR 0x00"] by (simp add: Let_def)
next
  case (3 a b)
  have n: "push_bit 16 (of_char a) OR push_bit 8 (of_char b) = (65536 * of_char a + 256 * of_char b + of_char (CHR 0x00) :: nat)"
    using joined [of "of_char a" "of_char b" 0] by simp
  show ?case unfolding base64_encode.simps Let_def n append_Cons append_Nil
    using group_bytes(1,2) [of a b "CHR 0x00"] by (simp add: b64_sextet(2) Let_def)
qed simp

section \<open>Draining the queue\<close>

lemma transmit_all_wire:
  assumes "speaking r t" and N: "net_accepts N wire"
  shows "\<exists>t'. transmit_all N ms t = Some t' \<and> speaking (snd (crypt (concat ms) r)) t' \<and> sink t' = sink t \<and>
    wire (t_net t') = wire (t_net t) @ fst (crypt (concat ms) r)"
  using assms(1)
proof (induction ms arbitrary: r t)
  case (Cons m ms)
  obtain t1 where t1: "cim_transmit N m t = Some t1" "speaking (snd (crypt m r)) t1" "wire (t_net t1) = wire (t_net t) @ fst (crypt m r)"
    using speaking_transmit [OF Cons.prems N] by blast
  have "sink t1 = sink t" using t1(1)
    by (auto simp: cim_transmit_def telnet_transmit_def Let_def split: if_splits option.splits prod.splits bool.splits)
  moreover obtain t' where "transmit_all N ms t1 = Some t'" "speaking (snd (crypt (concat ms) (snd (crypt m r)))) t'" "sink t' = sink t1"
    "wire (t_net t') = wire (t_net t1) @ fst (crypt (concat ms) (snd (crypt m r)))"
    using Cons.IH [OF t1(2)] by blast
  ultimately show ?case using t1 by (auto simp: crypt_append split_beta)
qed simp

lemma type_text_outbox:
  assumes "length (outbox s) + length cs \<le> 4097"
  shows "core_type_text cs s = s\<lparr>outbox := outbox s @ map input_type_char cs\<rparr>"
  using assms
proof (induction cs arbitrary: s)
  case (Cons c cs)
  have "queue_locked (input_type_char c) s = s\<lparr>outbox := outbox s @ [input_type_char c]\<rparr>"
    using Cons.prems by (simp add: queue_locked_def input_type_char_def)
  moreover have "core_type_text cs (s\<lparr>outbox := outbox s @ [input_type_char c]\<rparr>) =
      s\<lparr>outbox := (outbox s @ [input_type_char c]) @ map input_type_char cs\<rparr>"
    using Cons.IH [of "s\<lparr>outbox := outbox s @ [input_type_char c]\<rparr>"] Cons.prems by simp
  ultimately show ?case by (simp add: core_type_text_def)
qed (simp add: core_type_text_def)

lemma refresh_wire:
  assumes "speaking r t" and "net_accepts N wire"
  shows "\<exists>t'. refresh_screen N t = Some t' \<and> speaking (snd (crypt [0x1B, 0x5B, 0x7E] r)) t' \<and> sink t' = sink t \<and>
    wire (t_net t') = wire (t_net t) @ fst (crypt [0x1B, 0x5B, 0x7E] r)"
  using transmit_all_wire [OF assms, of "[[0x1B, 0x5B, 0x7E]]"] by (auto simp: refresh_screen_def split: option.splits)

definition refresh_due :: "int \<Rightarrow> core \<Rightarrow> bool" where
  "refresh_due every s \<longleftrightarrow> every > 0 \<and> (clock s (clock_reads s) - last_refresh s) sdiv 1000000000 \<ge> every"

definition pumped :: "int \<Rightarrow> core \<Rightarrow> bytes" where
  "pumped every s = concat (outbox s) @ (if want_refresh s \<or> refresh_due every s then [0x1B, 0x5B, 0x7E] else [])"

lemma pump_wire:
  assumes "speaking r t" and N: "net_accepts N wire"
  shows "\<exists>t'. pump N every t = Some t' \<and> speaking (snd (crypt (pumped every (sink t)) r)) t' \<and>
    wire (t_net t') = wire (t_net t) @ fst (crypt (pumped every (sink t)) r) \<and> outbox (sink t') = [] \<and> \<not> want_refresh (sink t')"
proof -
  let ?t = "t\<lparr>sink := (sink t)\<lparr>outbox := [], want_refresh := False\<rparr>\<rparr>"
  let ?q = "concat (outbox (sink t))"
  have "speaking r ?t" using assms(1) by (simp add: speaking_def)
  from transmit_all_wire [OF this N, of "outbox (sink t)"] obtain t1 where t1:
    "transmit_all N (outbox (sink t)) ?t = Some t1" "speaking (snd (crypt ?q r)) t1" "sink t1 = sink ?t"
    "wire (t_net t1) = wire (t_net t) @ fst (crypt ?q r)" by auto
  define s2 where "s2 = (if every > 0 then (let (now, s) = read_clock (sink t1) in if refresh_due every (sink t) then s\<lparr>last_refresh := now\<rparr> else s) else sink t1)"
  have "t1\<lparr>sink := sink t1\<rparr> = t1" by simp
  then have same: "t1\<lparr>sink := (sink t)\<lparr>outbox := [], want_refresh := False\<rparr>\<rparr> = t1" unfolding t1(3) by simp
  have p: "pump N every t = (if want_refresh (sink t) \<or> refresh_due every (sink t) then refresh_screen N (t1\<lparr>sink := s2\<rparr>) else Some (t1\<lparr>sink := s2\<rparr>))"
    using t1(1) by (simp add: pump_def s2_def refresh_due_def read_clock_def Let_def t1(3) same)
  have s2: "outbox s2 = []" "\<not> want_refresh s2" using t1(3) by (simp_all add: s2_def read_clock_def Let_def)
  have t2: "speaking (snd (crypt ?q r)) (t1\<lparr>sink := s2\<rparr>)" using t1(2) by (simp add: speaking_def)
  show ?thesis
  proof (cases "want_refresh (sink t) \<or> refresh_due every (sink t)")
    case True
    with refresh_wire [OF t2 N] s2 t1(4) p show ?thesis by (auto simp: pumped_def crypt_append split_beta)
  next
    case False
    with t2 s2 t1(4) p show ?thesis by (simp add: pumped_def)
  qed
qed

section \<open>The key change that is not passed on\<close>

lemma rekey_tables:
  "right_table ! 29 = 0" "left_table ! 29 = 3" "right_table ! 18 = 1" "left_table ! 18 = 3"
  by (simp add: right_table_nth, code_simp)
    (simp add: left_table_nth, code_simp, simp add: right_table_nth, code_simp, simp add: left_table_nth, code_simp)

lemma rekey_reads: "getmask ! 8 = 255" "getmask ! Suc 0 = 1" "getmask ! 5 = 31" "getmask ! 4 = 15" "getmask ! 3 = 7"
    "reversal ! 144 = 9" "reversal ! 0 = 0" "reversal ! Suc 0 = 128"
  by (simp_all add: getmask_def) (simp_all add: reversal_nth, code_simp+)

lemmas rekey_steps = dvc_turn_def bits_to_read_def read_bits_def get_bits_def rekey_reads next_0_def set_next_def dispatch_def
  finish_turn_def set_state_def st_param_def st_command_def emit_def byte_align_def Let_def

lemma rekey_command: "case process_stream [0x1D, 0x12] dvc_decoder_init of Inl f \<Rightarrow> False | Inr d \<Rightarrow> events d = [ChangeKey]"
  apply (simp add: process_dvc_def process_bits_def dvc_decoder_init_def dvc_bits_init_def add_bits_def rekey_tables turn_fuel_def)
  apply (simp add: dvc_turn_def bits_to_read_def next_0_def NEXT_1_INIT_def read_bits_def get_bits_def set_next_def dispatch_def
      finish_turn_def set_state_def st_reset_def cache_reset_def Let_def dvc_loop_numeral st_param_def)
  apply (simp add: process_dvc_def process_bits_def add_bits_def rekey_tables turn_fuel_def)
  apply (simp add: dvc_loop_numeral)
  apply (simp add: rekey_steps)
  apply (simp add: dvc_loop_numeral)
  apply (simp add: rekey_steps)
  apply (simp add: dvc_loop_numeral)
  apply (simp add: rekey_steps)
  done

lemma stays_core_dvc: "stays core_dvc"
  by (simp add: stays_def core_dvc_def)

lemma core_dvc_snd: "(\<lambda>c s. snd (core_dvc c s)) = core_process"
  by (simp add: core_dvc_def fun_eq_iff)

section \<open>Properties\<close>

text \<open>The login the iLO hands out in base64 reaches the console port as HP's applet sends it: decoding what \<open>base64_encode\<close> makes of any text gives the text back with every colon turned into a carriage return, and one carriage return at the end; the empty text stays empty.\<close>

theorem hp_login_round_trip:
  "hp_base64_decode (base64_encode s) =
     (if s = '''' then [] else map (\<lambda>c. if c = CHR '':'' then 0x0D else word_of_nat (of_char c)) s @ [0x0D])"
  using hp_groups_encode [of s] by (simp add: hp_base64_decode_def hp_char_def [abs_def])

text \<open>C15: typed text reaches the iLO: on an encrypted session, what was queued before and the typed characters go out at the next \<open>pump\<close>, complete and in order, followed by one redraw request exactly when one was asked for or the period is over, all of it under the running cipher; the queue and the request are then empty. This holds while the queue stays within its limit of 4097 entries.\<close>

theorem input_reaches_peer:
  assumes "speaking r t" and "net_accepts N wire" and "length (outbox (sink t)) + length cs \<le> 4097"
  shows "\<exists>t'. pump N every (t\<lparr>sink := core_type_text cs (sink t)\<rparr>) = Some t' \<and>
    (let plain = concat (outbox (sink t)) @ input_type_text cs @
           (if want_refresh (sink t) \<or> refresh_due every (sink t) then [0x1B, 0x5B, 0x7E] else [])
     in wire (t_net t') = wire (t_net t) @ fst (crypt plain r) \<and> speaking (snd (crypt plain r)) t') \<and>
    outbox (sink t') = [] \<and> \<not> want_refresh (sink t')"
proof -
  let ?s = "(sink t)\<lparr>outbox := outbox (sink t) @ map input_type_char cs\<rparr>"
  have "speaking r (t\<lparr>sink := ?s\<rparr>)" using assms(1) by (simp add: speaking_def)
  then obtain t' where t': "pump N every (t\<lparr>sink := ?s\<rparr>) = Some t'" "speaking (snd (crypt (pumped every ?s) r)) t'"
    "wire (t_net t') = wire (t_net t) @ fst (crypt (pumped every ?s) r)" "outbox (sink t') = []" "\<not> want_refresh (sink t')"
    using pump_wire [of r "t\<lparr>sink := ?s\<rparr>" N wire every] assms(2) by auto
  have "pumped every ?s = concat (outbox (sink t)) @ input_type_text cs @
      (if want_refresh (sink t) \<or> refresh_due every (sink t) then [0x1B, 0x5B, 0x7E] else [])"
    by (simp add: pumped_def refresh_due_def input_type_text_def)
  note t'(2,3) [unfolded this]
  with t'(1,4,5) show ?thesis unfolding type_text_outbox [OF assms(3)] Let_def by blast
qed

lemma input_reaches_peer_witness:
  "\<exists>t'. pump slow_net 0 ((cim_new [] (core_new (\<lambda>n. 0)))\<lparr>t_open := True, encryption_active := True,
       rc4_encrypter := Some (rc4_seeded [1, 2, 3]), sink := core_type_text [65, 10] (core_new (\<lambda>n. 0))\<rparr>) = Some t' \<and>
     t_net t' = fst (crypt [65, 13] (rc4_seeded [1, 2, 3]))"
proof -
  let ?t = "(cim_new [] (core_new (\<lambda>n. 0)))\<lparr>t_open := True, encryption_active := True, rc4_encrypter := Some (rc4_seeded [1, 2, 3])\<rparr>"
  have "speaking (rc4_seeded [1, 2, 3]) ?t" "length (outbox (sink ?t)) + length [65, 10 :: byte] \<le> 4097"
    by (simp_all add: speaking_def cim_new_def core_new_def)
  from input_reaches_peer [OF this(1) slow_net_accepts this(2), of 0] show ?thesis
    by (auto simp: Let_def cim_new_def core_new_def refresh_due_def input_type_text_def input_type_char_def)
qed



end
