(* ===== verification/Media_Server.thy ===== *)
theory Media_Server
  imports Std_String "HOL-Library.Signed_Division"
begin

text \<open>
  Class \<open>MediaServer\<close> of \<open>ilo/media_server.hpp\<close>: what it keeps of its own. The HTTP server itself is
  third-party code; the file system, the port and the clock are parameters. Shown: after any history
  of reads the read map tells, for every part of the image, whether and when it was last read.
\<close>

section \<open>State\<close>

definition kMapBuckets :: nat where "kMapBuckets = 512"

text \<open>\<open>ms_serving\<close> is \<open>thread_.joinable()\<close>, which goes with \<open>svr_\<close>.\<close>

record media_server =
  ms_serving :: bool
  ms_iso :: string
  ms_url_path :: string
  ms_size :: int
  ms_port :: u16
  ms_requests :: u64
  ms_bytes :: u64
  ms_map :: "u32 list"

definition media_server_new :: media_server where
  "media_server_new = \<lparr>ms_serving = False, ms_iso = '''', ms_url_path = ''/image.iso'', ms_size = 0, ms_port = 0,
     ms_requests = 0, ms_bytes = 0, ms_map = replicate kMapBuckets 0\<rparr>"

record media_stats =
  st_running :: bool
  st_requests :: u64
  st_bytes :: u64
  st_size :: int
  st_iso :: string
  st_url_path :: string
  st_port :: u16
  st_map :: "u32 list"
  st_now :: u32

text \<open>
  The machine it runs on: \<open>file_size\<close> (-1 for a file that cannot be opened), whether a port can be
  bound, and what \<open>fread\<close> returns at an offset, nothing when the file cannot be opened.
\<close>

record 'w machine =
  m_file_size :: "string \<Rightarrow> 'w \<Rightarrow> int"
  m_bind :: "u16 \<Rightarrow> 'w \<Rightarrow> bool"
  m_read :: "string \<Rightarrow> nat \<Rightarrow> nat \<Rightarrow> 'w \<Rightarrow> bytes option"

section \<open>Operations\<close>

definition is_slash :: "char \<Rightarrow> bool" where
  "is_slash c \<longleftrightarrow> c = CHR ''/'' \<or> c = CHR 0x5C"

definition safe_char :: "char \<Rightarrow> bool" where
  "safe_char c \<longleftrightarrow> (let n = of_char c :: nat
     in 65 \<le> n \<and> n \<le> 90 \<or> 97 \<le> n \<and> n \<le> 122 \<or> 48 \<le> n \<and> n \<le> 57) \<or> c = CHR ''.'' \<or> c = CHR ''-'' \<or> c = CHR ''_''"

definition basename_of :: "string \<Rightarrow> string" where
  "basename_of path =
     (let name = rev (takeWhile (\<lambda>c. \<not> is_slash c) (rev path));
          out = map (\<lambda>c. if safe_char c then c else CHR ''_'') name
      in if out = [] then ''image.iso'' else out)"

definition media_stop :: "media_server \<Rightarrow> media_server" where
  "media_stop s = s\<lparr>ms_serving := False\<rparr>"

text \<open>The result is an error message or nothing.\<close>

definition media_start :: "'w machine \<Rightarrow> string \<Rightarrow> u16 \<Rightarrow> 'w \<Rightarrow> media_server \<Rightarrow> string option \<times> media_server" where
  "media_start M img port w s =
     (let s = (media_stop s)\<lparr>ms_size := m_file_size M img w\<rparr>
      in if ms_size s < 0 then (Some (''cannot open '' @ img), s)
         else (let s = s\<lparr>ms_iso := img, ms_port := port, ms_url_path := ''/'' @ basename_of img, ms_requests := 0, ms_bytes := 0,
                         ms_map := replicate (length (ms_map s)) 0\<rparr>
               in if \<not> m_bind M port w then (Some (''cannot listen on port '' @ to_string (uint port)), s)
                  else (None, s\<lparr>ms_serving := True\<rparr>)))"

definition media_url :: "string \<Rightarrow> media_server \<Rightarrow> string" where
  "media_url host s =
     (if host = [] then [] else ''http://'' @ host @ '':'' @ to_string (uint (ms_port s)) @ ms_url_path s)"

text \<open>\<open>now_ms\<close>, from the milliseconds of the steady clock.\<close>

definition now_ms :: "int \<Rightarrow> u32" where
  "now_ms t = (let v = word_of_int t in if v \<noteq> 0 then v else 1)"

text \<open>The products are exact for images below \<open>2 ^ 54\<close> bytes.\<close>

definition mark_read :: "int \<Rightarrow> nat \<Rightarrow> int \<Rightarrow> media_server \<Rightarrow> media_server" where
  "mark_read off n ms s =
     (if ms_size s \<le> 0 \<or> n = 0 \<or> off < 0 then s
      else (let last_byte = off + int n - 1;
                first = (off * int kMapBuckets) sdiv ms_size s;
                final = (last_byte * int kMapBuckets) sdiv ms_size s;
                first = (if first < 0 then 0 else first);
                final = (if final > int kMapBuckets - 1 then int kMapBuckets - 1 else final);
                t = now_ms ms
            in s\<lparr>ms_map := fold (\<lambda>i m. m[nat i := t]) [first..final] (ms_map s)\<rparr>))"

definition request_seen :: "media_server \<Rightarrow> media_server" where
  "request_seen s = s\<lparr>ms_requests := ms_requests s + 1\<rparr>"

text \<open>The content provider: one read of at most 64 KiB, \<open>None\<close> when it fails.\<close>

definition provide :: "'w machine \<Rightarrow> nat \<Rightarrow> nat \<Rightarrow> int \<Rightarrow> 'w \<Rightarrow> media_server \<Rightarrow> bytes option \<times> media_server" where
  "provide M off len ms w s =
     (case m_read M (ms_iso s) off (if len < 65536 then len else 65536) w of
        None \<Rightarrow> (None, s)
      | Some data \<Rightarrow>
          if data = [] then (None, s)
          else (Some data, mark_read (int off) (length data) ms (s\<lparr>ms_bytes := ms_bytes s + word_of_nat (length data)\<rparr>)))"

definition media_stats_of :: "int \<Rightarrow> media_server \<Rightarrow> media_stats" where
  "media_stats_of ms s =
     \<lparr>st_running = ms_serving s, st_requests = ms_requests s, st_bytes = ms_bytes s, st_size = ms_size s, st_iso = ms_iso s,
      st_url_path = ms_url_path s, st_port = ms_port s, st_map = map (\<lambda>i. ms_map s ! i) [0..<kMapBuckets], st_now = now_ms ms\<rparr>"

section \<open>Names\<close>

lemma basename_safe: "list_all safe_char (basename_of path)" "basename_of path \<noteq> []"
  by (auto simp: basename_of_def Let_def list_all_iff safe_char_def)

section \<open>The read map\<close>

text \<open>The part of the image a byte belongs to.\<close>

definition bucket_of :: "int \<Rightarrow> int \<Rightarrow> int" where
  "bucket_of sz b = b * 512 div sz"

lemma fold_stamp:
  "0 \<le> a \<Longrightarrow> nat b < length m \<Longrightarrow> i < length m \<Longrightarrow>
   fold (\<lambda>i m. m[nat i := t]) [a..b] m ! i = (if a \<le> int i \<and> int i \<le> b then t else m ! i)"
proof (induction "nat (b + 1 - a)" arbitrary: a m)
  case 0
  then show ?case by auto
next
  case (Suc k)
  then have a: "a \<le> b" by simp
  have "fold (\<lambda>i m. m[nat i := t]) [a + 1..b] (m[nat a := t]) ! i =
      (if a + 1 \<le> int i \<and> int i \<le> b then t else m[nat a := t] ! i)"
    using Suc.hyps(2) Suc.prems by (intro Suc.hyps(1)) simp_all
  then show ?case using a Suc.prems by (auto simp: upto_rec1 nth_list_update)
qed

lemma le_zdiv_iff: "0 < z \<Longrightarrow> y \<le> x div z \<longleftrightarrow> y * z \<le> (x :: int)"
proof
  assume z: "0 < z" and "y \<le> x div z"
  then have "y * z \<le> x div z * z" by (simp add: mult_right_mono)
  also have "\<dots> \<le> x" using z pos_mod_sign [of z x] div_mult_mod_eq [of x z] by linarith
  finally show "y * z \<le> x" .
next
  assume "0 < z" and "y * z \<le> x"
  then show "y \<le> x div z" using zdiv_mono1 [of "y * z" x z] by simp
qed

lemma zdiv_less_iff: "0 < z \<Longrightarrow> x div z < y \<longleftrightarrow> (x :: int) < y * z"
  using le_zdiv_iff [of z y x] by linarith

lemma length_fold_stamp [simp]: "length (fold (\<lambda>i m. m[nat i := t]) is m) = length m"
  by (induction "is" arbitrary: m) simp_all

lemma mark_read_fields [simp]:
  "ms_size (mark_read off n ms s) = ms_size s" "length (ms_map (mark_read off n ms s)) = length (ms_map s)"
  by (simp_all add: mark_read_def Let_def)

text \<open>Every bucket between those of two bytes holds a byte between them, when the image has as many bytes as buckets.\<close>

lemma bucket_between:
  assumes "512 \<le> sz" and "0 \<le> a" and "a \<le> b" and "bucket_of sz a \<le> i" and "i \<le> bucket_of sz b"
  shows "\<exists>c\<ge>a. c \<le> b \<and> bucket_of sz c = i"
proof (cases "bucket_of sz a = i")
  case True
  then show ?thesis using assms by auto
next
  case False
  then have "a * 512 div sz < i" using assms(4) by (simp add: bucket_of_def)
  then have a: "a * 512 < i * sz" using assms(1) by (simp add: zdiv_less_iff)
  have b: "i * sz \<le> b * 512" using assms(1,5) by (simp add: bucket_of_def le_zdiv_iff)
  define c where "c = (i * sz + 511) div 512"
  have c: "512 * c \<le> i * sz + 511" "i * sz + 511 < 512 * c + 512"
    unfolding c_def using div_mult_mod_eq [of "i * sz + 511" 512] pos_mod_bound [of 512 "i * sz + 511"]
      pos_mod_sign [of 512 "i * sz + 511"] by linarith+
  have "a \<le> c" "c \<le> b" using a b c by linarith+
  moreover have "c * 512 div sz = i"
    using c assms(1) by (intro int_div_pos_eq [of _ _ _ "c * 512 - sz * i"]) (auto simp: algebra_simps)
  ultimately show ?thesis by (auto simp: bucket_of_def)
qed

lemma bucket_mono: "0 < sz \<Longrightarrow> a \<le> b \<Longrightarrow> bucket_of sz a \<le> bucket_of sz b"
  by (simp add: bucket_of_def zdiv_mono1)

lemma bucket_range: "0 \<le> b \<Longrightarrow> b < sz \<Longrightarrow> 0 \<le> bucket_of sz b \<and> bucket_of sz b < 512"
  by (simp add: bucket_of_def pos_imp_zdiv_nonneg_iff zdiv_less_iff)

lemma sdiv_bucket: "0 \<le> b \<Longrightarrow> 0 < sz \<Longrightarrow> (b * 512) sdiv sz = bucket_of sz b"
  by (cases "b = 0") (simp_all add: bucket_of_def signed_divide_int_def)

text \<open>A read of \<open>n\<close> bytes at \<open>off\<close> touches a bucket.\<close>

definition touches :: "int \<Rightarrow> nat \<Rightarrow> int \<times> nat \<times> int \<Rightarrow> bool" where
  "touches sz i = (\<lambda>(off, n, ms). off * 512 div sz \<le> int i \<and> int i \<le> (off + int n - 1) * 512 div sz)"

lemma touches_byte:
  assumes "512 \<le> sz" and "0 \<le> off" and "0 < n"
  shows "touches sz i (off, n, ms) \<longleftrightarrow> (\<exists>b\<ge>off. b < off + int n \<and> bucket_of sz b = int i)"
proof
  assume "touches sz i (off, n, ms)"
  then obtain c where "off \<le> c" "c \<le> off + int n - 1" "bucket_of sz c = int i"
    using bucket_between [of sz off "off + int n - 1" "int i"] assms by (auto simp: touches_def bucket_of_def)
  then show "\<exists>b\<ge>off. b < off + int n \<and> bucket_of sz b = int i" by (intro exI [of _ c]) simp
next
  assume "\<exists>b\<ge>off. b < off + int n \<and> bucket_of sz b = int i"
  then obtain b where b: "off \<le> b" "b \<le> off + int n - 1" "bucket_of sz b = int i" by force
  have "0 < sz" using assms(1) by simp
  from bucket_mono [OF this b(1)] bucket_mono [OF this b(2)] b(3) show "touches sz i (off, n, ms)"
    by (simp add: touches_def bucket_of_def)
qed

lemma mark_read_nth:
  assumes "0 < ms_size s" and "length (ms_map s) = kMapBuckets" and "i < kMapBuckets"
    and "0 \<le> off" and "0 < n" and "off + int n \<le> ms_size s"
  shows "ms_map (mark_read off n ms s) ! i = (if touches (ms_size s) i (off, n, ms) then now_ms ms else ms_map s ! i)"
proof -
  have f: "0 \<le> bucket_of (ms_size s) off" "bucket_of (ms_size s) (off + int n - 1) \<le> 511"
    using bucket_range [of off "ms_size s"] bucket_range [of "off + int n - 1" "ms_size s"] assms(4-6) by auto
  have l: "0 \<le> off + int n - 1" "0 < ms_size s" "nat (bucket_of (ms_size s) (off + int n - 1)) < length (ms_map s)"
    using assms f(2) by (simp_all add: kMapBuckets_def)
  have k: "int kMapBuckets = 512" by (simp add: kMapBuckets_def)
  note sd = sdiv_bucket [OF assms(4) l(2)] sdiv_bucket [OF l(1,2)]
  have "ms_map (mark_read off n ms s) =
      fold (\<lambda>i m. m[nat i := now_ms ms]) [bucket_of (ms_size s) off..bucket_of (ms_size s) (off + int n - 1)] (ms_map s)"
    unfolding mark_read_def Let_def k sd using assms(1,4,5) f by (simp add: not_less)
  then show ?thesis
    using fold_stamp [OF f(1) l(3), of i "now_ms ms"] assms(2,3) by (simp add: touches_def bucket_of_def)
qed

definition read_all :: "(int \<times> nat \<times> int) list \<Rightarrow> media_server \<Rightarrow> media_server" where
  "read_all rs s = fold (\<lambda>(off, n, ms) s. mark_read off n ms s) rs s"

definition inside :: "int \<Rightarrow> int \<times> nat \<times> int \<Rightarrow> bool" where
  "inside sz = (\<lambda>(off, n, ms). 0 \<le> off \<and> 0 < n \<and> off + int n \<le> sz)"

lemma read_all_nth:
  assumes "0 < ms_size s" and "length (ms_map s) = kMapBuckets" and "i < kMapBuckets" and "list_all (inside (ms_size s)) rs"
  shows "ms_size (read_all rs s) = ms_size s \<and> length (ms_map (read_all rs s)) = kMapBuckets \<and>
    ms_map (read_all rs s) ! i = (case find (touches (ms_size s) i) (rev rs) of
       None \<Rightarrow> ms_map s ! i | Some (off, n, ms) \<Rightarrow> now_ms ms)"
  using assms(4)
proof (induction rs rule: rev_induct)
  case (snoc r rs)
  obtain off n ms where r: "r = (off, n, ms)" by (cases r)
  then have n: "0 \<le> off" "0 < n" "off + int n \<le> ms_size s" using snoc.prems by (simp_all add: inside_def)
  have "read_all (rs @ [r]) s = mark_read off n ms (read_all rs s)" by (simp add: read_all_def r)
  with snoc mark_read_nth [of "read_all rs s" i off n ms] assms n r show ?case by auto
qed (use assms in \<open>simp_all add: read_all_def\<close>)

section \<open>Properties\<close>

text \<open>The read map is exact: after any history of reads inside an image of at least 512 bytes, a bucket is zero when no byte of it was ever read, and otherwise holds the time of the last read that covered a byte of it; that time is never zero.\<close>

theorem read_map_exact:
  assumes "512 \<le> ms_size s" and "ms_map s = replicate kMapBuckets 0" and "i < kMapBuckets"
    and "list_all (\<lambda>(off, n, ms). 0 \<le> off \<and> 0 < n \<and> off + int n \<le> ms_size s) rs"
  shows "ms_map (fold (\<lambda>(off, n, ms) s. mark_read off n ms s) rs s) ! i =
     (case find (\<lambda>(off, n, ms). \<exists>b\<ge>off. b < off + int n \<and> b * 512 div ms_size s = int i) (rev rs) of
        None \<Rightarrow> 0 | Some (off, n, ms) \<Rightarrow> now_ms ms) \<and> now_ms t \<noteq> 0"
proof -
  have ins: "list_all (inside (ms_size s)) rs" using assms(4) by (simp add: inside_def)
  have "touches (ms_size s) i r = (case r of (off, n, ms) \<Rightarrow> \<exists>b\<ge>off. b < off + int n \<and> b * 512 div ms_size s = int i)"
    if "r \<in> set (rev rs)" for r
  proof (cases r)
    case (fields off n ms)
    then have "inside (ms_size s) (off, n, ms)" using that ins by (simp add: list_all_iff)
    then show ?thesis using touches_byte [OF assms(1), of off n i ms] fields by (simp add: inside_def bucket_of_def)
  qed
  then have "find (touches (ms_size s) i) (rev rs) =
      find (\<lambda>(off, n, ms). \<exists>b\<ge>off. b < off + int n \<and> b * 512 div ms_size s = int i) (rev rs)"
    by (intro find_cong refl) auto
  with read_all_nth [OF _ _ assms(3) ins] assms(1-3) show ?thesis
    by (simp add: read_all_def now_ms_def Let_def split: option.splits)
qed

lemma read_map_exact_witness:
  "ms_map (fold (\<lambda>(off, n, ms) s. mark_read off n ms s) [(2048, 2048, 7), (0, 4096, 9)] (media_server_new\<lparr>ms_size := 524288\<rparr>)) ! 3 = 9"
proof -
  let ?s = "media_server_new\<lparr>ms_size := 524288\<rparr>" and ?rs = "[(2048, 2048, 7), (0, 4096, 9)] :: (int \<times> nat \<times> int) list"
  have "512 \<le> ms_size ?s" "ms_map ?s = replicate kMapBuckets 0" "3 < kMapBuckets"
    "list_all (\<lambda>(off, n, ms). 0 \<le> off \<and> 0 < n \<and> off + int n \<le> ms_size ?s) ?rs"
    by (simp_all add: media_server_new_def) (simp add: kMapBuckets_def)
  note r = read_map_exact [OF this, of 1]
  have "\<exists>b\<ge>0. b < 0 + int 4096 \<and> b * 512 div ms_size ?s = int 3" by (intro exI [of _ 3072]) simp
  with r show ?thesis by (simp add: now_ms_def)
qed

end
