(* ===== verification/Media_Control.thy ===== *)
theory Media_Control
  imports Media_Server Ribcl
begin

text \<open>
  Class \<open>MediaControl\<close> of \<open>ui/media_control.hpp\<close>: the job queue, the jobs, and the worker as a step
  relation in which the front end's calls and the HTTP server's reads fall between the worker's
  turns. Shown: in every reachable state a served image is the one the iLO was given. A mount that
  fails while another image is mounted is shown to leave the iLO with a dead URL.
\<close>

section \<open>State\<close>

record media_config =
  mc_host :: string
  mc_port :: u16
  mc_user :: string
  mc_pass :: string
  mc_http_port :: u16
  mc_poll_sec :: int

record media_snapshot =
  sn_vm :: vm_status
  sn_fw :: fw_info
  sn_url :: string
  sn_iso :: string
  sn_last_action :: string
  sn_last_result :: string
  sn_busy :: bool
  sn_error :: bool
  sn_boot_armed :: bool

definition media_snapshot_new :: media_snapshot where
  "media_snapshot_new = \<lparr>sn_vm = vm_status_none, sn_fw = fw_info_none, sn_url = '''', sn_iso = '''', sn_last_action = '''',
     sn_last_result = '''', sn_busy = False, sn_error = False, sn_boot_armed = False\<rparr>"

datatype media_job = Mount string | Eject | ArmBoot | Refresh

datatype worker_phase = Starting | Waiting | Finished

record media =
  md_cfg :: media_config
  md_server :: media_server
  md_snap :: media_snapshot
  md_queue :: "media_job list"
  md_run :: bool
  md_phase :: worker_phase
  md_last_poll :: int

text \<open>
  What the worker relies on: the machine of the media server, \<open>ribcl_run\<close> over a network whose state
  is part of \<open>'w\<close>, and \<open>local_address_towards\<close>.
\<close>

record 'w network = "'w machine" +
  n_ribcl :: "string \<Rightarrow> u16 \<Rightarrow> string \<Rightarrow> string \<Rightarrow> ribcl_command \<Rightarrow> ribcl_args \<Rightarrow> 'w \<Rightarrow> ribcl_reply reply \<times> 'w"
  n_local_address :: "string \<Rightarrow> u16 \<Rightarrow> 'w \<Rightarrow> string"

text \<open>The network of the program: the exchange of \<open>Ribcl\<close> over the TLS client.\<close>

definition live_network ::
  "('t \<times> 'r) machine \<Rightarrow> 't transport \<Rightarrow> (int \<Rightarrow> 't \<Rightarrow> 't) \<Rightarrow> 'r rng \<Rightarrow> nat \<Rightarrow> (string \<Rightarrow> u16 \<Rightarrow> 't \<times> 'r \<Rightarrow> string) \<Rightarrow> ('t \<times> 'r) network" where
  "live_network M TP patience rng fuel addr =
     \<lparr>m_file_size = m_file_size M, m_bind = m_bind M, m_read = m_read M, n_ribcl = ribcl_run TP patience rng fuel, n_local_address = addr\<rparr>"

definition on_snap :: "(media_snapshot \<Rightarrow> media_snapshot) \<Rightarrow> media \<Rightarrow> media" where
  "on_snap f m = m\<lparr>md_snap := f (md_snap m)\<rparr>"

section \<open>The front end's calls\<close>

definition media_control_start :: "media_config \<Rightarrow> media \<Rightarrow> media" where
  "media_control_start cfg m =
     m\<lparr>md_cfg := cfg, md_run := True, md_snap := media_snapshot_new, md_queue := [], md_phase := Starting\<rparr>"

definition media_push :: "media_job \<Rightarrow> media \<Rightarrow> media" where
  "media_push j m = m\<lparr>md_queue := md_queue m @ [j]\<rparr>"

definition media_request_stop :: "media \<Rightarrow> media" where
  "media_request_stop m = m\<lparr>md_run := False\<rparr>"

definition media_snapshot_of :: "int \<Rightarrow> media \<Rightarrow> media_snapshot \<times> media_stats" where
  "media_snapshot_of ms m = (md_snap m, media_stats_of ms (md_server m))"

section \<open>Commands\<close>

text \<open>The two locked parts of \<open>run\<close>, around the exchange.\<close>

definition run_begin :: "ribcl_command \<Rightarrow> media \<Rightarrow> media" where
  "run_begin cmd = on_snap (\<lambda>s. let s = s\<lparr>sn_busy := True\<rparr>
     in if ribcl_is_write cmd then s\<lparr>sn_last_action := ribcl_command_name cmd\<rparr> else s)"

definition run_end :: "ribcl_command \<Rightarrow> string + ribcl_reply \<Rightarrow> media \<Rightarrow> bool \<times> media" where
  "run_end cmd res m =
     (let m = on_snap (\<lambda>s. s\<lparr>sn_busy := False\<rparr>) m
      in case res of
           Inl e \<Rightarrow> (False, on_snap (\<lambda>s. s\<lparr>sn_error := True, sn_last_result := e\<rparr>) m)
         | Inr r \<Rightarrow>
             if \<not> rr_ok r
             then (False, on_snap (\<lambda>s. s\<lparr>sn_error := True,
                     sn_last_result := (if rr_message r = [] then ''command failed'' else rr_message r)\<rparr>) m)
             else (True, on_snap (\<lambda>s. let s = s\<lparr>sn_error := False\<rparr>
                     in if ribcl_is_write cmd then s\<lparr>sn_last_result := ''ok''\<rparr> else s) m))"

text \<open>\<open>None\<close> is an exchange that does not come back.\<close>

definition run_cmd :: "'w network \<Rightarrow> ribcl_command \<Rightarrow> ribcl_args \<Rightarrow> 'w \<times> media \<Rightarrow> (ribcl_reply option \<times> 'w \<times> media) option" where
  "run_cmd N cmd args s =
     (let (w, m) = s; m = run_begin cmd m; c = md_cfg m
      in case n_ribcl N (mc_host c) (mc_port c) (mc_user c) (mc_pass c) cmd args w of
           (Got r, w) \<Rightarrow> (let (ok, m) = run_end cmd (Inr r) m in Some (if ok then Some r else None, w, m))
         | (Error e, w) \<Rightarrow> (let (ok, m) = run_end cmd (Inl e) m in Some (None, w, m))
         | _ \<Rightarrow> None)"

definition read_status :: "'w network \<Rightarrow> 'w \<times> media \<Rightarrow> ('w \<times> media) option" where
  "read_status N s =
     (case run_cmd N GetVmStatus no_args s of
        None \<Rightarrow> None
      | Some (None, s) \<Rightarrow> Some s
      | Some (Some r, w, m) \<Rightarrow>
          (let v = parse_vm_status (rr_raw r) in Some (w, if vm_valid v then on_snap (\<lambda>s. s\<lparr>sn_vm := v\<rparr>) m else m)))"

definition read_fw :: "'w network \<Rightarrow> 'w \<times> media \<Rightarrow> ('w \<times> media) option" where
  "read_fw N s =
     (case run_cmd N GetFwVersion no_args s of
        None \<Rightarrow> None
      | Some (None, s) \<Rightarrow> Some s
      | Some (Some r, w, m) \<Rightarrow>
          (let f = parse_fw_version (rr_raw r) in Some (w, if fw_valid f then on_snap (\<lambda>s. s\<lparr>sn_fw := f\<rparr>) m else m)))"

definition refuse :: "string \<Rightarrow> media \<Rightarrow> media" where
  "refuse e = on_snap (\<lambda>s. s\<lparr>sn_error := True, sn_last_result := e\<rparr>)"

definition stop_server :: "media \<Rightarrow> media" where
  "stop_server m = m\<lparr>md_server := media_stop (md_server m)\<rparr>"

definition do_mount :: "'w network \<Rightarrow> string \<Rightarrow> 'w \<times> media \<Rightarrow> ('w \<times> media) option" where
  "do_mount N img s =
     (let (w, m) = s; fw = sn_fw (md_snap m); c = md_cfg m
      in if fw_valid fw \<and> \<not> vm_scripting_licensed fw
         then Some (w, refuse (''this iLO's licence ('' @ fw_license fw @ '') does not allow scripted virtual media'') m)
         else (case media_start (machine.truncate N) img (mc_http_port c) w (md_server m) of
                 (Some e, srv) \<Rightarrow> Some (w, refuse e (m\<lparr>md_server := srv\<rparr>))
               | (None, srv) \<Rightarrow>
                   (let m = m\<lparr>md_server := srv\<rparr>; local = n_local_address N (mc_host c) (mc_port c) w
                    in if local = []
                       then Some (w, refuse (''cannot determine which local address reaches '' @ mc_host c) (stop_server m))
                       else (let url = media_url local srv
                             in case run_cmd N InsertVirtualMedia (no_args\<lparr>arg_image_url := url\<rparr>) (w, m) of
                                  None \<Rightarrow> None
                                | Some (None, w, m) \<Rightarrow> Some (w, stop_server m)
                                | Some (Some r, w, m) \<Rightarrow>
                                    read_status N (w, on_snap (\<lambda>s. s\<lparr>sn_url := url, sn_iso := img, sn_boot_armed := False\<rparr>) m)))))"

definition do_eject :: "'w network \<Rightarrow> 'w \<times> media \<Rightarrow> ('w \<times> media) option" where
  "do_eject N s =
     (case run_cmd N EjectVirtualMedia no_args s of
        None \<Rightarrow> None
      | Some (r, w, m) \<Rightarrow>
          read_status N (w, on_snap (\<lambda>s. s\<lparr>sn_url := '''', sn_iso := '''', sn_boot_armed := False\<rparr>) (stop_server m)))"

definition do_arm_boot :: "'w network \<Rightarrow> 'w \<times> media \<Rightarrow> ('w \<times> media) option" where
  "do_arm_boot N s =
     (case run_cmd N SetVmBootOption (no_args\<lparr>arg_boot_option := ''BOOT_ONCE''\<rparr>) s of
        None \<Rightarrow> None
      | Some (None, s) \<Rightarrow> Some s
      | Some (Some r, s) \<Rightarrow>
          (case run_cmd N SetOneTimeBoot (no_args\<lparr>arg_boot_device := ''CDROM''\<rparr>) s of
             None \<Rightarrow> None
           | Some (None, s) \<Rightarrow> Some s
           | Some (Some r, w, m) \<Rightarrow> read_status N (w, on_snap (\<lambda>s. s\<lparr>sn_boot_armed := True\<rparr>) m)))"

fun do_job :: "'w network \<Rightarrow> media_job \<Rightarrow> 'w \<times> media \<Rightarrow> ('w \<times> media) option" where
  "do_job N (Mount img) s = do_mount N img s"
| "do_job N Eject s = do_eject N s"
| "do_job N ArmBoot s = do_arm_boot N s"
| "do_job N Refresh s = read_status N s"

section \<open>The worker\<close>

definition worker_begin :: "'w network \<Rightarrow> int \<Rightarrow> 'w \<times> media \<Rightarrow> ('w \<times> media) option" where
  "worker_begin N now s =
     (case read_fw N s of
        None \<Rightarrow> None
      | Some s \<Rightarrow> (case read_status N s of None \<Rightarrow> None | Some (w, m) \<Rightarrow> Some (w, m\<lparr>md_last_poll := now, md_phase := Waiting\<rparr>)))"

definition worker_exit :: "'w network \<Rightarrow> 'w \<times> media \<Rightarrow> ('w \<times> media) option" where
  "worker_exit N s =
     (let (w, m) = s
      in if sn_url (md_snap m) \<noteq> []
         then (case run_cmd N EjectVirtualMedia no_args (w, m) of
                 None \<Rightarrow> None
               | Some (r, w, m) \<Rightarrow> Some (w, (stop_server m)\<lparr>md_phase := Finished\<rparr>))
         else Some (w, (stop_server m)\<lparr>md_phase := Finished\<rparr>))"

text \<open>
  One turn of the loop after \<open>wait_for\<close> returned; the clock shows \<open>now\<close>, and \<open>later\<close> once the work is
  done. Times are in nanoseconds.
\<close>

definition worker_turn :: "'w network \<Rightarrow> int \<Rightarrow> int \<Rightarrow> 'w \<times> media \<Rightarrow> ('w \<times> media) option" where
  "worker_turn N now later s =
     (let (w, m) = s; stamp = map_option (\<lambda>(w, m). (w, m\<lparr>md_last_poll := later\<rparr>))
      in if \<not> md_run m then worker_exit N (w, m)
         else (case md_queue m of
                 j # js \<Rightarrow> stamp (do_job N j (w, m\<lparr>md_queue := js\<rparr>))
               | [] \<Rightarrow>
                   if mc_poll_sec (md_cfg m) > 0 \<and> now - md_last_poll m \<ge> mc_poll_sec (md_cfg m) * 1000000000
                   then stamp (read_status N (w, m)) else Some (w, m)))"

text \<open>The worker, the front end, the HTTP server and the rest of the world, one step each.\<close>

inductive media_step :: "'w network \<Rightarrow> 'w \<times> media \<Rightarrow> 'w \<times> media \<Rightarrow> bool" for N where
  call_push: "media_step N (w, m) (w, media_push j m)"
| call_stop: "media_step N (w, m) (w, media_request_stop m)"
| world: "media_step N (w, m) (w', m)"
| http_request: "ms_serving (md_server m) \<Longrightarrow> media_step N (w, m) (w, m\<lparr>md_server := request_seen (md_server m)\<rparr>)"
| http_read: "ms_serving (md_server m) \<Longrightarrow>
    media_step N (w, m) (w, m\<lparr>md_server := snd (provide (machine.truncate N) off n ms w (md_server m))\<rparr>)"
| call_start: "md_phase m = Finished \<Longrightarrow> media_step N (w, m) (w, media_control_start cfg (stop_server m))"
| joined: "md_phase m = Finished \<Longrightarrow> media_step N (w, m) (w, stop_server m)"
| begins: "md_phase m = Starting \<Longrightarrow> worker_begin N now (w, m) = Some s \<Longrightarrow> media_step N (w, m) s"
| turns: "md_phase m = Waiting \<Longrightarrow> worker_turn N now later (w, m) = Some s \<Longrightarrow> media_step N (w, m) s"

inductive_cases media_stepE: "media_step N s t"

text \<open>The object before its first \<open>start\<close>.\<close>

definition media_new :: "media_config \<Rightarrow> media" where
  "media_new cfg = \<lparr>md_cfg = cfg, md_server = media_server_new, md_snap = media_snapshot_new, md_queue = [],
     md_run = False, md_phase = Finished, md_last_poll = 0\<rparr>"

section \<open>What is served is what was given to the iLO\<close>

definition consistent :: "media \<Rightarrow> bool" where
  "consistent m \<longleftrightarrow>
     (ms_serving (md_server m) \<longrightarrow> sn_iso (md_snap m) = ms_iso (md_server m) \<and> 0 \<le> ms_size (md_server m) \<and>
        (\<exists>local. local \<noteq> [] \<and> sn_url (md_snap m) = media_url local (md_server m))) \<and>
     (md_phase m = Finished \<longrightarrow> \<not> ms_serving (md_server m))"

text \<open>What an exchange leaves alone.\<close>

definition same_media :: "media \<Rightarrow> media \<Rightarrow> bool" where
  "same_media m m' \<longleftrightarrow> md_server m' = md_server m \<and> md_phase m' = md_phase m \<and> md_cfg m' = md_cfg m \<and> md_queue m' = md_queue m \<and>
     md_run m' = md_run m \<and> md_last_poll m' = md_last_poll m \<and> sn_url (md_snap m') = sn_url (md_snap m) \<and>
     sn_iso (md_snap m') = sn_iso (md_snap m)"

lemma same_media_trans: "same_media m m' \<Longrightarrow> same_media m' m'' \<Longrightarrow> same_media m m''"
  by (simp add: same_media_def)

lemma run_cmd_same: "run_cmd N cmd args (w, m) = Some (r, w', m') \<Longrightarrow> same_media m m'"
  by (auto simp: run_cmd_def run_begin_def run_end_def on_snap_def same_media_def Let_def
      split: prod.splits reply.splits if_splits)

lemma read_status_same: "read_status N (w, m) = Some (w', m') \<Longrightarrow> same_media m m'"
  by (auto simp: read_status_def Let_def on_snap_def same_media_def split: option.splits if_splits dest!: run_cmd_same)

lemma read_fw_same: "read_fw N (w, m) = Some (w', m') \<Longrightarrow> same_media m m'"
  by (auto simp: read_fw_def Let_def on_snap_def same_media_def split: option.splits if_splits dest!: run_cmd_same)

lemma consistent_same: "consistent m \<Longrightarrow> same_media m m' \<Longrightarrow> consistent m'"
  by (simp add: consistent_def same_media_def)

lemma media_start_result:
  "media_start M img port w s = (e, s') \<Longrightarrow>
   (e \<noteq> None \<longrightarrow> \<not> ms_serving s') \<and> (e = None \<longrightarrow> ms_serving s' \<and> ms_iso s' = img \<and> 0 \<le> ms_size s')"
  by (auto simp: media_start_def media_stop_def Let_def split: if_splits)

lemma media_url_stop [simp]: "media_url l (media_stop s) = media_url l s"
  by (simp add: media_url_def media_stop_def)

lemma stopped_consistent: "consistent m \<Longrightarrow> consistent (stop_server m)" "consistent (refuse e m) = consistent m"
    "\<not> ms_serving srv \<Longrightarrow> consistent (m\<lparr>md_server := srv\<rparr>)"
  by (simp_all add: consistent_def stop_server_def media_stop_def refuse_def on_snap_def)

lemma phase_kept [simp]: "md_phase (refuse e m) = md_phase m" "md_phase (stop_server m) = md_phase m"
  by (simp_all add: refuse_def on_snap_def stop_server_def)

lemma mounted_consistent:
  assumes "ms_serving srv" and "ms_iso srv = img" and "0 \<le> ms_size srv" and "local \<noteq> []"
    and "same_media (m\<lparr>md_server := srv\<rparr>) m'" and "md_phase m \<noteq> Finished"
  shows "consistent (on_snap (\<lambda>s. s\<lparr>sn_url := media_url local srv, sn_iso := img, sn_boot_armed := b\<rparr>) m')"
  using assms by (auto simp: consistent_def same_media_def on_snap_def)

lemma do_mount_consistent:
  assumes run: "do_mount N img (w, m) = Some (w', m')" and m: "consistent m" "md_phase m \<noteq> Finished"
  shows "consistent m' \<and> md_phase m' = md_phase m"
proof (cases "fw_valid (sn_fw (md_snap m)) \<and> \<not> vm_scripting_licensed (sn_fw (md_snap m))")
  case True
  then show ?thesis using run m by (auto simp: do_mount_def stopped_consistent)
next
  case False
  obtain e srv where s: "media_start (machine.truncate N) img (mc_http_port (md_cfg m)) w (md_server m) = (e, srv)"
    by (cases "media_start (machine.truncate N) img (mc_http_port (md_cfg m)) w (md_server m)")
  note st = media_start_result [OF s]
  note run = run [unfolded do_mount_def Let_def prod.case if_not_P [OF False] s]
  let ?m = "m\<lparr>md_server := srv\<rparr>" and ?local = "n_local_address N (mc_host (md_cfg m)) (mc_port (md_cfg m)) w"
  show ?thesis
  proof (cases e)
    case (Some msg)
    then show ?thesis using run st stopped_consistent(3) [of srv m] by (auto simp: stopped_consistent)
  next
    case None
    show ?thesis
    proof (cases "?local = []")
      case True
      have "\<not> ms_serving (media_stop srv)" by (simp add: media_stop_def)
      from stopped_consistent(3) [OF this, of m] m have "consistent (stop_server ?m)"
        by (simp add: stop_server_def consistent_def media_stop_def)
      then show ?thesis using run None True by (auto simp: stopped_consistent)
    next
      case F: False
      obtain r w1 m1 where c: "run_cmd N InsertVirtualMedia (no_args\<lparr>arg_image_url := media_url ?local srv\<rparr>) (w, ?m) = Some (r, w1, m1)"
        using run None F by (auto split: option.splits)
      note same = run_cmd_same [OF c]
      show ?thesis
      proof (cases r)
        case None': None
        have "consistent (stop_server m1)" using m same by (auto simp: consistent_def stop_server_def media_stop_def same_media_def)
        then show ?thesis using run None F c None' same by (auto simp: stop_server_def same_media_def)
      next
        case (Some x)
        let ?m2 = "on_snap (\<lambda>s. s\<lparr>sn_url := media_url ?local srv, sn_iso := img, sn_boot_armed := False\<rparr>) m1"
        have "read_status N (w1, ?m2) = Some (w', m')" using run None F c Some by simp
        from read_status_same [OF this] have s2: "same_media ?m2 m'" .
        moreover have "consistent ?m2" using st None F same m(2) by (intro mounted_consistent [of srv img ?local m m1]) auto
        ultimately show ?thesis using consistent_same same by (auto simp: same_media_def on_snap_def)
      qed
    qed
  qed
qed

lemma do_eject_consistent:
  assumes "do_eject N (w, m) = Some (w', m')" and "consistent m"
  shows "consistent m' \<and> md_phase m' = md_phase m"
proof -
  obtain r w1 m1 where c: "run_cmd N EjectVirtualMedia no_args (w, m) = Some (r, w1, m1)"
    and s: "read_status N (w1, on_snap (\<lambda>s. s\<lparr>sn_url := '''', sn_iso := '''', sn_boot_armed := False\<rparr>) (stop_server m1)) = Some (w', m')"
    using assms(1) by (auto simp: do_eject_def split: option.splits)
  note same = run_cmd_same [OF c] read_status_same [OF s]
  have "consistent (on_snap (\<lambda>s. s\<lparr>sn_url := '''', sn_iso := '''', sn_boot_armed := False\<rparr>) (stop_server m1))"
    using assms(2) same(1) by (auto simp: consistent_def on_snap_def stop_server_def media_stop_def same_media_def)
  from consistent_same [OF this same(2)] same show ?thesis by (simp add: same_media_def on_snap_def stop_server_def)
qed

lemma do_arm_boot_same: "do_arm_boot N (w, m) = Some (w', m') \<Longrightarrow> same_media m m'"
proof -
  assume a: "do_arm_boot N (w, m) = Some (w', m')"
  obtain r w1 m1 where c: "run_cmd N SetVmBootOption (no_args\<lparr>arg_boot_option := ''BOOT_ONCE''\<rparr>) (w, m) = Some (r, w1, m1)"
    using a by (auto simp: do_arm_boot_def split: option.splits)
  note s1 = run_cmd_same [OF c]
  show ?thesis
  proof (cases r)
    case None
    then show ?thesis using a c s1 by (simp add: do_arm_boot_def)
  next
    case (Some x)
    obtain r2 w2 m2 where c2: "run_cmd N SetOneTimeBoot (no_args\<lparr>arg_boot_device := ''CDROM''\<rparr>) (w1, m1) = Some (r2, w2, m2)"
      using a c Some by (auto simp: do_arm_boot_def split: option.splits)
    note s2 = same_media_trans [OF s1 run_cmd_same [OF c2]]
    show ?thesis
    proof (cases r2)
      case None
      then show ?thesis using a c c2 Some s2 by (simp add: do_arm_boot_def)
    next
      case (Some y)
      then have "read_status N (w2, on_snap (\<lambda>s. s\<lparr>sn_boot_armed := True\<rparr>) m2) = Some (w', m')"
        using a c c2 \<open>r = Some x\<close> by (simp add: do_arm_boot_def)
      from read_status_same [OF this] s2 show ?thesis by (simp add: same_media_def on_snap_def)
    qed
  qed
qed

lemma do_job_consistent:
  "do_job N j (w, m) = Some (w', m') \<Longrightarrow> consistent m \<Longrightarrow> md_phase m \<noteq> Finished \<Longrightarrow> consistent m' \<and> md_phase m' = md_phase m"
  by (cases j)
    (auto dest: do_mount_consistent do_eject_consistent, auto dest!: do_arm_boot_same read_status_same intro: consistent_same
      simp: same_media_def)

lemma run_cmd_world:
  "run_cmd N cmd args (w, m) = Some (r, w', m') \<Longrightarrow>
   w' = snd (n_ribcl N (mc_host (md_cfg m)) (mc_port (md_cfg m)) (mc_user (md_cfg m)) (mc_pass (md_cfg m)) cmd args w)"
  by (auto simp: run_cmd_def run_begin_def on_snap_def Let_def split: prod.splits reply.splits)

lemma worker_exit_result:
  assumes "worker_exit N (w, m) = Some (w', m')"
  shows "md_phase m' = Finished \<and> \<not> ms_serving (md_server m') \<and>
    (sn_url (md_snap m) \<noteq> [] \<longrightarrow> w' = snd (n_ribcl N (mc_host (md_cfg m)) (mc_port (md_cfg m)) (mc_user (md_cfg m)) (mc_pass (md_cfg m))
       EjectVirtualMedia no_args w))"
proof (cases "sn_url (md_snap m) = []")
  case True
  then show ?thesis using assms by (auto simp: worker_exit_def stop_server_def media_stop_def)
next
  case False
  then obtain r w1 m1 where c: "run_cmd N EjectVirtualMedia no_args (w, m) = Some (r, w1, m1)"
    using assms by (auto simp: worker_exit_def split: option.splits)
  with False assms have "w' = w1" "m' = (stop_server m1)\<lparr>md_phase := Finished\<rparr>" by (simp_all add: worker_exit_def)
  then show ?thesis using run_cmd_world [OF c] by (simp add: stop_server_def media_stop_def)
qed

lemma worker_turn_consistent:
  assumes turn: "worker_turn N now later (w, m) = Some (w', m')" and m: "consistent m" "md_phase m \<noteq> Finished"
  shows "consistent m'"
proof (cases "md_run m")
  case False
  then have "worker_exit N (w, m) = Some (w', m')" using turn by (simp add: worker_turn_def)
  from worker_exit_result [OF this] show ?thesis by (simp add: consistent_def)
next
  case True
  show ?thesis
  proof (cases "md_queue m")
    case Nil
    then show ?thesis using turn m True
      by (auto simp: worker_turn_def consistent_def same_media_def split: if_splits dest!: read_status_same)
  next
    case (Cons j js)
    then obtain m1 where "do_job N j (w, m\<lparr>md_queue := js\<rparr>) = Some (w', m1)" "m' = m1\<lparr>md_last_poll := later\<rparr>"
      using turn True by (auto simp: worker_turn_def)
    then show ?thesis using do_job_consistent [of N j w "m\<lparr>md_queue := js\<rparr>" w' m1] m by (simp add: consistent_def)
  qed
qed

lemma worker_begin_consistent:
  assumes "worker_begin N now (w, m) = Some (w', m')" and "consistent m" and "md_phase m = Starting"
  shows "consistent m'"
proof -
  obtain w1 m1 w2 m2 where "read_fw N (w, m) = Some (w1, m1)" "read_status N (w1, m1) = Some (w2, m2)"
    "m' = m2\<lparr>md_last_poll := now, md_phase := Waiting\<rparr>"
    using assms(1) by (auto simp: worker_begin_def split: option.splits)
  with read_fw_same [of N w m w1 m1] read_status_same [of N w1 m1 w2 m2] show ?thesis using assms(2,3)
    by (simp add: consistent_def same_media_def)
qed

lemma provide_fields [simp]:
  "ms_serving (snd (provide M off n ms w s)) = ms_serving s" "ms_iso (snd (provide M off n ms w s)) = ms_iso s"
  "ms_size (snd (provide M off n ms w s)) = ms_size s" "media_url l (snd (provide M off n ms w s)) = media_url l s"
  by (simp_all add: provide_def mark_read_def media_url_def Let_def split: option.split)

lemma request_seen_fields [simp]:
  "ms_serving (request_seen s) = ms_serving s" "ms_iso (request_seen s) = ms_iso s" "ms_size (request_seen s) = ms_size s"
  "media_url l (request_seen s) = media_url l s"
  by (simp_all add: request_seen_def media_url_def)

lemma media_step_consistent: "media_step N s t \<Longrightarrow> consistent (snd s) \<Longrightarrow> consistent (snd t)"
proof (induction rule: media_step.induct)
  case (begins m now w s)
  then show ?case using worker_begin_consistent [of N now w m "fst s" "snd s"] by simp
next
  case (turns m now later w s)
  then show ?case using worker_turn_consistent [of N now later w m "fst s" "snd s"] by simp
qed (auto simp: consistent_def media_push_def media_request_stop_def media_control_start_def stop_server_def media_stop_def
)

lemma media_reachable: "(media_step N)\<^sup>*\<^sup>* s t \<Longrightarrow> consistent (snd s) \<Longrightarrow> consistent (snd t)"
  by (induction rule: rtranclp_induct) (auto intro: media_step_consistent)

lemma media_new_consistent: "consistent (media_new cfg)"
  by (simp add: consistent_def media_new_def media_server_new_def)

section \<open>Properties\<close>


text \<open>A network whose iLO accepts everything.\<close>

definition agreeable :: "unit network" where
  "agreeable = \<lparr>m_file_size = (\<lambda>f w. if f = ''a.iso'' then 4096 else -1), m_bind = (\<lambda>p w. True), m_read = (\<lambda>f off n w. None),
     n_ribcl = (\<lambda>h p u pw cmd args w. (Got \<lparr>rr_raw = '''', rr_ok = True, rr_message = '''', rr_host_power = ''''\<rparr>, ())),
     n_local_address = (\<lambda>h p w. ''10.0.0.1'')\<rparr>"

definition sample_config :: media_config where
  "sample_config = \<lparr>mc_host = ''ilo'', mc_port = 443, mc_user = ''u'', mc_pass = ''p'', mc_http_port = 8080, mc_poll_sec = 15\<rparr>"

definition fine :: ribcl_reply where
  "fine = \<lparr>rr_raw = '''', rr_ok = True, rr_message = '''', rr_host_power = ''''\<rparr>"

lemma run_fields [simp]:
  "md_server (run_begin cmd m) = md_server m" "md_queue (run_begin cmd m) = md_queue m" "md_run (run_begin cmd m) = md_run m"
  "md_phase (run_begin cmd m) = md_phase m" "md_cfg (run_begin cmd m) = md_cfg m" "sn_fw (md_snap (run_begin cmd m)) = sn_fw (md_snap m)"
  "md_server (snd (run_end cmd res m)) = md_server m" "md_queue (snd (run_end cmd res m)) = md_queue m"
  "md_run (snd (run_end cmd res m)) = md_run m" "md_phase (snd (run_end cmd res m)) = md_phase m"
  "md_cfg (snd (run_end cmd res m)) = md_cfg m" "sn_fw (md_snap (snd (run_end cmd res m))) = sn_fw (md_snap m)"
  by (simp_all add: run_begin_def run_end_def on_snap_def Let_def split: sum.split)

lemma agreeable_cmd: "run_cmd agreeable cmd args ((), m) = Some (Some fine, (), snd (run_end cmd (Inr fine) (run_begin cmd m)))"
  by (simp add: run_cmd_def run_end_def agreeable_def fine_def Let_def)

lemma agreeable_read:
  "read_status agreeable ((), m) = Some ((), snd (run_end GetVmStatus (Inr fine) (run_begin GetVmStatus m)))"
  "read_fw agreeable ((), m) = Some ((), snd (run_end GetFwVersion (Inr fine) (run_begin GetFwVersion m)))"
  by (simp_all add: read_status_def read_fw_def agreeable_cmd Let_def fine_def parse_vm_status_def parse_fw_version_def element_of_def
      vm_status_none_def fw_info_none_def)

lemma agreeable_mount:
  assumes "\<not> fw_valid (sn_fw (md_snap m))"
  shows "\<exists>m'. do_mount agreeable ''a.iso'' ((), m) = Some ((), m') \<and> ms_serving (md_server m') \<and> ms_iso (md_server m') = ''a.iso''"
proof -
  have "media_start (machine.truncate agreeable) ''a.iso'' p () s = (None, snd (media_start (machine.truncate agreeable) ''a.iso'' p () s))" for p s
    by (simp add: media_start_def machine.truncate_def agreeable_def Let_def)
  then obtain srv where s: "media_start (machine.truncate agreeable) ''a.iso'' (mc_http_port (md_cfg m)) () (md_server m) = (None, srv)" by blast
  from media_start_result [OF s] have "ms_serving srv" "ms_iso srv = ''a.iso''" by simp_all
  moreover have "n_local_address agreeable h p w = ''10.0.0.1''" for h p w by (simp add: agreeable_def)
  ultimately show ?thesis using assms s by (simp add: do_mount_def agreeable_cmd agreeable_read on_snap_def Let_def)
qed


text \<open>C24: mounting a second image can orphan the first: \<open>do_mount\<close> stops the server before it knows that the new file can be opened, so when it cannot, no command is sent, the iLO keeps the URL of the image it has mounted and the snapshot still shows it, but nothing answers at that URL any more.\<close>

theorem remount_orphans:
  assumes "sn_url (md_snap m) \<noteq> []" and "ms_serving (md_server m)"
    and "\<not> fw_valid (sn_fw (md_snap m)) \<or> vm_scripting_licensed (sn_fw (md_snap m))" and "m_file_size N img w < 0"
  shows "\<exists>m'. do_job N (Mount img) (w, m) = Some (w, m') \<and> sn_url (md_snap m') = sn_url (md_snap m) \<and>
    sn_iso (md_snap m') = sn_iso (md_snap m) \<and> \<not> ms_serving (md_server m') \<and> sn_last_result (md_snap m') = ''cannot open '' @ img"
proof -
  have "media_start (machine.truncate N) img p w s = (Some (''cannot open '' @ img), (media_stop s)\<lparr>ms_size := m_file_size N img w\<rparr>)" for p s
    using assms(4) by (simp add: media_start_def machine.truncate_def Let_def)
  then show ?thesis using assms(3) by (auto simp: do_mount_def Let_def refuse_def on_snap_def media_stop_def)
qed

lemma remount_orphans_witness:
  "\<exists>m m'. ms_serving (md_server m) \<and> do_job agreeable (Mount ''typo.iso'') ((), m) = Some ((), m') \<and>
     sn_url (md_snap m') = ''http://10.0.0.1:8080/a.iso'' \<and> \<not> ms_serving (md_server m')"
proof -
  let ?m = "(media_new sample_config)\<lparr>md_server := media_server_new\<lparr>ms_serving := True\<rparr>,
    md_snap := media_snapshot_new\<lparr>sn_url := ''http://10.0.0.1:8080/a.iso''\<rparr>\<rparr>"
  have "sn_url (md_snap ?m) \<noteq> []" "ms_serving (md_server ?m)"
    "\<not> fw_valid (sn_fw (md_snap ?m)) \<or> vm_scripting_licensed (sn_fw (md_snap ?m))" "m_file_size agreeable ''typo.iso'' () < 0"
    by (simp_all add: media_snapshot_new_def fw_info_none_def agreeable_def)
  from remount_orphans [OF this] obtain m' where "do_job agreeable (Mount ''typo.iso'') ((), ?m) = Some ((), m')"
    "sn_url (md_snap m') = sn_url (md_snap ?m)" "\<not> ms_serving (md_server m')" by blast
  then show ?thesis by (intro exI [of _ ?m] exI [of _ m']) simp
qed

end
