(* ===== verification/Power_Control.thy ===== *)
theory Power_Control
  imports Media_Control Health
begin

text \<open>
  Class \<open>PowerControl\<close> of \<open>ui/power_control.hpp\<close>: the request queue and the worker, whose two locked sections
  (choosing a command, filing its result) are one step each, with the exchange in between; the front
  end's calls fall anywhere among them. Shown: the order of the requested writes, what a snapshot may
  hold, the status read after a write; and that this read clears the error mark of the write before it.
\<close>

section \<open>State\<close>

record power_config =
  pc_host :: string
  pc_port :: u16
  pc_user :: string
  pc_pass :: string
  pc_poll_sec :: int
  pc_health_sec :: int

record power_snapshot =
  ps_host_power :: string
  ps_last_action :: string
  ps_last_result :: string
  ps_busy :: bool
  ps_error :: bool
  ps_health :: health_data
  ps_watts :: power_readings

definition power_snapshot_new :: power_snapshot where
  "power_snapshot_new = \<lparr>ps_host_power = '''', ps_last_action = '''', ps_last_result = '''', ps_busy = False, ps_error = False,
     ps_health = health_new, ps_watts = power_readings_new\<rparr>"

text \<open>Where the worker stands: in front of the first locked section, with a command on the wire, returned.\<close>

datatype power_phase = Choosing | Running ribcl_command | Returned

record power =
  pw_cfg :: power_config
  pw_queue :: "ribcl_command list"
  pw_snap :: power_snapshot
  pw_run :: bool
  pw_phase :: power_phase
  pw_poll_due :: bool
  pw_last_health :: int

section \<open>The front end's calls\<close>

definition power_start :: "power_config \<Rightarrow> power \<Rightarrow> power" where
  "power_start cfg p =
     p\<lparr>pw_cfg := cfg, pw_run := True, pw_snap := power_snapshot_new, pw_queue := [], pw_phase := Choosing,
       pw_poll_due := True, pw_last_health := 0\<rparr>"

definition power_request_stop :: "power \<Rightarrow> power" where
  "power_request_stop p = p\<lparr>pw_run := False\<rparr>"

definition power_request :: "ribcl_command \<Rightarrow> power \<Rightarrow> power" where
  "power_request cmd p = p\<lparr>pw_queue := pw_queue p @ [cmd]\<rparr>"

section \<open>The worker\<close>

definition power_on_snap :: "(power_snapshot \<Rightarrow> power_snapshot) \<Rightarrow> power \<Rightarrow> power" where
  "power_on_snap f p = p\<lparr>pw_snap := f (pw_snap p)\<rparr>"

definition health_due :: "int \<Rightarrow> power \<Rightarrow> bool" where
  "health_due now p \<longleftrightarrow>
     pc_health_sec (pw_cfg p) > 0 \<and> now - pw_last_health p \<ge> pc_health_sec (pw_cfg p) * 1000000000"

text \<open>The command to run and the queue behind it; \<open>None\<close> is the \<open>continue\<close> without one.\<close>

definition next_command :: "power \<Rightarrow> (ribcl_command \<times> ribcl_command list) option" where
  "next_command p =
     (case pw_queue p of
        c # cs \<Rightarrow> Some (c, cs)
      | [] \<Rightarrow> if pw_poll_due p \<or> pc_poll_sec (pw_cfg p) > 0 then Some (GetPowerStatus, []) else None)"

text \<open>
  The first locked section, once the wait is over: the clock shows \<open>now\<close> at the test and \<open>later\<close> at the
  stamp, in nanoseconds.
\<close>

definition power_choose :: "int \<Rightarrow> int \<Rightarrow> power \<Rightarrow> power" where
  "power_choose now later p =
     (if \<not> pw_run p then p\<lparr>pw_phase := Returned\<rparr>
      else case next_command p of
             None \<Rightarrow> p
           | Some (c, q) \<Rightarrow>
               (let ride = (c = GetPowerStatus \<and> health_due now p);
                    p = p\<lparr>pw_queue := (if ride then GetEmbeddedHealth # GetPowerReadings # q else q), pw_poll_due := False,
                          pw_last_health := (if ride then later else pw_last_health p), pw_phase := Running c\<rparr>
                in power_on_snap (\<lambda>s. let s = s\<lparr>ps_busy := True\<rparr>
                     in if ribcl_is_write c then s\<lparr>ps_last_action := ribcl_command_name c\<rparr> else s) p))"

text \<open>The second locked section, with what \<open>ribcl_run\<close> gave.\<close>

definition file_failure :: "ribcl_command \<Rightarrow> string \<Rightarrow> power_snapshot \<Rightarrow> power_snapshot" where
  "file_failure c e s =
     (let s = s\<lparr>ps_error := True, ps_last_result := e\<rparr> in if c = GetPowerStatus then s\<lparr>ps_host_power := ''''\<rparr> else s)"

definition or_else :: "string \<Rightarrow> string \<Rightarrow> string" where
  "or_else s d = (if s = [] then d else s)"

definition file_reply :: "ribcl_command \<Rightarrow> ribcl_reply \<Rightarrow> power_snapshot \<Rightarrow> power_snapshot" where
  "file_reply c r s =
     (let s = (if rr_host_power r \<noteq> [] then s\<lparr>ps_host_power := rr_host_power r\<rparr> else s)
      in if c = GetEmbeddedHealth
         then (let h = parse_embedded_health (rr_raw r) in if h_valid h then s\<lparr>ps_health := h\<rparr> else s)
         else if c = GetPowerReadings
         then (let p = parse_power_readings (rr_raw r) in if pr_valid p then s\<lparr>ps_watts := p\<rparr> else s)
         else if ribcl_is_write c
         then s\<lparr>ps_error := \<not> rr_ok r, ps_last_result := (if rr_ok r then ''ok'' else or_else (rr_message r) ''failed'')\<rparr>
         else if \<not> rr_ok r
         then s\<lparr>ps_error := True, ps_last_result := or_else (rr_message r) ''status read failed''\<rparr>
         else s\<lparr>ps_error := False\<rparr>)"

definition power_file :: "ribcl_command \<Rightarrow> string + ribcl_reply \<Rightarrow> power \<Rightarrow> power" where
  "power_file c res p =
     (let p = power_on_snap (\<lambda>s. s\<lparr>ps_busy := False\<rparr>) (p\<lparr>pw_phase := Choosing\<rparr>)
      in case res of
           Inl e \<Rightarrow> power_on_snap (file_failure c e) p
         | Inr r \<Rightarrow> (power_on_snap (file_reply c r) p)\<lparr>pw_poll_due := (ribcl_is_write c \<or> pw_poll_due p)\<rparr>)"

text \<open>The exchange with the second section; \<open>None\<close> is an exchange that does not come back.\<close>

definition power_exchange :: "'w network \<Rightarrow> ribcl_command \<Rightarrow> 'w \<times> power \<Rightarrow> ('w \<times> power) option" where
  "power_exchange N c s =
     (let (w, p) = s; cfg = pw_cfg p
      in case n_ribcl N (pc_host cfg) (pc_port cfg) (pc_user cfg) (pc_pass cfg) c no_args w of
           (Got r, w) \<Rightarrow> Some (w, power_file c (Inr r) p)
         | (Error e, w) \<Rightarrow> Some (w, power_file c (Inl e) p)
         | _ \<Rightarrow> None)"

section \<open>Runs\<close>

datatype power_event = Requested ribcl_command | Chosen ribcl_command | Filed ribcl_command | Other

definition chosen_event :: "power \<Rightarrow> power_event" where
  "chosen_event p = (case pw_phase p of Running c \<Rightarrow> Chosen c | _ \<Rightarrow> Other)"

inductive power_step :: "'w network \<Rightarrow> 'w \<times> power \<Rightarrow> power_event \<Rightarrow> 'w \<times> power \<Rightarrow> bool" for N where
  asks: "power_step N (w, p) (Requested c) (w, power_request c p)"
| stops: "power_step N (w, p) Other (w, power_request_stop p)"
| elsewhere: "power_step N (w, p) Other (w', p)"
| chooses: "pw_phase p = Choosing \<Longrightarrow> power_step N (w, p) (chosen_event (power_choose now later p)) (w, power_choose now later p)"
| files: "pw_phase p = Running c \<Longrightarrow> power_exchange N c (w, p) = Some s \<Longrightarrow> power_step N (w, p) (Filed c) s"

inductive power_run :: "'w network \<Rightarrow> 'w \<times> power \<Rightarrow> power_event list \<Rightarrow> 'w \<times> power \<Rightarrow> bool" for N where
  stays: "power_run N s [] s"
| goes: "power_run N s es t \<Longrightarrow> power_step N t e u \<Longrightarrow> power_run N s (es @ [e]) u"

fun requested :: "power_event \<Rightarrow> ribcl_command option" where
  "requested (Requested c) = Some c"
| "requested _ = None"

fun chosen :: "power_event \<Rightarrow> ribcl_command option" where
  "chosen (Chosen c) = Some c"
| "chosen _ = None"

definition writes_of :: "ribcl_command list \<Rightarrow> ribcl_command list" where
  "writes_of = filter ribcl_is_write"

section \<open>Order, and what a snapshot holds\<close>

definition power_sound :: "power \<Rightarrow> bool" where
  "power_sound p \<longleftrightarrow>
     (ps_busy (pw_snap p) \<longleftrightarrow> (\<exists>c. pw_phase p = Running c)) \<and>
     (ps_health (pw_snap p) = health_new \<or> h_valid (ps_health (pw_snap p))) \<and>
     (ps_watts (pw_snap p) = power_readings_new \<or> pr_valid (ps_watts (pw_snap p)))"

lemma reads_are_no_writes [simp]:
  "\<not> ribcl_is_write GetPowerStatus" "\<not> ribcl_is_write GetEmbeddedHealth" "\<not> ribcl_is_write GetPowerReadings"
  by (simp_all add: ribcl_is_write_def)

lemma power_sound_start: "power_sound (power_start cfg p)"
  by (simp add: power_sound_def power_start_def power_snapshot_new_def)

lemma power_sound_choose: "pw_phase p = Choosing \<Longrightarrow> power_sound p \<Longrightarrow> power_sound (power_choose now later p)"
  by (auto simp: power_sound_def power_choose_def power_on_snap_def Let_def split: option.splits)

lemma power_sound_file: "power_sound p \<Longrightarrow> power_sound (power_file c res p)"
  by (auto simp: power_sound_def power_file_def file_failure_def file_reply_def power_on_snap_def Let_def split: sum.splits)

lemma power_exchange_file:
  "power_exchange N c (w, p) = Some (w', p') \<Longrightarrow> \<exists>res. p' = power_file c res p"
  by (auto simp: power_exchange_def Let_def split: prod.splits reply.splits)

lemma power_file_queue [simp]: "pw_queue (power_file c res p) = pw_queue p"
  by (simp add: power_file_def power_on_snap_def Let_def split: sum.splits)

lemma power_choose_writes:
  assumes "pw_phase p = Choosing"
  shows "writes_of (case chosen (chosen_event (power_choose now later p)) of None \<Rightarrow> [] | Some c \<Rightarrow> [c]) @
    writes_of (pw_queue (power_choose now later p)) = writes_of (pw_queue p)"
  using assms
  by (auto simp: power_choose_def chosen_event_def next_command_def power_on_snap_def writes_of_def Let_def
      split: option.splits list.splits)

definition listed :: "'a option \<Rightarrow> 'a list" where
  "listed x = (case x of None \<Rightarrow> [] | Some c \<Rightarrow> [c])"

lemma listed_simps [simp]: "listed None = []" "listed (Some c) = [c]"
  by (simp_all add: listed_def)

definition requests_of :: "power_event list \<Rightarrow> ribcl_command list" where
  "requests_of es = concat (map (\<lambda>e. listed (requested e)) es)"

definition choices_of :: "power_event list \<Rightarrow> ribcl_command list" where
  "choices_of es = concat (map (\<lambda>e. listed (chosen e)) es)"

lemma writes_append [simp]: "writes_of (as @ bs) = writes_of as @ writes_of bs"
  by (simp add: writes_of_def)

lemma chosen_not_requested [simp]: "requested (chosen_event p) = None"
  by (simp add: chosen_event_def split: power_phase.split)

lemma power_step_sound:
  assumes "power_step N s e t" and "power_sound (snd s)"
  shows "power_sound (snd t) \<and>
    writes_of (listed (chosen e)) @ writes_of (pw_queue (snd t)) = writes_of (pw_queue (snd s)) @ writes_of (listed (requested e))"
  using assms
proof (cases rule: power_step.cases)
  case (asks w p c)
  then show ?thesis using assms(2) by (simp add: power_request_def power_sound_def writes_of_def)
next
  case (stops w p)
  then show ?thesis using assms(2) by (simp add: power_request_stop_def power_sound_def writes_of_def)
next
  case (elsewhere w p w')
  then show ?thesis using assms(2) by (simp add: writes_of_def)
next
  case (chooses p w now later)
  then show ?thesis using assms(2) power_sound_choose [of p now later] power_choose_writes [of p now later]
    by (simp add: writes_of_def listed_def)
next
  case (files p c w)
  obtain w' p' where t: "t = (w', p')" by (cases t)
  then obtain res where "p' = power_file c res p" using power_exchange_file [of N c w p w' p'] files(4) by blast
  then show ?thesis using assms(2) files t power_sound_file by (simp add: writes_of_def)
qed

lemma power_run_sound:
  "power_run N s es t \<Longrightarrow> power_sound (snd s) \<Longrightarrow>
   power_sound (snd t) \<and>
   writes_of (choices_of es) @ writes_of (pw_queue (snd t)) = writes_of (pw_queue (snd s)) @ writes_of (requests_of es)"
proof (induction rule: power_run.induct)
  case (stays s)
  then show ?case by (simp add: choices_of_def requests_of_def writes_of_def)
next
  case (goes s es t e u)
  note step = power_step_sound [OF goes.hyps(2)]
  have ih: "power_sound (snd t)"
    "writes_of (choices_of es) @ writes_of (pw_queue (snd t)) = writes_of (pw_queue (snd s)) @ writes_of (requests_of es)"
    using goes by blast+
  note step = conjunct1 [OF step [OF ih(1)]] conjunct2 [OF step [OF ih(1)]]
  have "writes_of (choices_of (es @ [e])) @ writes_of (pw_queue (snd u))
      = writes_of (choices_of es) @ writes_of (pw_queue (snd t)) @ writes_of (listed (requested e))"
    using step(2) by (simp add: choices_of_def)
  also have "\<dots> = writes_of (pw_queue (snd s)) @ writes_of (requests_of (es @ [e]))"
    using ih(2) by (simp add: requests_of_def)
  finally show ?case using step(1) by blast
qed

text \<open>C25: whatever the iLO answers and however the front end's calls fall among the worker's steps, the writes
  the worker has sent, followed by those still queued, are the writes that were requested since
  the start, each once and in their order, whatever reads are between them. A snapshot says busy exactly while a command is on the wire, and never shows half a health report or
  power reading.\<close>

theorem writes_in_order:
  assumes "power_run N (w, power_start cfg p) es (w', p')"
  shows "writes_of (requests_of es) = writes_of (choices_of es) @ writes_of (pw_queue p') \<and>
    (ps_busy (pw_snap p') \<longleftrightarrow> (\<exists>c. pw_phase p' = Running c)) \<and>
    (ps_health (pw_snap p') = health_new \<or> h_valid (ps_health (pw_snap p'))) \<and>
    (ps_watts (pw_snap p') = power_readings_new \<or> pr_valid (ps_watts (pw_snap p')))"
proof -
  have "power_sound (snd (w, power_start cfg p))" by (simp add: power_sound_start)
  note run = power_run_sound [OF assms this]
  have "pw_queue (power_start cfg p) = []" by (simp add: power_start_def)
  with run show ?thesis unfolding power_sound_def by (simp add: writes_of_def)
qed

text \<open>A network whose iLO refuses every write and answers every read.\<close>

definition refusing_network :: "unit network" where
  "refusing_network = \<lparr>m_file_size = \<lambda>_ _. -1, m_bind = \<lambda>_ _. False, m_read = \<lambda>_ _ _ _. None,
     n_ribcl = \<lambda>host port user pass c args w.
       (Got (if ribcl_is_write c then \<lparr>rr_raw = '''', rr_ok = False, rr_message = ''Server power is off.'', rr_host_power = ''''\<rparr>
             else \<lparr>rr_raw = '''', rr_ok = True, rr_message = '''', rr_host_power = ''OFF''\<rparr>), w),
     n_local_address = \<lambda>_ _ _. ''''\<rparr>"

definition sample_power_config :: power_config where
  "sample_power_config = \<lparr>pc_host = ''ilo'', pc_port = 443, pc_user = ''u'', pc_pass = ''p'', pc_poll_sec = 10, pc_health_sec = 0\<rparr>"

definition sample_power_old :: power where
  "sample_power_old = \<lparr>pw_cfg = sample_power_config, pw_queue = [], pw_snap = power_snapshot_new, pw_run = False, pw_phase = Returned,
     pw_poll_due = False, pw_last_health = 0\<rparr>"

definition sample_power_asked :: power where
  "sample_power_asked = power_request UidOff (power_request UidOn (power_start sample_power_config sample_power_old))"

lemma sample_power_run:
  "power_run refusing_network ((), power_start sample_power_config sample_power_old) [Requested UidOn, Requested UidOff, Chosen UidOn]
     ((), power_choose 0 0 sample_power_asked)"
proof -
  have p: "pw_phase sample_power_asked = Choosing" "chosen_event (power_choose 0 0 sample_power_asked) = Chosen UidOn"
    by code_simp+
  note 1 = power_run.goes [OF power_run.stays power_step.asks, of refusing_network "()" "power_start sample_power_config sample_power_old" UidOn]
  note 2 = power_run.goes [OF 1 power_step.asks, of UidOff]
  note 3 = power_run.goes [OF 2 [folded sample_power_asked_def] power_step.chooses [OF p(1)], of 0 0]
  show ?thesis using 3 by (simp add: p(2))
qed

theorem writes_in_order_witness:
  "writes_of (requests_of [Requested UidOn, Requested UidOff, Chosen UidOn]) = [UidOn, UidOff] \<and>
   pw_queue (power_choose 0 0 sample_power_asked) = [UidOff] \<and> ps_busy (pw_snap (power_choose 0 0 sample_power_asked))"
proof -
  note r = writes_in_order [OF sample_power_run]
  have "writes_of (requests_of [Requested UidOn, Requested UidOff, Chosen UidOn]) = [UidOn, UidOff]"
    "pw_queue (power_choose 0 0 sample_power_asked) = [UidOff]" "pw_phase (power_choose 0 0 sample_power_asked) = Running UidOn"
    by code_simp+
  with r show ?thesis by blast
qed

section \<open>The status read after a write\<close>

lemma write_kind: "ribcl_is_write c \<Longrightarrow> c \<noteq> GetPowerStatus \<and> c \<noteq> GetEmbeddedHealth \<and> c \<noteq> GetPowerReadings"
  by (auto simp: ribcl_is_write_def)

lemma write_makes_poll_due:
  "ribcl_is_write c \<Longrightarrow> pw_poll_due (power_file c (Inr r) p) \<and> pw_run (power_file c (Inr r) p) = pw_run p \<and>
     pw_cfg (power_file c (Inr r) p) = pw_cfg p"
  by (simp add: power_file_def power_on_snap_def Let_def)

lemma poll_due_chooses_status:
  assumes "pw_poll_due p" "pw_run p" "pw_queue p = []"
  shows "pw_phase (power_choose now later p) = Running GetPowerStatus \<and> pw_cfg (power_choose now later p) = pw_cfg p \<and>
    ps_last_result (pw_snap (power_choose now later p)) = ps_last_result (pw_snap p) \<and>
    ps_last_action (pw_snap (power_choose now later p)) = ps_last_action (pw_snap p)"
  using assms by (simp add: power_choose_def next_command_def power_on_snap_def Let_def)

lemma status_filed:
  "rr_ok r \<Longrightarrow> \<not> ps_error (pw_snap (power_file GetPowerStatus (Inr r) p)) \<and>
   ps_last_result (pw_snap (power_file GetPowerStatus (Inr r) p)) = ps_last_result (pw_snap p) \<and>
   ps_last_action (pw_snap (power_file GetPowerStatus (Inr r) p)) = ps_last_action (pw_snap p)"
  by (simp add: power_file_def power_on_snap_def file_reply_def Let_def)

lemma refused_filed:
  "ribcl_is_write c \<Longrightarrow> \<not> rr_ok r \<Longrightarrow> ps_error (pw_snap (power_file c (Inr r) p)) \<and>
   ps_last_result (pw_snap (power_file c (Inr r) p)) = or_else (rr_message r) ''failed'' \<and>
   ps_last_action (pw_snap (power_file c (Inr r) p)) = ps_last_action (pw_snap p)"
  using write_kind [of c] by (simp add: power_file_def power_on_snap_def file_reply_def Let_def)

text \<open>C26: after a write the firmware refused, with nothing else queued, the worker reads the status at once,
  whatever its poll interval; and if that read succeeds the snapshot still shows the write and
  its failure message, but no longer marked as an error.\<close>

theorem refused_write_unmarked:
  assumes "ribcl_is_write c" "pw_run p" "pw_queue p = []" "pw_phase p = Running c"
    and "n_ribcl N (pc_host (pw_cfg p)) (pc_port (pw_cfg p)) (pc_user (pw_cfg p)) (pc_pass (pw_cfg p)) c no_args w = (Got r, w1)"
    and "\<not> rr_ok r"
    and "n_ribcl N (pc_host (pw_cfg p)) (pc_port (pw_cfg p)) (pc_user (pw_cfg p)) (pc_pass (pw_cfg p)) GetPowerStatus no_args w1 = (Got r', w2)"
    and "rr_ok r'"
  shows "\<exists>p1 p2. power_run N (w, p) [Filed c] (w1, p1) \<and> ps_error (pw_snap p1) \<and>
    power_run N (w, p) [Filed c, Chosen GetPowerStatus, Filed GetPowerStatus] (w2, p2) \<and>
    ps_last_action (pw_snap p2) = ps_last_action (pw_snap p) \<and>
    ps_last_result (pw_snap p2) = or_else (rr_message r) ''failed'' \<and> \<not> ps_error (pw_snap p2)"
proof -
  define p1 where "p1 = power_file c (Inr r) p"
  define pc where "pc = power_choose 0 0 p1"
  define p2 where "p2 = power_file GetPowerStatus (Inr r') pc"
  have due: "pw_poll_due p1" "pw_run p1" "pw_cfg p1 = pw_cfg p" "pw_queue p1 = []"
    using write_makes_poll_due [OF assms(1)] assms(2,3) by (simp_all add: p1_def)
  note ch = poll_due_chooses_status [OF due(1,2,4), of 0 0, folded pc_def]
  have ph: "pw_phase p1 = Choosing" by (simp add: p1_def power_file_def power_on_snap_def Let_def)
  have "power_exchange N c (w, p) = Some (w1, p1)" using assms(5) by (simp add: power_exchange_def p1_def Let_def)
  from power_step.files [OF assms(4) this] power_run.goes [OF power_run.stays, of N "(w, p)"]
  have 1: "power_run N (w, p) [Filed c] (w1, p1)" by fastforce
  have "chosen_event pc = Chosen GetPowerStatus" using ch by (simp add: chosen_event_def)
  then have "power_step N (w1, p1) (Chosen GetPowerStatus) (w1, pc)"
    using power_step.chooses [OF ph, of N w1 0 0] by (simp add: pc_def)
  from power_run.goes [OF 1 this] have 2: "power_run N (w, p) [Filed c, Chosen GetPowerStatus] (w1, pc)" by simp
  have "power_exchange N GetPowerStatus (w1, pc) = Some (w2, p2)"
    using assms(7) ch due(3) by (simp add: power_exchange_def p2_def Let_def)
  from power_run.goes [OF 2 power_step.files [OF _ this]] ch
  have 3: "power_run N (w, p) [Filed c, Chosen GetPowerStatus, Filed GetPowerStatus] (w2, p2)" by simp
  note f = refused_filed [OF assms(1,6), of p, folded p1_def] status_filed [OF assms(8), of pc, folded p2_def]
  show ?thesis by (intro exI [of _ p1] exI [of _ p2]) (use 1 3 f ch in simp)
qed


definition sample_power_refused :: power where
  "sample_power_refused = power_choose 0 0 (power_request PowerOn (power_start sample_power_config sample_power_old))"

theorem refused_write_unmarked_witness:
  "\<exists>p1 p2. power_run refusing_network ((), sample_power_refused) [Filed PowerOn] ((), p1) \<and> ps_error (pw_snap p1) \<and>
    power_run refusing_network ((), sample_power_refused) [Filed PowerOn, Chosen GetPowerStatus, Filed GetPowerStatus] ((), p2) \<and>
    ps_last_action (pw_snap p2) = ps_last_action (pw_snap sample_power_refused) \<and>
    ps_last_result (pw_snap p2) = or_else ''Server power is off.'' ''failed'' \<and> \<not> ps_error (pw_snap p2)"
proof -
  define r where "r = \<lparr>rr_raw = '''', rr_ok = False, rr_message = ''Server power is off.'', rr_host_power = ''''\<rparr>"
  define r' where "r' = \<lparr>rr_raw = '''', rr_ok = True, rr_message = '''', rr_host_power = ''OFF''\<rparr>"
  have s: "ribcl_is_write PowerOn" "pw_run sample_power_refused" "pw_queue sample_power_refused = []"
    "pw_phase sample_power_refused = Running PowerOn"
    by code_simp+
  have n: "n_ribcl refusing_network h q u v PowerOn no_args () = (Got r, ())"
    "n_ribcl refusing_network h q u v GetPowerStatus no_args () = (Got r', ())" for h q u v
    using s(1) by (simp_all add: refusing_network_def r_def r'_def)
  show ?thesis
    using refused_write_unmarked [OF s n(1) _ n(2)] by (simp add: r_def r'_def)
qed

end
