(* ===== verification/Connections.thy ===== *)
theory Connections
  imports Std_String
begin

text \<open>
  The list of recently used iLOs, \<open>ui/connections.hpp\<close>: parsing and printing of its file, and the
  operations that reorder it. The file system is a pair of parameters. Shown: whatever is used, the
  list is the last ten distinct connections, most recent first, and it survives saving and loading.
\<close>

section \<open>The model\<close>

record saved_connection =
  sc_host :: string
  sc_user :: string

definition MAX_SAVED_CONNECTIONS :: nat where "MAX_SAVED_CONNECTIONS = 10"

text \<open>One line of the file; comments, empty lines and lines without a host give nothing.\<close>

definition parse_line :: "string \<Rightarrow> saved_connection option" where
  "parse_line line =
     (let line = (if line \<noteq> [] \<and> last line = CHR 0x0D then butlast line else line)
      in if line = [] \<or> hd line = CHR ''#'' then None
         else (let c = (case find_str [CHR 0x09] line of
                          None \<Rightarrow> \<lparr>sc_host = line, sc_user = ''''\<rparr>
                        | Some tab \<Rightarrow> \<lparr>sc_host = take tab line, sc_user = drop (tab + 1) line\<rparr>)
               in if sc_host c = [] then None else Some c))"

text \<open>The loop, on what is left of the text.\<close>

function parse_lines :: "string \<Rightarrow> saved_connection list \<Rightarrow> saved_connection list" where
  "parse_lines text_left out =
     (if text_left = [] then out
      else (let nl = (case find_str [CHR 0x0A] text_left of None \<Rightarrow> length text_left | Some nl \<Rightarrow> nl);
                rest = drop (nl + 1) text_left
            in case parse_line (take nl text_left) of
                 None \<Rightarrow> parse_lines rest out
               | Some c \<Rightarrow>
                   if length (out @ [c]) \<ge> MAX_SAVED_CONNECTIONS then out @ [c] else parse_lines rest (out @ [c])))"
  by pat_completeness auto
termination
  by (relation "measure (\<lambda>(text_left, out). length text_left)") auto

declare parse_lines.simps [simp del]

definition parse_connections :: "string \<Rightarrow> saved_connection list" where
  "parse_connections txt = parse_lines txt []"

definition format_line :: "saved_connection \<Rightarrow> string" where
  "format_line c = sc_host c @ [CHR 0x09] @ sc_user c @ [CHR 0x0A]"

definition file_comment :: string where
  "file_comment = ''# ilo2ctl: recent connections, most recent first. host<TAB>user'' @ [CHR 0x0A]"

definition format_connections :: "saved_connection list \<Rightarrow> string" where
  "format_connections l = file_comment @ concat (map format_line l)"

definition remember_connection :: "saved_connection \<Rightarrow> saved_connection list \<Rightarrow> saved_connection list" where
  "remember_connection c l =
     (let l = c # filter (\<lambda>d. d \<noteq> c) l
      in if length l > MAX_SAVED_CONNECTIONS then take MAX_SAVED_CONNECTIONS l else l)"

definition forget_connection :: "nat \<Rightarrow> saved_connection list \<Rightarrow> saved_connection list" where
  "forget_connection index l = (if index < length l then take index l @ drop (index + 1) l else l)"

text \<open>
  \<open>fetch\<close> is the contents of a file that can be opened; \<open>store\<close> returns how much was written, or
  nothing when the file cannot be created.
\<close>

definition load_connections :: "(string \<Rightarrow> 'f \<Rightarrow> string option) \<Rightarrow> string \<Rightarrow> 'f \<Rightarrow> saved_connection list" where
  "load_connections fetch path fs = (case fetch path fs of None \<Rightarrow> [] | Some txt \<Rightarrow> parse_connections txt)"

definition save_connections ::
  "(string \<Rightarrow> string \<Rightarrow> 'f \<Rightarrow> nat option \<times> 'f) \<Rightarrow> string \<Rightarrow> saved_connection list \<Rightarrow> 'f \<Rightarrow> bool \<times> 'f" where
  "save_connections store path l fs =
     (let txt = format_connections l
      in case store path txt fs of (None, fs) \<Rightarrow> (False, fs) | (Some n, fs) \<Rightarrow> (n = length txt, fs))"

section \<open>Printing and parsing\<close>

text \<open>What a line can carry.\<close>

definition clean :: "saved_connection \<Rightarrow> bool" where
  "clean c \<longleftrightarrow> sc_host c \<noteq> [] \<and> hd (sc_host c) \<noteq> CHR ''#'' \<and> CHR 0x09 \<notin> set (sc_host c) \<and> CHR 0x0A \<notin> set (sc_host c) \<and>
     CHR 0x0A \<notin> set (sc_user c) \<and> (sc_user c \<noteq> [] \<longrightarrow> last (sc_user c) \<noteq> CHR 0x0D)"

lemma parse_line_clean: "clean c \<Longrightarrow> parse_line (sc_host c @ [CHR 0x09] @ sc_user c) = Some c"
  by (cases "sc_user c = []") (auto simp: clean_def parse_line_def find_char Let_def)

lemma parse_lines_line:
  assumes "clean c" and "Suc (length out) < MAX_SAVED_CONNECTIONS"
  shows "parse_lines (format_line c @ txt) out = parse_lines txt (out @ [c])"
proof -
  let ?l = "sc_host c @ [CHR 0x09] @ sc_user c"
  have "find_str [CHR 0x0A] (?l @ CHR 0x0A # txt) = Some (length ?l)"
    using assms(1) by (intro find_char) (simp add: clean_def)
  then show ?thesis using assms parse_line_clean [OF assms(1)]
    by (subst parse_lines.simps) (simp add: format_line_def Let_def)
qed

lemma parse_lines_full:
  assumes "clean c" and "Suc (length out) = MAX_SAVED_CONNECTIONS"
  shows "parse_lines (format_line c @ txt) out = out @ [c]"
proof -
  let ?l = "sc_host c @ [CHR 0x09] @ sc_user c"
  have "find_str [CHR 0x0A] (?l @ CHR 0x0A # txt) = Some (length ?l)"
    using assms(1) by (intro find_char) (simp add: clean_def)
  then show ?thesis using assms parse_line_clean [OF assms(1)]
    by (subst parse_lines.simps) (simp add: format_line_def Let_def)
qed

lemma parse_lines_format:
  "list_all clean l \<Longrightarrow> length out < MAX_SAVED_CONNECTIONS \<Longrightarrow>
   parse_lines (concat (map format_line l)) out = out @ take (MAX_SAVED_CONNECTIONS - length out) l"
proof (induction l arbitrary: out)
  case Nil
  then show ?case by (simp add: parse_lines.simps)
next
  case (Cons c l)
  show ?case
  proof (cases "Suc (length out) = MAX_SAVED_CONNECTIONS")
    case True
    then have "MAX_SAVED_CONNECTIONS - length out = Suc 0" by simp
    with True Cons.prems show ?thesis by (simp add: parse_lines_full)
  next
    case False
    then have m: "Suc (length out) < MAX_SAVED_CONNECTIONS" using Cons.prems by simp
    then have "MAX_SAVED_CONNECTIONS - length out = Suc (MAX_SAVED_CONNECTIONS - Suc (length out))" by simp
    with m Cons show ?thesis by (simp add: parse_lines_line)
  qed
qed

lemma parse_comment: "parse_lines (file_comment @ txt) [] = parse_lines txt []"
  by (subst parse_lines.simps) (simp add: file_comment_def parse_line_def)

lemma parse_format: "list_all clean l \<Longrightarrow> parse_connections (format_connections l) = take MAX_SAVED_CONNECTIONS l"
  by (simp add: parse_connections_def format_connections_def parse_comment parse_lines_format MAX_SAVED_CONNECTIONS_def)

section \<open>Recency\<close>

lemma take_filter_distinct:
  "distinct xs \<Longrightarrow> take n (filter (\<lambda>d. d \<noteq> c) (take (Suc n) xs)) = take n (filter (\<lambda>d. d \<noteq> c) xs)"
proof (induction xs arbitrary: n)
  case (Cons x xs)
  show ?case
  proof (cases "x = c")
    case True
    then have "c \<notin> set xs" using Cons.prems by simp
    then have "filter (\<lambda>d. d \<noteq> c) xs = xs" "filter (\<lambda>d. d \<noteq> c) (take n xs) = take n xs"
      by (auto simp: filter_id_conv dest: in_set_takeD)
    with True show ?thesis by simp
  next
    case False
    with Cons show ?thesis by (cases n) simp_all
  qed
qed simp

lemma remember_take:
  assumes "distinct l"
  shows "remember_connection c (take MAX_SAVED_CONNECTIONS l) = take MAX_SAVED_CONNECTIONS (c # filter (\<lambda>d. d \<noteq> c) l)"
  using take_filter_distinct [OF assms, of 9 c]
  by (auto simp: remember_connection_def MAX_SAVED_CONNECTIONS_def Let_def not_less)

lemma rev_remdups_snoc: "rev (remdups (cs @ [c])) = c # filter (\<lambda>d. d \<noteq> c) (rev (remdups cs))"
  by (induction cs) (auto simp: rev_filter)

lemma remember_history: "fold remember_connection cs [] = take MAX_SAVED_CONNECTIONS (rev (remdups cs))"
proof (induction cs rule: rev_induct)
  case (snoc c cs)
  have "distinct (rev (remdups cs))" by simp
  from remember_take [OF this, of c] snoc show ?case by (simp add: rev_remdups_snoc)
qed simp

section \<open>Properties\<close>

text \<open>The list of recent connections: remembering any history of connections leaves the last ten distinct ones, most recent first, and a file system that stores what it is given returns exactly this list when the saved file is loaded again, for hosts and users that a line of the file can carry.\<close>

theorem recent_connections:
  assumes "list_all clean cs"
    and "\<And>txt. store path txt fs = (Some (length txt), kept txt)" and "\<And>txt. fetch path (kept txt) = Some txt"
  shows "fold remember_connection cs [] = take 10 (rev (remdups cs)) \<and>
    (case save_connections store path (fold remember_connection cs []) fs of
       (ok, fs') \<Rightarrow> ok \<and> load_connections fetch path fs' = take 10 (rev (remdups cs)))"
proof -
  have "list_all clean (fold remember_connection cs [])"
    using assms(1) by (auto simp: remember_history list_all_iff dest: in_set_takeD)
  from parse_format [OF this] show ?thesis
    by (simp add: assms(2,3) load_connections_def save_connections_def remember_history MAX_SAVED_CONNECTIONS_def Let_def)
qed

lemma recent_connections_witness:
  "case save_connections (\<lambda>p s fs. (Some (length s), fs(p \<mapsto> s))) ''ilo''
     (fold remember_connection [\<lparr>sc_host = ''a'', sc_user = ''u''\<rparr>, \<lparr>sc_host = ''b'', sc_user = ''''\<rparr>, \<lparr>sc_host = ''a'', sc_user = ''u''\<rparr>] [])
     Map.empty of
   (ok, fs') \<Rightarrow> ok \<and> load_connections (\<lambda>p fs. fs p) ''ilo'' fs' = [\<lparr>sc_host = ''a'', sc_user = ''u''\<rparr>, \<lparr>sc_host = ''b'', sc_user = ''''\<rparr>]"
proof -
  let ?cs = "[\<lparr>sc_host = ''a'', sc_user = ''u''\<rparr>, \<lparr>sc_host = ''b'', sc_user = ''''\<rparr>, \<lparr>sc_host = ''a'', sc_user = ''u''\<rparr>]"
  have r: "take 10 (rev (remdups ?cs)) = [\<lparr>sc_host = ''a'', sc_user = ''u''\<rparr>, \<lparr>sc_host = ''b'', sc_user = ''''\<rparr>]" by simp
  have "list_all clean ?cs" by (simp add: clean_def)
  from recent_connections [OF this, of "\<lambda>p s fs. (Some (length s), fs(p \<mapsto> s))" "''ilo''" Map.empty
      "\<lambda>txt. Map.empty(''ilo'' \<mapsto> txt)" "\<lambda>p fs. fs p", OF refl fun_upd_same, THEN conjunct2, unfolded r]
  show ?thesis .
qed

end
