(* ===== verification/Front_End.thy ===== *)
theory Front_End
  imports Console_Core Power_Control Connections
begin

text \<open>
  What \<open>ui/sdl_main.cpp\<close> decides itself, apart from windows and widgets: the command line, the mapping of
  SDL events to calls of \<open>ConsoleCore\<close>, the start of a session, the two-click buttons, the question asked
  before closing, and the age of the last read. What ImGui reports (which button was pressed, whether a
  dialog is open) is an input of each frame; coordinates are \<open>float\<close>s, whose arithmetic is a parameter.
\<close>

section \<open>Options\<close>

record options =
  o_host :: string
  o_user :: string
  o_pass :: string
  o_replay :: string
  o_refresh_every :: int
  o_autoconnect :: bool
  o_screenshot :: string
  o_frames :: int
  o_wake :: bool
  o_tab :: string

definition options_new :: options where
  "options_new = \<lparr>o_host = '''', o_user = ''Administrator'', o_pass = '''', o_replay = '''', o_refresh_every = 0,
     o_autoconnect = False, o_screenshot = '''', o_frames = 150, o_wake = False, o_tab = ''console''\<rparr>"

text \<open>The options with an argument; an option at the end of the line gets the empty string.\<close>

definition set_option :: "string \<Rightarrow> string \<Rightarrow> options \<Rightarrow> options" where
  "set_option a v opt =
     (if a = ''--host'' then opt\<lparr>o_host := v, o_autoconnect := True\<rparr>
      else if a = ''--user'' then opt\<lparr>o_user := v\<rparr>
      else if a = ''--pass'' then opt\<lparr>o_pass := v\<rparr>
      else if a = ''--replay'' then opt\<lparr>o_replay := v, o_autoconnect := True\<rparr>
      else if a = ''--refresh-every'' then opt\<lparr>o_refresh_every := atoi v\<rparr>
      else if a = ''--screenshot'' then opt\<lparr>o_screenshot := v\<rparr>
      else if a = ''--frames'' then opt\<lparr>o_frames := atoi v\<rparr>
      else if a = ''--tab'' then opt\<lparr>o_tab := v\<rparr> else opt)"

definition takes_value :: "string \<Rightarrow> bool" where
  "takes_value a \<longleftrightarrow> a \<in> set [''--host'', ''--user'', ''--pass'', ''--replay'', ''--refresh-every'', ''--screenshot'', ''--frames'', ''--tab'']"

fun parse_args :: "string list \<Rightarrow> options \<Rightarrow> options" where
  "parse_args [] opt = opt"
| "parse_args [a] opt = (if takes_value a then set_option a '''' opt else if a = ''--wake'' then opt\<lparr>o_wake := True\<rparr> else opt)"
| "parse_args (a # b # r) opt =
     (if takes_value a then parse_args r (set_option a b opt)
      else parse_args (b # r) (if a = ''--wake'' then opt\<lparr>o_wake := True\<rparr> else opt))"

section \<open>Coordinates\<close>

record 'f float_ops =
  f_less :: "'f \<Rightarrow> 'f \<Rightarrow> bool"
  f_leq :: "'f \<Rightarrow> 'f \<Rightarrow> bool"
  f_add :: "'f \<Rightarrow> 'f \<Rightarrow> 'f"
  f_sub :: "'f \<Rightarrow> 'f \<Rightarrow> 'f"
  f_mul :: "'f \<Rightarrow> 'f \<Rightarrow> 'f"
  f_div :: "'f \<Rightarrow> 'f \<Rightarrow> 'f"
  f_half :: 'f
  f_of_int :: "int \<Rightarrow> 'f"
  f_to_int :: "'f \<Rightarrow> int"

record 'f frect =
  r_x :: 'f
  r_y :: 'f
  r_w :: 'f
  r_h :: 'f

definition f_min :: "'f float_ops \<Rightarrow> 'f \<Rightarrow> 'f \<Rightarrow> 'f" where
  "f_min F a b = (if f_less F b a then b else a)"

definition letterbox :: "'f float_ops \<Rightarrow> int \<Rightarrow> int \<Rightarrow> 'f frect \<Rightarrow> 'f frect" where
  "letterbox F w h area =
     (let z = f_of_int F 0
      in if w \<le> 0 \<or> h \<le> 0 \<or> f_leq F (r_w area) z \<or> f_leq F (r_h area) z then \<lparr>r_x = z, r_y = z, r_w = z, r_h = z\<rparr>
         else (let s = f_min F (f_div F (r_w area) (f_of_int F w)) (f_div F (r_h area) (f_of_int F h));
                   iw = f_mul F (f_of_int F w) s; ih = f_mul F (f_of_int F h) s
               in \<lparr>r_x = f_add F (r_x area) (f_mul F (f_sub F (r_w area) iw) (f_half F)),
                   r_y = f_add F (r_y area) (f_mul F (f_sub F (r_h area) ih) (f_half F)), r_w = iw, r_h = ih\<rparr>))"

definition to_console :: "'f float_ops \<Rightarrow> 'f frect \<Rightarrow> int \<Rightarrow> int \<Rightarrow> 'f \<Rightarrow> 'f \<Rightarrow> (int \<times> int) option" where
  "to_console F d w h wx wy =
     (let z = f_of_int F 0
      in if f_leq F (r_w d) z \<or> f_leq F (r_h d) z then None
         else if f_less F wx (r_x d) \<or> f_less F wy (r_y d) \<or> f_leq F (f_add F (r_x d) (r_w d)) wx \<or> f_leq F (f_add F (r_y d) (r_h d)) wy
         then None
         else (let cx = f_to_int F (f_mul F (f_div F (f_sub F wx (r_x d)) (r_w d)) (f_of_int F w));
                   cy = f_to_int F (f_mul F (f_div F (f_sub F wy (r_y d)) (r_h d)) (f_of_int F h))
               in Some (max 0 (min (w - 1) cx), max 0 (min (h - 1) cy))))"

section \<open>Events\<close>

datatype sdl_button = Sdl_left | Sdl_right | Sdl_middle | Sdl_other_button

fun sdl_button_to_ilo :: "sdl_button \<Rightarrow> int" where
  "sdl_button_to_ilo Sdl_left = BTN_LEFT"
| "sdl_button_to_ilo Sdl_right = BTN_RIGHT"
| "sdl_button_to_ilo Sdl_middle = BTN_CENTER"
| "sdl_button_to_ilo Sdl_other_button = 0"

datatype sdl_key = K_return | K_kp_enter | K_backspace | K_tab | K_escape | K_up | K_down | K_left | K_right | K_other

fun special_key_bytes :: "sdl_key \<Rightarrow> bytes option" where
  "special_key_bytes K_return = Some [0x0D]"
| "special_key_bytes K_kp_enter = Some [0x0D]"
| "special_key_bytes K_backspace = Some [0x08]"
| "special_key_bytes K_tab = Some [0x09]"
| "special_key_bytes K_escape = Some [0x1B]"
| "special_key_bytes K_up = Some arrow_up"
| "special_key_bytes K_down = Some arrow_down"
| "special_key_bytes K_left = Some arrow_left"
| "special_key_bytes K_right = Some arrow_right"
| "special_key_bytes K_other = None"

datatype 'f sdl_event =
    Quit_event | Close_event | Motion 'f 'f | Button sdl_button bool 'f 'f | Text_input bytes | Key_down sdl_key | Other_event

text \<open>What the event loop knows of the frame before: the core, and where and what ImGui laid out.\<close>

record 'f ui =
  u_core :: core
  u_send_input :: bool
  u_image :: "'f frect"
  u_image_hovered :: bool
  u_fb_w :: int
  u_fb_h :: int
  u_want_text :: bool
  u_guard_up :: bool
  u_console_tab :: bool
  u_close_requested :: bool

definition on_core :: "(core \<Rightarrow> core) \<Rightarrow> 'f ui \<Rightarrow> 'f ui" where
  "on_core f u = u\<lparr>u_core := f (u_core u)\<rparr>"

definition keys_elsewhere :: "'f ui \<Rightarrow> bool" where
  "keys_elsewhere u \<longleftrightarrow> u_want_text u \<or> u_guard_up u \<or> \<not> u_console_tab u"

definition locate :: "'f float_ops \<Rightarrow> 'f ui \<Rightarrow> 'f \<Rightarrow> 'f \<Rightarrow> (int \<times> int) option" where
  "locate F u x y = (if \<not> u_image_hovered u then None else to_console F (u_image u) (u_fb_w u) (u_fb_h u) x y)"

definition handle_event :: "'f float_ops \<Rightarrow> 'f sdl_event \<Rightarrow> 'f ui \<Rightarrow> 'f ui" where
  "handle_event F e u =
     (let u = (case e of Quit_event \<Rightarrow> u\<lparr>u_close_requested := True\<rparr> | Close_event \<Rightarrow> u\<lparr>u_close_requested := True\<rparr> | _ \<Rightarrow> u)
      in if \<not> u_send_input u \<or> c_state (u_core u) \<noteq> Connected then u
         else (case e of
                 Motion x y \<Rightarrow> (case locate F u x y of None \<Rightarrow> u | Some (cx, cy) \<Rightarrow> on_core (mouse_move cx cy) u)
               | Button b down x y \<Rightarrow>
                   (let b = sdl_button_to_ilo b
                    in if b = 0 then u
                       else (case locate F u x y of None \<Rightarrow> u | Some (cx, cy) \<Rightarrow> on_core (\<lambda>c. mouse_button b down (mouse_move cx cy c)) u))
               | Text_input cs \<Rightarrow> if keys_elsewhere u then u else on_core (fold core_type_char cs) u
               | Key_down k \<Rightarrow>
                   if keys_elsewhere u then u
                   else (case special_key_bytes k of None \<Rightarrow> u | Some bs \<Rightarrow> on_core (send_raw bs) u)
               | _ \<Rightarrow> u))"

definition handle_events :: "'f float_ops \<Rightarrow> 'f sdl_event list \<Rightarrow> 'f ui \<Rightarrow> 'f ui" where
  "handle_events F es u = fold (handle_event F) es u"

section \<open>Starting a session\<close>

text \<open>The parts of \<open>main\<close> that \<open>do_connect\<close> touches.\<close>

record program =
  p_core :: core
  p_power :: power
  p_media :: media
  p_error :: string
  p_recorded :: bool

record form =
  form_host :: string
  form_user :: string
  form_pass :: string

definition power_defaults :: "string \<Rightarrow> string \<Rightarrow> string \<Rightarrow> power_config" where
  "power_defaults h u p = \<lparr>pc_host = h, pc_port = 443, pc_user = u, pc_pass = p, pc_poll_sec = 10, pc_health_sec = 30\<rparr>"

definition media_defaults :: "string \<Rightarrow> string \<Rightarrow> string \<Rightarrow> media_config" where
  "media_defaults h u p = \<lparr>mc_host = h, mc_port = 443, mc_user = u, mc_pass = p, mc_http_port = 8080, mc_poll_sec = 15\<rparr>"

definition core_defaults :: "string \<Rightarrow> string \<Rightarrow> string \<Rightarrow> int \<Rightarrow> config" where
  "core_defaults h u p every = \<lparr>cfg_host = h, cfg_user = u, cfg_pass = p, cfg_https_port = 443, cfg_console_port = 0, cfg_refresh_every = every\<rparr>"

text \<open>
  The environment and the password file are \<open>env\<close> and \<open>pwfile\<close>, the recorded stream is \<open>file\<close>. Power and
  media control are started over: their \<open>start\<close> joins a worker that still runs first.
\<close>

definition do_connect ::
  "options \<Rightarrow> string option \<Rightarrow> string option \<Rightarrow> (nat \<times> bytes) option \<Rightarrow> form \<Rightarrow> program \<Rightarrow> program" where
  "do_connect opt env pwfile file f p =
     (let p = p\<lparr>p_error := '''', p_recorded := False\<rparr>
      in if o_replay opt \<noteq> []
         then (case core_start_replay (o_replay opt) file (p_core p) of
                 Inl e \<Rightarrow> p\<lparr>p_error := e\<rparr>
               | Inr (c, bs) \<Rightarrow> p\<lparr>p_core := c\<rparr>)
         else (let pass = (if form_pass f \<noteq> [] then form_pass f else read_ilo_password env pwfile (o_pass opt))
               in if form_host f = [] then p\<lparr>p_error := ''no host''\<rparr>
                  else if pass = [] then p\<lparr>p_error := ''no password (field, --pass, ILO_PASS or .ilo_pass)''\<rparr>
                  else (case core_start (core_defaults (form_host f) (form_user f) pass (o_refresh_every opt)) (p_core p) of
                          Inl e \<Rightarrow> p\<lparr>p_error := e\<rparr>
                        | Inr c \<Rightarrow> p\<lparr>p_core := c, p_power := power_start (power_defaults (form_host f) (form_user f) pass) (p_power p),
                                   p_media := media_control_start (media_defaults (form_host f) (form_user f) pass) (stop_server (p_media p))\<rparr>)))"

text \<open>The states in which the form with its Connect button is shown, and the others, with Disconnect.\<close>

definition ui_idle :: "core \<Rightarrow> bool" where
  "ui_idle c \<longleftrightarrow> c_state c = Idle \<or> c_state c = Failed \<or> c_state c = Stopped"

section \<open>A session that ended on its own\<close>

lemma set_status_sink [simp]: "sink (set_status n s t) = sink t"
  by (simp add: set_status_def)

lemma telnet_disconnect_sink [simp]: "sink (telnet_disconnect N t) = sink t"
  by (simp add: telnet_disconnect_def Let_def)

lemma telnet_transmit_sink [simp]: "sink (telnet_transmit N bs t) = sink t"
  by (simp add: telnet_transmit_def)

lemma cim_transmit_sink: "cim_transmit N bs t = Some t' \<Longrightarrow> sink t' = sink t"
  by (auto simp: cim_transmit_def Let_def split: if_splits option.splits prod.splits bool.splits)

lemma transmit_all_sink: "transmit_all N ms t = Some t' \<Longrightarrow> sink t' = sink t"
  by (induction ms arbitrary: t) (auto split: option.splits dest: cim_transmit_sink)

lemma cim_connect_sink: "cim_connect N host login port t = Some (b, t') \<Longrightarrow> sink t' = sink t"
  by (auto simp: cim_connect_def telnet_connect_def Let_def split: if_splits option.splits prod.splits dest!: cim_transmit_sink)

lemma core_process_worker [simp]: "c_worker (core_process c s) = c_worker s"
  by (simp add: core_process_def split: sum.splits)

lemma feed_byte_worker: "c_worker (sink (feed_byte core_dvc c t)) = c_worker (sink t)"
  by (simp add: feed_byte_def core_dvc_def Let_def split: option.splits bool.splits prod.splits)

lemma feed_worker: "c_worker (sink (feed core_dvc bs t)) = c_worker (sink t)"
  unfolding feed_def by (induction bs arbitrary: t) (simp_all add: feed_byte_worker)

lemma pump_worker: "pump N every t = Some t' \<Longrightarrow> c_worker (sink t') = c_worker (sink t)"
  by (auto simp: pump_def Let_def read_clock_def refresh_screen_def split: if_splits option.splits
      dest!: cim_transmit_sink transmit_all_sink)

lemma run_loop_worker:
  "run_loop N core_dvc (pump N every) fuel t = Ended t' \<Longrightarrow> c_worker (sink t') = c_worker (sink t)"
proof (induction fuel arbitrary: t)
  case (Suc fuel)
  show ?case
  proof (cases "t_running t \<and> t_connected t")
    case True
    obtain t1 where p: "pump N every t = Some t1"
      using Suc.prems True by (cases "pump N every t") simp_all
    obtain n s where r: "net_recv N (t_net t1) = (n, s)" by (cases "net_recv N (t_net t1)")
    let ?t2 = "t1\<lparr>t_net := s\<rparr>"
    have w: "c_worker (sink ?t2) = c_worker (sink t)" using pump_worker [OF p] by simp
    have run: "run_loop N core_dvc (pump N every) (Suc fuel) t =
      (case n of Net_timeout \<Rightarrow> run_loop N core_dvc (pump N every) fuel ?t2 | Net_error \<Rightarrow> Ended ?t2 | Net_data [] \<Rightarrow> Ended ?t2
       | Net_data (b # bs) \<Rightarrow> run_loop N core_dvc (pump N every) fuel (feed core_dvc (b # bs) ?t2))"
      by (simp only: run_loop.simps if_not_P True not_not simp_thms if_False p option.case r prod.case Let_def)
    note run = Suc.prems [unfolded run]
    show ?thesis
    proof (cases n)
      case (Net_data bs)
      show ?thesis
      proof (cases bs)
        case Nil
        then show ?thesis using run Net_data w by simp
      next
        case (Cons b bs')
        then have "run_loop N core_dvc (pump N every) fuel (feed core_dvc (b # bs') ?t2) = Ended t'" using run Net_data by simp
        from Suc.IH [OF this] show ?thesis unfolding feed_worker w .
      qed
    next
      case Net_timeout
      then have "run_loop N core_dvc (pump N every) fuel ?t2 = Ended t'" using run by simp
      from Suc.IH [OF this] show ?thesis unfolding w .
    next
      case Net_error
      then show ?thesis using run w by simp
    qed
  next
    case False
    then show ?thesis using Suc.prems by auto
  qed
qed simp

lemma core_fail_worker: "c_worker (core_fail e s) = c_worker s \<and> c_state (core_fail e s) = Failed"
  by (simp add: core_fail_def)

lemma worker_done_worker: "c_worker (worker_done s) = c_worker s \<and> (c_state (worker_done s) = Failed \<or> c_state (worker_done s) = Stopped)"
  by (simp add: worker_done_def Let_def)

lemma with_status_worker [simp]: "c_worker (with_status t) = c_worker (sink t)"
  by (simp add: with_status_def)

lemma console_session_ends:
  assumes "console_session N fuel cfg p net s = Ended (net', s')"
  shows "c_worker s' = c_worker s \<and> (c_state s' = Failed \<or> c_state s' = Stopped)"
proof -
  define t0 where "t0 = (case p_keys p of None \<Rightarrow> cim_new net s
    | Some (kb, kc, index) \<Rightarrow> setup_encryption kc index (setup_decryption kb (cim_new net s)))"
  have t0: "sink t0 = s"
    by (simp add: t0_def cim_new_def setup_encryption_def setup_decryption_def split: option.split prod.split)
  note run = assms [unfolded console_session_def Let_def, folded t0_def]
  obtain ok t1 where c: "cim_connect N (cfg_host cfg) (p_login p) (p_port p) t0 = Some (ok, t1)"
    using run by (cases "cim_connect N (cfg_host cfg) (p_login p) (p_port p) t0") auto
  have t1: "sink t1 = s" using cim_connect_sink [OF c] t0 by simp
  show ?thesis
  proof (cases ok)
    case False
    then have "s' = core_fail (''cannot connect to the console port '' @ to_string (p_port p)) (with_status t1)" using run c by simp
    then show ?thesis using core_fail_worker t1 by simp
  next
    case True
    obtain t2 where m: "cim_transmit N (select_mouse True) t1 = Some t2"
      using run c True by (cases "cim_transmit N (select_mouse True) t1") auto
    define t3 where "t3 = (let s = (sink t2)\<lparr>c_state := Connected\<rparr>; (now, s) = read_clock s in t2\<lparr>t_net := t_net t2, sink := s\<lparr>last_refresh := now\<rparr>\<rparr>)"
    have t3: "c_worker (sink t3) = c_worker s" using cim_transmit_sink [OF m] t1 by (simp add: t3_def read_clock_def)
    obtain t4 where r: "telnet_run N core_dvc (pump N (cfg_refresh_every cfg)) fuel t3 = Ended t4" "s' = worker_done (with_status t4)"
      using run c True m by (auto simp: t3_def read_clock_def split: run_result.splits)
    obtain t5 where l: "run_loop N core_dvc (pump N (cfg_refresh_every cfg)) fuel (t3\<lparr>t_running := True\<rparr>) = Ended t5"
        "t4 = (if t_connected t5 then telnet_disconnect N t5 else t5)"
      using r(1) by (auto simp: telnet_run_def split: run_result.splits)
    have "c_worker (sink t4) = c_worker s" using run_loop_worker [OF l(1)] l(2) t3 by simp
    then show ?thesis using r(2) worker_done_worker by simp
  qed
qed

lemma live_thread_ends:
  assumes "live_thread TP rng N fuel cfg w net s = Ended (net', s')"
  shows "c_worker s' = c_worker s \<and> (c_state s' = Failed \<or> c_state s' = Stopped)"
  using assms
  by (auto simp: live_thread_def core_fail_worker split: reply.splits sum.splits dest: console_session_ends)

text \<open>C28: when a session ends on its own, because the login is refused, a step of its start fails or the iLO
  closes the connection, the form with the Connect button is shown again, but its worker was never joined: every
  later attempt to connect is answered with \<open>already running\<close> and starts nothing, whatever is typed into the
  form. Disconnect, which would join it, is not offered in these states.\<close>

theorem reconnect_refused:
  assumes "core_start cfg c0 = Inr c" and "live_thread TP rng N fuel cfg w net c = Ended (net', c')"
    and "p_core p = c'" and "o_replay opt = []" and "form_host f \<noteq> []" and "form_pass f \<noteq> []"
  shows "ui_idle (p_core p) \<and>
    do_connect opt env pwfile file f p = p\<lparr>p_error := ''already running'', p_recorded := False\<rparr> \<and>
    ((do_connect opt env pwfile file f) ^^ Suc n) p = p\<lparr>p_error := ''already running'', p_recorded := False\<rparr>"
proof -
  have "c_worker c" using assms(1) by (auto simp: core_start_def split: if_splits)
  with live_thread_ends [OF assms(2)] assms(3) have w: "c_worker (p_core p)" "ui_idle (p_core p)"
    by (auto simp: ui_idle_def)
  have one: "do_connect opt env pwfile file f q = q\<lparr>p_error := ''already running'', p_recorded := False\<rparr>" if "c_worker (p_core q)" for q
    using that assms(4-6) by (simp add: do_connect_def Let_def core_start_def)
  have "((do_connect opt env pwfile file f) ^^ Suc n) p = p\<lparr>p_error := ''already running'', p_recorded := False\<rparr>"
  proof (induction n)
    case (Suc n)
    then show ?case using w(1) by (simp only: funpow.simps(2) comp_apply) (simp add: one)
  qed (simp add: one [OF w(1)])
  with w one show ?thesis by blast
qed

text \<open>A network on which nothing answers.\<close>

definition dead_transport :: "unit transport" where
  "dead_transport = \<lparr>tp_connect = \<lambda>_ _ _ s. (Some ''unreachable'', s), tp_recv = \<lambda>s. (Recv_error, s), tp_send = \<lambda>_ s. (False, s),
     tp_valid = \<lambda>_. False, tp_close = \<lambda>s. s\<rparr>"

definition sample_program :: "core \<Rightarrow> program" where
  "sample_program c = \<lparr>p_core = c, p_power = sample_power_old, p_media = media_new (media_defaults '''' '''' ''''), p_error = '''',
     p_recorded = False\<rparr>"

definition sample_form :: form where
  "sample_form = \<lparr>form_host = ''ilo'', form_user = ''Administrator'', form_pass = ''secret''\<rparr>"

theorem reconnect_refused_witness:
  "\<exists>c c'. core_start (core_defaults ''ilo'' ''Administrator'' ''wrong'' 0) (core_new (\<lambda>_. 0)) = Inr c \<and>
    live_thread dead_transport (\<lambda>n r. (None, r)) slow_net 5 (core_defaults ''ilo'' ''Administrator'' ''wrong'' 0) ((), ()) [] c = Ended ([], c') \<and>
    ui_idle c' \<and> p_error (do_connect options_new None None None sample_form (sample_program c')) = ''already running''"
proof -
  let ?cfg = "core_defaults ''ilo'' ''Administrator'' ''wrong'' 0"
  define c where "c = (core_new (\<lambda>_. 0))\<lparr>c_state := Connecting, c_running := True, c_worker := True\<rparr>"
  have start: "core_start ?cfg (core_new (\<lambda>_. 0)) = Inr c"
    by (simp add: core_start_def core_defaults_def c_def core_new_def)
  have "fst (acquire_console_session dead_transport (\<lambda>n r. (None, r)) 5 h q u v o1 ((), ())) = Error ''unreachable''" for h q u v o1
    by (simp add: acquire_console_session_def then_do_def ilo_login_def page_request_def https_get_def andthen_def client_connect_def
        dead_transport_def)
  then have run: "live_thread dead_transport (\<lambda>n r. (None, r)) slow_net 5 ?cfg ((), ()) [] c = Ended ([], core_fail ''unreachable'' c)"
    by (simp add: live_thread_def)
  have p: "p_core (sample_program (core_fail ''unreachable'' c)) = core_fail ''unreachable'' c" "o_replay options_new = []"
    "form_host sample_form \<noteq> []" "form_pass sample_form \<noteq> []"
    by (simp_all add: sample_program_def options_new_def sample_form_def)
  from reconnect_refused [OF start run p] start run p(1) show ?thesis
    by (intro exI [of _ c] exI [of _ "core_fail ''unreachable'' c"]) simp
qed

section \<open>Two clicks\<close>

record arming =
  armed :: bool
  armed_cmd :: ribcl_command
  armed_at :: u64

definition arming_new :: arming where
  "arming_new = \<lparr>armed = False, armed_cmd = GetPowerStatus, armed_at = 0\<rparr>"

definition ARM_TIMEOUT_MS :: u64 where "ARM_TIMEOUT_MS = 6000"

text \<open>
  One frame of the power panel: which buttons were pressed, by their labels, the clock at the start of the
  frame and where a button arms, and the snapshot. A disabled button is never pressed.
\<close>

record panel_frame =
  pf_pressed :: "string \<Rightarrow> bool"
  pf_ticks :: u64
  pf_ticks_at :: "ribcl_command \<Rightarrow> u64"
  pf_busy :: bool
  pf_host_power :: string

definition enabled_press :: "panel_frame \<Rightarrow> string \<Rightarrow> bool" where
  "enabled_press f label \<longleftrightarrow> \<not> pf_busy f \<and> pf_pressed f label"

fun arm_button :: "panel_frame \<Rightarrow> string \<times> ribcl_command \<Rightarrow> arming \<times> ribcl_command list \<Rightarrow> arming \<times> ribcl_command list" where
  "arm_button f (label, cmd) (a, out) =
     (if armed a \<and> armed_cmd a = cmd
      then (if enabled_press f (''Confirm '' @ label) then (a\<lparr>armed := False\<rparr>, out @ [cmd]) else (a, out))
      else if enabled_press f label then (a\<lparr>armed := True, armed_cmd := cmd, armed_at := pf_ticks_at f cmd\<rparr>, out)
      else (a, out))"

definition arm_buttons :: "panel_frame \<Rightarrow> (string \<times> ribcl_command) list" where
  "arm_buttons f =
     (if pf_host_power f \<noteq> ''ON'' then [] else [(''Shut down'', PowerOff), (''Force off'', ForcePowerOff)]) @
     [(''Reset'', Reset), (''Cold boot'', ColdBoot)]"

text \<open>The commands requested in this frame come with the new state.\<close>

definition power_panel :: "panel_frame \<Rightarrow> arming \<Rightarrow> arming \<times> ribcl_command list" where
  "power_panel f a =
     (let a = (if armed a \<and> pf_ticks f - armed_at a > ARM_TIMEOUT_MS then a\<lparr>armed := False\<rparr> else a);
          out = (if pf_host_power f \<noteq> ''ON'' \<and> enabled_press f ''Power on'' then [PowerOn] else []);
          (a, out) = fold (arm_button f) (arm_buttons f) (a, out);
          a = (if armed a \<and> pf_pressed f ''cancel'' then a\<lparr>armed := False\<rparr> else a);
          out = out @ (if pf_pressed f ''on'' then [UidOn] else []) @ (if pf_pressed f ''off'' then [UidOff] else [])
      in (a, out))"

fun power_panels :: "panel_frame list \<Rightarrow> arming \<Rightarrow> arming \<times> ribcl_command list list" where
  "power_panels [] a = (a, [])"
| "power_panels (f # fs) a = (let (a, out) = power_panel f a; (a, outs) = power_panels fs a in (a, out # outs))"

text \<open>The destructive commands and the labels of their buttons.\<close>

definition destructive :: "ribcl_command \<Rightarrow> bool" where
  "destructive c \<longleftrightarrow> c \<in> set [PowerOff, ForcePowerOff, Reset, ColdBoot]"

definition label_of :: "ribcl_command \<Rightarrow> string" where
  "label_of c = (if c = PowerOff then ''Shut down'' else if c = ForcePowerOff then ''Force off'' else if c = Reset then ''Reset'' else ''Cold boot'')"

lemma arm_buttons_labels:
  "list_all (\<lambda>(l, c). l = label_of c \<and> destructive c) (arm_buttons f)" "distinct (map snd (arm_buttons f))"
  by (simp_all add: arm_buttons_def label_of_def destructive_def)

text \<open>An arming state made by a press in this frame, or the one the frame began with.\<close>

definition armed_here :: "panel_frame \<Rightarrow> ribcl_command set \<Rightarrow> arming \<Rightarrow> bool" where
  "armed_here f S a \<longleftrightarrow> armed_cmd a \<in> S \<and> destructive (armed_cmd a) \<and> enabled_press f (label_of (armed_cmd a)) \<and>
     armed_at a = pf_ticks_at f (armed_cmd a)"

definition armed_before :: "arming \<Rightarrow> arming \<Rightarrow> bool" where
  "armed_before a0 a \<longleftrightarrow> armed a0 \<and> armed_cmd a = armed_cmd a0 \<and> armed_at a = armed_at a0"

definition confirms :: "panel_frame \<Rightarrow> arming \<Rightarrow> ribcl_command \<Rightarrow> bool" where
  "confirms f a0 c \<longleftrightarrow> armed a0 \<and> armed_cmd a0 = c \<and> enabled_press f (''Confirm '' @ label_of c)"

lemma arm_button_step:
  assumes "c \<notin> S" "destructive c" "armed a \<longrightarrow> armed_here f S a \<or> armed_before a0 a" "\<forall>d\<in>set out. destructive d \<longrightarrow> confirms f a0 d"
    and "arm_button f (label_of c, c) (a, out) = (a', out')"
  shows "(armed a' \<longrightarrow> armed_here f (insert c S) a' \<or> armed_before a0 a') \<and> (\<forall>d\<in>set out'. destructive d \<longrightarrow> confirms f a0 d)"
  using assms by (auto simp: armed_here_def armed_before_def confirms_def split: if_splits)

lemma arm_buttons_fold:
  assumes "list_all (\<lambda>(l, c). l = label_of c \<and> destructive c) L" "distinct (map snd L)" "set (map snd L) \<inter> S = {}"
    and "armed a \<longrightarrow> armed_here f S a \<or> armed_before a0 a" "\<forall>d\<in>set out. destructive d \<longrightarrow> confirms f a0 d"
    and "fold (arm_button f) L (a, out) = (a', out')"
  shows "(armed a' \<longrightarrow> armed_here f UNIV a' \<or> armed_before a0 a') \<and> (\<forall>d\<in>set out'. destructive d \<longrightarrow> confirms f a0 d)"
  using assms
proof (induction L arbitrary: S a out)
  case Nil
  then show ?case by (auto simp: armed_here_def)
next
  case (Cons x L)
  obtain l c where x: "x = (l, c)" by (cases x)
  obtain a1 out1 where s: "arm_button f (label_of c, c) (a, out) = (a1, out1)" by (cases "arm_button f (label_of c, c) (a, out)") blast
  have c: "l = label_of c" "destructive c" "c \<notin> S" using Cons.prems(1,3) x by auto
  note step = arm_button_step [OF c(3,2) Cons.prems(4,5) s]
  have r: "fold (arm_button f) L (a1, out1) = (a', out')" using Cons.prems(6) x c(1) s by (simp del: arm_button.simps)
  have d: "list_all (\<lambda>(l, c). l = label_of c \<and> destructive c) L" "distinct (map snd L)" "set (map snd L) \<inter> insert c S = {}"
    using Cons.prems(1-3) x by auto
  show ?case using Cons.IH [OF d conjunct1 [OF step] conjunct2 [OF step] r] .
qed

definition armed_by :: "panel_frame list \<Rightarrow> arming \<Rightarrow> bool" where
  "armed_by seen a \<longleftrightarrow> (armed a \<longrightarrow> (\<exists>g\<in>set seen. enabled_press g (label_of (armed_cmd a)) \<and> armed_at a = pf_ticks_at g (armed_cmd a)))"

definition confirmed :: "panel_frame list \<Rightarrow> panel_frame \<Rightarrow> ribcl_command \<Rightarrow> bool" where
  "confirmed seen f c \<longleftrightarrow> (\<exists>g\<in>set seen. enabled_press g (label_of c) \<and> pf_ticks f - pf_ticks_at g c \<le> ARM_TIMEOUT_MS) \<and>
     enabled_press f (''Confirm '' @ label_of c)"

lemma power_panel_step:
  assumes "armed_by seen a" and "power_panel f a = (a', out)"
  shows "armed_by (seen @ [f]) a' \<and> (\<forall>c\<in>set out. destructive c \<longrightarrow> confirmed seen f c)"
proof -
  define a0 where "a0 = (if armed a \<and> pf_ticks f - armed_at a > ARM_TIMEOUT_MS then a\<lparr>armed := False\<rparr> else a)"
  define out0 where "out0 = (if pf_host_power f \<noteq> ''ON'' \<and> enabled_press f ''Power on'' then [PowerOn] else [])"
  obtain a1 out1 where r: "fold (arm_button f) (arm_buttons f) (a0, out0) = (a1, out1)"
    by (cases "fold (arm_button f) (arm_buttons f) (a0, out0)")
  have a0: "armed a0 \<longrightarrow> armed_here f {} a0 \<or> armed_before a0 a0" by (simp add: armed_before_def)
  have o: "\<forall>d\<in>set out0. destructive d \<longrightarrow> confirms f a0 d" by (simp add: out0_def destructive_def)
  note end_state = arm_buttons_fold [OF arm_buttons_labels _ a0 o r, simplified]
  have in_time: "armed a0 \<longrightarrow> armed a \<and> a0 = a \<and> pf_ticks f - armed_at a \<le> ARM_TIMEOUT_MS"
    by (auto simp: a0_def split: if_splits)
  have res: "a' = (if armed a1 \<and> pf_pressed f ''cancel'' then a1\<lparr>armed := False\<rparr> else a1)"
    "set out \<subseteq> set out1 \<union> {UidOn, UidOff}"
    using assms(2) r by (auto simp: power_panel_def Let_def a0_def [symmetric] out0_def [symmetric] split: if_splits)
  have "armed_by (seen @ [f]) a1"
    using end_state in_time assms(1) by (auto simp: armed_by_def armed_here_def armed_before_def)
  then have "armed_by (seen @ [f]) a'" using res(1) by (simp add: armed_by_def)
  moreover have "confirmed seen f c" if "c \<in> set out" "destructive c" for c
  proof -
    have "c \<in> set out1" using that res(2) by (auto simp: destructive_def)
    then have "confirms f a0 c" using end_state that(2) by blast
    then show ?thesis using in_time assms(1) by (auto simp: confirms_def confirmed_def armed_by_def)
  qed
  ultimately show ?thesis by blast
qed

lemma power_panels_step:
  assumes "armed_by seen a" and "power_panels fs a = (a', outs)" and "j < length fs" and "c \<in> set (outs ! j)" and "destructive c"
  shows "confirmed (seen @ take j fs) (fs ! j) c"
  using assms
proof (induction fs arbitrary: seen a a' outs j)
  case (Cons f fs)
  obtain a1 out where f: "power_panel f a = (a1, out)" by (cases "power_panel f a")
  obtain a2 rest where r: "power_panels fs a1 = (a2, rest)" by (cases "power_panels fs a1")
  note step = power_panel_step [OF Cons.prems(1) f]
  have outs: "outs = out # rest" using Cons.prems(2) f r by simp
  show ?case
  proof (cases j)
    case 0
    then show ?thesis using step Cons.prems(4,5) outs by simp
  next
    case (Suc i)
    then show ?thesis using Cons.IH [OF conjunct1 [OF step] r, of i] Cons.prems(3-5) outs by simp
  qed
qed simp

text \<open>C29: no stray click powers off or resets the server: over any sequence of frames, any presses and any clock, a
  destructive command is requested in a frame only if its confirming button was pressed there while the panel was not busy, and
  the button that arms it was pressed in an earlier frame, at most six seconds of the clock before.\<close>

theorem two_clicks:
  assumes "power_panels fs arming_new = (a, outs)" and "j < length fs" and "c \<in> set (outs ! j)"
    and "c = PowerOff \<or> c = ForcePowerOff \<or> c = Reset \<or> c = ColdBoot"
  shows "enabled_press (fs ! j) (''Confirm '' @ label_of c) \<and>
    (\<exists>i<j. enabled_press (fs ! i) (label_of c) \<and> pf_ticks (fs ! j) - pf_ticks_at (fs ! i) c \<le> ARM_TIMEOUT_MS)"
proof -
  have "armed_by [] arming_new" by (simp add: armed_by_def arming_new_def)
  from power_panels_step [OF this assms(1-3)] assms(4) have "confirmed (take j fs) (fs ! j) c"
    by (auto simp: destructive_def)
  then obtain g where g: "g \<in> set (take j fs)" "enabled_press g (label_of c)" "pf_ticks (fs ! j) - pf_ticks_at g c \<le> ARM_TIMEOUT_MS"
    "enabled_press (fs ! j) (''Confirm '' @ label_of c)"
    by (auto simp: confirmed_def)
  then obtain i where "i < j" "fs ! i = g" using assms(2) by (auto simp: in_set_conv_nth)
  with g show ?thesis by blast
qed

definition press_at :: "u64 \<Rightarrow> string \<Rightarrow> panel_frame" where
  "press_at t l = \<lparr>pf_pressed = (\<lambda>m. m = l), pf_ticks = t, pf_ticks_at = (\<lambda>_. t), pf_busy = False, pf_host_power = ''ON''\<rparr>"

theorem two_clicks_witness:
  "snd (power_panels [press_at 1000 ''Reset'', press_at 1500 ''Confirm Reset''] arming_new) = [[], [Reset]] \<and>
   (\<exists>i<1. enabled_press ([press_at 1000 ''Reset'', press_at 1500 ''Confirm Reset''] ! i) (label_of Reset) \<and>
     pf_ticks (press_at 1500 ''Confirm Reset'') - pf_ticks_at ([press_at 1000 ''Reset'', press_at 1500 ''Confirm Reset''] ! i) Reset \<le> ARM_TIMEOUT_MS)"
proof -
  let ?fs = "[press_at 1000 ''Reset'', press_at 1500 ''Confirm Reset'']"
  have r: "snd (power_panels ?fs arming_new) = [[], [Reset]]" by code_simp
  then obtain a where "power_panels ?fs arming_new = (a, [[], [Reset]])" by (cases "power_panels ?fs arming_new") simp
  from two_clicks [OF this, of 1 Reset] r show ?thesis by simp
qed

section \<open>Drags that leave the image\<close>

lemma to_console_range:
  "to_console F d w h x y = Some (cx, cy) \<Longrightarrow> 0 < w \<Longrightarrow> 0 < h \<Longrightarrow> 0 \<le> cx \<and> cx < w \<and> 0 \<le> cy \<and> cy < h"
  by (auto simp: to_console_def Let_def split: if_splits)

text \<open>Pointer events of a drag outside the image.\<close>

fun outside :: "'f float_ops \<Rightarrow> 'f ui \<Rightarrow> 'f sdl_event \<Rightarrow> bool" where
  "outside F u (Motion x y) \<longleftrightarrow> locate F u x y = None"
| "outside F u (Button b down x y) \<longleftrightarrow> locate F u x y = None"
| "outside F u e \<longleftrightarrow> False"

lemma outside_ignored: "outside F u e \<Longrightarrow> handle_event F e u = u"
  by (cases e) (auto simp: handle_event_def Let_def)

lemma outside_all_ignored: "list_all (outside F u) es \<Longrightarrow> handle_events F es u = u"
  unfolding handle_events_def by (induction es) (simp_all add: outside_ignored)

lemma locate_on_core [simp]: "locate F (on_core g u) x y = locate F u x y"
  by (simp add: locate_def on_core_def)

lemma outside_on_core [simp]: "outside F (on_core g u) e = outside F u e"
  by (cases e) simp_all

lemma sdl_button_known: "b \<noteq> Sdl_other_button \<Longrightarrow> sdl_button_to_ilo b \<noteq> 0"
  by (cases b) (simp_all add: BTN_LEFT_def BTN_RIGHT_def BTN_CENTER_def)

lemma queued: "bs \<noteq> [] \<Longrightarrow> length (outbox s) \<le> 4096 \<Longrightarrow> outbox (queue_locked bs s) = outbox s @ [bs]"
  by (simp add: queue_locked_def)

lemma pressed_at:
  assumes "length (outbox c) < 4096"
  shows "\<exists>i. outbox (mouse_button b True (mouse_move x y c)) = outbox c @ [input_move x y i, input_press b]"
proof -
  define i where "i = (c_input c)\<lparr>screen_w := fb_w (fb c), screen_h := fb_h (fb c)\<rparr>"
  have m: "input_move x y i \<noteq> []" "input_press b \<noteq> []" by (simp_all add: input_move_def input_press_def Let_def)
  have 1: "outbox (mouse_move x y c) = outbox c @ [input_move x y i]"
    using queued [OF m(1), of "c\<lparr>c_input := i\<rparr>"] assms by (simp add: mouse_move_def i_def Let_def)
  have "outbox (mouse_button b True (mouse_move x y c)) = outbox c @ [input_move x y i, input_press b]"
    using queued [OF m(2), of "mouse_move x y c"] assms by (simp add: mouse_button_def 1)
  then show ?thesis by blast
qed

text \<open>C32: a button pressed over the image and released outside it stays down at the server: the press is queued
  with a position on the screen, but the release, like every pointer event outside the image, is dropped, whatever arithmetic
  the coordinates follow and however the pointer moves outside in between.\<close>

theorem release_lost:
  assumes "u_send_input u" and "c_state (u_core u) = Connected" and "b \<noteq> Sdl_other_button" and "length (outbox (u_core u)) < 4096"
    and "locate F u x y = Some pos" and "0 < u_fb_w u" and "0 < u_fb_h u"
    and "list_all (outside F u) (es @ [Button b False x' y'])"
  shows "\<exists>cx cy i. 0 \<le> cx \<and> cx < u_fb_w u \<and> 0 \<le> cy \<and> cy < u_fb_h u \<and>
    outbox (u_core (handle_events F (Button b True x y # es @ [Button b False x' y']) u)) =
      outbox (u_core u) @ [input_move cx cy i, input_press (sdl_button_to_ilo b)]"
proof -
  obtain cx cy where pos: "pos = (cx, cy)" by (cases pos)
  then have "to_console F (u_image u) (u_fb_w u) (u_fb_h u) x y = Some (cx, cy)"
    using assms(5) by (simp add: locate_def split: if_splits)
  note range = to_console_range [OF this assms(6,7)]
  let ?f = "\<lambda>c. mouse_button (sdl_button_to_ilo b) True (mouse_move cx cy c)"
  have press: "handle_event F (Button b True x y) u = on_core ?f u"
    using assms(1,2,5) sdl_button_known [OF assms(3)] pos by (simp add: handle_event_def Let_def)
  have "list_all (outside F (on_core ?f u)) (es @ [Button b False x' y'])" using assms(8) by (simp add: list_all_iff)
  from outside_all_ignored [OF this]
  have "handle_events F (Button b True x y # es @ [Button b False x' y']) u = on_core ?f u"
    by (simp add: handle_events_def press)
  moreover obtain i where "outbox (?f (u_core u)) = outbox (u_core u) @ [input_move cx cy i, input_press (sdl_button_to_ilo b)]"
    using pressed_at [OF assms(4)] by blast
  ultimately show ?thesis using range by (auto simp: on_core_def)
qed

text \<open>Coordinates in whole units.\<close>

definition whole_units :: "int float_ops" where
  "whole_units = \<lparr>f_less = (<), f_leq = (\<le>), f_add = (+), f_sub = (-), f_mul = (*), f_div = (div), f_half = 0, f_of_int = (\<lambda>n. n), f_to_int = (\<lambda>n. n)\<rparr>"

definition sample_ui :: "int ui" where
  "sample_ui = \<lparr>u_core = (core_new (\<lambda>_. 0))\<lparr>c_state := Connected\<rparr>, u_send_input = True, u_image = \<lparr>r_x = 300, r_y = 0, r_w = 800, r_h = 600\<rparr>,
     u_image_hovered = True, u_fb_w = 800, u_fb_h = 600, u_want_text = False, u_guard_up = False, u_console_tab = True,
     u_close_requested = False\<rparr>"

theorem release_lost_witness:
  "\<exists>cx cy i. 0 \<le> cx \<and> cx < 800 \<and> 0 \<le> cy \<and> cy < 600 \<and>
    outbox (u_core (handle_events whole_units [Button Sdl_left True 400 100, Motion 250 100, Button Sdl_left False 250 100] sample_ui)) =
      [input_move cx cy i, input_press BTN_LEFT]"
proof -
  have h: "u_send_input sample_ui" "c_state (u_core sample_ui) = Connected" "Sdl_left \<noteq> Sdl_other_button"
    "length (outbox (u_core sample_ui)) < 4096" "u_fb_w sample_ui = 800" "u_fb_h sample_ui = 600" "outbox (u_core sample_ui) = []"
    by (simp_all add: sample_ui_def core_new_def)
  have l: "locate whole_units sample_ui 400 100 \<noteq> None" "locate whole_units sample_ui 250 100 = None"
    by (simp_all add: locate_def sample_ui_def to_console_def whole_units_def)
  then obtain pos where pos: "locate whole_units sample_ui 400 100 = Some pos" by blast
  from release_lost [OF h(1-4) pos, of "[Motion 250 100]" 250 100] h(5-7) l(2) show ?thesis by simp
qed

end
