(* ===== verification/Front_Frames.thy ===== *)
theory Front_Frames
  imports Front_End
begin

text \<open>
  Two more decisions of the frame loop of \<open>ui/sdl_main.cpp\<close>: whether a close goes through while an image
  is mounted, and what the read map of the media server says about the last read.
\<close>

section \<open>The close guard\<close>

record guard =
  g_quit :: bool
  g_requested :: bool
  g_up :: bool

definition guard_new :: guard where
  "guard_new = \<lparr>g_quit = False, g_requested = False, g_up = False\<rparr>"

text \<open>
  One frame: whether an event asked to close, the URL of the snapshot (empty without a running worker),
  whether ImGui shows the dialog and which of its buttons was pressed, whether the dialog is open after that, and
  whether the frame is the last of a screenshot run.
\<close>

record guard_frame =
  gf_close :: bool
  gf_url :: string
  gf_shown :: bool
  gf_keep :: bool
  gf_eject :: bool
  gf_open :: bool
  gf_last_shot :: bool

definition guard_ask :: "guard_frame \<Rightarrow> guard \<Rightarrow> guard" where
  "guard_ask f g =
     (if g_requested g \<and> \<not> g_up g
      then (if gf_url f = [] then g\<lparr>g_quit := True, g_requested := False\<rparr> else g\<lparr>g_up := True\<rparr>) else g)"

definition guard_dialog :: "guard_frame \<Rightarrow> guard \<Rightarrow> guard" where
  "guard_dialog f g =
     (if \<not> gf_shown f then g
      else (let g = (if gf_keep f then g\<lparr>g_requested := False\<rparr> else g) in if gf_eject f then g\<lparr>g_quit := True\<rparr> else g))"

definition guard_frame_step :: "guard_frame \<Rightarrow> guard \<Rightarrow> guard" where
  "guard_frame_step f g =
     (let g = (if gf_close f then g\<lparr>g_requested := True\<rparr> else g);
          g = guard_dialog f (guard_ask f g);
          g = (if g_up g \<and> \<not> gf_open f then g\<lparr>g_up := False, g_requested := False\<rparr> else g)
      in if gf_last_shot f then g\<lparr>g_quit := True\<rparr> else g)"

definition kept :: "guard_frame \<Rightarrow> bool" where
  "kept f \<longleftrightarrow> gf_shown f \<and> gf_keep f"

text \<open>A close was asked for and not answered with \<open>Keep it running\<close> from then on.\<close>

definition asked :: "guard_frame list \<Rightarrow> bool" where
  "asked fs \<longleftrightarrow> (\<exists>k<length fs. gf_close (fs ! k) \<and> (\<forall>m. k \<le> m \<and> m < length fs \<longrightarrow> \<not> kept (fs ! m)))"

definition close_reason :: "guard_frame list \<Rightarrow> nat \<Rightarrow> bool" where
  "close_reason fs i \<longleftrightarrow> gf_shown (fs ! i) \<and> gf_eject (fs ! i) \<or>
     gf_url (fs ! i) = [] \<and> (gf_close (fs ! i) \<or> asked (take i fs)) \<or> gf_last_shot (fs ! i)"

lemma asked_snoc: "asked (fs @ [f]) \<longleftrightarrow> \<not> kept f \<and> (gf_close f \<or> asked fs)"
proof
  assume "asked (fs @ [f])"
  then obtain k where k: "k < Suc (length fs)" "gf_close ((fs @ [f]) ! k)"
    "\<forall>m. k \<le> m \<and> m < Suc (length fs) \<longrightarrow> \<not> kept ((fs @ [f]) ! m)"
    by (auto simp: asked_def)
  have "\<not> kept f" using k(1) spec [OF k(3), of "length fs"] by simp
  moreover have "gf_close f \<or> asked fs"
  proof (cases "k = length fs")
    case True
    then show ?thesis using k(2) by simp
  next
    case False
    then have "k < length fs" using k(1) by simp
    moreover have "\<not> kept (fs ! m)" if "k \<le> m" "m < length fs" for m
      using spec [OF k(3), of m] that by (simp add: nth_append)
    ultimately show ?thesis using k(2) by (auto simp: asked_def nth_append)
  qed
  ultimately show "\<not> kept f \<and> (gf_close f \<or> asked fs)" ..
next
  assume a: "\<not> kept f \<and> (gf_close f \<or> asked fs)"
  show "asked (fs @ [f])"
  proof (cases "gf_close f")
    case True
    then show ?thesis using a unfolding asked_def by (intro exI [of _ "length fs"]) (auto simp: less_Suc_eq)
  next
    case False
    then obtain k where "k < length fs" "gf_close (fs ! k)" "\<forall>m. k \<le> m \<and> m < length fs \<longrightarrow> \<not> kept (fs ! m)"
      using a by (auto simp: asked_def)
    then show ?thesis using a unfolding asked_def
      by (intro exI [of _ k]) (auto simp: nth_append less_Suc_eq)
  qed
qed

lemma guard_frame_result:
  assumes "g_requested g \<longrightarrow> asked fs"
  shows "g_requested (guard_frame_step f g) \<longrightarrow> asked (fs @ [f])"
    and "g_quit (guard_frame_step f g) \<longrightarrow> g_quit g \<or> close_reason (fs @ [f]) (length fs)"
  using assms
  by (auto simp: guard_frame_step_def guard_ask_def guard_dialog_def asked_snoc close_reason_def kept_def Let_def
      split: if_splits)

lemma guard_frames_result:
  "(g_requested (fold guard_frame_step fs guard_new) \<longrightarrow> asked fs) \<and>
   (g_quit (fold guard_frame_step fs guard_new) \<longrightarrow> (\<exists>i<length fs. close_reason fs i))"
proof (induction fs rule: rev_induct)
  case Nil
  show ?case by (simp add: guard_new_def)
next
  case (snoc f fs)
  have old: "close_reason (fs @ [f]) i" if "i < length fs" "close_reason fs i" for i
    using that by (simp add: close_reason_def nth_append)
  note r = guard_frame_result [of "fold guard_frame_step fs guard_new" fs f, OF conjunct1 [OF snoc.IH]]
  show ?case
  proof (intro conjI impI)
    assume "g_requested (fold guard_frame_step (fs @ [f]) guard_new)"
    then show "asked (fs @ [f])" using r(1) by simp
  next
    assume "g_quit (fold guard_frame_step (fs @ [f]) guard_new)"
    then have "g_quit (fold guard_frame_step fs guard_new) \<or> close_reason (fs @ [f]) (length fs)" using r(2) by simp
    then show "\<exists>i<length (fs @ [f]). close_reason (fs @ [f]) i"
      using snoc.IH old by (auto simp: less_Suc_eq)
  qed
qed


definition guard_sample :: "guard_frame list" where
  "guard_sample =
     [\<lparr>gf_close = True, gf_url = ''http://a/b'', gf_shown = True, gf_keep = False, gf_eject = False, gf_open = True, gf_last_shot = False\<rparr>,
      \<lparr>gf_close = False, gf_url = ''http://a/b'', gf_shown = True, gf_keep = False, gf_eject = True, gf_open = False, gf_last_shot = False\<rparr>]"


section \<open>The last read\<close>

text \<open>The loop both \<open>ms_since_last_read\<close> and \<open>draw_read_map\<close> have: stamps are compared as a signed difference.\<close>

definition newer :: "u32 \<Rightarrow> u32 \<Rightarrow> u32" where
  "newer t newest = (if t \<noteq> 0 \<and> (newest = 0 \<or> sint (t - newest) > 0) then t else newest)"

definition newest_stamp :: "u32 list \<Rightarrow> u32" where
  "newest_stamp ts = fold newer ts 0"

definition ms_since_last_read :: "media_stats \<Rightarrow> int" where
  "ms_since_last_read s = (let newest = newest_stamp (st_map s) in if newest = 0 then -1 else uint (st_now s - newest))"

text \<open>The buckets behind column \<open>x\<close> of a strip of \<open>cols\<close> columns, and how many buckets were ever read.\<close>

definition column_buckets :: "int \<Rightarrow> int \<Rightarrow> int \<Rightarrow> int \<times> int" where
  "column_buckets n cols x =
     (let b0 = x * n sdiv cols; b1 = (x + 1) * n sdiv cols; b1 = (if b1 \<le> b0 then b0 + 1 else b1)
      in (b0, if b1 > n then n else b1))"

definition column_stamp :: "media_stats \<Rightarrow> int \<Rightarrow> int \<Rightarrow> u32" where
  "column_stamp s cols x =
     (let (b0, b1) = column_buckets (int (length (st_map s))) cols x
      in newest_stamp (take (nat (b1 - b0)) (drop (nat b0) (st_map s))))"

definition covered :: "media_stats \<Rightarrow> nat" where
  "covered s = length (filter (\<lambda>t. t \<noteq> 0) (st_map s))"

lemma sint_small:
  assumes "uint x < 2 ^ 31"
  shows "sint (x :: u32) = uint x"
proof -
  have "signed_take_bit 31 (uint x) = uint x"
    using assms uint_ge_0 [of x] by (intro signed_take_bit_int_eq_self) linarith+
  then show ?thesis by (simp add: sint_uint)
qed

lemma sint_age:
  assumes "uint (now - t) < 2 ^ 31" and "uint (now - n) < 2 ^ 31"
  shows "sint (t - n :: u32) = uint (now - n) - uint (now - t)"
proof -
  have "t - n = (now - n) - (now - t)" by simp
  then have "sint (t - n) = signed_take_bit 31 (uint (now - n) - uint (now - t))"
    using sint_word_ariths(2) [of "now - n" "now - t"] assms by (simp add: sint_small)
  also have "\<dots> = uint (now - n) - uint (now - t)"
    using assms uint_ge_0 [of "now - n"] uint_ge_0 [of "now - t"] by (intro signed_take_bit_int_eq_self) linarith+
  finally show ?thesis .
qed

definition recent_stamp :: "u32 \<Rightarrow> u32 \<Rightarrow> bool" where
  "recent_stamp now t \<longleftrightarrow> t \<noteq> 0 \<longrightarrow> uint (now - t) < 2 ^ 31"

lemma newest_fold:
  assumes "list_all (recent_stamp now) ts" "recent_stamp now n"
  shows "recent_stamp now (fold newer ts n) \<and> (fold newer ts n = 0 \<longleftrightarrow> n = 0 \<and> list_all (\<lambda>t. t = 0) ts) \<and>
    (fold newer ts n \<noteq> 0 \<longrightarrow> fold newer ts n \<in> insert n (set ts) \<and>
      (\<forall>t\<in>insert n (set ts). t \<noteq> 0 \<longrightarrow> uint (now - fold newer ts n) \<le> uint (now - t)))"
  using assms
proof (induction ts arbitrary: n)
  case (Cons t ts)
  have r: "recent_stamp now t" "list_all (recent_stamp now) ts" using Cons.prems(1) by simp_all
  have m: "recent_stamp now (newer t n)" "newer t n = 0 \<longleftrightarrow> t = 0 \<and> n = 0" "newer t n \<in> {t, n}"
    using r(1) Cons.prems(2) by (auto simp: newer_def)
  have le: "x \<noteq> 0 \<longrightarrow> uint (now - newer t n) \<le> uint (now - x)" if "x \<in> {t, n}" for x
  proof (cases "t = 0 \<or> n = 0")
    case True
    then show ?thesis using that by (auto simp: newer_def)
  next
    case False
    then have "sint (t - n) = uint (now - n) - uint (now - t)"
      using r(1) Cons.prems(2) by (intro sint_age) (simp_all add: recent_stamp_def)
    then show ?thesis using that False by (auto simp: newer_def)
  qed
  note ih = Cons.IH [OF r(2) m(1)]
  have "\<forall>x\<in>insert n (set (t # ts)). x \<noteq> 0 \<longrightarrow> uint (now - fold newer ts (newer t n)) \<le> uint (now - x)"
    if nz: "fold newer ts (newer t n) \<noteq> 0"
  proof (intro ballI impI)
    fix x assume x: "x \<in> insert n (set (t # ts))" "x \<noteq> 0"
    show "uint (now - fold newer ts (newer t n)) \<le> uint (now - x)"
    proof (cases "x \<in> set ts")
      case True
      then show ?thesis using ih nz x(2) by blast
    next
      case False
      then have xt: "x \<in> {t, n}" using x(1) by auto
      then have "newer t n \<noteq> 0" using m(2) x(2) by auto
      then have "uint (now - fold newer ts (newer t n)) \<le> uint (now - newer t n)" using ih nz by blast
      with le [OF xt] x(2) show ?thesis by linarith
    qed
  qed
  moreover have "fold newer ts (newer t n) \<in> insert n (set (t # ts))" if "fold newer ts (newer t n) \<noteq> 0"
    using ih that m(3) by auto
  ultimately show ?case using ih m(2) by auto
qed (auto simp: list_all_iff)

text \<open>The age of the last read is right across the wrap of the clock: when every stamp of the read map lies less than
  \<open>2 ^ 31\<close> milliseconds behind the clock, the front end reports -1 exactly if no part was ever read, and
  otherwise the smallest age of any stamp.\<close>

theorem last_read_age:
  assumes "\<forall>t\<in>set (st_map s). t \<noteq> 0 \<longrightarrow> uint (st_now s - t) < 2 ^ 31"
  shows "(ms_since_last_read s = -1 \<longleftrightarrow> covered s = 0) \<and>
    (covered s \<noteq> 0 \<longrightarrow> (\<exists>t\<in>set (st_map s). t \<noteq> 0 \<and> ms_since_last_read s = uint (st_now s - t)) \<and>
      (\<forall>t\<in>set (st_map s). t \<noteq> 0 \<longrightarrow> ms_since_last_read s \<le> uint (st_now s - t)))"
proof -
  let ?n = "fold newer (st_map s) 0"
  have "list_all (recent_stamp (st_now s)) (st_map s)" "recent_stamp (st_now s) 0"
    using assms by (simp_all add: recent_stamp_def list_all_iff)
  note f = newest_fold [OF this]
  have c: "covered s = 0 \<longleftrightarrow> ?n = 0" using f by (simp add: covered_def filter_empty_conv list_all_iff)
  have ge: "0 \<le> uint (st_now s - ?n)" by simp
  show ?thesis
  proof (cases "?n = 0")
    case True
    then show ?thesis using c by (simp add: ms_since_last_read_def newest_stamp_def)
  next
    case False
    then have "ms_since_last_read s = uint (st_now s - ?n)" by (simp add: ms_since_last_read_def newest_stamp_def)
    moreover from this have "ms_since_last_read s \<noteq> -1" using ge by linarith
    ultimately show ?thesis using f c False by auto
  qed
qed

definition sample_stats :: "u32 \<Rightarrow> u32 list \<Rightarrow> media_stats" where
  "sample_stats now m = \<lparr>st_running = True, st_requests = 2, st_bytes = 8192, st_size = 2147483648, st_iso = ''/tmp/a.iso'',
     st_url_path = ''/a.iso'', st_port = 8080, st_map = m, st_now = now\<rparr>"

theorem last_read_age_witness:
  "ms_since_last_read (sample_stats 20 [0, 0xFFFFFFF0, 5, 0]) = 15 \<and> covered (sample_stats 20 [0, 0xFFFFFFF0, 5, 0]) = 2 \<and>
   15 \<le> uint (20 - 0xFFFFFFF0 :: u32) \<and> 15 \<le> uint (20 - 5 :: u32)"
proof -
  let ?s = "sample_stats 20 [0, 0xFFFFFFF0, 5, 0]"
  have h: "\<forall>t\<in>set (st_map ?s). t \<noteq> 0 \<longrightarrow> uint (st_now ?s - t) < 2 ^ 31" by (simp add: sample_stats_def)
  have c: "covered ?s = 2" "ms_since_last_read ?s = 15" by code_simp+
  from last_read_age [OF h] c have "\<forall>t\<in>set (st_map ?s). t \<noteq> 0 \<longrightarrow> 15 \<le> uint (st_now ?s - t)" by simp
  with c show ?thesis by (simp add: sample_stats_def)
qed

text \<open>
  Beyond that span the claim fails: a bucket that was read once, \<open>2 ^ 31\<close> milliseconds (under 25 days)
  before, hides a read of eleven milliseconds ago, because the stamps are compared with each other as well as
  with the clock.
\<close>

lemma stale_stamp_hides: "ms_since_last_read (sample_stats 0x80000010 [1, 0x80000005]) = 0x8000000F"
  by code_simp

text \<open>Every bucket is drawn: the columns of the strip cover the map.\<close>

lemma column_buckets_div:
  assumes "0 < n" and "0 < cols" and "0 \<le> x" and "x < cols"
  shows "column_buckets n cols x = (x * n div cols, min n (max (x * n div cols + 1) ((x + 1) * n div cols)))"
  using assms by (simp add: column_buckets_def sdiv_nonneg Let_def min_def max_def)

lemma columns_cover:
  assumes n: "0 < n" and c: "0 < cols" and b: "0 \<le> b" "b < n"
  shows "\<exists>x. 0 \<le> x \<and> x < cols \<and> fst (column_buckets n cols x) \<le> b \<and> b < snd (column_buckets n cols x)"
proof -
  define A where "A = (b + 1) * cols - 1"
  define x where "x = A div n"
  have "0 < (b + 1) * cols" using b c by simp
  moreover have "(b + 1) * cols \<le> n * cols" using b c by (intro mult_right_mono) simp_all
  ultimately have A: "0 \<le> A" "A < n * cols" unfolding A_def by linarith+
  have eq: "x * n + A mod n = A" unfolding x_def by (rule div_mult_mod_eq)
  have m: "0 \<le> A mod n" "A mod n < n" using n by simp_all
  have x0: "0 \<le> x" unfolding x_def using A(1) n by (simp add: pos_imp_zdiv_nonneg_iff)
  have xc: "x < cols"
  proof (rule ccontr)
    assume "\<not> x < cols"
    then have "cols * n \<le> x * n" using n by simp
    then show False using eq m A(2) mult.commute [of n cols] by linarith
  qed
  have lo: "x * n div cols \<le> b"
  proof -
    have "x * n < (b + 1) * cols" using eq m by (simp add: A_def)
    moreover have "x * n div cols * cols \<le> x * n"
      using div_mult_mod_eq [of "x * n" cols] pos_mod_sign [OF c, of "x * n"] by linarith
    ultimately have "x * n div cols * cols < (b + 1) * cols" by linarith
    then show ?thesis using c by simp
  qed
  have hi: "b + 1 \<le> (x + 1) * n div cols"
  proof -
    have "(b + 1) * cols \<le> (x + 1) * n" using eq m by (simp add: A_def distrib_right)
    from zdiv_mono1 [OF this c] show ?thesis using c by simp
  qed
  show ?thesis using x0 xc lo hi b(2) by (intro exI [of _ x]) (simp add: column_buckets_div [OF n c x0 xc])
qed

end
