(* ===== verification/Ilo_Power.thy ===== *)
theory Ilo_Power
  imports Ribcl Health Ilo_Session
begin

text \<open>
  The command-line tool \<open>tools/ilo_power.cpp\<close>: its arguments, the table of actions, the exchange and what it
  prints. A run yields the exit code with the texts on both streams (which hold no NUL, where C strings would
  end); \<open>None\<close> is an exchange that does not come back. Shown: what each exit code means, and that the table of
  actions reaches every command by one name.
\<close>

section \<open>Arguments\<close>

record tool_args =
  ta_host :: string
  ta_user :: string
  ta_pass :: string
  ta_action :: string
  ta_body :: string
  ta_value :: string
  ta_wrapper :: string
  ta_raw :: bool
  ta_have_action :: bool
  ta_device :: string

definition tool_args_new :: tool_args where
  "tool_args_new = \<lparr>ta_host = '''', ta_user = ''Administrator'', ta_pass = '''', ta_action = ''status'', ta_body = '''', ta_value = '''',
     ta_wrapper = ''SERVER_INFO'', ta_raw = False, ta_have_action = False, ta_device = ''''\<rparr>"

definition tool_takes_value :: "string \<Rightarrow> bool" where
  "tool_takes_value a \<longleftrightarrow> a \<in> set [''--host'', ''--user'', ''--pass'', ''--device'', ''--body'', ''--body-wrapper'']"

definition tool_option :: "string \<Rightarrow> string \<Rightarrow> tool_args \<Rightarrow> tool_args" where
  "tool_option a v t =
     (if a = ''--host'' then t\<lparr>ta_host := v\<rparr> else if a = ''--user'' then t\<lparr>ta_user := v\<rparr>
      else if a = ''--pass'' then t\<lparr>ta_pass := v\<rparr> else if a = ''--device'' then t\<lparr>ta_device := v\<rparr>
      else if a = ''--body'' then t\<lparr>ta_body := v\<rparr> else t\<lparr>ta_wrapper := v\<rparr>)"

definition tool_plain :: "string \<Rightarrow> tool_args \<Rightarrow> tool_args" where
  "tool_plain a t =
     (if a = ''--raw'' then t\<lparr>ta_raw := True\<rparr>
      else if \<not> ta_have_action t then t\<lparr>ta_action := a, ta_have_action := True\<rparr>
      else t\<lparr>ta_value := a\<rparr>)"

fun tool_parse :: "string list \<Rightarrow> tool_args \<Rightarrow> tool_args" where
  "tool_parse [] t = t"
| "tool_parse [a] t = (if tool_takes_value a then tool_option a '''' t else tool_plain a t)"
| "tool_parse (a # b # r) t =
     (if tool_takes_value a then tool_parse r (tool_option a b t) else tool_parse (b # r) (tool_plain a t))"

section \<open>Actions\<close>

text \<open>The command of an action with its arguments, or the message of a usage error.\<close>

definition plain_actions :: "(string \<times> ribcl_command) list" where
  "plain_actions = [(''status'', GetPowerStatus), (''health'', GetEmbeddedHealth), (''power'', GetPowerReadings), (''on'', PowerOn),
     (''off'', PowerOff), (''force-off'', ForcePowerOff), (''reset'', Reset), (''cold-boot'', ColdBoot), (''uid-on'', UidOn),
     (''uid-off'', UidOff), (''fw'', GetFwVersion), (''vm-status'', GetVmStatus), (''one-time-boot'', GetOneTimeBoot),
     (''vm-eject'', EjectVirtualMedia)]"

definition tool_command :: "tool_args \<Rightarrow> string + ribcl_command \<times> ribcl_args" where
  "tool_command t =
     (let a = ta_action t; v = ta_value t; args = no_args\<lparr>arg_device := ta_device t\<rparr>
      in case map_of plain_actions a of
           Some c \<Rightarrow> Inr (c, args)
         | None \<Rightarrow>
             if a = ''vm-insert'' then (if v = [] then Inl ''vm-insert needs an image URL'' else Inr (InsertVirtualMedia, args\<lparr>arg_image_url := v\<rparr>))
             else if a = ''vm-boot'' then (if v = [] then Inl ''vm-boot needs a boot option'' else Inr (SetVmBootOption, args\<lparr>arg_boot_option := v\<rparr>))
             else if a = ''set-one-time-boot''
             then (if v = [] then Inl ''set-one-time-boot needs a device'' else Inr (SetOneTimeBoot, args\<lparr>arg_boot_device := v\<rparr>))
             else Inl (''unknown action '' @ a))"

section \<open>Output\<close>

definition newline :: string where "newline = [CHR 0x0A]"

definition pad_right :: "nat \<Rightarrow> string \<Rightarrow> string" where
  "pad_right n s = s @ replicate (n - length s) CHR '' ''"

definition pad_left :: "nat \<Rightarrow> string \<Rightarrow> string" where
  "pad_left n s = replicate (n - length s) CHR '' '' @ s"

definition print_verdict :: "ribcl_command \<Rightarrow> ribcl_reply \<Rightarrow> string" where
  "print_verdict c r =
     ribcl_command_name c @ '': '' @ (if rr_ok r then ''ok'' else if rr_message r = [] then ''failed'' else rr_message r) @ newline @
     (if rr_host_power r \<noteq> [] then ''HOST_POWER = '' @ rr_host_power r @ newline else '''')"

definition print_vm_status :: "vm_status \<Rightarrow> string" where
  "print_vm_status v =
     (if \<not> vm_valid v then ''  (no GET_VM_STATUS element in the reply)'' @ newline
      else ''  device         : '' @ vm_device v @ newline @
           ''  applet         : '' @ vm_applet v @ newline @
           ''  boot option    : '' @ vm_boot_option v @ newline @
           ''  write protect  : '' @ (if vm_write_protect v then ''yes'' else ''no'') @ newline @
           ''  image inserted : '' @ (if vm_image_inserted v then ''yes'' else ''no'') @ newline @
           ''  image url      : '' @ (if vm_image_url v = [] then ''(none)'' else vm_image_url v) @ newline)"

definition print_fw :: "fw_info \<Rightarrow> string" where
  "print_fw f =
     (if \<not> fw_valid f then ''  (no GET_FW_VERSION element in the reply)'' @ newline
      else ''  firmware  : '' @ fw_version f @ '' ('' @ fw_date f @ '')'' @ newline @
           ''  processor : '' @ fw_processor f @ newline @
           ''  licence   : '' @ fw_license f @ newline @
           ''  scripted virtual media: '' @
             (if vm_scripting_licensed f then ''licensed'' else ''NOT licensed (needs iLO 2 Advanced)'') @ newline)"

definition print_glance :: "health_glance \<Rightarrow> string" where
  "print_glance g = ''fans '' @ hg_fans g @ '' ('' @ hg_fan_redundancy g @ ''), temperature '' @ hg_temperature g @ '', VRM '' @ hg_vrm g @
     '', power supplies '' @ hg_supplies g @ '' ('' @ hg_supply_redundancy g @ ''), drives '' @ hg_drives g @ newline"

definition print_fan :: "health_fan \<Rightarrow> string" where
  "print_fan f = ''  '' @ pad_right 16 (hf_label f) @ '' '' @ pad_right 8 (hf_zone f) @ '' '' @ pad_left 3 (to_string (hf_speed f)) @ ''%  '' @
     hf_status f @ newline"

definition print_temp :: "health_temp \<Rightarrow> string" where
  "print_temp t =
     (if ht_reading t < 0 then ''''
      else ''  '' @ pad_right 8 (ht_label t) @ '' '' @ pad_right 14 (ht_location t) @ '' '' @ pad_left 3 (to_string (ht_reading t)) @
           '' C  (caution '' @ to_string (ht_caution t) @ '', critical '' @ to_string (ht_critical t) @ '')  '' @ ht_status t @ newline)"

definition print_health :: "health_data \<Rightarrow> string" where
  "print_health h = print_glance (h_glance h) @ concat (map print_fan (h_fans h)) @ concat (map print_temp (h_temps h)) @
     concat (map (\<lambda>s. ''  '' @ pad_right 16 (hs_label s) @ '' '' @ hs_status s @ newline) (h_supplies h)) @
     concat (map (\<lambda>d. ''  bay '' @ to_string (hd_bay d) @ ''  '' @ pad_right 18 (hd_product d) @ '' '' @ hd_status d @ newline) (h_drives h))"

definition print_power :: "power_readings \<Rightarrow> string" where
  "print_power p = ''present '' @ to_string (pr_present p) @ '' W, average '' @ to_string (pr_average p) @ '' W, max '' @
     to_string (pr_maximum p) @ '' W, min '' @ to_string (pr_minimum p) @ '' W'' @ newline"

record tool_run =
  tr_code :: int
  tr_out :: string
  tr_err :: string

text \<open>What follows a reply.\<close>

definition tool_report :: "tool_args \<Rightarrow> ribcl_command \<Rightarrow> ribcl_reply \<Rightarrow> tool_run" where
  "tool_report t c r =
     (let out = (if ta_raw t then rr_raw r else '''') @ print_verdict c r;
          out = out @ (if c = GetVmStatus then print_vm_status (parse_vm_status (rr_raw r)) else '''');
          out = out @ (if c = GetFwVersion then print_fw (parse_fw_version (rr_raw r)) else '''');
          h = parse_embedded_health (rr_raw r); p = parse_power_readings (rr_raw r)
      in if c = GetEmbeddedHealth \<and> \<not> h_valid h
         then \<lparr>tr_code = 1, tr_out = out @ ''(no health report in reply)'' @ newline, tr_err = ''''\<rparr>
         else (let out = out @ (if c = GetEmbeddedHealth then print_health h else '''')
               in if c = GetPowerReadings \<and> \<not> pr_valid p
                  then \<lparr>tr_code = 1, tr_out = out @ ''(no power readings in reply)'' @ newline, tr_err = ''''\<rparr>
                  else \<lparr>tr_code = (if rr_ok r then 0 else 1),
                        tr_out = out @ (if c = GetPowerReadings then print_power p else ''''), tr_err = ''''\<rparr>))"

definition tool_error :: "int \<Rightarrow> string \<Rightarrow> tool_run" where
  "tool_error code e = \<lparr>tr_code = code, tr_out = '''', tr_err = e @ newline\<rparr>"

section \<open>The run\<close>

definition tool_probe ::
  "'t transport \<Rightarrow> (int \<Rightarrow> 't \<Rightarrow> 't) \<Rightarrow> 'r rng \<Rightarrow> nat \<Rightarrow> tool_args \<Rightarrow> string \<Rightarrow> 't \<times> 'r \<Rightarrow> (tool_run \<times> ('t \<times> 'r)) option" where
  "tool_probe TP patience rng fuel t pass w =
     (let (s, r) = w;
          wrapped = ''<'' @ ta_wrapper t @ '' MODE='' @ [CHR 0x22] @ ''read'' @ [CHR 0x22] @ ''>'' @ crlf @ ta_body t @ crlf @ ''</'' @ ta_wrapper t @ ''>'';
          (res, c) = peer_then (client_connect TP rng fuel (ta_host t) 443 (client_new VERSION_TLS_1_0 8000 0 s r)) (\<lambda>_ c.
            let c = c\<lparr>sock := patience 1500 (sock c)\<rparr>;
                (res, c) = ribcl_exchange (client_peer TP fuel) fuel (ta_user t) pass wrapped (\<lambda>_. False) c
            in (res, client_close TP c));
          w = (sock c, rand c)
      in case res of
           Got raw \<Rightarrow> Some (\<lparr>tr_code = 0, tr_out = raw, tr_err = ''''\<rparr>, w)
         | Error e \<Rightarrow> Some (tool_error 1 e, w)
         | Stuck \<Rightarrow> None
         | Crash \<Rightarrow> None)"

text \<open>\<open>usage\<close> is the help text; the environment and the password file are arguments.\<close>

definition tool_main ::
  "'t transport \<Rightarrow> (int \<Rightarrow> 't \<Rightarrow> 't) \<Rightarrow> 'r rng \<Rightarrow> nat \<Rightarrow> string \<Rightarrow> string option \<Rightarrow> string option \<Rightarrow> string list \<Rightarrow> 't \<times> 'r \<Rightarrow>
   (tool_run \<times> ('t \<times> 'r)) option" where
  "tool_main TP patience rng fuel usage env pwfile argv w =
     (let t = tool_parse argv tool_args_new; pass = read_ilo_password env pwfile (ta_pass t)
      in if ta_host t = [] then Some (\<lparr>tr_code = 2, tr_out = '''', tr_err = usage\<rparr>, w)
         else if pass = [] then Some (tool_error 2 ''no password (--pass, ILO_PASS or .ilo_pass)'', w)
         else if ta_body t \<noteq> [] then tool_probe TP patience rng fuel t pass w
         else (case tool_command t of
                 Inl e \<Rightarrow> Some (tool_error 2 e, w)
               | Inr (c, args) \<Rightarrow>
                   (case ribcl_run TP patience rng fuel (ta_host t) 443 (ta_user t) pass c args w of
                      (Got r, w) \<Rightarrow> Some (tool_report t c r, w)
                    | (Error e, w) \<Rightarrow> Some (tool_error 1 (ribcl_command_name c @ '': '' @ e), w)
                    | (Stuck, w) \<Rightarrow> None
                    | (Crash, w) \<Rightarrow> None)))"

section \<open>Exit codes and actions\<close>

lemma tool_report_code:
  "tr_code (tool_report t c r) = 0 \<longleftrightarrow> rr_ok r \<and> (c = GetEmbeddedHealth \<longrightarrow> h_valid (parse_embedded_health (rr_raw r))) \<and>
     (c = GetPowerReadings \<longrightarrow> pr_valid (parse_power_readings (rr_raw r)))"
  "tr_code (tool_report t c r) \<noteq> 2"
  by (auto simp: tool_report_def Let_def)

lemma tool_error_code [simp]: "tr_code (tool_error n e) = n" "tr_out (tool_error n e) = ''''"
  by (simp_all add: tool_error_def)

lemma tool_probe_code: "tool_probe TP patience rng fuel t pass w = Some (run, w') \<Longrightarrow> tr_code run \<noteq> 2"
  by (auto simp: tool_probe_def Let_def split: prod.splits reply.splits)

text \<open>C31: the exit code of \<open>ilo_power\<close> tells what happened: 2 exactly for a usage error (no host, no password, an action
  without its value or an unknown one), in which case nothing was sent and nothing printed on the standard output; 0 for an
  action exactly when its command was exchanged, the reply reports success, and a health report or power reading
  that was asked for is complete.\<close>

theorem exit_codes:
  assumes t: "t = tool_parse argv tool_args_new" and pass: "pass = read_ilo_password env pwfile (ta_pass t)"
    and run: "tool_main TP patience rng fuel usage env pwfile argv w = Some (run, w')"
  shows "(tr_code run = 2 \<longleftrightarrow> ta_host t = [] \<or> pass = [] \<or> ta_body t = [] \<and> (\<exists>e. tool_command t = Inl e)) \<and>
    (tr_code run = 2 \<longrightarrow> w' = w \<and> tr_out run = '''') \<and>
    (ta_body t = [] \<longrightarrow> (tr_code run = 0 \<longleftrightarrow> ta_host t \<noteq> [] \<and> pass \<noteq> [] \<and>
       (\<exists>c args r. tool_command t = Inr (c, args) \<and>
          ribcl_run TP patience rng fuel (ta_host t) 443 (ta_user t) pass c args w = (Got r, w') \<and> rr_ok r \<and>
          (c = GetEmbeddedHealth \<longrightarrow> h_valid (parse_embedded_health (rr_raw r))) \<and>
          (c = GetPowerReadings \<longrightarrow> pr_valid (parse_power_readings (rr_raw r))))))"
proof -
  note main = run [unfolded tool_main_def Let_def, folded t, folded pass]
  consider "ta_host t = []" | "ta_host t \<noteq> []" "pass = []" | "ta_host t \<noteq> []" "pass \<noteq> []" "ta_body t \<noteq> []"
    | "ta_host t \<noteq> []" "pass \<noteq> []" "ta_body t = []"
    by blast
  then show ?thesis
  proof cases
    case 3
    then have "tool_probe TP patience rng fuel t pass w = Some (run, w')" using main by simp
    from tool_probe_code [OF this] 3 show ?thesis by simp
  next
    case 4
    show ?thesis
    proof (cases "tool_command t")
      case (Inl e)
      then show ?thesis using main 4 by auto
    next
      case (Inr x)
      obtain c args where x: "x = (c, args)" by (cases x)
      obtain res w1 where r: "ribcl_run TP patience rng fuel (ta_host t) 443 (ta_user t) pass c args w = (res, w1)"
        by (cases "ribcl_run TP patience rng fuel (ta_host t) 443 (ta_user t) pass c args w")
      show ?thesis using main 4 Inr x r tool_report_code [of t c] by (cases res) auto
    qed
  qed (use main in auto)
qed

definition unreachable :: "unit transport" where
  "unreachable = \<lparr>tp_connect = \<lambda>_ _ _ s. (Some ''unreachable'', s), tp_recv = \<lambda>s. (Recv_error, s), tp_send = \<lambda>_ s. (False, s),
     tp_valid = \<lambda>_. False, tp_close = \<lambda>s. s\<rparr>"

theorem exit_codes_witness:
  "tool_main unreachable (\<lambda>_ s. s) (\<lambda>n r. (None, r)) 5 '''' None None [''--host'', ''ilo'', ''--pass'', ''p'', ''vm-boot''] ((), ()) =
     Some (tool_error 2 ''vm-boot needs a boot option'', ((), ())) \<and>
   (\<exists>e. tool_command (tool_parse [''--host'', ''ilo'', ''--pass'', ''p'', ''vm-boot''] tool_args_new) = Inl e)"
proof -
  let ?argv = "[''--host'', ''ilo'', ''--pass'', ''p'', ''vm-boot'']"
  let ?t = "tool_parse ?argv tool_args_new"
  have t: "?t = tool_args_new\<lparr>ta_host := ''ilo'', ta_pass := ''p'', ta_action := ''vm-boot'', ta_have_action := True\<rparr>"
    by (simp add: tool_takes_value_def tool_option_def tool_plain_def tool_args_new_def)
  have p: "read_ilo_password None None (ta_pass ?t) = ''p''" "ta_body ?t = ''''" "ta_host ?t = ''ilo''"
    unfolding t by (code_simp, simp_all add: tool_args_new_def)
  have c: "tool_command ?t = Inl ''vm-boot needs a boot option''"
    unfolding t by (simp add: tool_command_def plain_actions_def tool_args_new_def)
  have run: "tool_main unreachable (\<lambda>_ s. s) (\<lambda>n r. (None, r)) 5 '''' None None ?argv ((), ()) =
      Some (tool_error 2 ''vm-boot needs a boot option'', ((), ()))"
    unfolding tool_main_def Let_def p c by simp
  from exit_codes [OF refl refl run] run p show ?thesis by simp
qed

text \<open>Every command of \<open>RibclCommand\<close> has one action.\<close>

definition action_of :: "ribcl_command \<Rightarrow> string" where
  "action_of c =
     (case find (\<lambda>p. snd p = c) plain_actions of
        Some p \<Rightarrow> fst p
      | None \<Rightarrow> if c = InsertVirtualMedia then ''vm-insert'' else if c = SetVmBootOption then ''vm-boot'' else ''set-one-time-boot'')"

lemma action_reaches: "ta_value t \<noteq> [] \<Longrightarrow> \<exists>args. tool_command (t\<lparr>ta_action := action_of c\<rparr>) = Inr (c, args)"
  by (cases c) (simp_all add: tool_command_def action_of_def plain_actions_def)

lemma action_only: "tool_command t = Inr (c, args) \<Longrightarrow> ta_action t = action_of c"
  by (auto simp: tool_command_def plain_actions_def action_of_def Let_def split: if_splits)

end
