(* ===== verification/Dvc_Log.thy ===== *)
theory Dvc_Log
  imports Dvc_Stream "HOL-Library.Sublist"
begin

text \<open>
  The events of the decoder of \<open>ilo/dvc_decoder.hpp\<close> stand for the calls of its virtual hooks, in order:
  a step only appends to them. The classes that override the hooks are fed with what each byte appends
  (\<open>new_events\<close>); over a whole stream that is the list of all events.
\<close>

definition grows :: "dvc_decoder \<Rightarrow> dvc_decoder \<Rightarrow> bool" where
  "grows d e \<longleftrightarrow> prefix (events d) (events e)"

lemma grows_refl [simp]: "grows d d"
  by (simp add: grows_def)

lemma grows_trans: "grows d e \<Longrightarrow> grows e f \<Longrightarrow> grows d f"
  unfolding grows_def by (rule prefix_order.trans)

lemma grows_events: "events e = events d \<Longrightarrow> grows d e"
  by (simp add: grows_def)

lemma grows_left: "events d = events d' \<Longrightarrow> grows d e \<longleftrightarrow> grows d' e"
  by (simp add: grows_def)

lemma grows_blit: "grows d (blit_tiles paint n x y d)"
proof (induction paint n x y d rule: blit_tiles.induct)
  case (2 paint n x y d)
  let ?e = "if paint then emit (Paste (block d) x y 16) d else d"
  define g where "g = ?e\<lparr>lastx := lastx ?e + 1\<rparr>"
  have step: "grows d g" by (simp add: g_def grows_def emit_def)
  have "grows g (blit_tiles paint n (x + 16) y g)" if "\<not> size_x g \<le> lastx g"
    using 2 [OF refl refl refl] that unfolding g_def by simp
  moreover have "blit_tiles paint (Suc n) x y d = (if size_x g \<le> lastx g then g else blit_tiles paint n (x + 16) y g)"
    by (simp only: blit_tiles.simps Let_def g_def)
  ultimately show ?case using step grows_trans [OF step] by simp
qed (simp add: grows_def)

lemma grows_next_block: "grows d (next_block n d)"
proof -
  let ?c = "if pixel_count d \<noteq> 0 \<and> y_clipped d > 0 \<and> lasty d = size_y d then clip_block d else d"
  let ?e = "set_next 1 (?c\<lparr>pixel_count := 0\<rparr>)"
  have "grows d ?e" by (rule grows_events) simp
  from grows_trans [OF this grows_blit] show ?thesis by (simp only: next_block_def Let_def)
qed

lemma grows_handlers:
  "grows d (st_cached_pixel s d)" "grows d (st_run s d)" "grows d (push_or_latch d)"
  "grows d (st_new_color s d)" "grows d (st_newx s d)" "grows d (st_newy d)"
  "grows d (st_movex s d)" "grows d (st_timeout d)" "grows d (st_command d)"
  "grows d (st_printchar d)" "grows d (st_reset d)" "grows d (st_fatal d)"
  "grows d (st_hunt s d)" "grows d (st_mode2 d)" "st_param d = Some e \<Longrightarrow> grows d e"
  by (simp_all add: st_cached_pixel_def st_run_def st_new_color_def st_newx_def st_mode2_def
      st_newy_def st_movex_def st_timeout_def st_command_def st_printchar_def st_reset_def
      st_fatal_def st_hunt_def on_seize_def set_framerate_def Let_def grows_def emit_def
      split: prod.split)
    (auto simp: st_param_def Let_def split: if_splits)

lemma grows_dispatch:
  shows "dispatch s d = Running e \<Longrightarrow> grows d e" and "dispatch s d = Leave n e \<Longrightarrow> grows d e"
proof -
  have nb: "grows d (next_block v (set_code u d))" for u v
    using grows_next_block [of "set_code u d" v] by (simp add: grows_def)
  have keep: "grows d (d\<lparr>red := v\<rparr>)" "grows d (d\<lparr>green := v\<rparr>)" "grows d (set_next n d)" "grows d d" "grows d (set_code v d)"
    "grows d (d\<lparr>printchan := v, printstring := str\<rparr>)" "grows d (d\<lparr>size_x := v, size_y := u\<rparr>)" for v n str u
    by (simp_all add: grows_def)
  show "dispatch s d = Running e \<Longrightarrow> grows d e" "dispatch s d = Leave n e \<Longrightarrow> grows d e"
    by (auto simp: dispatch_def Let_def keep nb grows_next_block grows_handlers split: if_splits option.splits)
qed

lemma grows_finish: "finish_turn s d = Running e \<Longrightarrow> grows d e" "finish_turn s d = Leave n e \<Longrightarrow> grows d e"
  using grows_next_block [of d 1] by (auto simp: finish_turn_def Let_def grows_def split: if_splits)

lemma grows_turn: "dvc_turn d = Running e \<Longrightarrow> grows d e" "dvc_turn d = Leave n e \<Longrightarrow> grows d e"
proof -
  let ?s = "decoder_state (bits d)"
  have f: "grows d (fetched d)" by (rule grows_events) (simp add: fetched_def Let_def)
  note d1 = grows_trans [OF f grows_dispatch(1)] and d2 = grows_trans [OF f grows_dispatch(2)]
  show "grows d e" if turn: "dvc_turn d = Running e"
  proof -
    obtain g where "dispatch ?s (fetched d) = Running g" "finish_turn ?s g = Running e"
      using turn by (auto simp: dvc_turn_fetched Let_def split: if_splits outcome.splits)
    then show ?thesis using grows_trans [OF d1 grows_finish(1)] by blast
  qed
  show "grows d e" if turn: "dvc_turn d = Leave n e"
  proof -
    consider "e = d" | "dispatch ?s (fetched d) = Leave n e"
      | g where "dispatch ?s (fetched d) = Running g" "finish_turn ?s g = Leave n e"
      using turn by (auto simp: dvc_turn_fetched Let_def split: if_splits outcome.splits)
    then show ?thesis
    proof cases
      case 1
      then show ?thesis by (simp add: grows_def)
    next
      case 2
      then show ?thesis by (rule d2)
    next
      case 3
      then show ?thesis using grows_trans [OF d1 grows_finish(2)] by blast
    qed
  qed
qed

lemma grows_loop: "dvc_loop fuel d = Inr (n, e) \<Longrightarrow> grows d e"
proof (induction fuel arbitrary: d)
  case (Suc fuel)
  then show ?case
    using grows_turn [of d] grows_trans by (fastforce split: outcome.splits)
qed simp

lemma grows_process: "process_dvc c d = Inr e \<Longrightarrow> grows d e"
proof -
  assume p: "process_dvc c d = Inr e"
  show ?thesis
  proof (cases "inhibit d")
    case True
    with p show ?thesis by (simp add: process_dvc_def grows_def)
  next
    case False
    with p obtain n g where g: "process_bits c d = Inr (n, g)"
      "e = (if n \<noteq> 0 then emit RefreshScreen ((set_next 38 (set_state 38 g))\<lparr>fatal_count := 0\<rparr>) else g)"
      by (auto simp: process_dvc_def split: sum.splits if_splits)
    have "grows (add_byte c d) g" using g(1) grows_loop by (simp add: process_bits_add)
    then have "grows d g" by (simp add: grows_def add_byte_def)
    moreover have "grows g e" using g(2) by (simp add: grows_def emit_def)
    ultimately show ?thesis by (rule grows_trans)
  qed
qed

text \<open>What a step appended.\<close>

definition new_events :: "dvc_decoder \<Rightarrow> dvc_decoder \<Rightarrow> dvc_event list" where
  "new_events d e = drop (length (events d)) (events e)"

lemma events_new: "process_dvc c d = Inr e \<Longrightarrow> events e = events d @ new_events d e"
  using grows_process [of c d e] by (auto simp: grows_def new_events_def prefix_def)

end
