(* ===== verification/Capture.thy ===== *)
theory Capture
  imports Console_Core Dvc_Log "HOL-Library.AList"
begin

text \<open>
  The tools that record and replay a video stream: \<open>CaptureSession\<close> of \<open>tools/capture_dvc.cpp\<close>, whose
  decoder, unlike the console's, passes the key change of the stream on to the session, and \<open>StatDecoder\<close> of
  \<open>tools/replay_dvc.cpp\<close>. Both draw through the hooks of \<open>FramebufferDecoder\<close> and fulfil the contract
  \<open>renderer\<close>. Shown: a capture holds exactly what the server sent, across its key changes, and the replay of
  the file shows the picture the capture ended with. What is only printed is not modelled.
\<close>

unbundle bit_operations_syntax

section \<open>Calls of the base class\<close>

definition base_image :: "'z framebuffer_scheme \<Rightarrow> framebuffer" where
  "base_image f = \<lparr>fb_w = fb_w f, fb_h = fb_h f, pixels = pixels f\<rparr>"

definition base_event :: "dvc_event \<Rightarrow> 'z framebuffer_scheme \<Rightarrow> 'z framebuffer_scheme" where
  "base_event e f = (let g = fb_event e (base_image f) in f\<lparr>fb_w := fb_w g, fb_h := fb_h g, pixels := pixels g\<rparr>)"

lemma base_event_image [simp]: "base_image (base_event e f) = fb_event e (base_image f)"
  by (simp add: base_event_def base_image_def Let_def)

section \<open>The capturing session\<close>

text \<open>\<open>cap_rekeys\<close> counts the calls of \<open>on_key_change\<close> the session has yet to carry out.\<close>

record cap_framebuffer = framebuffer +
  cap_pastes :: int
  cap_dims :: int
  cap_rekeys :: nat

fun cap_event :: "dvc_event \<Rightarrow> cap_framebuffer \<Rightarrow> cap_framebuffer" where
  "cap_event (Paste blk x y n) f = base_event (Paste blk x y n) (f\<lparr>cap_pastes := cap_pastes f + 1\<rparr>)"
| "cap_event (SetDimensions w h) f = base_event (SetDimensions w h) (f\<lparr>cap_dims := cap_dims f + 1\<rparr>)"
| "cap_event ChangeKey f = f\<lparr>cap_rekeys := cap_rekeys f + 1\<rparr>"
| "cap_event _ f = f"

record capture =
  cs_raw :: bytes
  cs_decoder :: dvc_decoder
  cs_fb :: cap_framebuffer
  cs_overrun :: bool

definition capture_new :: capture where
  "capture_new = \<lparr>cs_raw = [], cs_decoder = dvc_decoder_init,
     cs_fb = \<lparr>fb_w = 0, fb_h = 0, pixels = [], cap_pastes = 0, cap_dims = 0, cap_rekeys = 0\<rparr>, cs_overrun = False\<rparr>"

definition cap_dvc :: "byte \<Rightarrow> capture \<Rightarrow> bool \<times> capture" where
  "cap_dvc c s =
     (let s = s\<lparr>cs_raw := cs_raw s @ [c]\<rparr>
      in case process_dvc c (cs_decoder s) of
           Inl f \<Rightarrow> (True, s\<lparr>cs_overrun := True\<rparr>)
         | Inr d \<Rightarrow> (True, s\<lparr>cs_decoder := d, cs_fb := fold cap_event (new_events (cs_decoder s) d) (cs_fb s)\<rparr>))"

text \<open>The callbacks to \<open>change_key\<close>, which touch nothing but the two ciphers, after the byte they come from.\<close>

definition cap_feed_byte :: "byte \<Rightarrow> ('s, capture) cim \<Rightarrow> ('s, capture) cim" where
  "cap_feed_byte c t =
     (let t = feed_byte cap_dvc c t; n = cap_rekeys (cs_fb (sink t))
      in (cim_change_key ^^ n) (t\<lparr>sink := (sink t)\<lparr>cs_fb := (cs_fb (sink t))\<lparr>cap_rekeys := 0\<rparr>\<rparr>\<rparr>))"

definition cap_feed :: "bytes \<Rightarrow> ('s, capture) cim \<Rightarrow> ('s, capture) cim" where
  "cap_feed data t = fold cap_feed_byte data t"

section \<open>The replay\<close>

record stat_framebuffer = framebuffer +
  sd_pastes :: int
  sd_dims :: int
  sd_texts :: int
  sd_rekeys :: int
  sd_fw :: int
  sd_nonblack :: int
  sd_log :: "string list"
  sd_hits :: "((int \<times> int) \<times> int) list"
  sd_lens :: "(int \<times> int) list"
  sd_max_x :: int
  sd_max_y :: int
  sd_hash :: "((int \<times> int) \<times> u64) list"
  sd_same :: int
  sd_diff :: int

definition stat_new :: stat_framebuffer where
  "stat_new = \<lparr>fb_w = 0, fb_h = 0, pixels = [], sd_pastes = 0, sd_dims = 0, sd_texts = 0, sd_rekeys = 0, sd_fw = 0, sd_nonblack = 0,
     sd_log = [], sd_hits = [], sd_lens = [], sd_max_x = - 1, sd_max_y = - 1, sd_hash = [], sd_same = 0, sd_diff = 0\<rparr>"

text \<open>\<open>map[key]++\<close>.\<close>

definition count_up :: "'k \<Rightarrow> ('k \<times> int) list \<Rightarrow> ('k \<times> int) list" where
  "count_up key m = AList.update key ((case map_of m key of None \<Rightarrow> 0 | Some n \<Rightarrow> n) + 1) m"

definition tile_hash :: "int list \<Rightarrow> u64" where
  "tile_hash blk = foldl (\<lambda>h i. (h XOR ucast (word_of_int (blk ! i) :: u32)) * 1099511628211) 1469598103934665603 [0..<256]"

definition stat_paste :: "int list \<Rightarrow> int \<Rightarrow> int \<Rightarrow> int \<Rightarrow> stat_framebuffer \<Rightarrow> stat_framebuffer" where
  "stat_paste blk x y n f =
     (let f = f\<lparr>sd_pastes := sd_pastes f + 1, sd_hits := count_up (x, y) (sd_hits f), sd_lens := count_up n (sd_lens f)\<rparr>;
          f = f\<lparr>sd_max_x := (if x > sd_max_x f then x else sd_max_x f), sd_max_y := (if y > sd_max_y f then y else sd_max_y f)\<rparr>;
          h = tile_hash blk;
          f = (case map_of (sd_hash f) (x, y) of
                 Some old \<Rightarrow> if old = h then f\<lparr>sd_same := sd_same f + 1\<rparr> else f\<lparr>sd_diff := sd_diff f + 1\<rparr>
               | None \<Rightarrow> f);
          f = f\<lparr>sd_hash := AList.update (x, y) h (sd_hash f)\<rparr>;
          f = (if list_ex (\<lambda>i. (word_of_int (blk ! i) :: u32) AND 0xFFFFFF \<noteq> 0) [0..<256]
               then f\<lparr>sd_nonblack := sd_nonblack f + 1\<rparr> else f)
      in base_event (Paste blk x y n) f)"

definition log_event :: "string \<Rightarrow> stat_framebuffer \<Rightarrow> stat_framebuffer" where
  "log_event s f = f\<lparr>sd_log := sd_log f @ [s]\<rparr>"

fun stat_event :: "dvc_event \<Rightarrow> stat_framebuffer \<Rightarrow> stat_framebuffer" where
  "stat_event (Paste blk x y n) f = stat_paste blk x y n f"
| "stat_event (SetDimensions w h) f =
     base_event (SetDimensions w h) (log_event (''dim '' @ to_string w @ ''x'' @ to_string h @ '' @paste '' @ to_string (sd_pastes f))
       (f\<lparr>sd_dims := sd_dims f + 1\<rparr>))"
| "stat_event (ShowText s) f = log_event (''text: '' @ s) (f\<lparr>sd_texts := sd_texts f + 1\<rparr>)"
| "stat_event ChangeKey f = log_event ''rekey'' (f\<lparr>sd_rekeys := sd_rekeys f + 1\<rparr>)"
| "stat_event (Firmware cmd) f = log_event (''firmware cmd '' @ to_string cmd) (f\<lparr>sd_fw := sd_fw f + 1\<rparr>)"
| "stat_event _ f = f"

text \<open>The loop over the file; \<open>process_dvc\<close> never leaves the DVC mode. \<open>None\<close> is the decoder's fault.\<close>

fun replay_bytes :: "bytes \<Rightarrow> dvc_decoder \<Rightarrow> stat_framebuffer \<Rightarrow> (dvc_decoder \<times> stat_framebuffer) option" where
  "replay_bytes [] d f = Some (d, f)"
| "replay_bytes (c # cs) d f =
     (case process_dvc c d of
        Inl _ \<Rightarrow> None
      | Inr d' \<Rightarrow> replay_bytes cs d' (fold stat_event (new_events d d') f))"

text \<open>The totals of the report.\<close>

record replay_report =
  rp_stats :: stat_framebuffer
  rp_positions :: nat
  rp_written :: "(int \<times> int) list"
  rp_off_x :: nat
  rp_off_y :: nat
  rp_colors :: "(u32 \<times> int) list"

definition replay_report_of :: "stat_framebuffer \<Rightarrow> replay_report" where
  "replay_report_of f =
     \<lparr>rp_stats = f, rp_positions = length (sd_hits f),
      rp_written = fold (\<lambda>(p, n). count_up n) (sd_hits f) [],
      rp_off_x = length (filter (\<lambda>((x, y), n). x smod 16 \<noteq> 0) (sd_hits f)),
      rp_off_y = length (filter (\<lambda>((x, y), n). y smod 16 \<noteq> 0) (sd_hits f)),
      rp_colors = fold (\<lambda>p. count_up (p AND 0xFFFFFF)) (pixels f) []\<rparr>"

text \<open>
  The exit code with the report, from the file (the size \<open>ftell\<close> gives and the bytes \<open>fread\<close> returns); \<open>None\<close>
  is the decoder's fault.
\<close>

definition replay_main :: "(nat \<times> bytes) option \<Rightarrow> (int \<times> replay_report option) option" where
  "replay_main file =
     (case file of
        None \<Rightarrow> Some (2, None)
      | Some (n, data) \<Rightarrow>
          if n > 0 \<and> length data \<noteq> n then Some (2, None)
          else map_option (\<lambda>(d, f). (0, Some (replay_report_of f))) (replay_bytes (take n data) dvc_decoder_init stat_new))"

section \<open>Both draw the picture\<close>

interpretation cap: renderer cap_event base_image
proof
  show "base_image (cap_event e f) = fb_event e (base_image f)" for e f
    by (cases e) (simp_all, simp_all add: base_image_def)
qed

lemma stat_paste_image: "base_image (stat_paste blk x y n f) = fb_paste blk x y n (base_image f)"
  by (simp add: stat_paste_def Let_def split: option.split) (simp add: base_image_def)

interpretation stat: renderer stat_event base_image
proof
  show "base_image (stat_event e f) = fb_event e (base_image f)" for e f
    by (cases e) (simp_all add: stat_paste_image log_event_def, simp_all add: base_image_def)
qed

section \<open>What a stream appends\<close>

lemma process_stream_Cons:
  assumes "process_stream (c # cs) d = Inr e"
  obtains f where "process_dvc c d = Inr f" "process_stream cs f = Inr e"
  using assms by (auto split: sum.splits)

lemma stream_events: "process_stream cs d = Inr e \<Longrightarrow> events e = events d @ new_events d e"
proof (induction cs arbitrary: d)
  case (Cons c cs)
  obtain f where f: "process_dvc c d = Inr f" "process_stream cs f = Inr e" using Cons.prems by (rule process_stream_Cons)
  have "events e = events d @ (new_events d f @ new_events f e)"
    unfolding Cons.IH [OF f(2)] events_new [OF f(1)] by simp
  then show ?case unfolding new_events_def by (metis append_eq_conv_conj)
qed (simp add: new_events_def)

lemma new_events_step:
  assumes "process_dvc c d = Inr f" and "process_stream cs f = Inr e"
  shows "new_events d e = new_events d f @ new_events f e"
  using events_new [OF assms(1)] stream_events [OF assms(2)] unfolding new_events_def by (metis append_assoc append_eq_conv_conj)

lemma new_events_init: "process_stream cs dvc_decoder_init = Inr d \<Longrightarrow> new_events dvc_decoder_init d = events d"
  by (simp add: new_events_def dvc_decoder_init_def)

lemma replay_bytes_stream:
  "process_stream cs d = Inr e \<Longrightarrow> replay_bytes cs d f = Some (e, fold stat_event (new_events d e) f)"
proof (induction cs arbitrary: d f)
  case (Cons c cs)
  obtain g where g: "process_dvc c d = Inr g" "process_stream cs g = Inr e" using Cons.prems by (rule process_stream_Cons)
  from Cons.IH [OF g(2)] g(1) new_events_step [OF g] show ?case by simp
qed (simp add: new_events_def)

section \<open>Counting\<close>

definition key_changes :: "dvc_event list \<Rightarrow> nat" where
  "key_changes es = length (filter ((=) ChangeKey) es)"

lemma key_changes_append: "key_changes (es @ fs) = key_changes fs + key_changes es"
  by (simp add: key_changes_def)

definition paste_count :: "dvc_event list \<Rightarrow> nat" where
  "paste_count es = length (filter (\<lambda>e. case e of Paste blk x y n \<Rightarrow> True | _ \<Rightarrow> False) es)"

lemma base_event_counts [simp]:
  "cap_pastes (base_event e f) = cap_pastes f" "cap_rekeys (base_event e f) = cap_rekeys f"
  "sd_pastes (base_event e g) = sd_pastes g" "sd_rekeys (base_event e g) = sd_rekeys g"
  by (simp_all add: base_event_def Let_def)

lemma cap_counts:
  "cap_rekeys (fold cap_event es f) = cap_rekeys f + key_changes es \<and> cap_pastes (fold cap_event es f) = cap_pastes f + int (paste_count es)"
proof (induction es arbitrary: f)
  case (Cons e es)
  then show ?case by (cases e) (simp_all add: key_changes_def paste_count_def)
qed (simp add: key_changes_def paste_count_def)

lemma stat_paste_counts: "sd_pastes (stat_paste blk x y n f) = sd_pastes f + 1" "sd_rekeys (stat_paste blk x y n f) = sd_rekeys f"
  by (simp_all add: stat_paste_def Let_def split: option.split)

lemma stat_counts:
  "sd_rekeys (fold stat_event es f) = sd_rekeys f + int (key_changes es) \<and> sd_pastes (fold stat_event es f) = sd_pastes f + int (paste_count es)"
proof (induction es arbitrary: f)
  case (Cons e es)
  then show ?case by (cases e) (simp_all add: key_changes_def paste_count_def stat_paste_counts log_event_def)
qed (simp add: key_changes_def paste_count_def)

text \<open>Clearing the pending rekeys commutes with the hooks.\<close>

lemma cap_event_cleared: "(cap_event e (f\<lparr>cap_rekeys := 0\<rparr>))\<lparr>cap_rekeys := 0\<rparr> = (cap_event e f)\<lparr>cap_rekeys := 0\<rparr>"
  by (cases e) (simp_all add: base_event_def base_image_def Let_def)

lemma cap_events_cleared: "(fold cap_event es (f\<lparr>cap_rekeys := 0\<rparr>))\<lparr>cap_rekeys := 0\<rparr> = (fold cap_event es f)\<lparr>cap_rekeys := 0\<rparr>"
proof (induction es arbitrary: f)
  case (Cons e es)
  show ?case using Cons [of "cap_event e (f\<lparr>cap_rekeys := 0\<rparr>)"] Cons [of "cap_event e f"] cap_event_cleared [of e f] by simp
qed simp

section \<open>A server that changes its key with the stream\<close>

text \<open>It enciphers byte by byte, and changes its key after the byte that completes the command to do so.\<close>

fun server_cipher :: "bytes \<Rightarrow> dvc_decoder \<Rightarrow> rc4 \<Rightarrow> bytes" where
  "server_cipher [] d r = []"
| "server_cipher (c # cs) d r =
     (let (k, r) = randomValue r
      in (c XOR k) # (case process_dvc c d of
                        Inl _ \<Rightarrow> []
                      | Inr e \<Rightarrow> server_cipher cs e ((rc4_update_key ^^ key_changes (new_events d e)) r)))"

lemma change_keys:
  "(cim_change_key ^^ n) t = t\<lparr>rc4_encrypter := map_option (rc4_update_key ^^ n) (rc4_encrypter t),
     rc4_decrypter := map_option (rc4_update_key ^^ n) (rc4_decrypter t)\<rparr>"
  by (induction n) (simp_all add: cim_change_key_def telnet_change_key_def option.map_ident option.map_comp comp_def)

lemma cap_feed_byte_run:
  assumes t: "dvc_mode t" "dvc_encryption t" "rc4_decrypter t = Some r" "cs_decoder (sink t) = d" "cap_rekeys (cs_fb (sink t)) = 0"
    and k: "randomValue r = (k, r1)" and e: "process_dvc c d = Inr e"
  defines "n \<equiv> key_changes (new_events d e)"
  shows "cap_feed_byte (c XOR k) t = t\<lparr>rc4_encrypter := map_option (rc4_update_key ^^ n) (rc4_encrypter t),
     rc4_decrypter := Some ((rc4_update_key ^^ n) r1),
     sink := (sink t)\<lparr>cs_raw := cs_raw (sink t) @ [c], cs_decoder := e,
       cs_fb := (fold cap_event (new_events d e) (cs_fb (sink t)))\<lparr>cap_rekeys := 0\<rparr>\<rparr>\<rparr>"
proof -
  have x: "(c XOR k) XOR k = c" by (simp add: xor.assoc)
  have "cap_dvc c (sink t) = (True, (sink t)\<lparr>cs_raw := cs_raw (sink t) @ [c], cs_decoder := e,
      cs_fb := fold cap_event (new_events d e) (cs_fb (sink t))\<rparr>)"
    using e t(4) by (simp add: cap_dvc_def Let_def)
  with t k x have "feed_byte cap_dvc (c XOR k) t = t\<lparr>rc4_decrypter := Some r1,
      sink := (sink t)\<lparr>cs_raw := cs_raw (sink t) @ [c], cs_decoder := e, cs_fb := fold cap_event (new_events d e) (cs_fb (sink t))\<rparr>\<rparr>"
    by (simp add: feed_byte_def Let_def)
  then show ?thesis using t(5) by (simp add: cap_feed_byte_def Let_def change_keys cap_counts n_def)
qed

lemma cap_feed_cipher:
  "dvc_mode t \<Longrightarrow> dvc_encryption t \<Longrightarrow> rc4_decrypter t = Some r \<Longrightarrow> cs_decoder (sink t) = d \<Longrightarrow> cap_rekeys (cs_fb (sink t)) = 0 \<Longrightarrow>
   process_stream plain d = Inr e \<Longrightarrow>
   \<exists>r'. cap_feed (server_cipher plain d r) t =
     t\<lparr>rc4_encrypter := map_option (rc4_update_key ^^ key_changes (new_events d e)) (rc4_encrypter t), rc4_decrypter := Some r',
       sink := (sink t)\<lparr>cs_raw := cs_raw (sink t) @ plain, cs_decoder := e,
         cs_fb := (fold cap_event (new_events d e) (cs_fb (sink t)))\<lparr>cap_rekeys := 0\<rparr>\<rparr>\<rparr>"
proof (induction plain arbitrary: t r d)
  case Nil
  have "t = t\<lparr>rc4_decrypter := Some r, sink := (sink t)\<lparr>cs_decoder := d, cs_fb := (cs_fb (sink t))\<lparr>cap_rekeys := 0\<rparr>\<rparr>\<rparr>"
    by (simp flip: Nil.prems(3-5))
  with Nil.prems(6) show ?case
    by (intro exI [of _ r]) (simp add: cap_feed_def new_events_def key_changes_def option.map_ident)
next
  case (Cons c cs)
  obtain f where f: "process_dvc c d = Inr f" "process_stream cs f = Inr e" using Cons.prems(6) by (rule process_stream_Cons)
  obtain k r1 where k: "randomValue r = (k, r1)" by fastforce
  let ?n = "key_changes (new_events d f)"
  define u where "u = t\<lparr>rc4_encrypter := map_option (rc4_update_key ^^ ?n) (rc4_encrypter t),
     rc4_decrypter := Some ((rc4_update_key ^^ ?n) r1),
     sink := (sink t)\<lparr>cs_raw := cs_raw (sink t) @ [c], cs_decoder := f,
       cs_fb := (fold cap_event (new_events d f) (cs_fb (sink t)))\<lparr>cap_rekeys := 0\<rparr>\<rparr>\<rparr>"
  have u: "cap_feed_byte (c XOR k) t = u"
    using cap_feed_byte_run [OF Cons.prems(1-5) k f(1)] by (simp add: u_def)
  obtain r' where IH: "cap_feed (server_cipher cs f ((rc4_update_key ^^ ?n) r1)) u =
     u\<lparr>rc4_encrypter := map_option (rc4_update_key ^^ key_changes (new_events f e)) (rc4_encrypter u), rc4_decrypter := Some r',
       sink := (sink u)\<lparr>cs_raw := cs_raw (sink u) @ cs, cs_decoder := e,
         cs_fb := (fold cap_event (new_events f e) (cs_fb (sink u)))\<lparr>cap_rekeys := 0\<rparr>\<rparr>\<rparr>"
    using Cons.IH [of u "(rc4_update_key ^^ ?n) r1" f] Cons.prems f(2) by (auto simp: u_def)
  have "cap_feed (server_cipher (c # cs) d r) t = cap_feed (server_cipher cs f ((rc4_update_key ^^ ?n) r1)) u"
    using k f(1) u by (simp add: cap_feed_def)
  then show ?case
    unfolding IH new_events_step [OF f]
    by (intro exI [of _ r'])
      (simp add: u_def cap_events_cleared key_changes_append funpow_add option.map_comp o_def)
qed

section \<open>Properties\<close>

text \<open>C13: a capture is a faithful recording: of a stream that the server enciphers under the session key, changing the key wherever the stream itself says so, the capturing session records exactly the plaintext, follows every key change in both directions, and ends with the picture of the stream; and replaying the recorded file offline exits with 0, with the same picture, the same number of pasted blocks and all key changes counted.\<close>

theorem capture_replays:
  assumes "process_stream plain dvc_decoder_init = Inr d"
  shows "let t = cap_feed ([0x1B, 0x5B, 0x52] @ server_cipher plain dvc_decoder_init (rc4_seeded kb))
           (setup_encryption kc index (setup_decryption kb (cim_new net capture_new)));
         f = cs_fb (sink t)
    in cs_raw (sink t) = plain \<and>
       rc4_encrypter t = Some ((rc4_update_key ^^ key_changes (events d)) (rc4_seeded kc)) \<and>
       base_image f = fold fb_event (events d) fb_new \<and>
       (\<exists>rp. replay_main (Some (length plain, cs_raw (sink t))) = Some (0, Some rp) \<and> base_image (rp_stats rp) = base_image f \<and>
          sd_pastes (rp_stats rp) = cap_pastes f \<and> sd_rekeys (rp_stats rp) = int (key_changes (events d)))"
proof -
  let ?t0 = "setup_encryption kc index (setup_decryption kb (cim_new net capture_new))"
  let ?t1 = "set_status 1 ''DVC Mode (RC4-128 bit)'' (?t0\<lparr>esc_state := 2, dvc_mode := True, dvc_encryption := True\<rparr>)"
  note es = new_events_init [OF assms]
  have t1: "cap_feed [0x1B, 0x5B, 0x52] ?t0 = ?t1"
    by (simp add: cap_feed_def cap_feed_byte_def feed_byte_def set_status_def Let_def setup_encryption_def setup_decryption_def
        cim_new_def capture_new_def)
  have f: "dvc_mode ?t1" "dvc_encryption ?t1" "rc4_decrypter ?t1 = Some (rc4_seeded kb)" "sink ?t1 = capture_new"
    "rc4_encrypter ?t1 = Some (rc4_seeded kc)"
    by (simp_all add: set_status_def setup_encryption_def setup_decryption_def cim_new_def)
  have c: "cs_decoder (sink ?t1) = dvc_decoder_init" "cap_rekeys (cs_fb (sink ?t1)) = 0"
    unfolding f by (simp_all add: capture_new_def)
  obtain t where t: "cap_feed ([0x1B, 0x5B, 0x52] @ server_cipher plain dvc_decoder_init (rc4_seeded kb)) ?t0 = t"
    and e: "rc4_encrypter t = Some ((rc4_update_key ^^ key_changes (events d)) (rc4_seeded kc))"
    and s: "sink t = capture_new\<lparr>cs_raw := plain, cs_decoder := d,
      cs_fb := (fold cap_event (events d) (cs_fb capture_new))\<lparr>cap_rekeys := 0\<rparr>\<rparr>"
    using cap_feed_cipher [OF f(1-3) c assms] t1 unfolding f es cap_feed_def fold_append o_def
    by (auto simp: capture_new_def)
  have b: "base_image (g\<lparr>cap_rekeys := 0\<rparr>) = base_image g" for g by (simp add: base_image_def)
  have n: "base_image (cs_fb capture_new) = fb_new" "base_image stat_new = fb_new"
    by (simp_all add: base_image_def capture_new_def stat_new_def fb_new_def)
  have "replay_main (Some (length plain, plain)) = Some (0, Some (replay_report_of (fold stat_event (events d) stat_new)))"
    by (simp add: replay_main_def replay_bytes_stream [OF assms] es)
  then show ?thesis
    unfolding t Let_def s using e cap.image_after stat.image_after n
    by (simp add: b replay_report_of_def stat_counts cap_counts) (simp add: stat_new_def capture_new_def)
qed

lemma capture_replays_witness:
  "let t = cap_feed ([0x1B, 0x5B, 0x52] @ server_cipher [0x1D, 0x12] dvc_decoder_init (rc4_seeded [1, 2, 3]))
       (setup_encryption [4, 5] 7 (setup_decryption [1, 2, 3] (cim_new () capture_new)))
   in cs_raw (sink t) = [0x1D, 0x12] \<and> rc4_encrypter t = Some (rc4_update_key (rc4_seeded [4, 5]))"
proof -
  obtain d where d: "process_stream [0x1D, 0x12] dvc_decoder_init = Inr d" "events d = [ChangeKey]"
    using rekey_command by (auto split: sum.splits)
  from capture_replays [OF d(1), of "[1, 2, 3]" "[4, 5]" 7 "()"] d(2) show ?thesis
    by (simp add: Let_def key_changes_def)
qed

end
