(* ===== verification/Client_Twins.thy ===== *)
theory Client_Twins
  imports Client_Stream
begin

text \<open>
  One client over two transports. \<open>twin_streams\<close> takes two transports that fulfil \<open>byte_stream\<close>, of any
  kind. Two clients are twins when they agree in everything but the socket and in how much of the stream
  they hold already; an action on one is coupled with an action on the other when they come to the same
  reply and leave twins. Every action of the client is coupled with itself over the other transport, so
  nothing depends on how a transport cuts the stream, nor on which transport it is.
\<close>

section \<open>Twins\<close>

locale twin_streams = one: byte_stream TP inv pending sent + two: byte_stream UP inv' pending' sent'
  for TP :: "'t transport" and inv pending sent and UP :: "'u transport" and inv' pending' sent'
begin

definition twin :: "('t, 'r) client \<Rightarrow> ('u, 'r) client \<Rightarrow> bool" where
  "twin c d \<longleftrightarrow> inv (sock c) \<and> inv' (sock d) \<and> one.stream c = two.stream d \<and> sent (sock c) = sent' (sock d) \<and>
     opt_version d = opt_version c \<and> opt_timeout_ms d = opt_timeout_ms c \<and> opt_gmt d = opt_gmt c \<and> rand d = rand c \<and>
     rec_layer d = rec_layer c \<and> tr d = tr c \<and> hs d = hs c \<and> peer_key d = peer_key c \<and> server_cert d = server_cert c \<and>
     suite d = suite c \<and> connected d = connected c \<and> eof d = eof c"

definition coupled :: "('a, 't, 'r) action \<Rightarrow> ('a, 'u, 'r) action \<Rightarrow> bool" where
  "coupled m n \<longleftrightarrow> (\<forall>c d. twin c d \<longrightarrow> fst (m c) = fst (n d) \<and> twin (snd (m c)) (snd (n d)))"

lemma coupledI: "(\<And>c d. twin c d \<Longrightarrow> fst (m c) = fst (n d) \<and> twin (snd (m c)) (snd (n d))) \<Longrightarrow> coupled m n"
  by (simp add: coupled_def)

lemma coupledD: "coupled m n \<Longrightarrow> twin c d \<Longrightarrow> fst (m c) = fst (n d) \<and> twin (snd (m c)) (snd (n d))"
  by (simp add: coupled_def)

lemma coupledE:
  assumes "coupled m n" and "twin c d"
  obtains r c' d' where "m c = (r, c')" "n d = (r, d')" "twin c' d'"
  using coupledD [OF assms] by (metis prod.collapse)

lemma twin_fields:
  assumes "twin c d"
  shows "opt_version d = opt_version c" "opt_timeout_ms d = opt_timeout_ms c" "opt_gmt d = opt_gmt c" "rand d = rand c"
    "rec_layer d = rec_layer c" "tr d = tr c" "hs d = hs c" "peer_key d = peer_key c" "server_cert d = server_cert c"
    "suite d = suite c" "connected d = connected c" "eof d = eof c" "inv (sock c)" "inv' (sock d)" "two.stream d = one.stream c"
    "sent' (sock d) = sent (sock c)"
  using assms by (auto simp: twin_def)

text \<open>Updates of the other fields, the same on both sides.\<close>

lemma twin_updates:
  assumes "twin c d"
  shows "twin (c\<lparr>rand := r\<rparr>) (d\<lparr>rand := r\<rparr>)" "twin (c\<lparr>rec_layer := l\<rparr>) (d\<lparr>rec_layer := l\<rparr>)"
    "twin (c\<lparr>tr := h\<rparr>) (d\<lparr>tr := h\<rparr>)" "twin (c\<lparr>hs := bs\<rparr>) (d\<lparr>hs := bs\<rparr>)" "twin (c\<lparr>peer_key := k\<rparr>) (d\<lparr>peer_key := k\<rparr>)"
    "twin (c\<lparr>server_cert := bs\<rparr>) (d\<lparr>server_cert := bs\<rparr>)" "twin (c\<lparr>suite := v\<rparr>) (d\<lparr>suite := v\<rparr>)"
    "twin (c\<lparr>connected := b\<rparr>) (d\<lparr>connected := b\<rparr>)" "twin (c\<lparr>eof := b\<rparr>) (d\<lparr>eof := b\<rparr>)"
  using assms by (simp_all add: twin_def one.stream_def two.stream_def)

section \<open>Combinators\<close>

named_theorems coupled_intros \<open>actions that depend on the stream only\<close>

lemma coupled_returns [coupled_intros]: "coupled (returns x) (returns x)"
  by (simp add: coupled_def returns_def)

lemma coupled_fails [coupled_intros]: "coupled (fails e) (fails e)"
  by (simp add: coupled_def fails_def)

lemma coupled_stuck [coupled_intros]: "coupled (\<lambda>c. (Stuck, c)) (\<lambda>c. (Stuck, c))"
  by (simp add: coupled_def)

lemma coupled_andthen [coupled_intros]:
  fixes m :: "('a, 't, 'r) action"
  assumes m: "coupled m n" and f: "\<And>x. coupled (f x) (g x)"
  shows "coupled (andthen m f) (andthen n g)"
proof (rule coupledI)
  fix c :: "('t, 'r) client" and d
  assume s: "twin c d"
  obtain r c' d' where r: "m c = (r, c')" "n d = (r, d')" "twin c' d'" by (rule coupledE [OF m s])
  then show "fst (andthen m f c) = fst (andthen n g d) \<and> twin (snd (andthen m f c)) (snd (andthen n g d))"
    using coupledD [OF f r(3)] by (cases r) (simp_all add: andthen_def)
qed

lemma coupled_if [coupled_intros]: "coupled m n \<Longrightarrow> coupled m' n' \<Longrightarrow> coupled (if b then m else m') (if b then n else n')"
  by simp

lemma coupled_update: "(\<And>c d. twin c d \<Longrightarrow> twin (f c) (g d)) \<Longrightarrow> coupled (updates f) (updates g)"
  by (simp add: coupled_def updates_def)

text \<open>An action that first looks at the fields twins share.\<close>

lemma coupled_look:
  "(\<And>c d. twin c d \<Longrightarrow> coupled (F c) (G d)) \<Longrightarrow> coupled (\<lambda>c. F c c) (\<lambda>d. G d d)"
  by (rule coupledI) (metis coupledD)

lemma coupled_absorb [coupled_intros]: "coupled (absorb msg) (absorb msg)"
  unfolding absorb_def by (rule coupled_update) (simp add: twin_fields(6) twin_updates)

lemma coupled_handle_alert [coupled_intros]: "coupled (handle_alert b) (handle_alert b)"
  by (rule coupledI) (simp add: handle_alert_def twin_updates split: option.split)

lemma coupled_draws [coupled_intros]: "coupled (draws f) (draws f)"
  by (rule coupledI) (auto simp: draws_def twin_fields(4) twin_updates split: option.split prod.split)

lemma coupled_check_server_hello [coupled_intros]: "coupled (check_server_hello sh) (check_server_hello sh)"
  by (rule coupledI) (simp add: check_server_hello_def twin_fields(1) twin_updates)

section \<open>Records\<close>

lemma coupled_read_record [coupled_intros]:
  "coupled (read_record TP :: (record_header \<times> bytes, 't, 'r) action) (read_record UP)"
proof (rule coupledI)
  fix c :: "('t, 'r) client" and d
  assume s: "twin c d"
  note f = twin_fields [OF s]
  obtain rep rest r e where o: "record_of (one.stream c) (rec_layer c) = (rep, rest, r, e)"
    by (cases "record_of (one.stream c) (rec_layer c)")
  obtain s1 x1 s2 x2 where
    "inv s1" "sent s1 = sent (sock c)" "x1 @ pending s1 = rest"
    "read_record TP c = (rep, c\<lparr>sock := s1, rx := x1, rec_layer := r, eof := eof c \<or> e\<rparr>)"
    "inv' s2" "sent' s2 = sent' (sock d)" "x2 @ pending' s2 = rest"
    "read_record UP d = (rep, d\<lparr>sock := s2, rx := x2, rec_layer := r, eof := eof d \<or> e\<rparr>)"
    using one.read_record_result [OF f(13)] two.read_record_result [OF f(14)] o f(5,15) by auto
  then show "fst (read_record TP c) = fst (read_record UP d) \<and> twin (snd (read_record TP c)) (snd (read_record UP d))"
    using s f(16) by (simp add: twin_def one.stream_def two.stream_def)
qed

lemma coupled_send_record [coupled_intros]:
  "coupled (send_record TP type data :: (unit, 't, 'r) action) (send_record UP type data)"
proof (rule coupledI)
  fix c :: "('t, 'r) client" and d
  assume s: "twin c d"
  note f = twin_fields [OF s]
  obtain out r where p: "protect MD5_ops type data (rec_layer c) = (out, r)" by fastforce
  show "fst (send_record TP type data c) = fst (send_record UP type data d) \<and>
      twin (snd (send_record TP type data c)) (snd (send_record UP type data d))"
  proof (cases out)
    case None
    with p f(5) show ?thesis by (simp add: send_record_def twin_updates [OF s])
  next
    case (Some bs)
    obtain s1 s2 where "tp_send TP bs (sock c) = (True, s1)" "inv s1" "pending s1 = pending (sock c)" "sent s1 = sent (sock c) @ bs"
      "tp_send UP bs (sock d) = (True, s2)" "inv' s2" "pending' s2 = pending' (sock d)" "sent' s2 = sent' (sock d) @ bs"
      using one.send_law [OF f(13), of bs] two.send_law [OF f(14), of bs] by blast
    with p Some s show ?thesis
      by (simp add: send_record_def twin_def one.stream_def two.stream_def)
  qed
qed

section \<open>Messages\<close>

lemma coupled_next_handshake [coupled_intros]:
  "coupled (next_handshake TP fuel :: (bytes \<times> handshake_message, 't, 'r) action) (next_handshake UP fuel)"
proof (induction fuel)
  have taken: "fst (next_handshake TP fuel c) = fst (next_handshake UP fuel d) \<and>
      twin (snd (next_handshake TP fuel c)) (snd (next_handshake UP fuel d))"
    if "twin c d" "parse_handshake (hs c) = Some m" for fuel m and c :: "('t, 'r) client" and d
    using that twin_fields(7) [OF that(1)] twin_updates(4) [OF that(1)]
    by (simp add: next_handshake.simps [of TP fuel c] next_handshake.simps [of UP fuel d] Let_def split: option.split)
  {
    case 0
    show ?case
    proof (rule coupledI)
      fix c :: "('t, 'r) client" and d
      assume s: "twin c d"
      show "fst (next_handshake TP 0 c) = fst (next_handshake UP 0 d) \<and>
          twin (snd (next_handshake TP 0 c)) (snd (next_handshake UP 0 d))"
      proof (cases "parse_handshake (hs c)")
        case None
        with s twin_fields(7) [OF s] show ?thesis
          by (simp add: next_handshake.simps [of TP 0 c] next_handshake.simps [of UP 0 d])
      qed (use taken [OF s] in blast)
    qed
  next
    case (Suc fuel)
    let ?read = "andthen (read_record TP) (\<lambda>(h, pt).
        if rh_type h = CT_ALERT then andthen (handle_alert pt) (\<lambda>_. next_handshake TP fuel)
        else if rh_type h \<noteq> CT_HANDSHAKE
        then fails (''expected a handshake record, got content type '' @ to_string (uint (rh_type h)))
        else andthen (updates (\<lambda>c. c\<lparr>hs := hs c @ pt\<rparr>)) (\<lambda>_. next_handshake TP fuel))"
    let ?readu = "andthen (read_record UP) (\<lambda>(h, pt).
        if rh_type h = CT_ALERT then andthen (handle_alert pt) (\<lambda>_. next_handshake UP fuel)
        else if rh_type h \<noteq> CT_HANDSHAKE
        then fails (''expected a handshake record, got content type '' @ to_string (uint (rh_type h)))
        else andthen (updates (\<lambda>c. c\<lparr>hs := hs c @ pt\<rparr>)) (\<lambda>_. next_handshake UP fuel))"
    have more_bytes: "coupled (updates (\<lambda>c. c\<lparr>hs := hs c @ pt\<rparr>)) (updates (\<lambda>c. c\<lparr>hs := hs c @ pt\<rparr>))" for pt
      by (rule coupled_update) (simp add: twin_fields(7) twin_updates)
    have read: "coupled (?read :: (bytes \<times> handshake_message, 't, 'r) action) ?readu"
      using Suc by (auto intro!: coupled_intros more_bytes split: prod.splits)
    show ?case
    proof (rule coupledI)
      fix c :: "('t, 'r) client" and d
      assume s: "twin c d"
      show "fst (next_handshake TP (Suc fuel) c) = fst (next_handshake UP (Suc fuel) d) \<and>
          twin (snd (next_handshake TP (Suc fuel) c)) (snd (next_handshake UP (Suc fuel) d))"
      proof (cases "parse_handshake (hs c)")
        case None
        then have "next_handshake TP (Suc fuel) c = ?read c" "next_handshake UP (Suc fuel) d = ?readu d"
          using twin_fields(7) [OF s]
          by (simp_all add: next_handshake.simps [of TP "Suc fuel" c] next_handshake.simps [of UP "Suc fuel" d])
        with coupledD [OF read s] show ?thesis by simp
      qed (use taken [OF s] in blast)
    qed
  }
qed

lemma coupled_await [coupled_intros]: "coupled (await_change_cipher_spec TP fuel) (await_change_cipher_spec UP fuel)"
proof (induction fuel)
  case (Suc fuel)
  have step: "await_change_cipher_spec TP (Suc fuel) = andthen (read_record TP) (\<lambda>(h, pt).
       if rh_type h = CT_ALERT then andthen (handle_alert pt) (\<lambda>_. await_change_cipher_spec TP fuel)
       else if rh_type h \<noteq> CT_CHANGE_CIPHER_SPEC
       then fails (''expected ChangeCipherSpec, got content type '' @ to_string (uint (rh_type h)))
       else if length pt \<noteq> 1 \<or> pt ! 0 \<noteq> 0x01 then fails ''malformed ChangeCipherSpec''
       else returns ())" for TP :: "'z transport"
    by (rule ext) simp
  from Suc show ?case unfolding step by (auto intro!: coupled_intros split: prod.splits)
qed (simp add: coupled_def)

lemma coupled_expect_ccs [coupled_intros]: "coupled (expect_change_cipher_spec TP fuel) (expect_change_cipher_spec UP fuel)"
proof (rule coupledI)
  fix c :: "('t, 'r) client" and d
  assume s: "twin c d"
  with coupledD [OF coupled_await s, of fuel] twin_fields(7) [OF s]
  show "fst (expect_change_cipher_spec TP fuel c) = fst (expect_change_cipher_spec UP fuel d) \<and>
      twin (snd (expect_change_cipher_spec TP fuel c)) (snd (expect_change_cipher_spec UP fuel d))"
    by (simp add: expect_change_cipher_spec_def)
qed

lemma coupled_expect_message [coupled_intros]: "coupled (expect_message TP fuel type name) (expect_message UP fuel type name)"
  by (auto simp: expect_message_def intro!: coupled_intros split: prod.splits)

lemma coupled_receive_server_hello [coupled_intros]: "coupled (receive_server_hello TP fuel) (receive_server_hello UP fuel)"
  by (auto simp: receive_server_hello_def intro!: coupled_intros split: prod.splits option.splits)

lemma coupled_receive_certificate [coupled_intros]: "coupled (receive_certificate TP fuel) (receive_certificate UP fuel)"
proof -
  have "coupled (\<lambda>c. case parse_certificate_list b of
         None \<Rightarrow> (Error ''malformed Certificate message'', c)
       | Some certs \<Rightarrow>
           let c = c\<lparr>server_cert := certs ! 0\<rparr>
           in case parse_certificate_rsa_key (certs ! 0) of
                Inr key \<Rightarrow> (Got (), c\<lparr>peer_key := key\<rparr>)
              | Inl Rejected \<Rightarrow> (Error ''no usable RSA public key in the server certificate'', c)
              | Inl Out_of_bounds \<Rightarrow> (Crash, c))
      (\<lambda>c. case parse_certificate_list b of
         None \<Rightarrow> (Error ''malformed Certificate message'', c)
       | Some certs \<Rightarrow>
           let c = c\<lparr>server_cert := certs ! 0\<rparr>
           in case parse_certificate_rsa_key (certs ! 0) of
                Inr key \<Rightarrow> (Got (), c\<lparr>peer_key := key\<rparr>)
              | Inl Rejected \<Rightarrow> (Error ''no usable RSA public key in the server certificate'', c)
              | Inl Out_of_bounds \<Rightarrow> (Crash, c))" for b
    by (rule coupledI) (auto simp: Let_def twin_updates split: option.split sum.split fault.split)
  then show ?thesis
    unfolding receive_certificate_def by (auto intro!: coupled_intros split: prod.splits)
qed

lemma coupled_until_hello_done [coupled_intros]: "coupled (until_hello_done TP fuel n req) (until_hello_done UP fuel n req)"
  by (induction n arbitrary: req) (auto intro!: coupled_intros split: prod.splits)

section \<open>The handshake\<close>

lemma coupled_send_key_exchange [coupled_intros]:
  fixes rng :: "'r rng"
  shows "coupled (send_key_exchange TP rng fuel req) (send_key_exchange UP rng fuel req)"
proof -
  let ?then = "\<lambda>premaster c. case build_client_key_exchange rng fuel (peer_key c) premaster (rand c) of
           (Failed, r) \<Rightarrow> (Error ''RSA encryption of the premaster failed'', c\<lparr>rand := r\<rparr>)
         | (Out_of_fuel, r) \<Rightarrow> (Stuck, c\<lparr>rand := r\<rparr>)
         | (Drawn cke, r) \<Rightarrow>
             andthen (absorb cke) (\<lambda>_. andthen (send_record TP CT_HANDSHAKE cke) (\<lambda>_. returns premaster)) (c\<lparr>rand := r\<rparr>)"
  let ?thenu = "\<lambda>premaster c. case build_client_key_exchange rng fuel (peer_key c) premaster (rand c) of
           (Failed, r) \<Rightarrow> (Error ''RSA encryption of the premaster failed'', c\<lparr>rand := r\<rparr>)
         | (Out_of_fuel, r) \<Rightarrow> (Stuck, c\<lparr>rand := r\<rparr>)
         | (Drawn cke, r) \<Rightarrow>
             andthen (absorb cke) (\<lambda>_. andthen (send_record UP CT_HANDSHAKE cke) (\<lambda>_. returns premaster)) (c\<lparr>rand := r\<rparr>)"
  have use: "coupled (?then premaster) (?thenu premaster)" for premaster
  proof (rule coupledI)
    fix c :: "('t, 'r) client" and d
    assume s: "twin c d"
    obtain out r where b: "build_client_key_exchange rng fuel (peer_key c) premaster (rand c) = (out, r)" by fastforce
    have u: "coupled (andthen (absorb cke) (\<lambda>_. andthen (send_record TP CT_HANDSHAKE cke) (\<lambda>_. returns premaster)))
        (andthen (absorb cke) (\<lambda>_. andthen (send_record UP CT_HANDSHAKE cke) (\<lambda>_. returns premaster)))" for cke
      by (intro coupled_intros)
    show "fst (?then premaster c) = fst (?thenu premaster d) \<and>
        twin (snd (?then premaster c)) (snd (?thenu premaster d))"
      using b coupledD [OF u twin_updates(1) [OF s]] twin_updates(1) [OF s] twin_fields(4,8) [OF s] by (cases out) simp_all
  qed
  have "coupled (\<lambda>c. andthen (draws (make_premaster rng (opt_version c))) (?then) c)
      (\<lambda>d. andthen (draws (make_premaster rng (opt_version d))) ?thenu d)"
    by (rule coupled_look) (simp add: twin_fields(1) coupled_andthen coupled_draws use)
  then show ?thesis
    unfolding send_key_exchange_def
    by (intro coupled_andthen coupled_if coupled_absorb coupled_send_record coupled_returns)
qed

lemma coupled_send_finished [coupled_intros]:
  "coupled (send_finished TP master km :: (unit, 't, 'r) action) (send_finished UP master km)"
proof -
  have u: "coupled (andthen (absorb fin) (\<lambda>_. send_record TP CT_HANDSHAKE fin) :: (unit, 't, 'r) action)
      (andthen (absorb fin) (\<lambda>_. send_record UP CT_HANDSHAKE fin))" for fin
    by (intro coupled_intros)
  have "coupled (\<lambda>c :: ('t, 'r) client. case build_finished master ''client finished'' (tr c) of
         None \<Rightarrow> (Stuck, c)
       | Some client_fin \<Rightarrow> andthen (absorb client_fin) (\<lambda>_. send_record TP CT_HANDSHAKE client_fin) c)
      (\<lambda>c. case build_finished master ''client finished'' (tr c) of
         None \<Rightarrow> (Stuck, c)
       | Some client_fin \<Rightarrow> andthen (absorb client_fin) (\<lambda>_. send_record UP CT_HANDSHAKE client_fin) c)"
    by (rule coupledI) (simp add: twin_fields(6) coupledD [OF u] split: option.split)
  then show ?thesis
    unfolding send_finished_def
    by (intro coupled_andthen coupled_send_record coupled_update) (simp_all add: twin_fields(5) twin_updates)
qed

lemma coupled_receive_finished [coupled_intros]: 
  "coupled (receive_finished TP fuel master km :: (unit, 't, 'r) action) (receive_finished UP fuel master km)"
proof -
  have u: "coupled (andthen (absorb msg) (\<lambda>_. updates (\<lambda>c. c\<lparr>connected := True\<rparr>)) :: (unit, 't, 'r) action)
      (andthen (absorb msg) (\<lambda>_. updates (\<lambda>c. c\<lparr>connected := True\<rparr>)))" for msg
    by (intro coupled_andthen coupled_absorb coupled_update) (rule twin_updates)
  have "coupled (\<lambda>c :: ('t, 'r) client. case check_finished master ''server finished'' (tr c) b of
         None \<Rightarrow> (Stuck, c)
       | Some False \<Rightarrow> (Error (''the server'' @ [CHR 0x27] @ ''s Finished did not verify''), c)
       | Some True \<Rightarrow> andthen (absorb msg) (\<lambda>_. updates (\<lambda>c. c\<lparr>connected := True\<rparr>)) c)
      (\<lambda>c. case check_finished master ''server finished'' (tr c) b of
         None \<Rightarrow> (Stuck, c)
       | Some False \<Rightarrow> (Error (''the server'' @ [CHR 0x27] @ ''s Finished did not verify''), c)
       | Some True \<Rightarrow> andthen (absorb msg) (\<lambda>_. updates (\<lambda>c. c\<lparr>connected := True\<rparr>)) c)" for msg b
    by (rule coupledI) (simp add: twin_fields(6) coupledD [OF u] split: option.split bool.split)
  then show ?thesis
    unfolding receive_finished_def
    by (intro coupled_andthen coupled_expect_ccs coupled_update coupled_expect_message)
      (simp_all add: twin_fields(5) twin_updates split: prod.split)
qed

lemma coupled_send_client_hello [coupled_intros]:
  fixes rng :: "'r rng"
  shows "coupled (send_client_hello TP rng) (send_client_hello UP rng)"
proof -
  have "coupled (\<lambda>c. send_client_hello TP rng c) (\<lambda>d. send_client_hello UP rng d)"
    unfolding send_client_hello_def
    by (rule coupled_look) (auto simp: twin_fields(1,3) Let_def intro!: coupled_intros)
  then show ?thesis .
qed

lemma coupled_handshake [coupled_intros]:
  fixes rng :: "'r rng"
  shows "coupled (client_handshake TP rng fuel) (client_handshake UP rng fuel)"
  unfolding client_handshake_def
  by (intro coupled_andthen coupled_send_client_hello coupled_receive_server_hello coupled_receive_certificate
      coupled_until_hello_done coupled_send_key_exchange)
    (auto intro!: coupled_andthen coupled_stuck coupled_send_finished coupled_receive_finished split: option.split)

section \<open>Application data\<close>

lemma coupled_client_send [coupled_intros]: "coupled (client_send TP data) (client_send UP data)"
proof (induction data rule: length_induct)
  case (1 data)
  have "length (drop MAX_PLAINTEXT data) < length data" "length (drop (length data) data) < length data" if "data \<noteq> []"
    using that by (simp_all add: MAX_PLAINTEXT_def)
  with 1 show ?case
    by (subst (1 2) client_send.simps) (auto simp: Let_def intro!: coupled_intros)
qed

lemma coupled_client_recv [coupled_intros]:
  "coupled (client_recv TP fuel :: (bytes + bool \<times> string, 't, 'r) action) (client_recv UP fuel)"
proof (induction fuel)
  case (Suc fuel)
  show ?case
  proof (rule coupledI)
    fix c :: "('t, 'r) client" and d
    assume s: "twin c d"
    obtain rep c1 d1 where r: "read_record TP c = (rep, c1)" "read_record UP d = (rep, d1)" "twin c1 d1"
      by (rule coupledE [OF coupled_read_record s])
    note e1 = twin_fields(12) [OF r(3)]
    show "fst (client_recv TP (Suc fuel) c) = fst (client_recv UP (Suc fuel) d) \<and>
        twin (snd (client_recv TP (Suc fuel) c)) (snd (client_recv UP (Suc fuel) d))"
    proof (cases rep)
      case (Got p)
      obtain h pt where p: "p = (h, pt)" by fastforce
      obtain rep2 c2 d2 where a: "handle_alert pt c1 = (rep2, c2)" "handle_alert pt d1 = (rep2, d2)" "twin c2 d2"
        by (rule coupledE [OF coupled_handle_alert r(3)])
      show ?thesis
        using r a Got p coupledD [OF Suc.IH a(3)] twin_fields(12) [OF a(3)] by (cases rep2) simp_all
    qed (use r e1 in simp_all)
  qed
qed (simp add: coupled_def)

end

section \<open>The mock transport with itself\<close>

interpretation mocks: twin_streams mock_transport mock_open mock_pending from_client mock_transport mock_open mock_pending from_client
  by unfold_locales

text \<open>C7: handshake, a request and the next record of the reply depend on the bytes the server sends only, not on how the transport cuts them: for any two positive chunk sizes, down to a byte at a time, the outcome, the bytes written and every other field of the client are the same, on all error paths too.\<close>

theorem chunking_irrelevant:
  assumes "0 < k" and "0 < l"
  shows "let session = andthen (client_handshake mock_transport rng fuel) (\<lambda>_.
        andthen (client_send mock_transport request) (\<lambda>_. client_recv mock_transport fuel));
      (r1, c1) = session (scripted_client script k v gmt r);
      (r2, c2) = session (scripted_client script l v gmt r)
    in r1 = r2 \<and> from_client (sock c1) = from_client (sock c2) \<and> (\<exists>s x. c2 = c1\<lparr>sock := s, rx := x\<rparr>)"
proof -
  let ?session = "andthen (client_handshake mock_transport rng fuel) (\<lambda>_.
        andthen (client_send mock_transport request) (\<lambda>_. client_recv mock_transport fuel))"
  have session: "mocks.coupled ?session ?session" by (intro mocks.coupled_intros)
  have start: "mocks.twin (scripted_client script k v gmt r) (scripted_client script l v gmt r)"
    using assms by (simp add: mocks.twin_def mock.stream_def scripted_client_def client_new_def mock_server_def mock_open_def mock_pending_def)
  obtain res c1 c2 where run: "?session (scripted_client script k v gmt r) = (res, c1)" "?session (scripted_client script l v gmt r) = (res, c2)"
    and t: "mocks.twin c1 c2" by (rule mocks.coupledE [OF session start])
  from t have "from_client (sock c1) = from_client (sock c2)" "c2 = c1\<lparr>sock := sock c2, rx := rx c2\<rparr>"
    by (simp_all add: mocks.twin_def)
  with run show ?thesis by (auto simp: Let_def)
qed

lemma chunking_irrelevant_witness:
  "fst (andthen (client_handshake mock_transport counting_rng 9) (\<lambda>_.
        andthen (client_send mock_transport [71]) (\<lambda>_. client_recv mock_transport 9))
      (scripted_client [21, 3, 1, 0, 2, 2, 40] 1 0x0301 0 0)) =
   fst (andthen (client_handshake mock_transport counting_rng 9) (\<lambda>_.
        andthen (client_send mock_transport [71]) (\<lambda>_. client_recv mock_transport 9))
      (scripted_client [21, 3, 1, 0, 2, 2, 40] 4096 0x0301 0 0))"
  using chunking_irrelevant [of 1 4096 counting_rng 9 "[71]" "[21, 3, 1, 0, 2, 2, 40]" "0x0301" 0 0]
  by (auto simp: Let_def split: prod.splits)

end
