(* ===== verification/Tls_Sessions.thy ===== *)
theory Tls_Sessions
  imports Client_Twins Ribcl
begin

text \<open>
  Whole connections over two transports: \<open>twin_sessions\<close> adds to \<open>twin_streams\<close> what a connection needs besides
  the stream: a socket in use is valid, the receive timeout does not touch the stream, and closing does
  not change what was written. Shown inside: a RIBCL command and an HTTPS request come to the same result,
  draw the same random bytes and write the same bytes over both.
\<close>

locale twin_sessions = twin_streams TP inv pending sent UP inv' pending' sent'
  for TP :: "'t transport" and inv pending sent and UP :: "'u transport" and inv' pending' sent' +
  fixes patience :: "int \<Rightarrow> 't \<Rightarrow> 't"
    and patience' :: "int \<Rightarrow> 'u \<Rightarrow> 'u"
  assumes patience_law: "inv s \<Longrightarrow> inv (patience ms s) \<and> pending (patience ms s) = pending s \<and> sent (patience ms s) = sent s"
    and patience_law': "inv' t \<Longrightarrow> inv' (patience' ms t) \<and> pending' (patience' ms t) = pending' t \<and> sent' (patience' ms t) = sent' t"
    and valid_law: "inv s \<Longrightarrow> tp_valid TP s"
    and valid_law': "inv' t \<Longrightarrow> tp_valid UP t"
    and close_law: "inv s \<Longrightarrow> sent (tp_close TP s) = sent s"
    and close_law': "inv' t \<Longrightarrow> sent' (tp_close UP t) = sent' t"
begin

section \<open>Opening and closing\<close>

text \<open>Both connect, to the same stream.\<close>

definition opens :: "string \<Rightarrow> u16 \<Rightarrow> int \<Rightarrow> 't \<Rightarrow> 'u \<Rightarrow> bool" where
  "opens host port timeout s t \<longleftrightarrow> (\<exists>s' t'. tp_connect TP host port timeout s = (None, s') \<and> tp_connect UP host port timeout t = (None, t') \<and>
     inv s' \<and> inv' t' \<and> pending s' = pending' t' \<and> sent s' = sent' t')"

text \<open>What is left to compare when the connection is over.\<close>

definition ended :: "('t, 'r) client \<Rightarrow> ('u, 'r) client \<Rightarrow> bool" where
  "ended c d \<longleftrightarrow> rand d = rand c \<and> sent' (sock d) = sent (sock c)"

lemma same_result: "fst x = fst y \<and> ended (snd x) (snd y) \<Longrightarrow> case x of (rep, c) \<Rightarrow> \<exists>d. y = (rep, d) \<and> ended c d"
  by (cases x; cases y) simp

definition leads :: "('a, 't, 'r) action \<Rightarrow> ('a, 'u, 'r) action \<Rightarrow> bool" where
  "leads m n \<longleftrightarrow> (\<forall>c d. twin c d \<longrightarrow> fst (m c) = fst (n d) \<and> ended (snd (m c)) (snd (n d)) \<and>
     ((\<exists>x. fst (m c) = Got x) \<longrightarrow> twin (snd (m c)) (snd (n d))))"

lemma ended_twin: "twin c d \<Longrightarrow> ended c d"
  by (simp add: ended_def twin_fields)

lemma leads_coupled: "coupled m n \<Longrightarrow> leads m n"
  by (simp add: leads_def coupled_def ended_twin)

lemma leadsD: "leads m n \<Longrightarrow> twin c d \<Longrightarrow> fst (m c) = fst (n d) \<and> ended (snd (m c)) (snd (n d))"
  by (simp add: leads_def)

lemma leads_andthen:
  fixes m :: "('a, 't, 'r) action"
  assumes m: "leads m n" and f: "\<And>x c d. twin c d \<Longrightarrow> fst (f x c) = fst (g x d) \<and> ended (snd (f x c)) (snd (g x d))"
    and s: "twin c d"
  shows "fst (andthen m f c) = fst (andthen n g d) \<and> ended (snd (andthen m f c)) (snd (andthen n g d))"
proof -
  obtain r c' d' where r: "m c = (r, c')" "n d = (r, d')" "ended c' d'" "\<And>x. r = Got x \<Longrightarrow> twin c' d'"
    using m s unfolding leads_def by (metis prod.collapse)
  then show ?thesis using f [of c' d'] by (cases r) (simp_all add: andthen_def)
qed

lemma leads_step:
  fixes m :: "('a, 't, 'r) action"
  assumes m: "coupled m n" and f: "\<And>x. leads (f x) (g x)"
  shows "leads (andthen m f) (andthen n g)"
  unfolding leads_def
proof (intro allI impI)
  fix c :: "('t, 'r) client" and d
  assume s: "twin c d"
  obtain r c' d' where r: "m c = (r, c')" "n d = (r, d')" "twin c' d'" by (rule coupledE [OF m s])
  then show "fst (andthen m f c) = fst (andthen n g d) \<and> ended (snd (andthen m f c)) (snd (andthen n g d)) \<and>
      ((\<exists>x. fst (andthen m f c) = Got x) \<longrightarrow> twin (snd (andthen m f c)) (snd (andthen n g d)))"
    using f r(3) unfolding leads_def by (cases r) (simp_all add: andthen_def ended_twin)
qed

lemma leads_if: "leads m n \<Longrightarrow> leads m' n' \<Longrightarrow> leads (if b then m else m') (if b then n else n')"
  by simp

lemma close_ended:
  assumes "twin c d"
  shows "ended (client_close TP c) (client_close UP d)"
proof -
  note f = twin_fields [OF assms]
  have alert: "twin (snd (send_record TP CT_ALERT [1, 0] c)) (snd (send_record UP CT_ALERT [1, 0] d))"
    using coupledD [OF coupled_send_record assms] by blast
  have shut: "ended (c\<lparr>sock := tp_close TP (sock c)\<rparr>) (d\<lparr>sock := tp_close UP (sock d)\<rparr>)" if "twin c d" for c :: "('t, 'r) client" and d
    using twin_fields [OF that] close_law close_law' by (simp add: ended_def)
  show ?thesis
    using shut [OF assms] shut [OF alert] valid_law [OF f(13)] valid_law' [OF f(14)] f(5)
    by (simp add: client_close_def Let_def)
qed

lemma leads_close: "leads (\<lambda>c. (Error e, client_close TP c)) (\<lambda>d. (Error e, client_close UP d))"
  by (simp add: leads_def close_ended)

lemma connect_coupled:
  assumes "opens host port timeout s t"
  obtains rep c d where "client_connect TP rng fuel host port (client_new v timeout gmt s r) = (rep, c)"
    "client_connect UP rng fuel host port (client_new v timeout gmt t r) = (rep, d)" "twin c d"
proof -
  from assms obtain s' t' where o: "tp_connect TP host port timeout s = (None, s')" "tp_connect UP host port timeout t = (None, t')"
    "inv s'" "inv' t'" "pending s' = pending' t'" "sent s' = sent' t'" by (auto simp: opens_def)
  have "twin ((client_new v timeout gmt s r)\<lparr>sock := s'\<rparr>) ((client_new v timeout gmt t r)\<lparr>sock := t'\<rparr>)"
    using o by (simp add: twin_def client_new_def one.stream_def two.stream_def)
  then obtain rep c d where "client_handshake TP rng fuel ((client_new v timeout gmt s r)\<lparr>sock := s'\<rparr>) = (rep, c)"
    "client_handshake UP rng fuel ((client_new v timeout gmt t r)\<lparr>sock := t'\<rparr>) = (rep, d)" "twin c d"
    by (rule coupledE [OF coupled_handshake])
  with o that show ?thesis by (simp add: client_connect_def client_new_def)
qed

section \<open>RIBCL\<close>

lemma peer_then_andthen: "peer_then (m c) f = andthen m f c"
  by (simp add: peer_then_def andthen_def)

lemma coupled_read_reply:
  "coupled (read_reply (client_peer TP fuel) complete n raw :: (string, 't, 'r) action) (read_reply (client_peer UP fuel) complete n raw)"
proof (induction n arbitrary: raw)
  case (Suc n)
  show ?case
  proof (rule coupledI)
    fix c :: "('t, 'r) client" and d
    assume s: "twin c d"
    obtain rep c1 d1 where r: "client_recv TP fuel c = (rep, c1)" "client_recv UP fuel d = (rep, d1)" "twin c1 d1"
      by (rule coupledE [OF coupled_client_recv s])
    show "fst (read_reply (client_peer TP fuel) complete (Suc n) raw c) = fst (read_reply (client_peer UP fuel) complete (Suc n) raw d) \<and>
        twin (snd (read_reply (client_peer TP fuel) complete (Suc n) raw c)) (snd (read_reply (client_peer UP fuel) complete (Suc n) raw d))"
      using r coupledD [OF Suc r(3)] by (auto simp: client_peer_def Let_def split: reply.split sum.split)
  qed
qed (simp add: coupled_def)

lemma coupled_exchange:
  "coupled (ribcl_exchange (client_peer TP fuel) n user pass b complete) (ribcl_exchange (client_peer UP fuel) n user pass b complete)"
proof -
  have x: "ribcl_exchange (client_peer TP fuel) n user pass b complete =
      andthen (client_send TP (ascii ribcl_prolog)) (\<lambda>_. andthen (client_send TP (ascii (ribcl_document user pass b))) (\<lambda>_.
        read_reply (client_peer TP fuel) complete n []))" for TP :: "'z transport"
    by (rule ext) (simp add: ribcl_exchange_def peer_then_andthen client_peer_def)
  show ?thesis unfolding x by (intro coupled_andthen coupled_client_send coupled_read_reply)
qed

theorem ribcl_run_twin:
  assumes "opens host port 8000 s t"
  shows "case ribcl_run TP patience rng fuel host port user pass cmd args (s, r) of (reply, s', r') \<Rightarrow>
    \<exists>t'. ribcl_run UP patience' rng fuel host port user pass cmd args (t, r) = (reply, t', r') \<and> sent' t' = sent s'"
proof -
  obtain rep c d where r: "client_connect TP rng fuel host port (client_new VERSION_TLS_1_0 8000 0 s r) = (rep, c)"
    "client_connect UP rng fuel host port (client_new VERSION_TLS_1_0 8000 0 t r) = (rep, d)" "twin c d"
    by (rule connect_coupled [OF assms])
  let ?ms = "if ribcl_wrapper cmd = ''RIB_INFO'' \<and> ribcl_is_write cmd then 5000 else 1000 :: int"
  have "twin (c\<lparr>sock := patience ?ms (sock c)\<rparr>) (d\<lparr>sock := patience' ?ms (sock d)\<rparr>)"
    using r(3) patience_law [of "sock c" ?ms] patience_law' [of "sock d" ?ms] by (simp add: twin_def one.stream_def two.stream_def)
  then obtain res c1 d1 where x: "ribcl_exchange (client_peer TP fuel) fuel user pass (ribcl_body cmd args) ribcl_reply_complete
      (c\<lparr>sock := patience ?ms (sock c)\<rparr>) = (res, c1)"
    "ribcl_exchange (client_peer UP fuel) fuel user pass (ribcl_body cmd args) ribcl_reply_complete
      (d\<lparr>sock := patience' ?ms (sock d)\<rparr>) = (res, d1)" "twin c1 d1"
    by (rule coupledE [OF coupled_exchange])
  show ?thesis
    using r(1,2) ended_twin [OF r(3)] x(1,2) close_ended [OF x(3)]
    by (cases rep) (auto simp: ribcl_run_def peer_then_def Let_def ended_def)
qed

section \<open>HTTPS\<close>

lemma leads_receive_response:
  "leads (receive_response TP fuel n raw fr :: (string, 't, 'r) action) (receive_response UP fuel n raw fr)"
proof (induction n arbitrary: raw fr)
  case 0
  show ?case by (simp add: leads_def ended_twin)
next
  case (Suc n)
  let ?fr = "find_framing raw fr"
  have next_piece: "leads (\<lambda>c :: ('t, 'r) client. case v of
           Inr (True, e) \<Rightarrow> (Got raw, c)
         | Inr (False, e) \<Rightarrow> (Error e, client_close TP c)
         | Inl piece \<Rightarrow>
             (let raw = raw @ chars piece
              in if length raw > 8 * 1024 * 1024 then (Error ''response too large'', client_close TP c)
                 else receive_response TP fuel n raw ?fr c))
      (\<lambda>c. case v of
           Inr (True, e) \<Rightarrow> (Got raw, c)
         | Inr (False, e) \<Rightarrow> (Error e, client_close UP c)
         | Inl piece \<Rightarrow>
             (let raw = raw @ chars piece
              in if length raw > 8 * 1024 * 1024 then (Error ''response too large'', client_close UP c)
                 else receive_response UP fuel n raw ?fr c))" for v
    using Suc [of _ ?fr] leads_close
    by (cases v) (auto simp: leads_def ended_twin close_ended Let_def split: bool.split)
  have step: "leads (andthen (client_recv TP fuel) f :: (string, 't, 'r) action) (andthen (client_recv UP fuel) g)" if "\<And>v. leads (f v) (g v)" for f g
    by (rule leads_step [OF coupled_client_recv that])
  show ?case
    using step [OF next_piece] by (simp add: leads_def Let_def ended_twin split: option.split bool.split)
qed

theorem https_get_twin:
  assumes "opens host port timeout s t"
  shows "case https_get TP rng fuel host port path cookie (client_new v timeout gmt s r) of (rep, c) \<Rightarrow>
    \<exists>d. https_get UP rng fuel host port path cookie (client_new v timeout gmt t r) = (rep, d) \<and> ended c d"
proof -
  obtain rep c d where r: "client_connect TP rng fuel host port (client_new v timeout gmt s r) = (rep, c)"
    "client_connect UP rng fuel host port (client_new v timeout gmt t r) = (rep, d)" "twin c d"
    by (rule connect_coupled [OF assms])
  obtain q c1 d1 where q: "client_send TP (ascii (request_text host path cookie)) c = (q, c1)"
    "client_send UP (ascii (request_text host path cookie)) d = (q, d1)" "twin c1 d1"
    by (rule coupledE [OF coupled_client_send r(3)])
  have "fst (case parse_response fuel raw of None \<Rightarrow> (Stuck, client_close TP c) | Some (Inl e) \<Rightarrow> (Error e, client_close TP c)
          | Some (Inr r) \<Rightarrow> (Got r, client_close TP c)) =
        fst (case parse_response fuel raw of None \<Rightarrow> (Stuck, client_close UP d) | Some (Inl e) \<Rightarrow> (Error e, client_close UP d)
          | Some (Inr r) \<Rightarrow> (Got r, client_close UP d)) \<and>
      ended (snd (case parse_response fuel raw of None \<Rightarrow> (Stuck, client_close TP c) | Some (Inl e) \<Rightarrow> (Error e, client_close TP c)
          | Some (Inr r) \<Rightarrow> (Got r, client_close TP c)))
        (snd (case parse_response fuel raw of None \<Rightarrow> (Stuck, client_close UP d) | Some (Inl e) \<Rightarrow> (Error e, client_close UP d)
          | Some (Inr r) \<Rightarrow> (Got r, client_close UP d)))" if "twin c d" for raw and c :: "('t, 'r) client" and d
    using close_ended [OF that] by (simp split: option.split sum.split)
  note response = leads_andthen [OF leads_receive_response this q(3)]
  then show ?thesis
    using r(1,2) ended_twin [OF r(3)] q(1,2) close_ended [OF q(3)] ended_twin [OF q(3)]
    by (cases rep; cases q) (simp_all add: https_get_def andthen_def [of "client_connect _ _ _ _ _"] Let_def same_result)
qed

end

end
