(* ===== verification/Tcp_Socket.thy ===== *)
theory Tcp_Socket
  imports Client_Stream "HOL-Library.Signed_Division"
begin

text \<open>
  \<open>tls/socket.hpp\<close>: the TCP socket of the TLS client, as compiled for POSIX. The system calls are a
  record \<open>kernel\<close> of functions over a state \<open>'k\<close> the model does not look into; an address of
  \<open>getaddrinfo\<close> is an \<open>'a\<close>. The socket owns at most one descriptor; the property counts them. The
  last theorem gives the socket, over a kernel whose stream is reliable, to everything that is proved of the
  client over a \<open>byte_stream\<close>. Lengths are below \<open>2 ^ 31\<close>, as the records of the client are.
\<close>

unbundle bit_operations_syntax

section \<open>System calls\<close>

datatype errno = EINTR | EAGAIN | EWOULDBLOCK | Errno int

datatype sys_read = Sys_bytes bytes | Sys_fail errno

record ('a, 'k) kernel =
  k_getaddrinfo :: "string \<Rightarrow> string \<Rightarrow> 'k \<Rightarrow> 'a list option \<times> 'k"
  k_socket :: "'a \<Rightarrow> 'k \<Rightarrow> int \<times> 'k"
  k_connect :: "int \<Rightarrow> 'a \<Rightarrow> 'k \<Rightarrow> bool \<times> 'k"
  k_recv :: "int \<Rightarrow> nat \<Rightarrow> 'k \<Rightarrow> sys_read \<times> 'k"
  k_send :: "int \<Rightarrow> bytes \<Rightarrow> 'k \<Rightarrow> int \<times> 'k"
  k_close :: "int \<Rightarrow> 'k \<Rightarrow> 'k"
  k_rcvtimeo :: "int \<Rightarrow> int \<times> int \<Rightarrow> 'k \<Rightarrow> 'k"
  k_nodelay :: "int \<Rightarrow> 'k \<Rightarrow> 'k"
  k_getsockname :: "int \<Rightarrow> 'k \<Rightarrow> 'a option \<times> 'k"
  k_nameinfo :: "'a \<Rightarrow> 'k \<Rightarrow> string option \<times> 'k"

section \<open>The socket\<close>

definition INVALID_SOCK :: int where
  "INVALID_SOCK = - 1"

record 'k tcp_socket =
  ts_fd :: int
  ts_sys :: 'k

definition tcp_new :: "'k \<Rightarrow> 'k tcp_socket" where
  "tcp_new s = \<lparr>ts_fd = INVALID_SOCK, ts_sys = s\<rparr>"

definition tcp_valid :: "'k tcp_socket \<Rightarrow> bool" where
  "tcp_valid t \<longleftrightarrow> ts_fd t \<noteq> INVALID_SOCK"

definition tcp_close :: "('a, 'k) kernel \<Rightarrow> 'k tcp_socket \<Rightarrow> 'k tcp_socket" where
  "tcp_close K t =
     (if ts_fd t \<noteq> INVALID_SOCK then t\<lparr>ts_sys := k_close K (ts_fd t) (ts_sys t), ts_fd := INVALID_SOCK\<rparr> else t)"

definition tcp_local_address :: "('a, 'k) kernel \<Rightarrow> 'k tcp_socket \<Rightarrow> string \<times> 'k tcp_socket" where
  "tcp_local_address K t =
     (if \<not> tcp_valid t then ('''', t)
      else (case k_getsockname K (ts_fd t) (ts_sys t) of
              (None, s) \<Rightarrow> ('''', t\<lparr>ts_sys := s\<rparr>)
            | (Some a, s) \<Rightarrow>
                (case k_nameinfo K a s of
                   (None, s) \<Rightarrow> ('''', t\<lparr>ts_sys := s\<rparr>)
                 | (Some host, s) \<Rightarrow> (host, t\<lparr>ts_sys := s\<rparr>))))"

definition tcp_set_recv_timeout :: "('a, 'k) kernel \<Rightarrow> int \<Rightarrow> 'k tcp_socket \<Rightarrow> 'k tcp_socket" where
  "tcp_set_recv_timeout K ms t =
     (if \<not> tcp_valid t then t
      else t\<lparr>ts_sys := k_rcvtimeo K (ts_fd t) (ms sdiv 1000, (ms smod 1000) * 1000) (ts_sys t)\<rparr>)"

text \<open>The loop over the addresses; a descriptor that does not connect is closed before the next is made.\<close>

fun connect_any :: "('a, 'k) kernel \<Rightarrow> 'a list \<Rightarrow> 'k tcp_socket \<Rightarrow> 'k tcp_socket" where
  "connect_any K [] t = t"
| "connect_any K (a # as) t =
     (let (s, k) = k_socket K a (ts_sys t)
      in if s = INVALID_SOCK then connect_any K as (t\<lparr>ts_sys := k\<rparr>)
         else (case k_connect K s a k of
                 (True, k) \<Rightarrow> t\<lparr>ts_sys := k, ts_fd := s\<rparr>
               | (False, k) \<Rightarrow> connect_any K as (t\<lparr>ts_sys := k_close K s k\<rparr>)))"

definition tcp_connect :: "('a, 'k) kernel \<Rightarrow> string \<Rightarrow> u16 \<Rightarrow> int \<Rightarrow> 'k tcp_socket \<Rightarrow> string option \<times> 'k tcp_socket" where
  "tcp_connect K host port timeout t =
     (let t = tcp_close K t; portstr = to_string (uint port)
      in case k_getaddrinfo K host portstr (ts_sys t) of
           (None, s) \<Rightarrow> (Some (''cannot resolve '' @ host), t\<lparr>ts_sys := s\<rparr>)
         | (Some res, s) \<Rightarrow>
             (if res = [] then (Some (''cannot resolve '' @ host), t\<lparr>ts_sys := s\<rparr>)
              else (let t = connect_any K res (t\<lparr>ts_sys := s\<rparr>)
                    in if ts_fd t = INVALID_SOCK then (Some (''cannot connect to '' @ host @ '':'' @ portstr), t)
                       else (let t = tcp_set_recv_timeout K timeout t
                             in (None, t\<lparr>ts_sys := k_nodelay K (ts_fd t) (ts_sys t)\<rparr>)))))"

definition tcp_recv :: "('a, 'k) kernel \<Rightarrow> nat \<Rightarrow> 'k tcp_socket \<Rightarrow> received \<times> 'k tcp_socket" where
  "tcp_recv K cap t =
     (if \<not> tcp_valid t then (Recv_error, t)
      else (case k_recv K (ts_fd t) cap (ts_sys t) of
              (Sys_bytes bs, s) \<Rightarrow> (Data bs, t\<lparr>ts_sys := s\<rparr>)
            | (Sys_fail e, s) \<Rightarrow>
                (if e = EINTR \<or> e = EAGAIN \<or> e = EWOULDBLOCK then Recv_timeout else Recv_error, t\<lparr>ts_sys := s\<rparr>)))"

text \<open>The loop of \<open>send_all\<close>; \<open>data\<close> is what is left to send.\<close>

function send_loop :: "('a, 'k) kernel \<Rightarrow> bytes \<Rightarrow> 'k tcp_socket \<Rightarrow> bool \<times> 'k tcp_socket" where
  "send_loop K data t =
     (if data = [] then (True, t)
      else (case k_send K (ts_fd t) data (ts_sys t) of
              (n, s) \<Rightarrow> if n \<le> 0 then (False, t\<lparr>ts_sys := s\<rparr>) else send_loop K (drop (nat n) data) (t\<lparr>ts_sys := s\<rparr>)))"
  by pat_completeness auto
termination
  by (relation "measure (\<lambda>(K, data, t). length data)") auto

declare send_loop.simps [simp del]

definition tcp_send_all :: "('a, 'k) kernel \<Rightarrow> bytes \<Rightarrow> 'k tcp_socket \<Rightarrow> bool \<times> 'k tcp_socket" where
  "tcp_send_all K data t = (if \<not> tcp_valid t then (False, t) else send_loop K data t)"

definition local_address_towards :: "('a, 'k) kernel \<Rightarrow> string \<Rightarrow> u16 \<Rightarrow> int \<Rightarrow> 'k \<Rightarrow> string \<times> 'k" where
  "local_address_towards K host port timeout s =
     (case tcp_connect K host port timeout (tcp_new s) of
        (Some e, t) \<Rightarrow> ('''', ts_sys (tcp_close K t))
      | (None, t) \<Rightarrow> (let (a, t) = tcp_local_address K t in (a, ts_sys (tcp_close K (tcp_close K t)))))"

text \<open>The transport of \<open>ClientT\<close>; the client reads into 4096 bytes.\<close>

definition tcp_transport :: "('a, 'k) kernel \<Rightarrow> 'k tcp_socket transport" where
  "tcp_transport K = \<lparr>tp_connect = tcp_connect K, tp_recv = tcp_recv K 4096, tp_send = tcp_send_all K,
     tp_valid = tcp_valid, tp_close = tcp_close K\<rparr>"

section \<open>Descriptors\<close>

text \<open>
  What the descriptors open in a state are, as far as POSIX says: \<open>socket\<close> opens a new one or none,
  \<open>close\<close> closes the one given, and the other calls leave them as they are.
\<close>

definition fd_laws :: "('a, 'k) kernel \<Rightarrow> ('k \<Rightarrow> int set) \<Rightarrow> bool" where
  "fd_laws K fds \<longleftrightarrow>
     (\<forall>h p s. fds (snd (k_getaddrinfo K h p s)) = fds s) \<and>
     (\<forall>a s. case k_socket K a s of (d, s') \<Rightarrow>
        if d = INVALID_SOCK then fds s' = fds s else d \<notin> fds s \<and> fds s' = insert d (fds s)) \<and>
     (\<forall>d a s. fds (snd (k_connect K d a s)) = fds s) \<and>
     (\<forall>d n s. fds (snd (k_recv K d n s)) = fds s) \<and>
     (\<forall>d bs s. fds (snd (k_send K d bs s)) = fds s) \<and>
     (\<forall>d s. fds (k_close K d s) = fds s - {d}) \<and>
     (\<forall>d v s. fds (k_rcvtimeo K d v s) = fds s) \<and>
     (\<forall>d s. fds (k_nodelay K d s) = fds s) \<and>
     (\<forall>d s. fds (snd (k_getsockname K d s)) = fds s) \<and>
     (\<forall>a s. fds (snd (k_nameinfo K a s)) = fds s)"

text \<open>The socket's own descriptor and the \<open>others\<close> are open, and no more.\<close>

definition owns :: "('k \<Rightarrow> int set) \<Rightarrow> int set \<Rightarrow> 'k tcp_socket \<Rightarrow> bool" where
  "owns fds others t \<longleftrightarrow>
     (if ts_fd t = INVALID_SOCK then fds (ts_sys t) = others
      else ts_fd t \<notin> others \<and> fds (ts_sys t) = insert (ts_fd t) others)"

datatype tcp_op =
    Op_connect string u16 int | Op_local_address | Op_recv nat | Op_send_all bytes | Op_set_recv_timeout int | Op_close

fun tcp_step :: "('a, 'k) kernel \<Rightarrow> tcp_op \<Rightarrow> 'k tcp_socket \<Rightarrow> 'k tcp_socket" where
  "tcp_step K (Op_connect host port timeout) t = snd (tcp_connect K host port timeout t)"
| "tcp_step K Op_local_address t = snd (tcp_local_address K t)"
| "tcp_step K (Op_recv cap) t = snd (tcp_recv K cap t)"
| "tcp_step K (Op_send_all data) t = snd (tcp_send_all K data t)"
| "tcp_step K (Op_set_recv_timeout ms) t = tcp_set_recv_timeout K ms t"
| "tcp_step K Op_close t = tcp_close K t"

definition tcp_steps :: "('a, 'k) kernel \<Rightarrow> tcp_op list \<Rightarrow> 'k tcp_socket \<Rightarrow> 'k tcp_socket" where
  "tcp_steps K ops t = fold (tcp_step K) ops t"

lemma fd_lawsD:
  assumes "fd_laws K fds"
  shows "k_getaddrinfo K h p s = (r1, s1) \<Longrightarrow> fds s1 = fds s"
    and "k_socket K a s = (INVALID_SOCK, s1) \<Longrightarrow> fds s1 = fds s"
    and "k_socket K a s = (d, s1) \<Longrightarrow> d \<noteq> INVALID_SOCK \<Longrightarrow> d \<notin> fds s \<and> fds s1 = insert d (fds s)"
    and "k_connect K d a s = (r2, s1) \<Longrightarrow> fds s1 = fds s"
    and "k_recv K d n s = (r3, s1) \<Longrightarrow> fds s1 = fds s"
    and "k_send K d bs s = (r4, s1) \<Longrightarrow> fds s1 = fds s"
    and "fds (k_close K d s) = fds s - {d}"
    and "fds (k_rcvtimeo K d v s) = fds s"
    and "fds (k_nodelay K d s) = fds s"
    and "k_getsockname K d s = (r5, s1) \<Longrightarrow> fds s1 = fds s"
    and "k_nameinfo K a s = (r6, s1) \<Longrightarrow> fds s1 = fds s"
proof -
  note l = assms [unfolded fd_laws_def]
  have socket: "case k_socket K a s of (d, s') \<Rightarrow>
      if d = INVALID_SOCK then fds s' = fds s else d \<notin> fds s \<and> fds s' = insert d (fds s)"
    by (rule spec [OF spec [OF conjunct1 [OF conjunct2 [OF l]]]])
  show "k_socket K a s = (INVALID_SOCK, s1) \<Longrightarrow> fds s1 = fds s" using socket by simp
  show "k_socket K a s = (d, s1) \<Longrightarrow> d \<noteq> INVALID_SOCK \<Longrightarrow> d \<notin> fds s \<and> fds s1 = insert d (fds s)" using socket by simp
  have q: "fds (snd (k_getaddrinfo K h p s)) = fds s" "fds (snd (k_connect K d a s)) = fds s" "fds (snd (k_recv K d n s)) = fds s"
    "fds (snd (k_send K d bs s)) = fds s" "fds (snd (k_getsockname K d s)) = fds s" "fds (snd (k_nameinfo K a s)) = fds s"
    using l by simp_all
  show "k_getaddrinfo K h p s = (r1, s1) \<Longrightarrow> fds s1 = fds s" using q(1) by simp
  show "k_connect K d a s = (r2, s1) \<Longrightarrow> fds s1 = fds s" using q(2) by simp
  show "k_recv K d n s = (r3, s1) \<Longrightarrow> fds s1 = fds s" using q(3) by simp
  show "k_send K d bs s = (r4, s1) \<Longrightarrow> fds s1 = fds s" using q(4) by simp
  show "k_getsockname K d s = (r5, s1) \<Longrightarrow> fds s1 = fds s" using q(5) by simp
  show "k_nameinfo K a s = (r6, s1) \<Longrightarrow> fds s1 = fds s" using q(6) by simp
  show "fds (k_close K d s) = fds s - {d}" "fds (k_rcvtimeo K d v s) = fds s" "fds (k_nodelay K d s) = fds s"
    using l by (simp_all del: split_paired_All)
qed

lemma owns_sys: "owns fds others t \<Longrightarrow> fds s = fds (ts_sys t) \<Longrightarrow> owns fds others (t\<lparr>ts_sys := s\<rparr>)"
  by (simp add: owns_def)

lemma close_owns:
  assumes K: "fd_laws K fds" and t: "owns fds others t"
  shows "owns fds others (tcp_close K t)" and "ts_fd (tcp_close K t) = INVALID_SOCK"
  using t by (auto simp: tcp_close_def owns_def fd_lawsD(7) [OF K])

lemma connect_any_owns:
  assumes K: "fd_laws K fds"
  shows "owns fds others t \<Longrightarrow> ts_fd t = INVALID_SOCK \<Longrightarrow> owns fds others (connect_any K as t)"
proof (induction as arbitrary: t)
  case (Cons a as)
  obtain d k where d: "k_socket K a (ts_sys t) = (d, k)" by fastforce
  show ?case
  proof (cases "d = INVALID_SOCK")
    case True
    with d have "fds k = fds (ts_sys t)" using fd_lawsD(2) [OF K] by blast
    with Cons True d show ?thesis by (simp add: owns_sys)
  next
    case False
    from fd_lawsD(3) [OF K d False] Cons.prems have k: "d \<notin> others" "fds k = insert d others" by (simp_all add: owns_def)
    obtain ok k1 where c: "k_connect K d a k = (ok, k1)" by fastforce
    have k1: "fds k1 = insert d others" using fd_lawsD(4) [OF K c] k(2) by simp
    then have "fds (k_close K d k1) = others" using fd_lawsD(7) [OF K] k(1) by simp
    then have "owns fds others (t\<lparr>ts_sys := k_close K d k1\<rparr>)" using Cons.prems(2) by (simp add: owns_def)
    with Cons.IH [of "t\<lparr>ts_sys := k_close K d k1\<rparr>"] Cons.prems(2) d c False k(1) k1 show ?thesis
      by (cases ok) (simp_all add: owns_def)
  qed
qed simp

lemma timeout_owns: "fd_laws K fds \<Longrightarrow> owns fds others t \<Longrightarrow> owns fds others (tcp_set_recv_timeout K ms t)"
  by (simp add: tcp_set_recv_timeout_def owns_sys fd_lawsD(8))

lemma connect_owns:
  assumes K: "fd_laws K fds" and t: "owns fds others t" and run: "tcp_connect K host port timeout t = (r, t')"
  shows "owns fds others t' \<and> (r = None \<longleftrightarrow> tcp_valid t')"
proof -
  let ?t0 = "tcp_close K t"
  note c = close_owns [OF K t]
  obtain res s where g: "k_getaddrinfo K host (to_string (uint port)) (ts_sys ?t0) = (res, s)" by fastforce
  have o: "owns fds others (?t0\<lparr>ts_sys := s\<rparr>)" by (rule owns_sys [OF c(1) fd_lawsD(1) [OF K g]])
  let ?t1 = "connect_any K (the res) (?t0\<lparr>ts_sys := s\<rparr>)"
  have o1: "owns fds others ?t1" by (rule connect_any_owns [OF K o]) (simp add: c(2))
  note o2 = timeout_owns [OF K o1, of timeout]
  have "ts_fd (tcp_set_recv_timeout K timeout ?t1) = ts_fd ?t1" by (simp add: tcp_set_recv_timeout_def)
  then show ?thesis
    using run g o o1 owns_sys [OF o2 fd_lawsD(9) [OF K]] c(2)
    by (auto simp: tcp_connect_def Let_def tcp_valid_def split: option.splits if_splits)
qed

lemma send_loop_owns: "fd_laws K fds \<Longrightarrow> owns fds others t \<Longrightarrow> owns fds others (snd (send_loop K data t))"
proof (induction K data t rule: send_loop.induct)
  case (1 K data t)
  obtain n s where n: "k_send K (ts_fd t) data (ts_sys t) = (n, s)" by fastforce
  have "owns fds others (t\<lparr>ts_sys := s\<rparr>)" by (rule owns_sys [OF 1(3) fd_lawsD(6) [OF 1(2) n]])
  with 1 n show ?case by (cases "data = []") (simp add: send_loop.simps [of K "[]" t], simp add: send_loop.simps [of K data t])
qed

lemma step_owns:
  assumes K: "fd_laws K fds" and t: "owns fds others t"
  shows "owns fds others (tcp_step K p t)"
proof (cases p)
  case (Op_connect host port timeout)
  then show ?thesis using connect_owns [OF K t] by (cases "tcp_connect K host port timeout t") simp
next
  case Op_local_address
  obtain a s1 where g: "k_getsockname K (ts_fd t) (ts_sys t) = (a, s1)" by fastforce
  obtain h s2 where n: "k_nameinfo K (the a) s1 = (h, s2)" by fastforce
  have "fds s1 = fds (ts_sys t)" "fds s2 = fds s1" using fd_lawsD(10) [OF K g] fd_lawsD(11) [OF K n] .
  with g n t Op_local_address owns_sys show ?thesis
    by (fastforce simp: tcp_local_address_def split: option.split)
next
  case (Op_recv cap)
  obtain r s where r: "k_recv K (ts_fd t) cap (ts_sys t) = (r, s)" by fastforce
  from owns_sys [OF t fd_lawsD(5) [OF K r]] r t Op_recv show ?thesis
    by (simp add: tcp_recv_def split: sys_read.split)
next
  case (Op_send_all data)
  then show ?thesis using send_loop_owns [OF K t] t by (simp add: tcp_send_all_def)
qed (simp_all add: timeout_owns [OF K t] close_owns [OF K t])

lemma steps_owns: "fd_laws K fds \<Longrightarrow> owns fds others t \<Longrightarrow> owns fds others (tcp_steps K ops t)"
  by (induction ops arbitrary: t) (simp_all add: tcp_steps_def step_owns)

lemma towards_owns:
  assumes K: "fd_laws K fds"
  shows "fds (snd (local_address_towards K host port timeout s)) = fds s"
proof -
  have o: "owns fds (fds s) (tcp_new s)" by (simp add: owns_def tcp_new_def)
  obtain r t where c: "tcp_connect K host port timeout (tcp_new s) = (r, t)" by fastforce
  note o1 = conjunct1 [OF connect_owns [OF K o c]]
  obtain a t2 where l: "tcp_local_address K t = (a, t2)" by fastforce
  have o2: "owns fds (fds s) t2" using step_owns [OF K o1, of Op_local_address] l by simp
  have "fds (ts_sys (tcp_close K t)) = fds s" if "owns fds (fds s) t" for t
    using close_owns [OF K that] by (simp add: owns_def)
  with o1 close_owns(1) [OF K o2] show ?thesis
    by (simp add: local_address_towards_def c l split: option.split)
qed

section \<open>A reliable stream\<close>

text \<open>
  A connection of the kernel on the descriptor \<open>d\<close>, as long as \<open>live\<close> holds: \<open>recv\<close> with a positive buffer delivers
  some of the bytes to come, and none only at the end; \<open>send\<close> takes at least one byte of what it is given; the
  receive timeout is no part of the stream, and closing takes nothing back.
\<close>

definition stream_laws :: "('a, 'k) kernel \<Rightarrow> int \<Rightarrow> ('k \<Rightarrow> bool) \<Rightarrow> ('k \<Rightarrow> bytes) \<Rightarrow> ('k \<Rightarrow> bytes) \<Rightarrow> bool" where
  "stream_laws K d live to_come taken \<longleftrightarrow> d \<noteq> INVALID_SOCK \<and>
     (\<forall>n s. live s \<and> 0 < n \<longrightarrow> (case k_recv K d n s of
        (Sys_bytes bs, s') \<Rightarrow> live s' \<and> to_come s = bs @ to_come s' \<and> (bs = [] \<longrightarrow> to_come s = []) \<and> taken s' = taken s
      | (Sys_fail e, s') \<Rightarrow> False)) \<and>
     (\<forall>bs s. live s \<and> bs \<noteq> [] \<longrightarrow> (case k_send K d bs s of (n, s') \<Rightarrow>
        0 < n \<and> live s' \<and> to_come s' = to_come s \<and> taken s' = taken s @ take (nat n) bs)) \<and>
     (\<forall>v s. live s \<longrightarrow> live (k_rcvtimeo K d v s) \<and> to_come (k_rcvtimeo K d v s) = to_come s \<and> taken (k_rcvtimeo K d v s) = taken s) \<and>
     (\<forall>s. live s \<longrightarrow> taken (k_close K d s) = taken s)"

lemma send_loop_stream:
  "stream_laws K (ts_fd t) live to_come taken \<Longrightarrow> live (ts_sys t) \<Longrightarrow>
   \<exists>s. send_loop K data t = (True, t\<lparr>ts_sys := s\<rparr>) \<and> live s \<and> to_come s = to_come (ts_sys t) \<and> taken s = taken (ts_sys t) @ data"
proof (induction K data t rule: send_loop.induct)
  case (1 K data t)
  show ?case
  proof (cases "data = []")
    case True
    with 1 show ?thesis by (intro exI [of _ "ts_sys t"]) (simp add: send_loop.simps)
  next
    case False
    obtain n s where n: "k_send K (ts_fd t) data (ts_sys t) = (n, s)" by fastforce
    have p: "0 < n" "live s" "to_come s = to_come (ts_sys t)" "taken s = taken (ts_sys t) @ take (nat n) data"
      using 1(2,3) False n unfolding stream_laws_def by fastforce+
    from 1(1) [OF False n [symmetric]] p 1(2) obtain s' where
      "send_loop K (drop (nat n) data) (t\<lparr>ts_sys := s\<rparr>) = (True, t\<lparr>ts_sys := s'\<rparr>)" "live s'" "to_come s' = to_come s"
      "taken s' = taken s @ drop (nat n) data" by auto
    with p n False show ?thesis
      by (intro exI [of _ s']) (simp add: send_loop.simps [of K data t])
  qed
qed

text \<open>A kernel for examples: one connection, a stream to read, a limit on what one call moves.\<close>

record small_kernel =
  sk_fds :: "int list"
  sk_in :: bytes
  sk_out :: bytes
  sk_limit :: nat

definition sk_kernel :: "(bool, small_kernel) kernel" where
  "sk_kernel = \<lparr>k_getaddrinfo = (\<lambda>h p s. (if h = ''nowhere'' then None else Some [False, True], s)),
     k_socket = (\<lambda>a s. let d = (if sk_fds s = [] then 3 else Max (set (sk_fds s)) + 1) in
       if d < 3 then (INVALID_SOCK, s) else (d, s\<lparr>sk_fds := d # sk_fds s\<rparr>)),
     k_connect = (\<lambda>d a s. (a, s)),
     k_recv = (\<lambda>d n s. let m = min n (sk_limit s) in (Sys_bytes (take m (sk_in s)), s\<lparr>sk_in := drop m (sk_in s)\<rparr>)),
     k_send = (\<lambda>d bs s. (int (min (length bs) (sk_limit s)), s\<lparr>sk_out := sk_out s @ take (sk_limit s) bs\<rparr>)),
     k_close = (\<lambda>d s. s\<lparr>sk_fds := removeAll d (sk_fds s)\<rparr>),
     k_rcvtimeo = (\<lambda>d v s. s), k_nodelay = (\<lambda>d s. s), k_getsockname = (\<lambda>d s. (Some True, s)),
     k_nameinfo = (\<lambda>a s. (Some ''192.0.2.7'', s))\<rparr>"

lemma sk_fd_laws: "fd_laws sk_kernel (\<lambda>s. set (sk_fds s))"
proof -
  have "Max (set xs) + 1 \<notin> set xs" if "xs \<noteq> []" for xs :: "int list"
    using Max_ge [of "set xs" "Max (set xs) + 1"] by auto
  then show ?thesis by (simp add: fd_laws_def sk_kernel_def Let_def INVALID_SOCK_def)
qed

lemma sk_stream_laws: "stream_laws sk_kernel 3 (\<lambda>s. 0 < sk_limit s) sk_in sk_out"
  by (auto simp: stream_laws_def sk_kernel_def INVALID_SOCK_def Let_def min_def)

section \<open>Properties\<close>

text \<open>C21: no descriptor is lost: whatever is done with a socket, in any order, with any failures of the system calls, the descriptors open afterwards are those that were open before and the socket's own, and closing it (as its destructor does) leaves exactly those that were open before; so does asking for the local address towards a host.\<close>

theorem descriptors_owned:
  assumes "fd_laws K fds"
  shows "let t = tcp_steps K ops (tcp_new s)
    in fds (ts_sys t) = (if tcp_valid t then insert (ts_fd t) (fds s) else fds s) \<and>
       (tcp_valid t \<longrightarrow> ts_fd t \<notin> fds s) \<and> fds (ts_sys (tcp_close K t)) = fds s \<and>
       fds (snd (local_address_towards K host port timeout s)) = fds s"
proof -
  have "owns fds (fds s) (tcp_new s)" by (simp add: owns_def tcp_new_def)
  from steps_owns [OF assms this] have o: "owns fds (fds s) (tcp_steps K ops (tcp_new s))" .
  from close_owns [OF assms o] towards_owns [OF assms] o show ?thesis
    by (simp add: Let_def owns_def tcp_valid_def)
qed

lemma descriptors_owned_witness:
  "(let t = tcp_steps sk_kernel [Op_connect ''ilo'' 443 15000, Op_send_all [1, 2, 3], Op_connect ''ilo'' 23 15000]
        (tcp_new \<lparr>sk_fds = [3], sk_in = [], sk_out = [], sk_limit = 2\<rparr>)
    in set (sk_fds (ts_sys t)) = (if tcp_valid t then insert (ts_fd t) {3} else {3}))"
  using descriptors_owned [OF sk_fd_laws, of "[Op_connect ''ilo'' 443 15000, Op_send_all [1, 2, 3], Op_connect ''ilo'' 23 15000]"
      "\<lparr>sk_fds = [3], sk_in = [], sk_out = [], sk_limit = 2\<rparr>"]
  by (simp add: Let_def)

text \<open>The socket is a transport of the kind the client is proved over: on a connected descriptor of a kernel that delivers a stream in pieces of its choice and takes writes in part, the socket's \<open>recv\<close> yields the bytes to come, its \<open>send_all\<close> succeeds after any number of partial writes, and exactly the data given is taken, in order.\<close>

lemma socket_is_byte_stream:
  assumes "stream_laws K d live to_come taken"
  shows "byte_stream (tcp_transport K) (\<lambda>t. ts_fd t = d \<and> live (ts_sys t)) (\<lambda>t. to_come (ts_sys t)) (\<lambda>t. taken (ts_sys t))"
proof unfold_locales
  fix t :: "'b tcp_socket"
  assume t: "ts_fd t = d \<and> live (ts_sys t)"
  then have v: "tcp_valid t" using assms by (simp add: stream_laws_def tcp_valid_def)
  obtain r s where r: "k_recv K (ts_fd t) 4096 (ts_sys t) = (r, s)" by fastforce
  note law = conjunct1 [OF conjunct2 [OF assms [unfolded stream_laws_def]], rule_format, of "ts_sys t" 4096]
  from law r t v show "\<exists>bs t'. tp_recv (tcp_transport K) t = (Data bs, t') \<and> (ts_fd t' = d \<and> live (ts_sys t')) \<and>
      to_come (ts_sys t) = bs @ to_come (ts_sys t') \<and> (bs = [] \<longrightarrow> to_come (ts_sys t) = []) \<and> taken (ts_sys t') = taken (ts_sys t)"
    by (auto simp: tcp_transport_def tcp_recv_def split: sys_read.splits)
  show "\<exists>t'. tp_send (tcp_transport K) data t = (True, t') \<and> (ts_fd t' = d \<and> live (ts_sys t')) \<and>
      to_come (ts_sys t') = to_come (ts_sys t) \<and> taken (ts_sys t') = taken (ts_sys t) @ data" for data
    using send_loop_stream [of K t live to_come taken data] assms t v by (auto simp: tcp_transport_def tcp_send_all_def)
qed

end
