(* ===== verification/Tcp_Client.thy ===== *)
theory Tcp_Client
  imports Tls_Sessions Tcp_Socket
begin

text \<open>
  The TLS client over the TCP socket. The mock transport of the tests and the socket over any kernel whose
  connection is a reliable stream fulfil \<open>twin_sessions\<close> together, so what is proved of a command over the
  mock holds over the socket.
\<close>

interpretation mock_sessions: twin_sessions mock_transport mock_open mock_pending from_client
  mock_transport mock_open mock_pending from_client "\<lambda>ms s. s" "\<lambda>ms s. s"
  by unfold_locales (simp_all add: mock_open_def mock_transport_def)

section \<open>The socket and the mock\<close>

lemma socket_mock_twins:
  fixes K :: "('a, 'k) kernel"
  assumes K: "stream_laws K d live to_come taken"
  shows "twin_sessions (tcp_transport K) (\<lambda>t. ts_fd t = d \<and> live (ts_sys t)) (\<lambda>t. to_come (ts_sys t)) (\<lambda>t. taken (ts_sys t))
     mock_transport mock_open mock_pending from_client (tcp_set_recv_timeout K) (\<lambda>ms s. s)"
proof -
  have v: "tcp_valid t" if "ts_fd t = d" for t :: "'k tcp_socket"
    using that K by (simp add: stream_laws_def tcp_valid_def)
  have "twin_sessions_axioms (tcp_transport K) (\<lambda>t. ts_fd t = d \<and> live (ts_sys t)) (\<lambda>t. to_come (ts_sys t)) (\<lambda>t. taken (ts_sys t))
     mock_transport mock_open mock_pending from_client (tcp_set_recv_timeout K) (\<lambda>ms s. s)"
    using K v by unfold_locales
      (simp_all add: tcp_transport_def tcp_set_recv_timeout_def tcp_close_def stream_laws_def mock_open_def mock_transport_def)
  then show ?thesis
    using socket_is_byte_stream [OF K] mock.byte_stream_axioms by (simp add: twin_sessions_def twin_streams_def)
qed

lemma socket_mock_opens:
  assumes K: "stream_laws K d live to_come taken"
    and "tcp_connect K host port timeout s = (None, s')" and "ts_fd s' = d" "live (ts_sys s')" "taken (ts_sys s') = []" and "0 < k"
  shows "twin_sessions.opens (tcp_transport K) (\<lambda>t. ts_fd t = d \<and> live (ts_sys t)) (\<lambda>t. to_come (ts_sys t)) (\<lambda>t. taken (ts_sys t))
     mock_transport mock_open mock_pending from_client host port timeout s (mock_server (to_come (ts_sys s')) k)"
  unfolding twin_sessions.opens_def [OF socket_mock_twins [OF K]] using assms(2-)
  by (simp add: tcp_transport_def mock_transport_def mock_open_def mock_pending_def mock_server_def)

section \<open>Properties\<close>

text \<open>C20: a RIBCL command over a real connection does what it does over the test suite's mock transport: whatever the pieces in which the kernel delivers the bytes of the server and takes those of the client, the result, errors included, is the one over the mock with the same bytes in chunks of any size, the generator ends in the same state, and exactly the bytes the mock records were handed to the kernel, the close alert included.\<close>

theorem ribcl_over_socket:
  assumes "stream_laws K d live to_come taken" and "tcp_connect K host port 8000 s = (None, s')"
    and "ts_fd s' = d" and "live (ts_sys s')" and "taken (ts_sys s') = []" and "0 < k"
  shows "case ribcl_run (tcp_transport K) (tcp_set_recv_timeout K) rng fuel host port user pass cmd args (s, r) of (reply, t, r') \<Rightarrow>
    \<exists>m. ribcl_run mock_transport (\<lambda>ms s. s) rng fuel host port user pass cmd args (mock_server (to_come (ts_sys s')) k, r) = (reply, m, r') \<and>
      from_client m = taken (ts_sys t)"
  by (rule twin_sessions.ribcl_run_twin [OF socket_mock_twins [OF assms(1)] socket_mock_opens [OF assms]])

lemma ribcl_over_socket_witness:
  "fst (ribcl_run (tcp_transport sk_kernel) (tcp_set_recv_timeout sk_kernel) counting_rng 9 ''ilo'' 443 ''u'' ''p'' GetPowerStatus no_args
     (tcp_new \<lparr>sk_fds = [], sk_in = [21, 3, 1, 0, 2, 2, 40], sk_out = [], sk_limit = 2\<rparr>, 0)) =
   fst (ribcl_run mock_transport (\<lambda>ms s. s) counting_rng 9 ''ilo'' 443 ''u'' ''p'' GetPowerStatus no_args
     (mock_server [21, 3, 1, 0, 2, 2, 40] 1, 0))"
proof -
  let ?s = "\<lparr>sk_fds = [3], sk_in = [21, 3, 1, 0, 2, 2, 40], sk_out = [], sk_limit = 2\<rparr>"
  have "tcp_connect sk_kernel ''ilo'' 443 8000 (tcp_new (?s\<lparr>sk_fds := []\<rparr>)) = (None, \<lparr>ts_fd = 3, ts_sys = ?s\<rparr>)"
    by (simp add: tcp_connect_def tcp_new_def tcp_close_def INVALID_SOCK_def sk_kernel_def tcp_set_recv_timeout_def tcp_valid_def Let_def)
  from ribcl_over_socket [OF sk_stream_laws this, of 1 counting_rng 9 "''u''" "''p''" GetPowerStatus no_args 0]
  show ?thesis by (auto split: prod.splits)
qed

text \<open>The same for a page over HTTPS.\<close>

theorem https_over_socket:
  assumes "stream_laws K d live to_come taken" and "tcp_connect K host port timeout s = (None, s')"
    and "ts_fd s' = d" and "live (ts_sys s')" and "taken (ts_sys s') = []" and "0 < k"
  shows "case https_get (tcp_transport K) rng fuel host port path cookie (client_new v timeout gmt s r) of (rep, c) \<Rightarrow>
    \<exists>m. https_get mock_transport rng fuel host port path cookie (client_new v timeout gmt (mock_server (to_come (ts_sys s')) k) r) = (rep, m) \<and>
      rand m = rand c \<and> from_client (sock m) = taken (ts_sys (sock c))"
  using twin_sessions.https_get_twin [OF socket_mock_twins [OF assms(1)] socket_mock_opens [OF assms]]
  unfolding twin_sessions.ended_def [OF socket_mock_twins [OF assms(1)]] .

end
