(* ===== verification/Tools.thy ===== *)
theory Tools
  imports Capture Media_Server Tcp_Client
begin

text \<open>
  The \<open>main\<close> functions of the other command-line tools: \<open>tools/capture_dvc.cpp\<close>, \<open>tools/tls_get.cpp\<close>,
  \<open>tools/console_probe.cpp\<close> and \<open>tools/media_server.cpp\<close>. What they print on the way and the pictures
  they save are not modelled; the exit code, the console traffic and the other files written are. What other threads and the network do between two
  steps of a tool is an input. A result of \<open>None\<close> is a run that does not come back, or the fault of a part.
\<close>

unbundle bit_operations_syntax

section \<open>Options with a value\<close>

text \<open>
  The loop over \<open>argv\<close> all these tools share: an option that takes a value takes the next argument, or the
  empty string after the last; another argument is a flag, or ends the tool.
\<close>

fun option_loop :: "(string \<Rightarrow> bool) \<Rightarrow> (string \<Rightarrow> string \<Rightarrow> 'a \<Rightarrow> 'a) \<Rightarrow> (string \<Rightarrow> 'a \<Rightarrow> 'a option) \<Rightarrow> string list \<Rightarrow> 'a \<Rightarrow> string + 'a" where
  "option_loop takes opt flag [] t = Inr t"
| "option_loop takes opt flag [a] t =
     (if takes a then Inr (opt a '''' t) else (case flag a t of None \<Rightarrow> Inl a | Some t \<Rightarrow> Inr t))"
| "option_loop takes opt flag (a # b # r) t =
     (if takes a then option_loop takes opt flag r (opt a b t)
      else (case flag a t of None \<Rightarrow> Inl a | Some t \<Rightarrow> option_loop takes opt flag (b # r) t))"

section \<open>capture_dvc\<close>

text \<open>\<open>parse_hex16\<close> and \<open>base64_decode\<close> are those of \<open>ui/console_core.hpp\<close> line for line.\<close>

definition parse_hex16 :: "string \<Rightarrow> bytes option" where
  "parse_hex16 = core_hex16"

definition base64_decode :: "string \<Rightarrow> bytes" where
  "base64_decode = hp_base64_decode"

record capture_args =
  ca_host :: string
  ca_info0 :: string
  ca_infob :: string
  ca_infoc :: string
  ca_out :: string
  ca_png :: string
  ca_user :: string
  ca_pass :: string
  ca_pass_file :: string
  ca_port :: int
  ca_seconds :: int
  ca_infod :: int
  ca_refresh_every :: int
  ca_https_port :: int
  ca_info1 :: bool
  ca_encrypted :: bool
  ca_wake :: bool
  ca_wake_keys :: bool
  ca_have_info1 :: bool
  ca_have_infoa :: bool
  ca_params_only :: bool

definition capture_args_new :: capture_args where
  "capture_args_new = \<lparr>ca_host = '''', ca_info0 = '''', ca_infob = '''', ca_infoc = '''', ca_out = ''build/dvc_capture.bin'',
     ca_png = ''build/frame'', ca_user = ''Administrator'', ca_pass = '''', ca_pass_file = ''.ilo_pass'', ca_port = 23, ca_seconds = 20,
     ca_infod = 0, ca_refresh_every = 0, ca_https_port = 443, ca_info1 = False, ca_encrypted = True, ca_wake = False,
     ca_wake_keys = False, ca_have_info1 = False, ca_have_infoa = False, ca_params_only = False\<rparr>"

definition capture_takes :: "string \<Rightarrow> bool" where
  "capture_takes a \<longleftrightarrow> a \<in> set [''--host'', ''--user'', ''--pass'', ''--pass-file'', ''--https-port'', ''--port'', ''--info0'', ''--info1'',
     ''--infoa'', ''--infob'', ''--infoc'', ''--infod'', ''--seconds'', ''--refresh-every'', ''--out'', ''--png'']"

definition capture_option :: "string \<Rightarrow> string \<Rightarrow> capture_args \<Rightarrow> capture_args" where
  "capture_option a v t =
     (if a = ''--host'' then t\<lparr>ca_host := v\<rparr> else if a = ''--user'' then t\<lparr>ca_user := v\<rparr>
      else if a = ''--pass'' then t\<lparr>ca_pass := v\<rparr> else if a = ''--pass-file'' then t\<lparr>ca_pass_file := v\<rparr>
      else if a = ''--https-port'' then t\<lparr>ca_https_port := atoi v\<rparr> else if a = ''--port'' then t\<lparr>ca_port := atoi v\<rparr>
      else if a = ''--info0'' then t\<lparr>ca_info0 := v\<rparr>
      else if a = ''--info1'' then t\<lparr>ca_info1 := (v = ''1''), ca_have_info1 := True\<rparr>
      else if a = ''--infoa'' then t\<lparr>ca_encrypted := (v = ''1''), ca_have_infoa := True\<rparr>
      else if a = ''--infob'' then t\<lparr>ca_infob := v\<rparr> else if a = ''--infoc'' then t\<lparr>ca_infoc := v\<rparr>
      else if a = ''--infod'' then t\<lparr>ca_infod := atoi v\<rparr> else if a = ''--seconds'' then t\<lparr>ca_seconds := atoi v\<rparr>
      else if a = ''--refresh-every'' then t\<lparr>ca_refresh_every := atoi v\<rparr>
      else if a = ''--out'' then t\<lparr>ca_out := v\<rparr> else t\<lparr>ca_png := v\<rparr>)"

definition capture_flag :: "string \<Rightarrow> capture_args \<Rightarrow> capture_args option" where
  "capture_flag a t =
     (if a = ''--params-only'' then Some (t\<lparr>ca_params_only := True\<rparr>)
      else if a = ''--wake'' then Some (t\<lparr>ca_wake := True\<rparr>)
      else if a = ''--wake-keys'' then Some (t\<lparr>ca_wake_keys := True\<rparr>) else None)"

text \<open>The parameters of the page fill in what was not given.\<close>

definition capture_fill :: "console_params \<Rightarrow> capture_args \<Rightarrow> capture_args" where
  "capture_fill cp t =
     (let t = t\<lparr>ca_info0 := get_param cp ''info0'' ''''\<rparr>;
          t = (if \<not> ca_have_info1 t then t\<lparr>ca_info1 := has_param cp ''info1''\<rparr> else t);
          t = (if \<not> ca_have_infoa t then t\<lparr>ca_encrypted := (get_param cp ''infoa'' ''1'' = ''1'')\<rparr> else t);
          t = (if ca_infob t = [] then t\<lparr>ca_infob := get_param cp ''infob'' ''''\<rparr> else t);
          t = (if ca_infoc t = [] then t\<lparr>ca_infoc := get_param cp ''infoc'' ''''\<rparr> else t);
          t = (if ca_infod t = 0 then t\<lparr>ca_infod := atoi (get_param cp ''infod'' ''0'')\<rparr> else t)
      in if ca_port t = 23 then t\<lparr>ca_port := atoi (get_param cp ''info6'' ''23'')\<rparr> else t)"

definition capture_login :: "capture_args \<Rightarrow> bytes" where
  "capture_login t =
     (let login = base64_decode (ca_info0 t)
      in if login = [] then login
         else [0x1B, 0x5B, 0x37, 0x1B, 0x5B, 0x39] @ (if ca_info1 t then [0x1B, 0x5B, 0x34] else []) @ login)"

text \<open>Everything before the console port is touched: an exit code, or the arguments and the plan of the session.\<close>

definition capture_plan :: "capture_args \<Rightarrow> int + capture_args \<times> session_plan" where
  "capture_plan t =
     (if \<not> ca_encrypted t then Inr (t, \<lparr>p_login = capture_login t, p_keys = None, p_port = ca_port t\<rparr>)
      else (case parse_hex16 (ca_infob t) of
              None \<Rightarrow> Inl 2
            | Some kb \<Rightarrow>
                (case parse_hex16 (ca_infoc t) of
                   None \<Rightarrow> Inl 2
                 | Some kc \<Rightarrow> Inr (t, \<lparr>p_login = capture_login t, p_keys = Some (kb, kc, word_of_int (ca_infod t)), p_port = ca_port t\<rparr>))))"

definition capture_prepare ::
  "'t transport \<Rightarrow> 'r rng \<Rightarrow> nat \<Rightarrow> string option \<Rightarrow> (string \<Rightarrow> string option) \<Rightarrow> string list \<Rightarrow> 't \<times> 'r \<Rightarrow>
   (int + capture_args \<times> session_plan) option" where
  "capture_prepare TP rng fuel env files argv w =
     (case option_loop capture_takes capture_option capture_flag argv capture_args_new of
        Inl a \<Rightarrow> Some (Inl 2)
      | Inr t \<Rightarrow>
          if ca_host t = [] then Some (Inl 2)
          else if ca_info0 t \<noteq> [] then Some (capture_plan t)
          else (let pw = read_ilo_password env (files (ca_pass_file t)) (ca_pass t)
                in if pw = [] then Some (Inl 2)
                   else (case fst (acquire_console_session TP rng fuel (ca_host t) (word_of_int (ca_https_port t)) (ca_user t) pw
                                    \<lparr>cp_info = Map.empty, cp_index = '''', cp_cookie = ''''\<rparr> w) of
                           Got cp \<Rightarrow> (let t = capture_fill cp t in if ca_params_only t then Some (Inl 0) else Some (capture_plan t))
                         | Error e \<Rightarrow> Some (Inl 1)
                         | Stuck \<Rightarrow> None
                         | Crash \<Rightarrow> None)))"

text \<open>
  The main thread's part of the session. \<open>arrivals\<close> holds, for each of its steps, what the receiving
  thread is given before it.
\<close>

definition refresh_msg :: bytes where "refresh_msg = [0x1B, 0x5B, 0x7E]"
definition keep_alive_msg :: bytes where "keep_alive_msg = [0x1B, 0x5B, 0x28]"
definition escape_key :: bytes where "escape_key = [0x1B]"

fun capture_say :: "'s net \<Rightarrow> bytes list \<Rightarrow> bytes list \<times> ('s, capture) cim \<Rightarrow> (bytes list \<times> ('s, capture) cim) option" where
  "capture_say N [] s = Some s"
| "capture_say N (m # ms) (arrivals, t) =
     (let (now, later) = (case arrivals of [] \<Rightarrow> ([], []) | a # as \<Rightarrow> (a, as))
      in case cim_transmit N m (cap_feed now t) of None \<Rightarrow> None | Some t \<Rightarrow> capture_say N ms (later, t))"

definition wake_messages :: "int \<Rightarrow> int \<Rightarrow> bytes list" where
  "wake_messages w h =
     (if w \<le> 0 \<or> h \<le> 0 then []
      else (let i = \<lparr>screen_w = w, screen_h = h, absolute = True\<rparr>
            in [select_mouse True] @
               map (\<lambda>(x, y). input_move x y i)
                 [(w sdiv 2, h sdiv 2), (w sdiv 2 + 80, h sdiv 2 + 60), (w sdiv 3, h sdiv 3), (w sdiv 2, h sdiv 2)] @ [refresh_msg]))"

definition wake_key_messages :: "bytes list" where
  "wake_key_messages = [escape_key, arrow_right, arrow_left, arrow_down, arrow_up, escape_key, refresh_msg]"

record capture_loop =
  cl_last_report :: int
  cl_snap :: int
  cl_last_refresh :: int

text \<open>A turn of the loop at \<open>el\<close> seconds: the messages, and the file the picture is saved to.\<close>

definition capture_tick :: "capture_args \<Rightarrow> int \<Rightarrow> int \<Rightarrow> capture_loop \<Rightarrow> bytes list \<times> string option \<times> capture_loop" where
  "capture_tick t el w l =
     (let (png, l) =
            (if el = cl_last_report l then (None, l)
             else (let l = l\<lparr>cl_last_report := el\<rparr>
                   in if el > 0 \<and> el smod 5 = 0 \<and> w > 0
                      then (let l = l\<lparr>cl_snap := cl_snap l + 1\<rparr>; n = to_string (cl_snap l)
                            in (Some (take 511 (ca_png t @ ''_'' @ (if length n < 2 then ''0'' @ n else n) @ ''.png'')), l))
                      else (None, l)));
          alive = (if el > 0 \<and> el smod 8 = 0 then [keep_alive_msg] else [])
      in if ca_refresh_every t > 0 \<and> el > 0 \<and> el \<noteq> cl_last_refresh l \<and> el smod ca_refresh_every t = 0
         then (alive @ [refresh_msg], png, l\<lparr>cl_last_refresh := el\<rparr>) else (alive, png, l))"

fun capture_ticks ::
  "'s net \<Rightarrow> capture_args \<Rightarrow> int list \<Rightarrow> capture_loop \<Rightarrow> bytes list \<times> ('s, capture) cim \<Rightarrow> (bytes list \<times> ('s, capture) cim) option" where
  "capture_ticks N t [] l s = Some s"
| "capture_ticks N t (el # els) l (arrivals, c) =
     (let (now, later) = (case arrivals of [] \<Rightarrow> ([], []) | a # as \<Rightarrow> (a, as)); c = cap_feed now c
      in if \<not> t_connected c then Some (later, c)
         else (let (ms, png, l) = capture_tick t el (fb_w (cs_fb (sink c))) l
               in case capture_say N ms (later, c) of None \<Rightarrow> None | Some s \<Rightarrow> capture_ticks N t els l s))"

definition capture_live :: "'s net \<Rightarrow> capture_args \<Rightarrow> int list \<Rightarrow> bytes list \<Rightarrow> ('s, capture) cim \<Rightarrow> ('s, capture) cim option" where
  "capture_live N t els arrivals c =
     (case capture_say N [refresh_msg] (arrivals, c) of
        None \<Rightarrow> None
      | Some (arrivals, c) \<Rightarrow>
          (case capture_say N (if ca_wake t then wake_messages (fb_w (cs_fb (sink c))) (fb_h (cs_fb (sink c))) else []) (arrivals, c) of
             None \<Rightarrow> None
           | Some s \<Rightarrow>
               (case capture_say N (if ca_wake_keys t then wake_key_messages else []) s of
                  None \<Rightarrow> None
                | Some s \<Rightarrow>
                    map_option (\<lambda>(arrivals, c). telnet_disconnect N (cap_feed (concat arrivals) c))
                      (capture_ticks N t els \<lparr>cl_last_report = - 1, cl_snap = 0, cl_last_refresh = - 1\<rparr> s))))"

text \<open>The exit code, with the bytes written to the capture file.\<close>

definition capture_main ::
  "'t transport \<Rightarrow> 'r rng \<Rightarrow> 's net \<Rightarrow> nat \<Rightarrow> string option \<Rightarrow> (string \<Rightarrow> string option) \<Rightarrow> (string \<Rightarrow> bool) \<Rightarrow> string list \<Rightarrow>
   int list \<Rightarrow> bytes list \<Rightarrow> 't \<times> 'r \<Rightarrow> 's \<Rightarrow> (int \<times> (string \<times> bytes) option) option" where
  "capture_main TP rng N fuel env files can_write argv els arrivals w net =
     (case capture_prepare TP rng fuel env files argv w of
        None \<Rightarrow> None
      | Some (Inl ec) \<Rightarrow> Some (ec, None)
      | Some (Inr (t, p)) \<Rightarrow>
          (let c = cim_new net capture_new;
               c = (case p_keys p of None \<Rightarrow> c | Some (kb, kc, index) \<Rightarrow> setup_encryption kc index (setup_decryption kb c))
           in case cim_connect N (ca_host t) (p_login p) (p_port p) c of
                None \<Rightarrow> None
              | Some (False, c) \<Rightarrow> Some (1, None)
              | Some (True, c) \<Rightarrow>
                  map_option (\<lambda>c. (if cs_raw (sink c) = [] then 1 else 0, if can_write (ca_out t) then Some (ca_out t, cs_raw (sink c)) else None))
                    (capture_live N t els arrivals c)))"

section \<open>tls_get\<close>

record get_args =
  ga_path :: string
  ga_cookie :: string
  ga_port :: u16
  ga_head :: bool
  ga_http10 :: bool
  ga_out :: string

definition get_args_new :: get_args where
  "get_args_new = \<lparr>ga_path = ''/'', ga_cookie = '''', ga_port = 443, ga_head = False, ga_http10 = False, ga_out = ''''\<rparr>"

definition get_plain :: "string \<Rightarrow> get_args \<Rightarrow> get_args" where
  "get_plain a g =
     (if a = ''--head'' then g\<lparr>ga_head := True\<rparr> else if a = ''--http10'' then g\<lparr>ga_http10 := True\<rparr>
      else if a \<noteq> [] \<and> hd a \<noteq> CHR ''-'' then g\<lparr>ga_path := a\<rparr> else g)"

fun get_parse :: "string list \<Rightarrow> get_args \<Rightarrow> get_args" where
  "get_parse [] g = g"
| "get_parse [a] g = get_plain a g"
| "get_parse (a # b # r) g =
     (if a = ''--port'' then get_parse r (g\<lparr>ga_port := word_of_int (atoi b)\<rparr>)
      else if a = ''--cookie'' then get_parse r (g\<lparr>ga_cookie := b\<rparr>)
      else if a = ''--out'' then get_parse r (g\<lparr>ga_out := b\<rparr>)
      else get_parse (b # r) (get_plain a g))"

definition get_request :: "string \<Rightarrow> get_args \<Rightarrow> string" where
  "get_request host g =
     (if ga_head g then ''HEAD '' else ''GET '') @ ga_path g @ (if ga_http10 g then '' HTTP/1.0'' else '' HTTP/1.1'') @ crlf @
     ''Host: '' @ host @ crlf @ ''User-Agent: ilo2-console/1.0'' @ crlf @ ''Accept: */*'' @ crlf @
     (if ga_cookie g \<noteq> [] then ''Cookie: '' @ ga_cookie g @ crlf else '''') @ ''Connection: close'' @ crlf @ crlf"

text \<open>Whatever ends the stream, what has arrived is kept.\<close>

fun get_collect :: "'t transport \<Rightarrow> nat \<Rightarrow> nat \<Rightarrow> string \<Rightarrow> (string, 't, 'r) action" where
  "get_collect TP fuel 0 raw c = (Stuck, c)"
| "get_collect TP fuel (Suc n) raw c =
     (case client_recv TP fuel c of
        (Got (Inr (ended, e)), c) \<Rightarrow> (Got raw, c)
      | (Got (Inl piece), c) \<Rightarrow> get_collect TP fuel n (raw @ chars piece) c
      | (Error e, c) \<Rightarrow> (Error e, c)
      | (Stuck, c) \<Rightarrow> (Stuck, c)
      | (Crash, c) \<Rightarrow> (Crash, c))"

record get_result =
  gr_code :: int
  gr_headers :: string
  gr_body :: string
  gr_file :: "(string \<times> string) option"

definition get_failed :: "int \<Rightarrow> get_result" where
  "get_failed ec = \<lparr>gr_code = ec, gr_headers = '''', gr_body = '''', gr_file = None\<rparr>"

text \<open>What is made of the response; \<open>None\<close> is \<open>dechunk\<close> without end.\<close>

definition get_present :: "nat \<Rightarrow> (string \<Rightarrow> bool) \<Rightarrow> get_args \<Rightarrow> string \<Rightarrow> get_result option" where
  "get_present fuel can_write g raw =
     (case find_str (crlf @ crlf) raw of
        None \<Rightarrow> Some \<lparr>gr_code = 0, gr_headers = '''', gr_body = raw, gr_file = None\<rparr>
      | Some split \<Rightarrow>
          (let headers = take split raw; b = drop (split + 4) raw
           in map_option (\<lambda>b.
                if ga_out g = [] then \<lparr>gr_code = 0, gr_headers = headers, gr_body = b, gr_file = None\<rparr>
                else if \<not> can_write (ga_out g) then \<lparr>gr_code = 1, gr_headers = headers, gr_body = b, gr_file = None\<rparr>
                else \<lparr>gr_code = 0, gr_headers = headers, gr_body = b, gr_file = Some (ga_out g, b)\<rparr>)
                (if is_chunked headers
                 then (case dechunk fuel b [] of None \<Rightarrow> None | Some (True, decoded) \<Rightarrow> Some decoded | Some (False, _) \<Rightarrow> Some b)
                 else Some b)))"

definition get_main :: "'t transport \<Rightarrow> 'r rng \<Rightarrow> nat \<Rightarrow> (string \<Rightarrow> bool) \<Rightarrow> string list \<Rightarrow> 't \<times> 'r \<Rightarrow> get_result option" where
  "get_main TP rng fuel can_write argv w =
     (case argv of
        [] \<Rightarrow> Some (get_failed 2)
      | host # rest \<Rightarrow>
          (let g = get_parse rest get_args_new
           in case fst (andthen (client_connect TP rng fuel host (ga_port g)) (\<lambda>_.
                    andthen (client_send TP (ascii (get_request host g))) (\<lambda>_. get_collect TP fuel fuel []))
                  (client_new VERSION_TLS_1_0 15000 0 (fst w) (snd w))) of
                Got raw \<Rightarrow> get_present fuel can_write g raw
              | Error e \<Rightarrow> Some (get_failed 1)
              | Stuck \<Rightarrow> None
              | Crash \<Rightarrow> None))"

section \<open>console_probe\<close>

record probe_args =
  pa_host :: string
  pa_replay :: string
  pa_pass :: string
  pa_png :: string
  pa_user :: string
  pa_seconds :: int
  pa_refresh_every :: int

definition probe_args_new :: probe_args where
  "probe_args_new = \<lparr>pa_host = '''', pa_replay = '''', pa_pass = '''', pa_png = ''build/console_probe'', pa_user = ''Administrator'',
     pa_seconds = 10, pa_refresh_every = 0\<rparr>"

definition probe_takes :: "string \<Rightarrow> bool" where
  "probe_takes a \<longleftrightarrow> a \<in> set [''--host'', ''--replay'', ''--user'', ''--pass'', ''--seconds'', ''--refresh-every'', ''--png'']"

definition probe_option :: "string \<Rightarrow> string \<Rightarrow> probe_args \<Rightarrow> probe_args" where
  "probe_option a v p =
     (if a = ''--host'' then p\<lparr>pa_host := v\<rparr> else if a = ''--replay'' then p\<lparr>pa_replay := v\<rparr>
      else if a = ''--user'' then p\<lparr>pa_user := v\<rparr> else if a = ''--pass'' then p\<lparr>pa_pass := v\<rparr>
      else if a = ''--seconds'' then p\<lparr>pa_seconds := atoi v\<rparr>
      else if a = ''--refresh-every'' then p\<lparr>pa_refresh_every := atoi v\<rparr> else p\<lparr>pa_png := v\<rparr>)"

record probe_counts =
  pc_pulls :: nat
  pc_frames :: nat
  pc_rects :: nat
  pc_area :: u64

definition count_pull :: "bool \<Rightarrow> view \<Rightarrow> probe_counts \<Rightarrow> probe_counts" where
  "count_pull got v n =
     (let n = (if got then n\<lparr>pc_frames := pc_frames n + 1, pc_rects := pc_rects n + length (v_dirty v),
                          pc_area := fold (\<lambda>r a. a + word_of_int (rect_w r) * word_of_int (rect_h r)) (v_dirty v) (pc_area n)\<rparr> else n)
      in n\<lparr>pc_pulls := pc_pulls n + 1\<rparr>)"

text \<open>The polling loop, one turn for each step of the worker that is given, until the deadline.\<close>

fun probe_loop :: "bool \<Rightarrow> (core \<Rightarrow> core) list \<Rightarrow> view \<times> probe_counts \<times> core \<Rightarrow> view \<times> probe_counts \<times> core" where
  "probe_loop replaying [] s = s"
| "probe_loop replaying (work # works) (v, n, s) =
     (let s = work s
      in if c_state s = Failed then (v, n, s)
         else (let (got, v, f) = pull v (fb s); s = s\<lparr>fb := f\<rparr>; n = count_pull got v n
               in if \<not> c_running s \<and> replaying then (v, n, s) else probe_loop replaying works (v, n, s)))"

definition probe_finish :: "view \<times> probe_counts \<times> core \<Rightarrow> int \<times> view \<times> probe_counts \<times> core" where
  "probe_finish = (\<lambda>(v, n, s).
     if c_state s = Failed then (1, v, n, core_stop s)
     else (let (got, v, f) = pull v (fb s) in (0, v, n, core_stop (s\<lparr>fb := f\<rparr>))))"

definition view_none :: view where
  "view_none = \<lparr>v_dest = [], v_w = 0, v_h = 0, v_dirty = []\<rparr>"

definition probe_main ::
  "(nat \<Rightarrow> int) \<Rightarrow> string option \<Rightarrow> string option \<Rightarrow> (string \<Rightarrow> (nat \<times> bytes) option) \<Rightarrow> string list \<Rightarrow> (bytes \<Rightarrow> (core \<Rightarrow> core) list) \<Rightarrow>
   int \<times> (view \<times> probe_counts \<times> core) option" where
  "probe_main clk env pwfile files argv works =
     (case option_loop probe_takes probe_option (\<lambda>a p. None) argv probe_args_new of
        Inl a \<Rightarrow> (2, None)
      | Inr p \<Rightarrow>
          if pa_host p = [] \<and> pa_replay p = [] then (2, None)
          else if pa_replay p \<noteq> []
          then (case core_start_replay (pa_replay p) (files (pa_replay p)) (core_new clk) of
                  Inl e \<Rightarrow> (1, None)
                | Inr (s, data) \<Rightarrow>
                    (let (ec, r) = probe_finish (probe_loop True (works data) (view_none, \<lparr>pc_pulls = 0, pc_frames = 0, pc_rects = 0, pc_area = 0\<rparr>, s))
                     in (ec, Some r)))
          else (let pw = read_ilo_password env pwfile (pa_pass p)
                in if pw = [] then (2, None)
                   else (case core_start \<lparr>cfg_host = pa_host p, cfg_user = pa_user p, cfg_pass = pw, cfg_https_port = 443,
                                cfg_console_port = 0, cfg_refresh_every = pa_refresh_every p\<rparr> (core_new clk) of
                           Inl e \<Rightarrow> (1, None)
                         | Inr s \<Rightarrow>
                             (let (ec, r) = probe_finish (probe_loop False (works [])
                                (view_none, \<lparr>pc_pulls = 0, pc_frames = 0, pc_rects = 0, pc_area = 0\<rparr>, s))
                              in (ec, Some r)))))"

section \<open>media_server\<close>

record serve_args =
  sv_iso :: string
  sv_towards :: string
  sv_port :: int
  sv_verbose :: bool

definition serve_args_new :: serve_args where
  "serve_args_new = \<lparr>sv_iso = '''', sv_towards = '''', sv_port = 8080, sv_verbose = False\<rparr>"

definition serve_takes :: "string \<Rightarrow> bool" where
  "serve_takes a \<longleftrightarrow> a \<in> set [''--iso'', ''--port'', ''--towards'']"

definition serve_option :: "string \<Rightarrow> string \<Rightarrow> serve_args \<Rightarrow> serve_args" where
  "serve_option a v s =
     (if a = ''--iso'' then s\<lparr>sv_iso := v\<rparr> else if a = ''--port'' then s\<lparr>sv_port := atoi v\<rparr> else s\<lparr>sv_towards := v\<rparr>)"

definition serve_flag :: "string \<Rightarrow> serve_args \<Rightarrow> serve_args option" where
  "serve_flag a s = Some (if a = ''--verbose'' then s\<lparr>sv_verbose := True\<rparr> else s)"

text \<open>
  The exit code with the URL shown; \<open>watch\<close> holds what the server is each time the tool looks, and a tool
  whose server never stops does not end.
\<close>

definition serve_main ::
  "('a, 'k) kernel \<Rightarrow> 'w machine \<Rightarrow> string list \<Rightarrow> (media_server \<Rightarrow> media_server list) \<Rightarrow> 'w \<Rightarrow> 'k \<Rightarrow> (int \<times> string option) option" where
  "serve_main K M argv watch w s =
     (case option_loop serve_takes serve_option serve_flag argv serve_args_new of
        Inl a \<Rightarrow> Some (2, None)
      | Inr a \<Rightarrow>
          if sv_iso a = [] then Some (2, None)
          else (case media_start M (sv_iso a) (word_of_int (sv_port a)) w media_server_new of
                  (Some e, srv) \<Rightarrow> Some (1, None)
                | (None, srv) \<Rightarrow>
                    (let url = (if sv_towards a = [] then None
                                else (let local = fst (local_address_towards K (sv_towards a) 443 4000 s)
                                      in if local = [] then None else Some (media_url local srv)))
                     in if list_all ms_serving (watch srv) then None else Some (0, url))))"

section \<open>What the tools send and return\<close>

text \<open>
  \<open>capture_dvc\<close> types nothing: without the wake options it sends keep-alive and redraw requests only, with
  \<open>--wake\<close> also pointer moves without a button, with \<open>--wake-keys\<close> also Escape and the arrows.
\<close>

lemma tick_messages: "set (fst (capture_tick t el w l)) \<subseteq> {keep_alive_msg, refresh_msg}"
  by (auto simp: capture_tick_def Let_def split: if_splits)

lemma wake_harmless:
  "set (wake_messages w h) \<subseteq> {select_mouse True, refresh_msg} \<union> {input_move x y \<lparr>screen_w = w, screen_h = h, absolute = True\<rparr> |x y. True}"
  "set wake_key_messages \<subseteq> {escape_key, arrow_right, arrow_left, arrow_down, arrow_up, refresh_msg}"
  by (auto simp: wake_messages_def wake_key_messages_def Let_def)

lemma capture_exit_code:
  assumes "capture_main TP rng N fuel env files can_write argv els arrivals w net = Some (ec, file)"
  shows "ec \<in> {0, 1, 2}" and "file = Some (name, data) \<Longrightarrow> ec = (if data = [] then 1 else 0)"
proof -
  have plan: "capture_plan t = Inl e \<Longrightarrow> e = 2" for t e
    by (auto simp: capture_plan_def split: option.splits if_splits)
  have prepared: "e \<in> {0, 1, 2}" if "capture_prepare TP rng fuel env files argv w = Some (Inl e)" for e
    using that by (auto simp: capture_prepare_def Let_def dest!: plan split: sum.splits if_splits reply.splits)
  show "ec \<in> {0, 1, 2}"
    using assms prepared by (auto simp: capture_main_def Let_def split: option.splits sum.splits prod.splits bool.splits if_splits)
  show "file = Some (name, data) \<Longrightarrow> ec = (if data = [] then 1 else 0)"
    using assms by (auto simp: capture_main_def Let_def split: option.splits sum.splits prod.splits bool.splits if_splits)
qed

text \<open>\<open>tls_get\<close> returns over the socket what it returns over the mock.\<close>

context twin_sessions
begin

lemma coupled_collect: "coupled (get_collect TP fuel n raw :: (string, 't, 'r) action) (get_collect UP fuel n raw)"
proof (induction n arbitrary: raw)
  case (Suc n)
  show ?case
  proof (rule coupledI)
    fix c :: "('t, 'r) client" and d
    assume s: "twin c d"
    obtain rep c1 d1 where r: "client_recv TP fuel c = (rep, c1)" "client_recv UP fuel d = (rep, d1)" "twin c1 d1"
      by (rule coupledE [OF coupled_client_recv s])
    show "fst (get_collect TP fuel (Suc n) raw c) = fst (get_collect UP fuel (Suc n) raw d) \<and>
        twin (snd (get_collect TP fuel (Suc n) raw c)) (snd (get_collect UP fuel (Suc n) raw d))"
      using r coupledD [OF Suc r(3)] by (auto split: reply.split sum.split)
  qed
qed (simp add: coupled_def)

lemma get_main_twin:
  assumes "\<And>port. opens host port 15000 s t"
  shows "get_main TP rng fuel can_write (host # rest) (s, r) = get_main UP rng fuel can_write (host # rest) (t, r)"
proof -
  let ?g = "get_parse rest get_args_new"
  obtain rep c d where r: "client_connect TP rng fuel host (ga_port ?g) (client_new VERSION_TLS_1_0 15000 0 s r) = (rep, c)"
    "client_connect UP rng fuel host (ga_port ?g) (client_new VERSION_TLS_1_0 15000 0 t r) = (rep, d)" "twin c d"
    by (rule connect_coupled [OF assms])
  have "coupled (andthen (client_send TP (ascii (get_request host ?g))) (\<lambda>_. get_collect TP fuel fuel []))
      (andthen (client_send UP (ascii (get_request host ?g))) (\<lambda>_. get_collect UP fuel fuel []))"
    by (intro coupled_andthen coupled_client_send coupled_collect)
  from coupledD [OF this r(3)] r(1,2) show ?thesis
    by (cases rep) (simp_all add: get_main_def Let_def andthen_def [of "client_connect _ _ _ _ _"])
qed

end

theorem tls_get_over_socket:
  assumes K: "stream_laws K d live to_come taken"
    and c: "\<And>port. \<exists>s'. tcp_connect K host port 15000 s = (None, s') \<and> ts_fd s' = d \<and> live (ts_sys s') \<and> taken (ts_sys s') = [] \<and>
      to_come (ts_sys s') = script" and "0 < k"
  shows "get_main (tcp_transport K) rng fuel can_write (host # rest) (s, r) =
    get_main mock_transport rng fuel can_write (host # rest) (mock_server script k, r)"
proof (rule twin_sessions.get_main_twin [OF socket_mock_twins [OF K]])
  fix port
  from c [of port] obtain s' where s: "tcp_connect K host port 15000 s = (None, s')" "ts_fd s' = d" "live (ts_sys s')"
    "taken (ts_sys s') = []" "to_come (ts_sys s') = script" by blast
  from socket_mock_opens [OF K s(1-4) \<open>0 < k\<close>] s(5)
  show "twin_sessions.opens (tcp_transport K) (\<lambda>t. ts_fd t = d \<and> live (ts_sys t)) (\<lambda>t. to_come (ts_sys t)) (\<lambda>t. taken (ts_sys t))
     mock_transport mock_open mock_pending from_client host port 15000 s (mock_server script k)" by simp
qed

end
